(* ===== verification/Prelude.thy ===== *)
theory Prelude
  imports Complex_Main "HOL-Library.Word" "HOL-Library.List_Lexorder" "HOL-Library.Char_ord"
begin

text \<open>
  What the other theories share: the part of Rust's standard library the modelled code uses,
  and the lemmas about it.

  A Rust \<open>str\<close> is its UTF-8 bytes, one \<open>char\<close> per byte, so \<open>len\<close> is \<open>length\<close>, comparison is
  the bytewise lexicographic order of \<open>List_Lexorder\<close>, and a split at an ASCII character is a
  split of the byte list.  The operations that look at whole characters (\<open>trim\<close>,
  \<open>chars\<close>) find the character boundaries in the bytes.  A \<open>BTreeMap\<close> is the list of its
  entries in key order; \<open>usize\<close> is \<open>nat\<close>, with the 64-bit bound written out where the code
  can reach it; a \<open>Result\<close> is a sum with the error on the left.
\<close>

named_theorems text_simps \<open>evaluation of the text operations\<close>

section \<open>Text\<close>

definition starts_with :: "string \<Rightarrow> string \<Rightarrow> bool" where
  "starts_with p s \<longleftrightarrow> take (length p) s = p"

definition strip_prefix :: "string \<Rightarrow> string \<Rightarrow> string option" where
  "strip_prefix p s = (if starts_with p s then Some (drop (length p) s) else None)"

lemma starts_with_append [simp]: "starts_with p (p @ s)"
  by (simp add: starts_with_def)

lemma strip_prefix_append [simp]: "strip_prefix p (p @ s) = Some s"
  by (simp add: strip_prefix_def)

lemma strip_prefix_Some: "strip_prefix p s = Some r \<longleftrightarrow> s = p @ r"
  by (auto simp: strip_prefix_def starts_with_def split: if_splits)
     (metis append_take_drop_id)

text \<open>
  The UTF-8 encodings of the characters with the Unicode property \<open>White_Space\<close>, which
  \<open>char::is_whitespace\<close> and \<open>str::trim\<close> test.
\<close>

definition ws_encodings :: "string list" where
  "ws_encodings =
     [[CHR 0x09], [CHR 0x0A], [CHR 0x0B], [CHR 0x0C], [CHR 0x0D], [CHR 0x20],
      [CHR 0xC2, CHR 0x85], [CHR 0xC2, CHR 0xA0], [CHR 0xE1, CHR 0x9A, CHR 0x80],
      [CHR 0xE2, CHR 0x80, CHR 0x80], [CHR 0xE2, CHR 0x80, CHR 0x81],
      [CHR 0xE2, CHR 0x80, CHR 0x82], [CHR 0xE2, CHR 0x80, CHR 0x83],
      [CHR 0xE2, CHR 0x80, CHR 0x84], [CHR 0xE2, CHR 0x80, CHR 0x85],
      [CHR 0xE2, CHR 0x80, CHR 0x86], [CHR 0xE2, CHR 0x80, CHR 0x87],
      [CHR 0xE2, CHR 0x80, CHR 0x88], [CHR 0xE2, CHR 0x80, CHR 0x89],
      [CHR 0xE2, CHR 0x80, CHR 0x8A], [CHR 0xE2, CHR 0x80, CHR 0xA8],
      [CHR 0xE2, CHR 0x80, CHR 0xA9], [CHR 0xE2, CHR 0x80, CHR 0xAF],
      [CHR 0xE2, CHR 0x81, CHR 0x9F], [CHR 0xE3, CHR 0x80, CHR 0x80]]"

subsection \<open>Characters\<close>

text \<open>
  A byte \<open>10xxxxxx\<close> continues a character.  \<open>utf8_chars\<close> is \<open>str::chars\<close>, each character
  given by its bytes; \<open>char_count\<close> is \<open>chars().count()\<close>.
\<close>

definition is_cont :: "char \<Rightarrow> bool" where
  "is_cont c \<longleftrightarrow> (of_char c :: nat) div 64 = 2"

definition is_ascii :: "char \<Rightarrow> bool" where
  "is_ascii c \<longleftrightarrow> (of_char c :: nat) < 128"

function utf8_chars :: "string \<Rightarrow> string list" where
  "utf8_chars [] = []"
| "utf8_chars (c # s) =
     (if is_ascii c then [c] # utf8_chars s
      else (c # takeWhile is_cont s) # utf8_chars (dropWhile is_cont s))"
  by pat_completeness auto
termination utf8_chars
  by (relation "measure length") (auto simp: le_imp_less_Suc length_dropWhile_le)

definition char_count :: "string \<Rightarrow> nat" where
  "char_count s = length (utf8_chars s)"

lemma concat_utf8_chars [simp]: "concat (utf8_chars s) = s"
  by (induction s rule: utf8_chars.induct) auto

lemma utf8_chars_nonempty: "w \<in> set (utf8_chars s) \<Longrightarrow> w \<noteq> []"
  by (induction s rule: utf8_chars.induct) (auto split: if_splits)

lemma utf8_chars_Nil_iff [simp]: "utf8_chars s = [] \<longleftrightarrow> s = []"
  by (cases s) auto

text \<open>The characters of a run of a text's characters are those characters.\<close>

lemma utf8_chars_drop: "utf8_chars (concat (drop n (utf8_chars s))) = drop n (utf8_chars s)"
proof (induction s arbitrary: n rule: utf8_chars.induct)
  case (2 c s)
  show ?case
  proof (cases n)
    case 0
    then show ?thesis by (simp only: drop_0 concat_utf8_chars)
  next
    case (Suc m)
    then show ?thesis using 2 by simp
  qed
qed simp

lemma hd_concat_take:
  assumes "concat (take n (utf8_chars t)) \<noteq> []"
  shows "hd (concat (take n (utf8_chars t))) = hd t \<and> t \<noteq> []"
proof -
  have "t = concat (take n (utf8_chars t)) @ concat (drop n (utf8_chars t))"
    by (metis append_take_drop_id concat_append concat_utf8_chars)
  then show ?thesis using assms by (metis Nil_is_append_conv hd_append2)
qed

lemma while_append_stop:
  assumes "\<forall>x \<in> set a. P x" and "b = [] \<or> \<not> P (hd b)"
  shows "takeWhile P (a @ b) = a" and "dropWhile P (a @ b) = b"
  using assms by (cases b; simp add: takeWhile_append dropWhile_append)+

lemma utf8_chars_take: "utf8_chars (concat (take n (utf8_chars s))) = take n (utf8_chars s)"
proof (induction s arbitrary: n rule: utf8_chars.induct)
  case (2 c s)
  show ?case
  proof (cases n)
    case (Suc m)
    show ?thesis
    proof (cases "is_ascii c")
      case False
      let ?X = "concat (take m (utf8_chars (dropWhile is_cont s)))"
      have "?X = [] \<or> \<not> is_cont (hd ?X)"
        using hd_concat_take [of m "dropWhile is_cont s"] hd_dropWhile [of is_cont s] by metis
      then have "takeWhile is_cont (takeWhile is_cont s @ ?X) = takeWhile is_cont s"
        "dropWhile is_cont (takeWhile is_cont s @ ?X) = ?X"
        using while_append_stop [of "takeWhile is_cont s" is_cont ?X] set_takeWhileD by metis+
      then show ?thesis using 2 Suc False by simp
    qed (use 2 Suc in simp)
  qed simp
qed simp

subsection \<open>Trimming\<close>

definition is_ws_char :: "string \<Rightarrow> bool" where
  "is_ws_char w \<longleftrightarrow> w \<in> set ws_encodings"

definition trim_start :: "string \<Rightarrow> string" where
  "trim_start s = concat (dropWhile is_ws_char (utf8_chars s))"

definition trim_end :: "string \<Rightarrow> string" where
  "trim_end s = concat (rev (dropWhile is_ws_char (rev (utf8_chars s))))"

definition trim :: "string \<Rightarrow> string" where
  "trim s = trim_end (trim_start s)"

lemma utf8_chars_trim_start [simp]:
  "utf8_chars (trim_start s) = dropWhile is_ws_char (utf8_chars s)"
  by (simp add: trim_start_def dropWhile_eq_drop utf8_chars_drop)

lemma utf8_chars_trim_end [simp]:
  "utf8_chars (trim_end s) = rev (dropWhile is_ws_char (rev (utf8_chars s)))"
  by (simp add: trim_end_def dropWhile_eq_drop rev_drop utf8_chars_take)

lemma utf8_chars_inject: "utf8_chars s = utf8_chars t \<longleftrightarrow> s = t"
  by (metis concat_utf8_chars)

lemma trim_start_idem [simp]: "trim_start (trim_start s) = trim_start s"
  by (simp flip: utf8_chars_inject)

lemma trim_end_idem [simp]: "trim_end (trim_end s) = trim_end s"
  by (simp flip: utf8_chars_inject)

lemma dropWhile_trim_ends:
  "dropWhile P (rev (dropWhile P (rev (dropWhile P xs)))) = rev (dropWhile P (rev (dropWhile P xs)))"
proof (cases "dropWhile P xs")
  case (Cons y ys)
  then have "\<not> P y" by (metis dropWhile_eq_Cons_conv)
  then have "dropWhile P (rev ys @ [y]) = dropWhile P (rev ys) @ [y]"
    by (simp add: dropWhile_append)
  then show ?thesis using Cons \<open>\<not> P y\<close> by simp
qed (simp only: rev.simps dropWhile.simps)

lemma trim_start_trim [simp]: "trim_start (trim s) = trim s"
  by (simp add: trim_def dropWhile_trim_ends flip: utf8_chars_inject)

lemma trim_end_trim [simp]: "trim_end (trim s) = trim s"
  by (simp add: trim_def)

lemma trim_idem [simp]: "trim (trim s) = trim s"
  by (metis trim_def trim_start_trim trim_end_idem)

lemma trim_Nil [simp]: "trim [] = []"
  by (simp add: trim_def trim_start_def trim_end_def)

text \<open>A text is what is taken off its front, what is left, and what is taken off its back.\<close>

lemma trim_start_split: "concat (takeWhile is_ws_char (utf8_chars s)) @ trim_start s = s"
  by (simp add: trim_start_def flip: concat_append)

lemma trim_end_split:
  "trim_end s @ concat (rev (takeWhile is_ws_char (rev (utf8_chars s)))) = s"
proof -
  have "rev (dropWhile is_ws_char (rev (utf8_chars s))) @ rev (takeWhile is_ws_char (rev (utf8_chars s)))
          = utf8_chars s"
    by (metis rev_append rev_rev_ident takeWhile_dropWhile_id)
  then show ?thesis by (metis trim_end_def concat_append concat_utf8_chars)
qed

lemma take_trim_start: "take (length s - length (trim_start s)) s @ trim_start s = s"
  using trim_start_split [of s] by (metis append_eq_conv_conj length_append add_diff_cancel_right')

lemma drop_trim_end: "trim_end s @ drop (length (trim_end s)) s = s"
  using trim_end_split [of s] by (metis append_eq_conv_conj)

lemma length_trim_start: "length (trim_start s) \<le> length s"
  using trim_start_split [of s] by (metis length_append le_add2)

lemma length_trim_end: "length (trim_end s) \<le> length s"
  using trim_end_split [of s] by (metis length_append le_add1)

lemma length_trim: "length (trim s) \<le> length s"
  unfolding trim_def using length_trim_start length_trim_end le_trans by blast

lemma set_trim_start: "set (trim_start s) \<subseteq> set s"
  using trim_start_split [of s] by (metis set_append Un_upper2)

lemma set_trim_end: "set (trim_end s) \<subseteq> set s"
  using trim_end_split [of s] by (metis set_append Un_upper1)

lemma set_trim: "set (trim s) \<subseteq> set s"
  unfolding trim_def using set_trim_start set_trim_end by blast

text \<open>
  Printable ASCII bytes are in no encoding of a white-space character, so none is trimmed, and
  a text that begins and ends with one trims to itself.
\<close>

definition printable :: "char \<Rightarrow> bool" where
  "printable c \<longleftrightarrow> 33 \<le> (of_char c :: nat) \<and> (of_char c :: nat) \<le> 126"

lemma is_ws_char_bytes: "is_ws_char w \<Longrightarrow> c \<in> set w \<Longrightarrow> \<not> printable c"
  by (auto simp: is_ws_char_def ws_encodings_def printable_def)

lemma trim_keeps: "printable c \<Longrightarrow> c \<in> set (trim s) \<longleftrightarrow> c \<in> set s"
proof -
  assume c: "printable c"
  have *: "c \<notin> set (concat (takeWhile is_ws_char xs))" "c \<notin> set (concat (rev (takeWhile is_ws_char xs)))" for xs
    using c is_ws_char_bytes by (auto dest!: set_takeWhileD)
  have "c \<in> set (trim_start t) \<longleftrightarrow> c \<in> set t" for t
    using * trim_start_split [of t] by (metis Un_iff set_append)
  moreover have "c \<in> set (trim_end t) \<longleftrightarrow> c \<in> set t" for t
    using * trim_end_split [of t] by (metis Un_iff set_append)
  ultimately show ?thesis by (simp add: trim_def)
qed

lemma trim_start_printable: "printable (hd s) \<Longrightarrow> trim_start s = s"
proof (cases s)
  case (Cons c r)
  assume "printable (hd s)"
  then have "is_ascii c" "\<not> is_ws_char [c]"
    using Cons is_ws_char_bytes [of "[c]" c] by (auto simp: printable_def is_ascii_def)
  then show ?thesis using Cons by (simp add: trim_start_def)
qed (simp add: trim_start_def)

lemma trim_end_printable: "printable (last s) \<Longrightarrow> trim_end s = s"
proof (cases "s = []")
  case False
  assume p: "printable (last s)"
  obtain ws w where w: "utf8_chars s = ws @ [w]"
    using False by (metis rev_exhaust utf8_chars_Nil_iff)
  then have "w \<noteq> []" using utf8_chars_nonempty [of w s] by simp
  then have "last s = last w" using w by (metis concat_utf8_chars concat_append concat.simps last_appendR append_Nil2)
  then have "\<not> is_ws_char w" using p \<open>w \<noteq> []\<close> is_ws_char_bytes by (metis last_in_set)
  then have "rev (dropWhile is_ws_char (rev (utf8_chars s))) = utf8_chars s" using w by simp
  then show ?thesis by (simp add: trim_end_def)
qed (simp add: trim_end_def)

lemma trim_printable [text_simps]:
  assumes "printable (hd s)" and "printable (last s)"
  shows "trim s = s"
  using assms by (simp add: trim_def trim_start_printable trim_end_printable)

lemma trim_space [simp]: "trim (CHR '' '' # s) = trim s"
  by (simp add: trim_def trim_start_def is_ascii_def is_ws_char_def ws_encodings_def)

text \<open>Only white space trims to nothing.\<close>

lemma trim_empty: "trim s = [] \<longleftrightarrow> (\<forall>w \<in> set (utf8_chars s). is_ws_char w)"
proof -
  have "trim s = [] \<longleftrightarrow> dropWhile is_ws_char (rev (dropWhile is_ws_char (utf8_chars s))) = []"
    by (simp add: trim_def flip: utf8_chars_Nil_iff)
  also have "\<dots> \<longleftrightarrow> (\<forall>w \<in> set (dropWhile is_ws_char (utf8_chars s)). is_ws_char w)"
    by (simp add: dropWhile_eq_Nil_conv)
  also have "\<dots> \<longleftrightarrow> (\<forall>w \<in> set (utf8_chars s). is_ws_char w)"
  proof (cases "dropWhile is_ws_char (utf8_chars s)")
    case (Cons w ws)
    then have "\<not> is_ws_char w" "w \<in> set (utf8_chars s)"
      by (metis dropWhile_eq_Cons_conv, metis list.set_intros(1) set_dropWhileD)
    then show ?thesis using Cons by auto
  next
    case Nil
    then show ?thesis by (simp only: Nil list.set) (metis Nil dropWhile_eq_Nil_conv empty_iff)
  qed
  finally show ?thesis .
qed

lemma trim_end_append:
  assumes "trim t \<noteq> []" and "utf8_chars (s @ t) = utf8_chars s @ utf8_chars t"
  shows "trim_end (s @ t) = s @ trim_end t"
proof -
  have "\<exists>w \<in> set (rev (utf8_chars t)). \<not> is_ws_char w" using assms(1) trim_empty by auto
  then have "dropWhile is_ws_char (rev (utf8_chars t) @ rev (utf8_chars s))
               = dropWhile is_ws_char (rev (utf8_chars t)) @ rev (utf8_chars s)"
    by (auto simp: dropWhile_append)
  then show ?thesis using assms(2) by (simp add: trim_end_def)
qed

text \<open>The three parts \<open>trim\<close> cuts a text into, when anything is left of it.\<close>

lemma trim_split:
  assumes "trim s \<noteq> []"
  shows "take (length s - length (trim_start s)) s @ trim s @ drop (length (trim_end s)) s = s"
proof -
  let ?l = "take (length s - length (trim_start s)) s"
  have l: "?l = concat (takeWhile is_ws_char (utf8_chars s))"
    using take_trim_start [of s] trim_start_split [of s] by (metis append_same_eq)
  have "utf8_chars ?l = takeWhile is_ws_char (utf8_chars s)"
    unfolding l by (metis takeWhile_eq_take utf8_chars_take)
  then have "utf8_chars (?l @ trim_start s) = utf8_chars ?l @ utf8_chars (trim_start s)"
    using take_trim_start [of s] by simp
  moreover have "trim (trim_start s) \<noteq> []" using assms by (simp add: trim_def)
  ultimately have "trim_end (?l @ trim_start s) = ?l @ trim s"
    by (simp add: trim_end_append trim_def)
  then have "trim_end s = ?l @ trim s" by (simp only: take_trim_start)
  then show ?thesis using drop_trim_end [of s] by (metis append.assoc)
qed

subsection \<open>Splitting and joining\<close>

fun split_on :: "char \<Rightarrow> string \<Rightarrow> string list" where
  "split_on d [] = [[]]"
| "split_on d (c # s) =
     (if c = d then [] # split_on d s
      else case split_on d s of [] \<Rightarrow> [[c]] | p # ps \<Rightarrow> (c # p) # ps)"

fun join :: "string \<Rightarrow> string list \<Rightarrow> string" where
  "join sep [] = []"
| "join sep [x] = x"
| "join sep (x # y # ys) = x @ sep @ join sep (y # ys)"

fun split_once :: "char \<Rightarrow> string \<Rightarrow> (string \<times> string) option" where
  "split_once d [] = None"
| "split_once d (c # s) =
     (if c = d then Some ([], s)
      else map_option (\<lambda>(a, b). (c # a, b)) (split_once d s))"

lemma split_on_nonempty [simp]: "split_on d s \<noteq> []"
  by (cases s) (auto split: list.splits)

lemma split_on_no_sep: "d \<notin> set s \<Longrightarrow> split_on d s = [s]"
  by (induction s) auto

lemma split_on_append:
  "d \<notin> set a \<Longrightarrow> split_on d (a @ d # s) = a # split_on d s"
  by (induction a) auto

lemma split_on_pieces: "p \<in> set (split_on d s) \<Longrightarrow> d \<notin> set p"
  by (induction s arbitrary: p) (auto split: if_splits list.splits)

lemma split_on_join:
  "xs \<noteq> [] \<Longrightarrow> \<forall>x \<in> set xs. d \<notin> set x \<Longrightarrow> split_on d (join [d] xs) = xs"
  by (induction "[d]" xs rule: join.induct) (auto simp: split_on_no_sep split_on_append)

lemma split_once_Some:
  "split_once d s = Some (a, b) \<longleftrightarrow> s = a @ d # b \<and> d \<notin> set a"
proof (induction s arbitrary: a)
  case (Cons c s)
  show ?case
  proof (cases "c = d")
    case True
    then show ?thesis by (cases a) auto
  next
    case False
    then show ?thesis using Cons.IH by (cases a) auto
  qed
qed simp

lemma split_once_None: "split_once d s = None \<longleftrightarrow> d \<notin> set s"
  by (induction s) auto

fun rsplit_once :: "char \<Rightarrow> string \<Rightarrow> (string \<times> string) option" where
  "rsplit_once d s = map_option (\<lambda>(b, a). (rev a, rev b)) (split_once d (rev s))"

declare rsplit_once.simps [simp del]

lemma rsplit_once_Some:
  "rsplit_once d s = Some (a, b) \<longleftrightarrow> s = a @ d # b \<and> d \<notin> set b"
proof -
  have "rsplit_once d s = Some (a, b) \<longleftrightarrow> split_once d (rev s) = Some (rev b, rev a)"
    by (auto simp: rsplit_once.simps)
  also have "\<dots> \<longleftrightarrow> rev s = rev b @ d # rev a \<and> d \<notin> set b"
    by (simp add: split_once_Some)
  also have "rev s = rev b @ d # rev a \<longleftrightarrow> s = a @ d # b"
    by (metis append.assoc append_Cons append_Nil rev.simps(2) rev_append rev_rev_ident)
  finally show ?thesis .
qed

lemma rsplit_once_None: "rsplit_once d s = None \<longleftrightarrow> d \<notin> set s"
  by (auto simp: rsplit_once.simps split_once_None)

text \<open>\<open>char::is_control\<close>: the characters U+0000 to U+001F and U+007F to U+009F.\<close>

definition is_control_char :: "string \<Rightarrow> bool" where
  "is_control_char w =
     (case w of
        [c] \<Rightarrow> (of_char c :: nat) < 32 \<or> c = CHR 0x7F
      | [c, d] \<Rightarrow> c = CHR 0xC2 \<and> 128 \<le> (of_char d :: nat) \<and> (of_char d :: nat) < 160
      | _ \<Rightarrow> False)"

subsection \<open>Integers in text\<close>

definition is_digit :: "char \<Rightarrow> bool" where
  "is_digit c \<longleftrightarrow> 48 \<le> (of_char c :: nat) \<and> (of_char c :: nat) \<le> 57"

definition digit_value :: "char \<Rightarrow> nat" where
  "digit_value c = of_char c - 48"

definition dec_value :: "string \<Rightarrow> nat" where
  "dec_value ds = foldl (\<lambda>n c. 10 * n + digit_value c) 0 ds"

text \<open>\<open>str::parse\<close> for an unsigned integer type whose greatest value is \<open>m\<close>.\<close>

definition parse_unsigned :: "nat \<Rightarrow> string \<Rightarrow> nat option" where
  "parse_unsigned m s =
     (let ds = (case strip_prefix ''+'' s of None \<Rightarrow> s | Some r \<Rightarrow> r) in
      if ds = [] \<or> \<not> list_all is_digit ds then None
      else if dec_value ds \<le> m then Some (dec_value ds) else None)"

definition usize_max :: nat where "usize_max = 18446744073709551615"  \<comment> \<open>\<open>2^64 - 1\<close>\<close>
definition u32_max :: nat where "u32_max = 4294967295"  \<comment> \<open>\<open>2^32 - 1\<close>\<close>

lemma parse_unsigned_bound: "parse_unsigned m s = Some n \<Longrightarrow> n \<le> m"
  by (auto simp: parse_unsigned_def Let_def split: if_splits)

text \<open>\<open>to_string\<close> of an unsigned integer, and the digits read back.\<close>

definition digit_char :: "nat \<Rightarrow> char" where
  "digit_char d = char_of (48 + d)"

fun show_nat :: "nat \<Rightarrow> string" where
  "show_nat n = (if n < 10 then [digit_char n] else show_nat (n div 10) @ [digit_char (n mod 10)])"

declare show_nat.simps [simp del]

lemma digit_char [simp]:
  assumes "d < 10"
  shows "is_digit (digit_char d)" and "digit_value (digit_char d) = d"
proof -
  have "(of_char (digit_char d) :: nat) = 48 + d"
    using assms by (simp add: digit_char_def)
  then show "is_digit (digit_char d)" and "digit_value (digit_char d) = d"
    using assms by (simp_all add: is_digit_def digit_value_def)
qed

lemma show_nat_digits: "show_nat n \<noteq> [] \<and> list_all is_digit (show_nat n)"
  by (induction n rule: show_nat.induct) (subst (1 2) show_nat.simps, simp)

lemma dec_value_snoc: "dec_value (ds @ [c]) = 10 * dec_value ds + digit_value c"
  by (simp add: dec_value_def)

lemma dec_value_show_nat [simp]: "dec_value (show_nat n) = n"
proof (induction n rule: show_nat.induct)
  case (1 n)
  show ?case
  proof (cases "n < 10")
    case True
    then show ?thesis by (subst show_nat.simps) (simp add: dec_value_def)
  next
    case False
    then show ?thesis by (subst show_nat.simps) (simp add: dec_value_snoc 1)
  qed
qed

lemma is_digit_printable: "is_digit c \<Longrightarrow> printable c"
  by (auto simp: is_digit_def printable_def)

lemma parse_unsigned_show_nat:
  assumes "n \<le> m"
  shows "parse_unsigned m (show_nat n) = Some n"
proof -
  obtain c cs where c: "show_nat n = c # cs" "is_digit c"
    using show_nat_digits [of n] by (cases "show_nat n") auto
  then have "c \<noteq> CHR ''+''" by (auto simp: is_digit_def)
  then have "strip_prefix ''+'' (show_nat n) = None" using c by (simp add: strip_prefix_def starts_with_def)
  then show ?thesis using assms show_nat_digits [of n] by (auto simp: parse_unsigned_def)
qed

lemma trim_show_nat [simp]: "trim (show_nat n) = show_nat n"
  using show_nat_digits [of n]
  by (intro trim_printable is_digit_printable) (auto simp: list_all_iff)

section \<open>Results, options and iterators\<close>

lemma map_filter_set: "set (List.map_filter f xs) = {y. \<exists>x \<in> set xs. f x = Some y}"
  by (induction xs) (auto split: option.splits)

text \<open>
  A computation that may panic has type \<open>('e + 'a) option\<close>: \<open>None\<close> is the panic,
  \<open>Some (Inl e)\<close> the \<open>Err\<close> and \<open>Some (Inr x)\<close> the \<open>Ok\<close>.  \<open>try_then\<close> is the \<open>?\<close> operator.
\<close>

definition try_then :: "('e + 'a) option \<Rightarrow> ('a \<Rightarrow> ('e + 'b) option) \<Rightarrow> ('e + 'b) option" where
  "try_then r f = (case r of None \<Rightarrow> None | Some (Inl e) \<Rightarrow> Some (Inl e) | Some (Inr x) \<Rightarrow> f x)"

lemma try_then_simps [simp]:
  "try_then None f = None"
  "try_then (Some (Inl e)) f = Some (Inl e)"
  "try_then (Some (Inr x)) f = f x"
  by (simp_all add: try_then_def)

definition ok_then :: "'e + 'a \<Rightarrow> ('a \<Rightarrow> 'e + 'b) \<Rightarrow> 'e + 'b" where
  "ok_then r f = (case r of Inl e \<Rightarrow> Inl e | Inr x \<Rightarrow> f x)"

lemma ok_then_simps [simp]:
  "ok_then (Inl e) f = Inl e"
  "ok_then (Inr x) f = f x"
  by (simp_all add: ok_then_def)

lemma ok_then_Inr: "ok_then r f = Inr y \<longleftrightarrow> (\<exists>x. r = Inr x \<and> f x = Inr y)"
  by (cases r) auto

lemma ok_then_InrE:
  assumes "ok_then r f = Inr y" obtains x where "r = Inr x" "f x = Inr y"
  using assms by (auto simp: ok_then_Inr)

lemma ok_then_cong [fundef_cong]:
  "r = r' \<Longrightarrow> (\<And>x. r' = Inr x \<Longrightarrow> f x = g x) \<Longrightarrow> ok_then r f = ok_then r' g"
  by (cases r') auto

text \<open>Checks that are only refused or passed, in the order the code makes them.\<close>

definition refuse_when :: "bool \<Rightarrow> 'e \<Rightarrow> 'e + unit" where
  "refuse_when b e = (if b then Inl e else Inr ())"

fun check_all :: "('a \<Rightarrow> 'e + unit) \<Rightarrow> 'a list \<Rightarrow> 'e + unit" where
  "check_all f [] = Inr ()"
| "check_all f (x # xs) = ok_then (f x) (\<lambda>_. check_all f xs)"

lemma refuse_when_Inr [simp]: "refuse_when b e = Inr u \<longleftrightarrow> \<not> b"
  by (simp add: refuse_when_def)

lemma refuse_when_Inl [simp]: "refuse_when b e = Inl d \<longleftrightarrow> b \<and> d = e"
  by (auto simp: refuse_when_def)

lemma check_all_Inr: "check_all f xs = Inr u \<longleftrightarrow> (\<forall>x \<in> set xs. f x = Inr ())"
  by (induction xs) (auto simp: ok_then_Inr)

lemma find_SomeD: "find p xs = Some x \<Longrightarrow> x \<in> set xs \<and> p x"
  by (auto simp: find_Some_iff)

fun list_of :: "'a option \<Rightarrow> 'a list" where
  "list_of None = []"
| "list_of (Some x) = [x]"

lemma set_list_of [simp]: "x \<in> set (list_of v) \<longleftrightarrow> v = Some x"
  by (cases v) auto

text \<open>\<open>Iterator::position\<close>: the index of the first element that passes.\<close>

fun position :: "('a \<Rightarrow> bool) \<Rightarrow> 'a list \<Rightarrow> nat option" where
  "position p [] = None"
| "position p (x # xs) = (if p x then Some 0 else map_option Suc (position p xs))"

lemma position_Some:
  "position p xs = Some i \<longleftrightarrow> i < length xs \<and> p (xs ! i) \<and> (\<forall>j < i. \<not> p (xs ! j))"
proof (induction xs arbitrary: i)
  case (Cons x xs)
  show ?case
  proof (cases i)
    case (Suc k)
    then show ?thesis using Cons.IH [of k] by (auto simp: less_Suc_eq_0_disj)
  qed auto
qed simp

lemma position_None: "position p xs = None \<longleftrightarrow> (\<forall>x \<in> set xs. \<not> p x)"
  by (induction xs) auto

section \<open>Ordered maps\<close>

text \<open>
  The interface of \<open>BTreeMap\<close> the code relies on: a lookup after an insertion or a removal,
  and iteration in ascending key order.
\<close>

type_synonym ('k, 'v) btree = "('k \<times> 'v) list"

locale ordered_map =
  fixes get :: "'m \<Rightarrow> 'k::linorder \<Rightarrow> 'v option"
    and insert_at :: "'k \<Rightarrow> 'v \<Rightarrow> 'm \<Rightarrow> 'm"
    and remove_at :: "'k \<Rightarrow> 'm \<Rightarrow> 'm"
    and entries :: "'m \<Rightarrow> ('k \<times> 'v) list"
    and ok :: "'m \<Rightarrow> bool"
  assumes get_insert: "ok m \<Longrightarrow> get (insert_at k v m) = (get m)(k \<mapsto> v)"
    and get_remove: "ok m \<Longrightarrow> get (remove_at k m) = (get m)(k := None)"
    and ok_insert: "ok m \<Longrightarrow> ok (insert_at k v m)"
    and ok_remove: "ok m \<Longrightarrow> ok (remove_at k m)"
    and entries_sorted: "ok m \<Longrightarrow> sorted_wrt (<) (map fst (entries m))"
    and entries_get: "ok m \<Longrightarrow> (k, v) \<in> set (entries m) \<longleftrightarrow> get m k = Some v"
begin

lemma entries_keys: "ok m \<Longrightarrow> fst ` set (entries m) = dom (get m)"
  using entries_get by (force simp: dom_def image_iff)

lemma insert_twice: "ok m \<Longrightarrow> get (insert_at k v (insert_at k w m)) = get (insert_at k v m)"
  by (simp add: get_insert ok_insert)

lemma entries_unique:
  assumes "ok m" "ok n" "get m = get n"
  shows "entries m = entries n"
proof -
  have "set (entries m) = set (entries n)" using assms entries_get by auto
  moreover have "distinct (map fst (entries m))" "distinct (map fst (entries n))"
    using assms entries_sorted strict_sorted_iff by blast+
  moreover have "sorted (map fst (entries m))" "sorted (map fst (entries n))"
    using assms entries_sorted strict_sorted_iff by blast+
  ultimately show ?thesis by (intro map_sorted_distinct_set_unique) (auto simp: inj_on_def distinct_map)
qed

end

definition bt_get :: "('k, 'v) btree \<Rightarrow> 'k \<Rightarrow> 'v option" where
  "bt_get m k = map_of m k"

fun bt_insert :: "'k::linorder \<Rightarrow> 'v \<Rightarrow> ('k, 'v) btree \<Rightarrow> ('k, 'v) btree" where
  "bt_insert k v [] = [(k, v)]"
| "bt_insert k v ((a, b) # m) =
     (if k < a then (k, v) # (a, b) # m
      else if k = a then (k, v) # m
      else (a, b) # bt_insert k v m)"

definition bt_remove :: "'k \<Rightarrow> ('k, 'v) btree \<Rightarrow> ('k, 'v) btree" where
  "bt_remove k m = filter (\<lambda>(a, b). a \<noteq> k) m"

definition bt_ok :: "('k::linorder, 'v) btree \<Rightarrow> bool" where
  "bt_ok m \<longleftrightarrow> sorted_wrt (<) (map fst m)"

definition bt_of :: "('k::linorder \<times> 'v) list \<Rightarrow> ('k, 'v) btree" where
  "bt_of kvs = fold (\<lambda>(k, v). bt_insert k v) kvs []"

definition has_key :: "('k, 'v) btree \<Rightarrow> 'k \<Rightarrow> bool" where
  "has_key m k \<longleftrightarrow> bt_get m k \<noteq> None"

lemma keys_bt_insert: "fst ` set (bt_insert k v m) = insert k (fst ` set m)"
  by (induction k v m rule: bt_insert.induct) auto

lemma bt_get_insert [simp]: "bt_get (bt_insert k v m) = (bt_get m)(k \<mapsto> v)"
  if "bt_ok m" for m :: "('k::linorder, 'v) btree"
  using that
proof (induction m)
  case (Cons p m)
  obtain a b where p: "p = (a, b)" by (cases p)
  have m: "bt_ok m" "\<forall>x \<in> fst ` set m. a < x"
    using Cons.prems by (auto simp: bt_ok_def p)
  have IH: "map_of (bt_insert k v m) = (map_of m)(k \<mapsto> v)"
    using Cons.IH [OF m(1)] by (simp add: bt_get_def fun_eq_iff)
  show ?case
    using m(2) by (auto simp: p bt_get_def fun_eq_iff IH)
qed (auto simp: bt_get_def)

lemma bt_get_insert_same [simp]: "bt_get (bt_insert k v m) k = Some v"
  by (induction k v m rule: bt_insert.induct) (auto simp: bt_get_def)

lemma bt_get_insert_other: "k \<noteq> k' \<Longrightarrow> bt_get (bt_insert k v m) k' = bt_get m k'"
  by (induction k v m rule: bt_insert.induct) (auto simp: bt_get_def)

lemma bt_ok_insert [simp]: "bt_ok m \<Longrightarrow> bt_ok (bt_insert k v m)"
proof (induction m)
  case (Cons p m)
  obtain a b where p: "p = (a, b)" by (cases p)
  have m: "bt_ok m" "\<forall>x \<in> fst ` set m. a < x"
    using Cons.prems by (auto simp: bt_ok_def p)
  have "bt_ok (bt_insert k v m)" by (rule Cons.IH [OF m(1)])
  moreover have "k > a \<Longrightarrow> \<forall>x \<in> fst ` set (bt_insert k v m). a < x"
    using m(2) by (simp add: keys_bt_insert)
  ultimately show ?case
    using Cons.prems m(2) by (auto simp: p bt_ok_def less_trans not_less_iff_gr_or_eq)
qed (simp add: bt_ok_def)

lemma bt_get_remove [simp]: "bt_get (bt_remove k m) = (bt_get m)(k := None)"
  by (induction m) (auto simp: bt_get_def bt_remove_def fun_eq_iff)

lemma bt_ok_remove [simp]: "bt_ok m \<Longrightarrow> bt_ok (bt_remove k m)"
  by (induction m) (auto simp: bt_ok_def bt_remove_def)

lemma bt_ok_Nil [simp]: "bt_ok []"
  by (simp add: bt_ok_def)

lemma bt_ok_distinct: "bt_ok m \<Longrightarrow> distinct (map fst m)"
  by (auto simp: bt_ok_def strict_sorted_iff)

lemma bt_ok_of [simp]: "bt_ok (bt_of kvs)"
proof -
  have "bt_ok m \<Longrightarrow> bt_ok (fold (\<lambda>(k, v). bt_insert k v) kvs m)" for m
    by (induction kvs arbitrary: m) auto
  then show ?thesis by (simp add: bt_of_def)
qed

interpretation btm: ordered_map bt_get bt_insert bt_remove "\<lambda>m. m" bt_ok
proof unfold_locales
  fix m :: "('k::linorder \<times> 'v) list" and k v
  assume "bt_ok m"
  then show "(k, v) \<in> set m \<longleftrightarrow> bt_get m k = Some v"
    by (simp add: bt_get_def map_of_eq_Some_iff [OF bt_ok_distinct])
next
  fix m :: "('k::linorder \<times> 'v) list"
  assume "bt_ok m"
  then show "sorted_wrt (<) (map fst m)" by (simp add: bt_ok_def)
qed auto

end
