(* ===== verification/Order_Keys.thy ===== *)
theory Order_Keys
  imports Prelude
begin

text \<open>
  \<open>memory/order.rs\<close>: the keys that hold an order.  A key is a word over 62 digits whose order
  is the order of the keys' bytes; a new key is minted strictly between two neighbours, and a
  run of keys is minted by halves.  A panic of the code (an index out of range, a subtraction
  below zero) is \<open>None\<close>; \<open>midpoint_between\<close> shows that none is reached.
\<close>

section \<open>The code\<close>

definition DIGITS :: string where
  "DIGITS = ''0123456789ABCDEFGHIJKLMNOPQRSTUVWXYZabcdefghijklmnopqrstuvwxyz''"

datatype order_error =
    NotAKey string
  | NoRoom string string

definition index :: "char \<Rightarrow> nat" where
  "index c = (case position (\<lambda>d. d = c) DIGITS of Some i \<Rightarrow> i | None \<Rightarrow> 0)"

definition is_a_key :: "string \<Rightarrow> bool" where
  "is_a_key key \<longleftrightarrow>
     key \<noteq> [] \<and> list_all (\<lambda>b. b \<in> set DIGITS) key \<and> last key \<noteq> CHR ''0''"

text \<open>The loop that counts the digits \<open>b\<close> shares with \<open>a\<close>, read as padded by zeros.\<close>

fun shared_digits :: "string \<Rightarrow> string \<Rightarrow> nat" where
  "shared_digits a [] = 0"
| "shared_digits a (c # b) =
     (if (case a of [] \<Rightarrow> CHR ''0'' | x # _ \<Rightarrow> x) = c then Suc (shared_digits (tl a) b) else 0)"

definition first_index :: "string \<Rightarrow> nat" where
  "first_index a = (case a of [] \<Rightarrow> 0 | c # _ \<Rightarrow> index c)"

lemma index_less [simp]: "index c < 62"
  by (auto simp: index_def position_Some DIGITS_def split: option.splits)

lemma shared_digits_le: "shared_digits a b \<le> length b"
  by (induction a b rule: shared_digits.induct) auto

function midpoint :: "string \<Rightarrow> string option \<Rightarrow> string option" where
  "midpoint a (Some b) =
     (let shared = shared_digits a b in
      if shared > 0 then
        map_option (\<lambda>m. take shared b @ m) (midpoint (drop shared a) (Some (drop shared b)))
      else case b of
        [] \<Rightarrow> None
      | c # rest \<Rightarrow>
          (let low = first_index a; high = index c in
           if high < low then None
           else if high - low > 1 then Some [DIGITS ! ((low + high + 1) div 2)]
           else if rest \<noteq> [] then Some [c]
           else map_option (\<lambda>m. DIGITS ! low # m) (midpoint (drop 1 a) None)))"
| "midpoint a None =
     (let low = first_index a; high = 62 in
      if high - low > 1 then Some [DIGITS ! ((low + high + 1) div 2)]
      else map_option (\<lambda>m. DIGITS ! low # m) (midpoint (drop 1 a) None))"
  by pat_completeness auto
termination midpoint
proof (relation "measures [\<lambda>(a, b). case b of None \<Rightarrow> 0 | Some b \<Rightarrow> Suc (length b),
                           \<lambda>(a, b). length a]", goal_cases)
  case (2 a b x)
  then show ?case using shared_digits_le [of a b] by auto
next
  case (4 a x y)
  then have "a \<noteq> []" by (auto simp: first_index_def)
  then show ?case by simp
qed auto

declare midpoint.simps [simp del]

definition between :: "string option \<Rightarrow> string option \<Rightarrow> (order_error + string) option" where
  "between lower upper =
     (case find (\<lambda>key. \<not> is_a_key key) (list_of lower @ list_of upper) of
        Some key \<Rightarrow> Some (Inl (NotAKey key))
      | None \<Rightarrow>
          (case (lower, upper) of
             (Some l, Some u) \<Rightarrow>
               if l \<ge> u then Some (Inl (NoRoom l u)) else map_option Inr (midpoint l (Some u))
           | _ \<Rightarrow> map_option Inr (midpoint (case lower of None \<Rightarrow> [] | Some l \<Rightarrow> l) upper)))"

fun spread :: "string option \<Rightarrow> string option \<Rightarrow> nat \<Rightarrow> (order_error + string list) option" where
  "spread lower upper count =
     (if count = 0 then Some (Inr [])
      else try_then (between lower upper) (\<lambda>middle.
        let before = count div 2 in
        try_then (spread lower (Some middle) before) (\<lambda>keys.
        try_then (spread (Some middle) upper (count - before - 1)) (\<lambda>more.
          Some (Inr (keys @ [middle] @ more))))))"

declare spread.simps [simp del]

section \<open>Digits\<close>

lemma DIGITS_length [simp]: "length DIGITS = 62"
  by (simp add: DIGITS_def)

lemma DIGITS_ascending: "sorted_wrt (<) DIGITS"
  by (simp add: DIGITS_def less_char_def)

lemma DIGITS_mono: "i < j \<Longrightarrow> j < 62 \<Longrightarrow> DIGITS ! i < DIGITS ! j"
  using sorted_wrt_nth_less [OF DIGITS_ascending, of i j] by simp

lemma DIGITS_nth_zero: "DIGITS ! 0 = CHR ''0''"
  by (simp add: DIGITS_def)

lemma index_DIGITS: "c \<in> set DIGITS \<Longrightarrow> DIGITS ! index c = c"
  by (auto simp: index_def position_Some position_None split: option.splits)

lemma index_mono: "c \<in> set DIGITS \<Longrightarrow> d \<in> set DIGITS \<Longrightarrow> c < d \<Longrightarrow> index c < index d"
  by (metis DIGITS_mono index_DIGITS index_less not_less_iff_gr_or_eq order_less_asym)

lemma DIGITS_index_less: "i < index d \<Longrightarrow> d \<in> set DIGITS \<Longrightarrow> DIGITS ! i < d"
  by (metis DIGITS_mono index_DIGITS index_less)

lemma index_less_DIGITS:
  "index c < i \<Longrightarrow> i < 62 \<Longrightarrow> c \<in> set DIGITS \<Longrightarrow> c < DIGITS ! i"
  by (metis DIGITS_mono index_DIGITS)

lemma index_pos: "c \<in> set DIGITS \<Longrightarrow> c \<noteq> CHR ''0'' \<Longrightarrow> 0 < index c"
  by (metis DIGITS_nth_zero gr0I index_DIGITS)

section \<open>The midpoint lies strictly between\<close>

text \<open>
  A position of the order: a word of digits.  The upper bound of an interval additionally
  does not end in \<open>0\<close>, which is what keeps room below it.
\<close>

definition digits :: "string \<Rightarrow> bool" where
  "digits a \<longleftrightarrow> set a \<subseteq> set DIGITS"

lemma digits_simps [simp]:
  "digits []" "digits (c # a) \<longleftrightarrow> c \<in> set DIGITS \<and> digits a"
  "digits (a @ b) \<longleftrightarrow> digits a \<and> digits b"
  by (auto simp: digits_def)

lemma digits_take_drop [simp]: "digits a \<Longrightarrow> digits (drop n a) \<and> digits (take n a)"
  using set_drop_subset set_take_subset by (force simp: digits_def)

lemma is_a_key_digits: "is_a_key k \<longleftrightarrow> k \<noteq> [] \<and> digits k \<and> last k \<noteq> CHR ''0''"
  by (auto simp: is_a_key_def digits_def list_all_iff)

lemma shared_split:
  assumes "a < b" and "last b \<noteq> CHR ''0''"
  shows "drop (shared_digits a b) b \<noteq> []
       \<and> drop (shared_digits a b) a < drop (shared_digits a b) b
       \<and> shared_digits (drop (shared_digits a b) a) (drop (shared_digits a b) b) = 0
       \<and> (\<forall>m. drop (shared_digits a b) a < m \<longrightarrow> a < take (shared_digits a b) b @ m)
       \<and> (\<forall>m. m < drop (shared_digits a b) b \<longrightarrow> take (shared_digits a b) b @ m < b)"
  using assms
proof (induction b arbitrary: a)
  case (Cons c b)
  show ?case
  proof (cases "(case a of [] \<Rightarrow> CHR ''0'' | x # _ \<Rightarrow> x) = c")
    case True
    have b: "b \<noteq> []" "last b \<noteq> CHR ''0''" "tl a < b"
      using Cons.prems True by (cases a; cases b; auto split: if_splits)+
    from Cons.IH [OF b(3,2)] True show ?thesis
      by (cases a) auto
  next
    case False
    then show ?thesis using Cons.prems by auto
  qed
qed simp

text \<open>The digit minted between two first digits that are not neighbours.\<close>

lemma middle_digit:
  assumes "low + 1 < high" and "high \<le> 62"
  shows "low < (low + high + 1) div (2::nat)" and "(low + high + 1) div 2 < high"
  using assms by linarith+

lemma midpoint_open:
  assumes "digits a"
  shows "\<exists>m. midpoint a None = Some m \<and> is_a_key m \<and> a < m"
  using assms
proof (induction "length a" arbitrary: a rule: less_induct)
  case less
  let ?low = "first_index a" and ?mid = "(first_index a + 62 + 1) div 2"
  have low: "?low < 62" by (cases a) (auto simp: first_index_def)
  show ?case
  proof (cases "62 - ?low > 1")
    case True
    then have mid: "?low < ?mid" "?mid < 62" using middle_digit [of ?low 62] by auto
    then have "is_a_key [DIGITS ! ?mid]"
      using DIGITS_mono [of 0 ?mid] DIGITS_nth_zero by (auto simp: is_a_key_digits)
    moreover have "a < [DIGITS ! ?mid]"
      using mid index_less_DIGITS less.prems by (cases a) (auto simp: first_index_def)
    ultimately show ?thesis using True by (simp add: midpoint.simps Let_def)
  next
    case False
    then obtain c a' where a: "a = c # a'" using low by (cases a) (auto simp: first_index_def)
    then obtain m where "midpoint a' None = Some m" "is_a_key m" "a' < m"
      using less.hyps [of a'] less.prems by auto
    then show ?thesis
      using False a less.prems
      by (auto simp: midpoint.simps(2) [of "c # a'"] Let_def first_index_def index_DIGITS is_a_key_digits)
  qed
qed

lemma midpoint_neighbour:
  assumes "digits a" "digits b" "a < b" "last b \<noteq> CHR ''0''" and s: "shared_digits a b = 0"
  shows "\<exists>m. midpoint a (Some b) = Some m \<and> is_a_key m \<and> a < m \<and> m < b"
proof -
  obtain c rest where b: "b = c # rest" using assms(3) by (cases b) auto
  let ?low = "first_index a" and ?high = "index c"
  let ?mid = "(first_index a + index c + 1) div 2"
  have c: "c \<in> set DIGITS" using assms(2) b by simp
  have low: "?low < ?high"
    using assms s b index_pos [OF c] index_mono [of _ c]
    by (cases a) (auto simp: first_index_def split: if_splits)
  have lt: "DIGITS ! i < c" if "i < ?high" for i using DIGITS_index_less [OF that c] .
  have gt: "a < DIGITS ! i # m" if "?low < i" "i < 62" for i m
    using that index_less_DIGITS assms(1) by (cases a) (auto simp: first_index_def)
  have c0: "c \<noteq> CHR ''0''" using lt [of 0] low DIGITS_nth_zero by auto
  show ?thesis
  proof (cases "?high - ?low > 1")
    case True
    then have mid: "?low < ?mid" "?mid < ?high" using middle_digit [of ?low ?high] index_less [of c] by auto
    then have m62: "?mid < 62" using index_less [of c] by linarith
    have "is_a_key [DIGITS ! ?mid]"
      using mid m62 DIGITS_mono [of 0 ?mid] DIGITS_nth_zero by (auto simp: is_a_key_digits)
    then show ?thesis
      using True b low s gt [OF mid(1) m62] lt [OF mid(2)]
      by (simp add: midpoint.simps Let_def)
  next
    case False
    then have high: "?high = Suc ?low" using low by linarith
    show ?thesis
    proof (cases "rest = []")
      case False
      then obtain d rest' where rest: "rest = d # rest'" by (cases rest) auto
      have "a < [c]" using gt [of ?high "[]"] low index_less [of c] index_DIGITS [OF c] by simp
      then show ?thesis
        using False high b s c c0 rest
        by (auto simp: midpoint.simps Let_def is_a_key_digits)
    next
      case True
      have da: "digits (drop 1 a)" using digits_take_drop [OF assms(1), of 1] by simp
      obtain m where m: "midpoint (drop 1 a) None = Some m" "is_a_key m" "drop 1 a < m"
        using midpoint_open [OF da] by blast
      have lowd: "DIGITS ! ?low \<in> set DIGITS" using low index_less [of c] by (metis DIGITS_length less_trans nth_mem)
      have "a < DIGITS ! ?low # m"
        using m(3) assms(1) by (cases a) (auto simp: first_index_def index_DIGITS)
      then show ?thesis
        using True high b s m lt [of ?low] low lowd
        by (simp add: midpoint.simps(1) [of a "[c]"] Let_def is_a_key_digits)
    qed
  qed
qed

lemma midpoint_between:
  assumes "digits a" "digits b" "a < b" "last b \<noteq> CHR ''0''"
  shows "\<exists>m. midpoint a (Some b) = Some m \<and> is_a_key m \<and> a < m \<and> m < b"
proof (cases "shared_digits a b = 0")
  case True
  then show ?thesis using midpoint_neighbour assms by simp
next
  case False
  let ?n = "shared_digits a b"
  note sp = shared_split [OF assms(3,4)]
  have "last (drop ?n b) \<noteq> CHR ''0''" using sp assms(4) by (simp add: last_drop)
  then obtain m where m: "midpoint (drop ?n a) (Some (drop ?n b)) = Some m" "is_a_key m"
      "drop ?n a < m" "m < drop ?n b"
    using midpoint_neighbour [of "drop ?n a" "drop ?n b"] sp assms by auto
  then have "is_a_key (take ?n b @ m)" using assms(2) by (auto simp: is_a_key_digits)
  then show ?thesis
    using m sp False by (auto simp: midpoint.simps(1) [of a b] Let_def)
qed

section \<open>Minting between two bounds, and spreading a run\<close>

text \<open>
  The interface \<open>spread\<close> needs of the minting operation: between two valid bounds, the lower
  below the upper, it returns a valid key strictly between them.  \<open>lies_in lo k up\<close> reads an
  absent bound as the end of the order.
\<close>

definition lies_in :: "'k::linorder option \<Rightarrow> 'k \<Rightarrow> 'k option \<Rightarrow> bool" where
  "lies_in lo k up \<longleftrightarrow> (\<forall>l. lo = Some l \<longrightarrow> l < k) \<and> (\<forall>u. up = Some u \<longrightarrow> k < u)"

definition bounds :: "('k \<Rightarrow> bool) \<Rightarrow> 'k::linorder option \<Rightarrow> 'k option \<Rightarrow> bool" where
  "bounds ok lo up \<longleftrightarrow> (\<forall>l. lo = Some l \<longrightarrow> ok l) \<and> (\<forall>u. up = Some u \<longrightarrow> ok u)
     \<and> (\<forall>l u. lo = Some l \<longrightarrow> up = Some u \<longrightarrow> l < u)"

locale key_minting =
  fixes mint :: "'k::linorder option \<Rightarrow> 'k option \<Rightarrow> ('e + 'k) option"
    and spread_keys :: "'k option \<Rightarrow> 'k option \<Rightarrow> nat \<Rightarrow> ('e + 'k list) option"
    and ok :: "'k \<Rightarrow> bool"
  assumes mint_lies_in: "bounds ok lo up \<Longrightarrow> \<exists>k. mint lo up = Some (Inr k) \<and> ok k \<and> lies_in lo k up"
    and spread_none: "spread_keys lo up 0 = Some (Inr [])"
    and spread_halves: "0 < n \<Longrightarrow> spread_keys lo up n =
          try_then (mint lo up) (\<lambda>m.
          try_then (spread_keys lo (Some m) (n div 2)) (\<lambda>xs.
          try_then (spread_keys (Some m) up (n - n div 2 - 1)) (\<lambda>ys.
            Some (Inr (xs @ [m] @ ys)))))"
begin

lemma spread_keys_sorted:
  assumes "bounds ok lo up"
  shows "\<exists>ks. spread_keys lo up n = Some (Inr ks) \<and> length ks = n \<and> sorted_wrt (<) ks
            \<and> (\<forall>k \<in> set ks. ok k \<and> lies_in lo k up)"
  using assms
proof (induction n arbitrary: lo up rule: less_induct)
  case (less n)
  show ?case
  proof (cases "n = 0")
    case False
    then have n: "0 < n" "n div 2 < n" "n - n div 2 - 1 < n" by auto
    obtain m where m: "mint lo up = Some (Inr m)" "ok m" "lies_in lo m up"
      using mint_lies_in less.prems by blast
    have b: "bounds ok lo (Some m)" "bounds ok (Some m) up"
      using less.prems m by (auto simp: bounds_def lies_in_def)
    obtain xs where xs: "spread_keys lo (Some m) (n div 2) = Some (Inr xs)"
        "length xs = n div 2" "sorted_wrt (<) xs" "\<forall>k \<in> set xs. ok k \<and> lies_in lo k (Some m)"
      using less.IH [OF n(2) b(1)] by blast
    obtain ys where ys: "spread_keys (Some m) up (n - n div 2 - 1) = Some (Inr ys)"
        "length ys = n - n div 2 - 1" "sorted_wrt (<) ys" "\<forall>k \<in> set ys. ok k \<and> lies_in (Some m) k up"
      using less.IH [OF n(3) b(2)] by blast
    have "sorted_wrt (<) (xs @ [m] @ ys)"
      using xs(3,4) ys(3,4) by (auto simp: sorted_wrt_append lies_in_def intro: less_trans)
    moreover have "\<forall>k \<in> set (xs @ [m] @ ys). ok k \<and> lies_in lo k up"
      using m xs(4) ys(4) by (auto simp: lies_in_def intro: less_trans)
    ultimately show ?thesis
      using n spread_halves [of n lo up] m(1) xs(1,2) ys(1,2) by simp
  qed (simp add: spread_none)
qed

end

lemma between_mints:
  assumes "bounds is_a_key lo up"
  shows "\<exists>k. between lo up = Some (Inr k) \<and> is_a_key k \<and> lies_in lo k up"
proof -
  have find: "find (\<lambda>k. \<not> is_a_key k) (list_of lo @ list_of up) = None"
    using assms by (cases lo; cases up) (auto simp: find_None_iff bounds_def)
  let ?a = "case lo of None \<Rightarrow> [] | Some l \<Rightarrow> l"
  have a: "digits ?a" using assms by (auto simp: bounds_def is_a_key_digits split: option.splits)
  show ?thesis
  proof (cases up)
    case None
    then show ?thesis
      using midpoint_open [OF a] find by (auto simp: between_def lies_in_def split: option.splits)
  next
    case (Some u)
    then have u: "digits u" "last u \<noteq> CHR ''0''" "?a < u"
      using assms by (auto simp: bounds_def is_a_key_digits neq_Nil_conv split: option.splits)
    then show ?thesis
      using midpoint_between [OF a u(1,3,2)] find Some
      by (auto simp: between_def lies_in_def split: option.splits)
  qed
qed

interpretation ok_keys: key_minting between spread is_a_key
proof unfold_locales
  show "spread lo up 0 = Some (Inr [])" for lo up
    by (subst spread.simps) simp
  show "spread lo up n = try_then (between lo up) (\<lambda>m.
          try_then (spread lo (Some m) (n div 2)) (\<lambda>xs.
          try_then (spread (Some m) up (n - n div 2 - 1)) (\<lambda>ys.
            Some (Inr (xs @ [m] @ ys)))))" if "0 < n" for n lo up
    using that by (subst spread.simps) (simp add: Let_def)
qed (rule between_mints)

section \<open>Properties\<close>

text \<open>
  an order key minted between two valid bounds, the lower below the upper, exists (no
  refusal and no panic), is itself a valid key and lies strictly between the bounds.
\<close>

theorem between_strictly_between:
  assumes "is_a_key l" and "is_a_key u" and "l < u"
  shows "\<exists>k. between (Some l) (Some u) = Some (Inr k) \<and> is_a_key k \<and> l < k \<and> k < u"
  using between_mints [of "Some l" "Some u"] assms by (auto simp: bounds_def lies_in_def)

theorem between_strictly_between_witness:
  "\<exists>k. between (Some ''V'') (Some ''V1'') = Some (Inr k) \<and> is_a_key k \<and> ''V'' < k \<and> k < ''V1''"
  by (rule between_strictly_between) (simp_all add: is_a_key_def DIGITS_def)

text \<open>
  \<open>between\<close> never panics, whatever the bounds; it refuses exactly when a bound is not a
  key or the lower bound is not below the upper.
\<close>

theorem between_total:
  "\<exists>r. between lo up = Some r \<and> ((\<exists>k. r = Inr k) \<longleftrightarrow> bounds is_a_key lo up)"
proof (cases "bounds is_a_key lo up")
  case True
  then show ?thesis using between_mints by blast
next
  case False
  then show ?thesis
    by (cases lo; cases up) (auto simp: between_def bounds_def not_less)
qed

text \<open>
  a run of \<open>n\<close> keys spread between two bounds has \<open>n\<close> keys, all valid, strictly
  ascending and strictly between the bounds; either bound may be absent.
\<close>

theorem spread_ascending:
  assumes "bounds is_a_key lo up"
  shows "\<exists>ks. spread lo up n = Some (Inr ks) \<and> length ks = n \<and> sorted_wrt (<) ks
            \<and> (\<forall>k \<in> set ks. is_a_key k \<and> lies_in lo k up)"
  by (rule ok_keys.spread_keys_sorted [OF assms])

theorem spread_ascending_witness:
  "\<exists>ks. spread (Some ''a'') None 5 = Some (Inr ks) \<and> length ks = 5 \<and> sorted_wrt (<) ks
      \<and> (\<forall>k \<in> set ks. is_a_key k \<and> lies_in (Some ''a'') k None)"
  by (rule spread_ascending) (simp add: bounds_def is_a_key_def DIGITS_def)

end
