(* ===== verification/Floats.thy ===== *)
theory Floats
  imports Prelude
begin

text \<open>
  \<open>str::parse::<f64>\<close> of Rust's standard library and the comparisons the code makes on its
  result.  A finite double is the integer it is of units \<open>2^-1074\<close>, the least positive double,
  so every finite double is one integer; the two zeros are one value, which is what \<open>==\<close> and
  \<open><\<close> make of them (the one place where the code compares with \<open>total_cmp\<close> normalises the
  zero first).  Parsing rounds the decimal value to the nearest double, ties to even.
\<close>

datatype f64 =
    Nan
  | Inf bool  \<comment> \<open>\<open>True\<close> for minus infinity\<close>
  | Fin int

fun bit_length :: "nat \<Rightarrow> nat" where
  "bit_length n = (if n = 0 then 0 else Suc (bit_length (n div 2)))"

declare bit_length.simps [simp del]

definition round_half_even :: "nat \<Rightarrow> nat \<Rightarrow> nat" where
  "round_half_even n d =
     (let q = n div d; r = n mod d in
      if 2 * r > d \<or> (2 * r = d \<and> odd q) then q + 1 else q)"

text \<open>The double nearest to \<open>m * 10^e\<close>: 53 significant bits, infinity from \<open>2^1024\<close> on.\<close>

definition round_f64 :: "nat \<Rightarrow> int \<Rightarrow> nat option" where
  "round_f64 m e =
     (let num = m * 10 ^ nat e * 2 ^ 1074;
          den = 10 ^ nat (- e);
          s = bit_length (num div den) - 53;
          k = round_half_even num (den * 2 ^ s) * 2 ^ s
      in if k \<ge> 2 ^ (1024 + 1074) then None else Some k)"

definition ascii_lower :: "char \<Rightarrow> char" where
  "ascii_lower c =
     (if 65 \<le> (of_char c :: nat) \<and> (of_char c :: nat) \<le> 90 then char_of ((of_char c :: nat) + 32)
      else c)"

text \<open>The exponent after the digits: nothing, or \<open>e\<close>, a sign, and digits to the end.\<close>

definition parse_exponent :: "string \<Rightarrow> int option" where
  "parse_exponent s =
     (case s of
        [] \<Rightarrow> Some 0
      | c # r \<Rightarrow>
          if ascii_lower c \<noteq> CHR ''e'' then None
          else (let (neg, ds) = (case r of [] \<Rightarrow> (False, [])
                                 | x # xs \<Rightarrow> if x = CHR ''-'' then (True, xs)
                                             else if x = CHR ''+'' then (False, xs) else (False, r))
                in if ds = [] \<or> \<not> list_all is_digit ds then None
                   else Some (if neg then - int (dec_value ds) else int (dec_value ds))))"

definition parse_decimal :: "string \<Rightarrow> (nat \<times> int) option" where
  "parse_decimal s =
     (let whole = takeWhile is_digit s; r = dropWhile is_digit s;
          (frac, t) = (case r of [] \<Rightarrow> ([], [])
                       | c # r' \<Rightarrow> if c = CHR ''.'' then (takeWhile is_digit r', dropWhile is_digit r')
                                   else ([], r))
      in if whole @ frac = [] then None
         else case parse_exponent t of
                None \<Rightarrow> None
              | Some e \<Rightarrow> Some (dec_value (whole @ frac), e - int (length frac)))"

definition parse_f64 :: "string \<Rightarrow> f64 option" where
  "parse_f64 s =
     (let (neg, r) = (case s of [] \<Rightarrow> (False, [])
                      | c # cs \<Rightarrow> if c = CHR ''-'' then (True, cs)
                                  else if c = CHR ''+'' then (False, cs) else (False, s));
          low = map ascii_lower r
      in if low = ''nan'' then Some Nan
         else if low = ''inf'' \<or> low = ''infinity'' then Some (Inf neg)
         else case parse_decimal r of
                None \<Rightarrow> None
              | Some (m, e) \<Rightarrow>
                  Some (case round_f64 m e of
                          None \<Rightarrow> Inf neg
                        | Some k \<Rightarrow> Fin (if neg then - int k else int k)))"

definition is_finite :: "f64 \<Rightarrow> bool" where
  "is_finite x \<longleftrightarrow> (\<exists>k. x = Fin k)"

lemma is_finite_code [code]:
  "is_finite (Fin k) = True" "is_finite Nan = False" "is_finite (Inf b) = False"
  by (simp_all add: is_finite_def)

text \<open>\<open><\<close> on doubles: false when either side is NaN.\<close>

fun f64_less :: "f64 \<Rightarrow> f64 \<Rightarrow> bool" where
  "f64_less Nan y = False"
| "f64_less x Nan = False"
| "f64_less (Inf a) (Inf b) = (a \<and> \<not> b)"
| "f64_less (Inf a) (Fin k) = a"
| "f64_less (Fin k) (Inf b) = (\<not> b)"
| "f64_less (Fin j) (Fin k) = (j < k)"

lemma f64_less_irrefl [simp]: "\<not> f64_less x x"
  by (cases x) auto

lemma f64_less_trans: "f64_less x y \<Longrightarrow> f64_less y z \<Longrightarrow> f64_less x z"
  by (cases x; cases y; cases z) auto

lemma f64_less_linear: "x \<noteq> Nan \<Longrightarrow> y \<noteq> Nan \<Longrightarrow> x \<noteq> y \<Longrightarrow> f64_less x y \<or> f64_less y x"
  by (cases x; cases y) auto

lemma f64_less_asym: "f64_less x y \<Longrightarrow> \<not> f64_less y x"
  using f64_less_irrefl f64_less_trans by blast

text \<open>An integral value below \<open>2^53\<close> is read exactly.\<close>

lemma bit_length_le: "n < 2 ^ b \<Longrightarrow> bit_length n \<le> b"
proof (induction b arbitrary: n)
  case 0
  then show ?case by (simp add: bit_length.simps)
next
  case (Suc b)
  then have "bit_length (n div 2) \<le> b" by (auto simp: less_mult_imp_div_less)
  then show ?case by (subst bit_length.simps) simp
qed

lemma round_half_even_exact: "0 < d \<Longrightarrow> round_half_even (q * d) d = q"
  by (simp add: round_half_even_def)

lemma round_f64_exact:
  assumes "m < 2 ^ 53"
  shows "round_f64 m 0 = Some (m * 2 ^ 1074)"
proof -
  let ?s = "bit_length (m * 2 ^ 1074) - 53"
  have "m * 2 ^ 1074 < 2 ^ 53 * (2 ^ 1074 :: nat)" using assms by simp
  then have "m * 2 ^ 1074 < (2 ^ 1127 :: nat)" by (simp flip: power_add)
  then have s: "?s \<le> 1074" using bit_length_le [of "m * 2 ^ 1074" 1127] by simp
  have split: "(2::nat) ^ 1074 = 2 ^ (1074 - ?s) * 2 ^ ?s"
    using s by (simp flip: power_add)
  have "round_half_even (m * 2 ^ 1074) (2 ^ ?s) = m * 2 ^ (1074 - ?s)"
    using round_half_even_exact [of "2 ^ ?s" "m * 2 ^ (1074 - ?s)"] split
    by (simp add: mult.assoc)
  then have k: "round_half_even (m * 2 ^ 1074) (2 ^ ?s) * 2 ^ ?s = m * 2 ^ 1074"
    using split by (simp add: mult.assoc)
  have "m * 2 ^ 1074 < (2 ^ 2098 :: nat)"
    using \<open>m * 2 ^ 1074 < (2 ^ 1127 :: nat)\<close> by (rule less_le_trans) (rule power_increasing, auto)
  then have "\<not> m * 2 ^ 1074 \<ge> (2 ^ (1024 + 1074) :: nat)" by simp
  then show ?thesis unfolding round_f64_def Let_def using k by simp
qed

section \<open>Sums and their text\<close>

text \<open>
  Addition rounds the exact sum; \<open>as f64\<close> of an integer rounds the integer.  Both are the
  rounding of a whole number of units.
\<close>

definition round_units :: "int \<Rightarrow> f64" where
  "round_units z =
     (let n = nat \<bar>z\<bar>; s = bit_length n - 53; k = round_half_even n (2 ^ s) * 2 ^ s
      in if k \<ge> 2 ^ (1024 + 1074) then Inf (z < 0) else Fin (if z < 0 then - int k else int k))"

definition f64_of_int :: "int \<Rightarrow> f64" where
  "f64_of_int z = round_units (z * 2 ^ 1074)"

fun f64_add :: "f64 \<Rightarrow> f64 \<Rightarrow> f64" where
  "f64_add Nan y = Nan"
| "f64_add x Nan = Nan"
| "f64_add (Inf a) (Inf b) = (if a = b then Inf a else Nan)"
| "f64_add (Inf a) (Fin k) = Inf a"
| "f64_add (Fin k) (Inf b) = Inf b"
| "f64_add (Fin j) (Fin k) = round_units (j + k)"

text \<open>
  \<open>Display\<close> of a double: the fewest decimal digits that read back as it, the nearest such
  when there are two, written without an exponent.
\<close>

definition decimal_at :: "nat \<Rightarrow> int \<Rightarrow> nat option" where
  "decimal_at n e =
     (let num = n * 10 ^ nat (- e); den = 2 ^ 1074 * 10 ^ nat e;
          m = num div den; r = num mod den;
          down = (round_f64 m e = Some n); up = (round_f64 (m + 1) e = Some n)
      in if up \<and> (\<not> down \<or> 2 * r \<ge> den) then Some (m + 1) else if down then Some m else None)"

definition place_point :: "string \<Rightarrow> int \<Rightarrow> string" where
  "place_point ds e =
     (if e \<ge> 0 then ds @ replicate (nat e) CHR ''0''
      else (let k = nat (- e) in
            if length ds > k then take (length ds - k) ds @ ''.'' @ drop (length ds - k) ds
            else ''0.'' @ replicate (k - length ds) CHR ''0'' @ ds))"

definition f64_text :: "f64 \<Rightarrow> string" where
  "f64_text x =
     (case x of
        Nan \<Rightarrow> ''NaN''
      | Inf neg \<Rightarrow> (if neg then ''-inf'' else ''inf'')
      | Fin k \<Rightarrow>
          if k = 0 then ''0''
          else (case find (\<lambda>e. decimal_at (nat \<bar>k\<bar>) e \<noteq> None) (rev [- 1074 .. 308]) of
                  None \<Rightarrow> []
                | Some e \<Rightarrow> (if k < 0 then ''-'' else [])
                              @ place_point (show_nat (the (decimal_at (nat \<bar>k\<bar>) e))) e))"

section \<open>Signed integers in text\<close>

text \<open>\<open>str::parse\<close> for a signed integer type from \<open>- m - 1\<close> to \<open>m\<close>, and \<open>to_string\<close>.\<close>

definition parse_signed :: "nat \<Rightarrow> string \<Rightarrow> int option" where
  "parse_signed m s =
     (case strip_prefix ''-'' s of
        Some ds \<Rightarrow>
          if ds = [] \<or> \<not> list_all is_digit ds \<or> dec_value ds > m + 1 then None
          else Some (- int (dec_value ds))
      | None \<Rightarrow> map_option int (parse_unsigned m s))"

definition i64_max :: nat where "i64_max = 9223372036854775807"  \<comment> \<open>\<open>2^63 - 1\<close>\<close>

definition show_int :: "int \<Rightarrow> string" where
  "show_int z = (if z < 0 then ''-'' @ show_nat (nat (- z)) else show_nat (nat z))"

lemma parse_signed_show_int:
  assumes "- int m - 1 \<le> z" and "z \<le> int m"
  shows "parse_signed m (show_int z) = Some z"
proof (cases "z < 0")
  case True
  then show ?thesis
    using assms show_nat_digits [of "nat (- z)"]
    by (auto simp: parse_signed_def show_int_def strip_prefix_def starts_with_def)
next
  case False
  obtain c cs where c: "show_nat (nat z) = c # cs" "is_digit c"
    using show_nat_digits [of "nat z"] by (cases "show_nat (nat z)") auto
  then have "c \<noteq> CHR ''-''" by (auto simp: is_digit_def)
  then show ?thesis
    using False assms c parse_unsigned_show_nat [of "nat z" m]
    by (simp add: parse_signed_def show_int_def strip_prefix_def starts_with_def)
qed

end
