(* ===== verification/Vocabulary.thy ===== *)
theory Vocabulary
  imports Prelude Floats
begin

text \<open>
  The words the memory is written in: handles and kinds (\<open>memory.rs\<close>, \<open>memory/kinds.rs\<close>) and
  the declared types of a record's keys (\<open>memory/types.rs\<close>), as far as they do not read an
  expression.

  Two things the code takes from outside \<open>src/\<close> or from the running process are gathered in a
  record \<open>world\<close> that the definitions take as an argument: the civil calendar of the \<open>jiff\<close>
  crate (a date is the number of its day), and the set of kinds the process has loaded.
\<close>

record world =
  date_of_text :: "string \<Rightarrow> int option"            \<comment> \<open>\<open>str::parse::<jiff::civil::Date>\<close>\<close>
  text_of_date :: "int \<Rightarrow> string"                    \<comment> \<open>\<open>Date::to_string\<close>\<close>
  add_days :: "int \<Rightarrow> int \<Rightarrow> int option"             \<comment> \<open>\<open>Date::checked_add\<close> of a span of days\<close>
  iso_week_monday :: "nat \<Rightarrow> nat \<Rightarrow> int option"      \<comment> \<open>\<open>ISOWeekDate::new(year, week, Monday)\<close>\<close>
  loaded :: "string list"                              \<comment> \<open>the loaded kind set, in order\<close>

section \<open>Handles and kinds\<close>

type_synonym entity_id = string
type_synonym fact_id = string
type_synonym kind = string
type_synonym fields = "(string, string) btree"

definition SHIPPED :: "string list" where
  "SHIPPED =
     [''person'', ''project'', ''place'', ''event'', ''work'', ''thing'', ''org'', ''topic'',
      ''bot'', ''pet'', ''rhythm'', ''promise'', ''machine'', ''view'', ''session'', ''thread'',
      ''decision'', ''role'', ''voucher'', ''challenge'', ''document'', ''list'', ''usage'',
      ''trip'', ''bot-request'']"

text \<open>A world for concrete instances: the shipped kinds, and a calendar of two days.\<close>

definition sample_world :: world where
  "sample_world =
     \<lparr>date_of_text = (\<lambda>t. if t = ''2026-01-01'' then Some 0 else if t = ''2026-01-02'' then Some 1 else None),
      text_of_date = (\<lambda>d. if d = 0 then ''2026-01-01'' else ''2026-01-02''),
      add_days = (\<lambda>d n. if d + n = 0 \<or> d + n = 1 then Some (d + n) else None),
      iso_week_monday = (\<lambda>_ _. None),
      loaded = SHIPPED\<rparr>"

definition WORK_STATUSES :: "string list" where
  "WORK_STATUSES = [''someday'', ''next'', ''now'', ''waiting'', ''done'']"

definition FINISHED :: string where "FINISHED = WORK_STATUSES ! 4"
definition STATUS :: string where "STATUS = ''status''"
definition STATUS_WORD :: string where "STATUS_WORD = ''status_word/''"
definition COLUMNS :: string where "COLUMNS = ''columns''"

datatype not_a_kind =
    SetNeverLoaded
  | NotDeclared string "string list"

definition known :: "world \<Rightarrow> string \<Rightarrow> bool" where
  "known W token \<longleftrightarrow> token \<in> set (loaded W)"

definition resolve :: "world \<Rightarrow> string \<Rightarrow> not_a_kind + kind" where
  "resolve W token =
     (if loaded W = [] then Inl SetNeverLoaded
      else if token \<in> set (loaded W) then Inr token
      else Inl (NotDeclared token (loaded W)))"

definition from_token :: "world \<Rightarrow> string \<Rightarrow> kind option" where
  "from_token W token = (case resolve W token of Inl _ \<Rightarrow> None | Inr k \<Rightarrow> Some k)"

definition new_id :: "kind \<Rightarrow> string \<Rightarrow> entity_id" where
  "new_id k slug = k @ '':'' @ trim slug"

definition person_id :: "string \<Rightarrow> entity_id" where
  "person_id handle =
     (let h = trim handle in if CHR '':'' \<in> set h then h else ''person:'' @ h)"

definition entity_kind :: "world \<Rightarrow> entity_id \<Rightarrow> kind option" where
  "entity_kind W i = (case split_once CHR '':'' i of None \<Rightarrow> None | Some (k, _) \<Rightarrow> from_token W k)"

definition kind_token :: "entity_id \<Rightarrow> string" where
  "kind_token i = (case split_once CHR '':'' i of None \<Rightarrow> [] | Some (k, _) \<Rightarrow> k)"

definition slug :: "entity_id \<Rightarrow> string" where
  "slug i = (case split_once CHR '':'' i of None \<Rightarrow> [] | Some (_, s) \<Rightarrow> s)"

definition ordinal :: "fact_id \<Rightarrow> nat option" where
  "ordinal i = Option.bind (strip_prefix ''f'' (trim i)) (parse_unsigned usize_max)"

lemma from_token_Some: "from_token W t = Some k \<longleftrightarrow> k = t \<and> t \<in> set (loaded W)"
  by (auto simp: from_token_def resolve_def)

lemma entity_kind_new_id:
  assumes "k \<in> set (loaded W)" and "CHR '':'' \<notin> set k"
  shows "entity_kind W (new_id k s) = Some k"
proof -
  have "split_once CHR '':'' (new_id k s) = Some (k, trim s)"
    using assms by (simp add: new_id_def split_once_Some)
  then show ?thesis using assms by (simp add: entity_kind_def from_token_Some)
qed

section \<open>Lists in one value\<close>

definition list_items :: "string \<Rightarrow> string list" where
  "list_items value = filter (\<lambda>item. item \<noteq> []) (map trim (split_on CHR '','' value))"

definition list_holds :: "string \<Rightarrow> string \<Rightarrow> bool" where
  "list_holds value item = (let item = trim item in item \<noteq> [] \<and> item \<in> set (list_items value))"

definition push_new :: "'a list \<Rightarrow> 'a \<Rightarrow> 'a list" where
  "push_new xs x = (if x \<in> set xs then xs else xs @ [x])"

definition apply_list_delta :: "string option \<Rightarrow> string list \<Rightarrow> string list \<Rightarrow> string" where
  "apply_list_delta held add remove =
     (let items = (case held of None \<Rightarrow> [] | Some v \<Rightarrow> list_items v);
          kept = filter (\<lambda>item. \<not> (\<exists>gone \<in> set remove. trim gone = item)) items;
          added = foldl push_new kept (filter (\<lambda>item. item \<noteq> []) (map trim add))
      in join '', '' added)"

lemma list_items_clean: "x \<in> set (list_items v) \<Longrightarrow> x \<noteq> [] \<and> trim x = x \<and> CHR '','' \<notin> set x"
  using split_on_pieces set_trim by (fastforce simp: list_items_def)

lemma list_holds_iff: "list_holds v item \<longleftrightarrow> trim item \<in> set (list_items v)"
  using list_items_clean by (auto simp: list_holds_def Let_def)

lemma set_foldl_push_new [simp]: "set (foldl push_new xs ys) = set xs \<union> set ys"
  by (induction ys arbitrary: xs) (auto simp: push_new_def)

lemma distinct_foldl_push_new: "distinct xs \<Longrightarrow> distinct (foldl push_new xs ys)"
  by (induction ys arbitrary: xs) (auto simp: push_new_def)

lemma split_on_join_spaced:
  "xs \<noteq> [] \<Longrightarrow> \<forall>x \<in> set xs. CHR '','' \<notin> set x \<Longrightarrow>
     split_on CHR '','' (join '', '' xs) = hd xs # map (\<lambda>x. CHR '' '' # x) (tl xs)"
proof (induction "'', ''" xs rule: join.induct)
  case (3 x y ys)
  have "CHR '','' \<notin> set x" using 3 by simp
  then have "split_on CHR '','' (join '', '' (x # y # ys))
      = x # split_on CHR '','' (CHR '' '' # join '', '' (y # ys))"
    using split_on_append [of "CHR '',''" x] by simp
  also have "split_on CHR '','' (CHR '' '' # join '', '' (y # ys))
      = (CHR '' '' # y) # map (\<lambda>x. CHR '' '' # x) ys"
    using 3 by simp
  finally show ?case by simp
qed (auto simp: split_on_no_sep)

text \<open>A joined list of clean items reads back as itself.\<close>

lemma list_items_join:
  assumes "\<forall>x \<in> set xs. x \<noteq> [] \<and> trim x = x \<and> CHR '','' \<notin> set x"
  shows "list_items (join '', '' xs) = xs"
proof (cases xs)
  case Nil
  then show ?thesis by (simp add: list_items_def)
next
  case (Cons x ys)
  have "map trim (hd xs # map (\<lambda>x. CHR '' '' # x) (tl xs)) = xs"
    using assms Cons by (auto intro: map_idI)
  then show ?thesis
    using assms Cons split_on_join_spaced [of xs] by (simp add: list_items_def) 
qed

section \<open>Columns and finished work\<close>

definition holds_columns :: "string \<Rightarrow> bool" where
  "holds_columns k \<longleftrightarrow> k = ''work'' \<or> k = ''project''"

definition columns_of :: "fields \<Rightarrow> string list option" where
  "columns_of fs =
     (case bt_get fs COLUMNS of
        None \<Rightarrow> None
      | Some v \<Rightarrow> let items = filter (\<lambda>i. i \<noteq> []) (map trim (split_on CHR '','' v)) in
                  if items \<noteq> [] then Some items else None)"

definition meaning_of :: "string \<Rightarrow> fields \<Rightarrow> string option" where
  "meaning_of word inst =
     (let word = trim word in
      case find (\<lambda>shipped. shipped = word) WORK_STATUSES of
        Some shipped \<Rightarrow> Some shipped
      | None \<Rightarrow>
          (case bt_get inst (STATUS_WORD @ word) of
             None \<Rightarrow> None
           | Some v \<Rightarrow> let mapped = trim v in find (\<lambda>shipped. shipped = mapped) WORK_STATUSES))"

definition accepted_words :: "fields \<Rightarrow> fields option \<Rightarrow> string list" where
  "accepted_words inst project =
     foldl push_new WORK_STATUSES
       (concat (concat (map list_of [columns_of inst, Option.bind project columns_of])))"

definition is_finished :: "string \<Rightarrow> fields \<Rightarrow> fields \<Rightarrow> bool" where
  "is_finished k fs inst \<longleftrightarrow>
     holds_columns k \<and>
     (case bt_get fs STATUS of None \<Rightarrow> False | Some held \<Rightarrow> meaning_of held inst = Some FINISHED)"

definition finishing_kinds :: "string list" where
  "finishing_kinds = filter holds_columns SHIPPED"

lemma meaning_of_shipped: "meaning_of w inst = Some m \<Longrightarrow> m \<in> set WORK_STATUSES"
  by (auto simp: meaning_of_def Let_def dest: find_SomeD split: option.splits)

lemma FINISHED_word [simp]: "FINISHED = ''done''"
  by (simp add: FINISHED_def WORK_STATUSES_def)

section \<open>What a key is declared to hold\<close>

datatype value_type =
    VText | VNumber | VDate | VDateRange | VPeriod | VBoolean | VReference | VExpression

datatype fold_rule = FNewest | FSum | FDescribes

datatype compare = CEquals | CBefore | CAfter | CLess | CGreater

datatype origin = Shipped | Declared

primrec value_token :: "value_type \<Rightarrow> string" where
  "value_token VText = ''text''"
| "value_token VNumber = ''number''"
| "value_token VDate = ''date''"
| "value_token VDateRange = ''date_range''"
| "value_token VPeriod = ''period''"
| "value_token VBoolean = ''boolean''"
| "value_token VReference = ''reference''"
| "value_token VExpression = ''expression''"

definition value_of_token :: "string \<Rightarrow> value_type option" where
  "value_of_token token =
     (let t = trim token in
      if t = ''text'' then Some VText
      else if t = ''number'' then Some VNumber
      else if t = ''date'' then Some VDate
      else if t = ''date_range'' then Some VDateRange
      else if t = ''period'' then Some VPeriod
      else if t = ''boolean'' then Some VBoolean
      else if t = ''reference'' then Some VReference
      else if t = ''expression'' then Some VExpression
      else None)"

primrec fold_token :: "fold_rule \<Rightarrow> string" where
  "fold_token FNewest = ''newest''"
| "fold_token FSum = ''sum''"
| "fold_token FDescribes = ''describes''"

definition fold_of_token :: "string \<Rightarrow> fold_rule option" where
  "fold_of_token token =
     (let t = trim token in
      if t = ''newest'' then Some FNewest
      else if t = ''sum'' then Some FSum
      else if t = ''describes'' then Some FDescribes
      else None)"

primrec compare_token :: "compare \<Rightarrow> string" where
  "compare_token CEquals = ''equals''"
| "compare_token CBefore = ''before''"
| "compare_token CAfter = ''after''"
| "compare_token CLess = ''less''"
| "compare_token CGreater = ''greater''"

definition compare_of_token :: "string \<Rightarrow> compare option" where
  "compare_of_token token =
     (let t = trim token in
      if t = ''equals'' then Some CEquals
      else if t = ''before'' then Some CBefore
      else if t = ''after'' then Some CAfter
      else if t = ''less'' then Some CLess
      else if t = ''greater'' then Some CGreater
      else None)"

primrec origin_token :: "origin \<Rightarrow> string" where
  "origin_token Shipped = ''shipped''"
| "origin_token Declared = ''declared''"

definition origin_of_token :: "string \<Rightarrow> origin option" where
  "origin_of_token token =
     (let t = trim token in
      if t = ''shipped'' then Some Shipped
      else if t = ''declared'' then Some Declared
      else None)"

primrec licensed_by :: "compare \<Rightarrow> value_type option" where
  "licensed_by CEquals = None"
| "licensed_by CBefore = Some VDate"
| "licensed_by CAfter = Some VDate"
| "licensed_by CLess = Some VNumber"
| "licensed_by CGreater = Some VNumber"

definition holds_between :: "world \<Rightarrow> compare \<Rightarrow> string \<Rightarrow> string \<Rightarrow> bool" where
  "holds_between W c held wanted =
     (let held = trim held; wanted = trim wanted in
      case c of
        CEquals \<Rightarrow> held = wanted
      | CBefore \<Rightarrow> (case (date_of_text W held, date_of_text W wanted) of
                     (Some h, Some w) \<Rightarrow> h < w | _ \<Rightarrow> False)
      | CAfter \<Rightarrow> (case (date_of_text W held, date_of_text W wanted) of
                     (Some h, Some w) \<Rightarrow> h > w | _ \<Rightarrow> False)
      | CLess \<Rightarrow> (case (parse_f64 held, parse_f64 wanted) of
                     (Some h, Some w) \<Rightarrow> f64_less h w | _ \<Rightarrow> False)
      | CGreater \<Rightarrow> (case (parse_f64 held, parse_f64 wanted) of
                     (Some h, Some w) \<Rightarrow> f64_less w h | _ \<Rightarrow> False))"

text \<open>
  \<open>Kinds\<close> is a nonempty list of kinds, without repetition; \<open>kinds_any_of\<close> is its constructor.
\<close>

type_synonym kinds = "kind list"

definition kinds_any_of :: "kind list \<Rightarrow> kinds option" where
  "kinds_any_of ks = (let named = foldl push_new [] ks in if named \<noteq> [] then Some named else None)"

definition kinds_token :: "kinds \<Rightarrow> string" where
  "kinds_token ks = join ''|'' ks"

definition all_some :: "'a option list \<Rightarrow> 'a list option" where
  "all_some xs = (if None \<in> set xs then None else Some (map the xs))"

definition kinds_of_token :: "world \<Rightarrow> string \<Rightarrow> kinds option" where
  "kinds_of_token W token =
     Option.bind (all_some (map (\<lambda>part. from_token W (trim part)) (split_on CHR ''|'' token)))
       kinds_any_of"

record field =
  key :: string
  holds :: value_type
  points_at :: "kinds option"
  folds :: fold_rule
  required :: bool
  is_list :: bool
  one_of :: "string list option"

record declared_type =
  type_name :: string
  type_fields :: "field list"
  type_origin :: origin
  must :: "string option"

definition field_new :: "string \<Rightarrow> value_type \<Rightarrow> field" where
  "field_new k h =
     \<lparr>key = trim k, holds = h, points_at = None, folds = FNewest, required = False,
      is_list = False, one_of = None\<rparr>"

definition field_required :: "string \<Rightarrow> value_type \<Rightarrow> field" where
  "field_required k h = (field_new k h)\<lparr>required := True\<rparr>"

definition field_listing :: "string \<Rightarrow> value_type \<Rightarrow> field" where
  "field_listing k h = (field_new k h)\<lparr>is_list := True\<rparr>"

definition field_describing :: "string \<Rightarrow> field" where
  "field_describing k = (field_new k VText)\<lparr>folds := FDescribes\<rparr>"

definition field_summing :: "string \<Rightarrow> field" where
  "field_summing k = (field_new k VNumber)\<lparr>folds := FSum\<rparr>"

definition field_pointing_at :: "string \<Rightarrow> kind \<Rightarrow> field" where
  "field_pointing_at k t = (field_new k VReference)\<lparr>points_at := Some [t]\<rparr>"

definition field_pointing_at_any :: "string \<Rightarrow> kind list \<Rightarrow> field" where
  "field_pointing_at_any k ts = (field_new k VReference)\<lparr>points_at := kinds_any_of ts\<rparr>"

definition field_one_of :: "string \<Rightarrow> string list \<Rightarrow> field" where
  "field_one_of k values = (field_new k VText)\<lparr>one_of := Some (map trim values)\<rparr>"

definition field_items :: "field \<Rightarrow> string \<Rightarrow> string list" where
  "field_items f value = (if \<not> is_list f then [value] else list_items value)"

definition holds_token :: "field \<Rightarrow> string" where
  "holds_token f =
     (let held = (case points_at f of
                    Some kinds \<Rightarrow> value_token (holds f) @ '':'' @ kinds_token kinds
                  | None \<Rightarrow> value_token (holds f))
      in if is_list f then ''list:'' @ held else held)"

definition one_of_cell :: "field \<Rightarrow> string option" where
  "one_of_cell f = map_option (join '','') (one_of f)"

definition one_of_from_cell :: "string option \<Rightarrow> string list option" where
  "one_of_from_cell cell =
     (case cell of
        None \<Rightarrow> None
      | Some c \<Rightarrow> let values = filter (\<lambda>v. v \<noteq> []) (map trim (split_on CHR '','' c)) in
                  if values \<noteq> [] then Some values else None)"

function field_of_token :: "world \<Rightarrow> string \<Rightarrow> string \<Rightarrow> field option" where
  "field_of_token W k token =
     (case strip_prefix ''list:'' (trim token) of
        Some element \<Rightarrow> map_option (\<lambda>f. f\<lparr>is_list := True\<rparr>) (field_of_token W k element)
      | None \<Rightarrow>
          (case split_once CHR '':'' (trim token) of
             None \<Rightarrow> map_option (field_new k) (value_of_token (trim token))
           | Some (h, ks) \<Rightarrow>
               (case value_of_token h of
                  None \<Rightarrow> None
                | Some v \<Rightarrow>
                    if v \<noteq> VReference then None
                    else map_option (\<lambda>kinds. (field_new k VReference)\<lparr>points_at := Some kinds\<rparr>)
                           (kinds_of_token W ks))))"
  by pat_completeness auto
termination field_of_token
proof (relation "measure (\<lambda>(W, k, token). length token)", goal_cases)
  case (2 W k token element)
  then have "trim token = ''list:'' @ element" by (simp add: strip_prefix_Some)
  then have "length element < length (trim token)" by simp
  then show ?case using length_trim [of token] by simp
qed simp

declare field_of_token.simps [simp del]

section \<open>Declared types\<close>

definition the_field :: "declared_type \<Rightarrow> string \<Rightarrow> field option" where
  "the_field d k = (let k = trim k in find (\<lambda>f. key f = k) (type_fields d))"

definition named_type :: "declared_type list \<Rightarrow> string \<Rightarrow> declared_type option" where
  "named_type declared wanted =
     (let wanted = trim wanted in find (\<lambda>d. type_name d = wanted) declared)"

definition type_new :: "string \<Rightarrow> field list \<Rightarrow> declared_type" where
  "type_new name fs =
     \<lparr>type_name = trim name, type_fields = fs, type_origin = Declared, must = None\<rparr>"

definition with_must :: "declared_type \<Rightarrow> string \<Rightarrow> declared_type" where
  "with_must d m = (let m = trim m in d\<lparr>must := (if m \<noteq> [] then Some m else None)\<rparr>)"

definition type_shipped :: "string \<Rightarrow> field list \<Rightarrow> declared_type" where
  "type_shipped name fs = (type_new name fs)\<lparr>type_origin := Shipped\<rparr>"

definition normalized :: "declared_type \<Rightarrow> declared_type" where
  "normalized d =
     (type_new (type_name d)
        (map (\<lambda>f. (field_new (key f) (holds f))
                    \<lparr>points_at := points_at f, folds := folds f, required := required f,
                     is_list := is_list f, one_of := map_option (map trim) (one_of f)\<rparr>)
             (type_fields d)))
     \<lparr>type_origin := type_origin d, must := must d\<rparr>"

definition DESCRIBING_KEYS :: "string list" where
  "DESCRIBING_KEYS =
     [''read_from'', ''read_ref'', ''starred'', ''subject'', ''purpose'', ''recorded_by'']"

definition fold_of :: "string \<Rightarrow> declared_type list \<Rightarrow> fold_rule" where
  "fold_of k declared =
     (let k = trim k;
          declares = (\<lambda>fold. \<exists>d \<in> set declared.
                        case the_field d k of None \<Rightarrow> False | Some f \<Rightarrow> folds f = fold);
          build_describes = (k \<in> set DESCRIBING_KEYS \<and>
             (\<exists>d \<in> set declared. type_origin d = Shipped \<and>
                (case the_field d k of None \<Rightarrow> False | Some f \<Rightarrow> folds f = FDescribes)))
      in if build_describes then FDescribes
         else if declares FSum then FSum
         else if declares FDescribes then FDescribes
         else FNewest)"

record fold_move =
  move_key :: string
  move_from :: fold_rule
  move_to :: fold_rule

definition folds_moved_by :: "declared_type \<Rightarrow> declared_type list \<Rightarrow> fold_move list" where
  "folds_moved_by incoming declared =
     (let after = filter (\<lambda>held. type_name held \<noteq> type_name incoming) declared @ [incoming];
          keys = remdups (sort (concat (map (\<lambda>held. map key (type_fields held))
                   (filter (\<lambda>held. type_name held = type_name incoming) declared @ [incoming]))))
      in concat (map (\<lambda>k. let from = fold_of k declared; to = fold_of k after in
                     if from \<noteq> to then [\<lparr>move_key = k, move_from = from, move_to = to\<rparr>] else [])
               keys))"

end
