(* ===== verification/Stable_Sort.thy ===== *)
theory Stable_Sort
  imports Prelude "HOL-Library.Multiset"
begin

text \<open>
  \<open>slice::sort_by\<close>: the stable sort by a comparison that returns an \<open>Ordering\<close>.  The code sorts
  by chains of comparisons (\<open>then_with\<close>); a comparison built from keys of ordered types is a
  \<open>comparator\<close>, and for a comparator the sorted list is the stable one: ascending, a
  permutation, and with the elements that compare equal in their old order.
\<close>

datatype ordering = OLess | OEqual | OGreater

definition cmp :: "'a::linorder \<Rightarrow> 'a \<Rightarrow> ordering" where
  "cmp x y = (if x < y then OLess else if x = y then OEqual else OGreater)"

primrec reverse :: "ordering \<Rightarrow> ordering" where
  "reverse OLess = OGreater"
| "reverse OEqual = OEqual"
| "reverse OGreater = OLess"

definition then_with :: "ordering \<Rightarrow> ordering \<Rightarrow> ordering" where
  "then_with a b = (if a = OEqual then b else a)"

fun insert_by :: "('a \<Rightarrow> 'a \<Rightarrow> ordering) \<Rightarrow> 'a \<Rightarrow> 'a list \<Rightarrow> 'a list" where
  "insert_by c x [] = [x]"
| "insert_by c x (y # ys) = (if c x y = OGreater then y # insert_by c x ys else x # y # ys)"

definition sort_by :: "('a \<Rightarrow> 'a \<Rightarrow> ordering) \<Rightarrow> 'a list \<Rightarrow> 'a list" where
  "sort_by c xs = foldr (insert_by c) xs []"

lemma mset_insert_by [simp]: "mset (insert_by c x ys) = add_mset x (mset ys)"
  by (induction ys) auto

lemma mset_sort_by [simp]: "mset (sort_by c xs) = mset xs"
  by (induction xs) (auto simp: sort_by_def)

lemma set_sort_by [simp]: "set (sort_by c xs) = set xs"
  by (metis mset_sort_by set_mset_mset)

lemma set_insert_by [simp]: "set (insert_by c x ys) = insert x (set ys)"
  by (metis mset_insert_by set_mset_add_mset_insert set_mset_mset)

lemma length_sort_by [simp]: "length (sort_by c xs) = length xs"
  by (metis mset_sort_by size_mset)

lemma distinct_sort_by [simp]: "distinct (sort_by c xs) = distinct xs"
  by (metis mset_eq_imp_distinct_iff mset_sort_by)

lemma sort_by_Nil [simp]: "sort_by c [] = []"
  by (simp add: sort_by_def)

lemma sort_by_Cons: "sort_by c (x # xs) = insert_by c x (sort_by c xs)"
  by (simp add: sort_by_def)

section \<open>Comparisons that sort\<close>

locale comparator =
  fixes c :: "'a \<Rightarrow> 'a \<Rightarrow> ordering"
  assumes sym: "c x y = reverse (c y x)"
    and trans: "c x y \<noteq> OGreater \<Longrightarrow> c y z \<noteq> OGreater \<Longrightarrow> c x z \<noteq> OGreater"
begin

lemma same [simp]: "c x x = OEqual"
  using sym [of x x] by (cases "c x x") auto

lemma greater_sym: "c x y = OGreater \<longleftrightarrow> c y x = OLess"
  using sym [of x y] by (cases "c y x") auto

lemma sorted_insert_by:
  "sorted_wrt (\<lambda>x y. c x y \<noteq> OGreater) ys \<Longrightarrow>
   sorted_wrt (\<lambda>x y. c x y \<noteq> OGreater) (insert_by c x ys)"
proof (induction ys)
  case (Cons y ys)
  show ?case
  proof (cases "c x y = OGreater")
    case True
    then have "c y x \<noteq> OGreater" using greater_sym by simp
    then show ?thesis using True Cons by auto
  next
    case False
    then show ?thesis using Cons.prems trans by auto
  qed
qed simp

lemma sorted_sort_by: "sorted_wrt (\<lambda>x y. c x y \<noteq> OGreater) (sort_by c xs)"
  by (induction xs) (auto simp: sort_by_Cons sorted_insert_by)

lemma insert_by_equal:
  "sorted_wrt (\<lambda>x y. c x y \<noteq> OGreater) ys \<Longrightarrow>
   filter (\<lambda>y. c z y = OEqual) (insert_by c x ys)
     = (if c z x = OEqual then x # filter (\<lambda>y. c z y = OEqual) ys
        else filter (\<lambda>y. c z y = OEqual) ys)"
proof (induction ys)
  case (Cons y ys)
  have "\<not> (c x y = OGreater \<and> c z x = OEqual \<and> c z y = OEqual)"
  proof
    assume a: "c x y = OGreater \<and> c z x = OEqual \<and> c z y = OEqual"
    then have "c x z \<noteq> OGreater" using sym [of x z] by auto
    then show False using a trans [of x z y] by auto
  qed
  then show ?case using Cons by auto
qed simp

text \<open>Stability: the elements that compare equal with \<open>z\<close> keep their order.\<close>

lemma sort_by_stable:
  "filter (\<lambda>y. c z y = OEqual) (sort_by c xs) = filter (\<lambda>y. c z y = OEqual) xs"
  by (induction xs) (auto simp: sort_by_Cons insert_by_equal sorted_sort_by)

text \<open>When no two elements compare equal, the order of the input does not matter.\<close>

lemma sorted_unique:
  "sorted_wrt (\<lambda>x y. c x y \<noteq> OGreater) xs \<Longrightarrow> sorted_wrt (\<lambda>x y. c x y \<noteq> OGreater) ys \<Longrightarrow>
   mset xs = mset ys \<Longrightarrow> (\<forall>x \<in> set xs. \<forall>y \<in> set xs. c x y = OEqual \<longrightarrow> x = y) \<Longrightarrow> xs = ys"
proof (induction xs arbitrary: ys)
  case (Cons x xs)
  obtain y ys' where ys: "ys = y # ys'" using Cons.prems(3) by (cases ys) auto
  have sets: "set (x # xs) = set (y # ys')" using Cons.prems(3) ys by (metis set_mset_mset)
  have "c x y \<noteq> OGreater"
  proof (cases "y = x")
    case False
    then have "y \<in> set xs" using sets by auto
    then show ?thesis using Cons.prems(1) by simp
  qed simp
  moreover have "c y x \<noteq> OGreater"
  proof (cases "y = x")
    case False
    then have "x \<in> set ys'" using sets by auto
    then show ?thesis using Cons.prems(2) ys by simp
  qed simp
  ultimately have "c x y = OEqual" using sym [of x y] by (cases "c y x") auto
  then have "x = y" using Cons.prems(4) sets by auto
  moreover have "xs = ys'" using Cons ys \<open>x = y\<close> by (intro Cons.IH) auto
  ultimately show ?case using ys by simp
qed simp

lemma sort_by_unique:
  assumes "mset xs = mset ys" and "\<forall>x \<in> set xs. \<forall>y \<in> set xs. c x y = OEqual \<longrightarrow> x = y"
  shows "sort_by c xs = sort_by c ys"
  using assms by (intro sorted_unique) (auto simp: sorted_sort_by)

end

lemma cmp_le: "cmp x y \<noteq> OGreater \<longleftrightarrow> x \<le> y"
  by (auto simp: cmp_def)

lemma cmp_sym: "cmp x y = reverse (cmp y x)"
  by (cases x y rule: linorder_cases) (auto simp: cmp_def)

lemma comparator_key: "comparator (\<lambda>x y. cmp (f x) (f y))"
proof
  show "cmp (f x) (f y) = reverse (cmp (f y) (f x))" for x y by (rule cmp_sym)
  show "cmp (f x) (f y) \<noteq> OGreater \<Longrightarrow> cmp (f y) (f z) \<noteq> OGreater \<Longrightarrow> cmp (f x) (f z) \<noteq> OGreater"
    for x y z unfolding cmp_le by (rule order_trans)
qed

lemma comparator_reverse: "comparator c \<Longrightarrow> comparator (\<lambda>x y. c y x)"
proof (rule comparator.intro)
  show "comparator c \<Longrightarrow> c y x = reverse (c x y)" for x y by (rule comparator.sym)
  show "comparator c \<Longrightarrow> c y x \<noteq> OGreater \<Longrightarrow> c z y \<noteq> OGreater \<Longrightarrow> c z x \<noteq> OGreater" for x y z
    using comparator.trans [of c z y x] by blast
qed

lemma comparator_then:
  assumes "comparator c" and "comparator d"
  shows "comparator (\<lambda>x y. then_with (c x y) (d x y))"
proof
  show "then_with (c x y) (d x y) = reverse (then_with (c y x) (d y x))" for x y
    using comparator.sym [OF assms(1), of x y] comparator.sym [OF assms(2), of x y]
    by (cases "c y x") (auto simp: then_with_def)
next
  fix x y z
  assume xy: "then_with (c x y) (d x y) \<noteq> OGreater" and yz: "then_with (c y z) (d y z) \<noteq> OGreater"
  have le: "c x y \<noteq> OGreater" "c y z \<noteq> OGreater"
    using xy yz by (auto simp: then_with_def split: if_splits)
  then have xz: "c x z \<noteq> OGreater" using comparator.trans [OF assms(1)] by blast
  show "then_with (c x z) (d x z) \<noteq> OGreater"
  proof (cases "c x z = OEqual")
    case True
    have "c z x \<noteq> OGreater" using True comparator.sym [OF assms(1), of z x] by simp
    then have "c y x \<noteq> OGreater" "c z y \<noteq> OGreater"
      using le comparator.trans [OF assms(1)] by blast+
    then have "c x y = OEqual" "c y z = OEqual"
      using le comparator.sym [OF assms(1), of x y] comparator.sym [OF assms(1), of y z]
      by (cases "c y x"; cases "c z y"; auto)+
    then show ?thesis
      using xy yz True comparator.trans [OF assms(2), of x y z] by (auto simp: then_with_def)
  qed (use xz in \<open>auto simp: then_with_def\<close>)
qed

text \<open>The comparison of a linear order, on which \<open>sort_by\<close> is the library's \<open>sort\<close>.\<close>

interpretation by_order: comparator "cmp :: 'a::linorder \<Rightarrow> 'a \<Rightarrow> ordering"
  using comparator_key [of "\<lambda>x. x"] by simp

lemma sort_by_cmp: "sort_by cmp xs = sort xs"
proof -
  have "sorted (sort_by cmp xs)"
    using by_order.sorted_sort_by [of xs] by (simp add: cmp_le)
  then show ?thesis by (metis mset_sort_by properties_for_sort)
qed

end
