(* ===== verification/Query_Filter.thy ===== *)
theory Query_Filter
  imports Vocabulary Stable_Sort
begin

text \<open>
  \<open>memory/filter.rs\<close>: the tree a query asks of a thing's fields, its evaluation, what an index
  can say about it (\<open>routed\<close>), and the order answers are put in.  The \<open>Lookup\<close> trait, through
  which a tree follows a reference to another thing, is the record \<open>lookup\<close> of its two methods.
\<close>

section \<open>Values that can be ordered\<close>

text \<open>The order of \<open>f64::total_cmp\<close>, on the doubles a read produces (no NaN, one zero).\<close>

instantiation f64 :: linorder
begin

fun less_eq_f64 :: "f64 \<Rightarrow> f64 \<Rightarrow> bool" where
  "less_eq_f64 x Nan = True"
| "less_eq_f64 Nan y = False"
| "less_eq_f64 (Inf a) (Inf b) = (b \<longrightarrow> a)"
| "less_eq_f64 (Inf a) (Fin k) = a"
| "less_eq_f64 (Fin k) (Inf b) = (\<not> b)"
| "less_eq_f64 (Fin j) (Fin k) = (j \<le> k)"

definition less_f64 :: "f64 \<Rightarrow> f64 \<Rightarrow> bool" where
  "less_f64 x y \<longleftrightarrow> x \<le> y \<and> \<not> y \<le> x"

instance
proof
  fix x y z :: f64
  show "(x < y) = (x \<le> y \<and> \<not> y \<le> x)" by (rule less_f64_def)
  show "x \<le> x" by (cases x) auto
  show "x \<le> y \<Longrightarrow> y \<le> z \<Longrightarrow> x \<le> z" by (cases x; cases y; cases z) auto
  show "x \<le> y \<Longrightarrow> y \<le> x \<Longrightarrow> x = y" by (cases x; cases y) auto
  show "x \<le> y \<or> y \<le> x" by (cases x; cases y) auto
qed

end

datatype orderable = ODate int | ONumber f64

instantiation orderable :: linorder
begin

fun less_eq_orderable :: "orderable \<Rightarrow> orderable \<Rightarrow> bool" where
  "less_eq_orderable (ODate a) (ODate b) = (a \<le> b)"
| "less_eq_orderable (ONumber a) (ONumber b) = (a \<le> b)"
| "less_eq_orderable (ODate a) (ONumber b) = True"
| "less_eq_orderable (ONumber a) (ODate b) = False"

definition less_orderable :: "orderable \<Rightarrow> orderable \<Rightarrow> bool" where
  "less_orderable x y \<longleftrightarrow> x \<le> y \<and> \<not> y \<le> x"

instance
proof
  fix x y z :: orderable
  show "(x < y) = (x \<le> y \<and> \<not> y \<le> x)" by (rule less_orderable_def)
  show "x \<le> x" by (cases x) auto
  show "x \<le> y \<Longrightarrow> y \<le> z \<Longrightarrow> x \<le> z" by (cases x; cases y; cases z) auto
  show "x \<le> y \<Longrightarrow> y \<le> x \<Longrightarrow> x = y" by (cases x; cases y) auto
  show "x \<le> y \<or> y \<le> x" by (cases x; cases y) auto
qed

end

definition read_orderable :: "world \<Rightarrow> value_type \<Rightarrow> string \<Rightarrow> orderable option" where
  "read_orderable W h text =
     (let text = trim text in
      case h of
        VDate \<Rightarrow> map_option ODate (date_of_text W text)
      | VNumber \<Rightarrow> (case parse_f64 text of
                      None \<Rightarrow> None
                    | Some number \<Rightarrow> if number = Nan then None else Some (ONumber number))
      | _ \<Rightarrow> None)"

definition read_to_order :: "world \<Rightarrow> value_type \<Rightarrow> string \<Rightarrow> orderable option" where
  "read_to_order W h text =
     (case read_orderable W h text of
        Some (ONumber number) \<Rightarrow> if \<not> is_finite number then None else Some (ONumber number)
      | r \<Rightarrow> r)"

section \<open>The tree\<close>

datatype op = Less | LessOrEqual | Greater | GreaterOrEqual

datatype test =
    Exists
  | Equals string
  | NotEquals string
  | In "string list"
  | NotIn "string list"
  | Contains string
  | Order op value_type string

record leaf =
  leaf_key :: "string option"
  leaf_test :: test

datatype quantifier = QAll | QAny

datatype query =
    All "query list"
  | Any "query list"
  | Not query
  | Leaf leaf
  | Refs string quantifier query
  | Finished

record subject =
  subject_kind :: string
  subject_fields :: fields
  subject_archived :: bool

record lookup =
  thing :: "string \<Rightarrow> subject option"
  instance_record :: fields

definition nothing :: lookup where
  "nothing = \<lparr>thing = (\<lambda>_. None), instance_record = []\<rparr>"

definition leaf_of :: "string option \<Rightarrow> test \<Rightarrow> query" where
  "leaf_of k t = Leaf \<lparr>leaf_key = map_option trim k, leaf_test = t\<rparr>"

definition exists_key :: "string \<Rightarrow> query" where "exists_key k = leaf_of (Some k) Exists"
definition equals :: "string \<Rightarrow> string \<Rightarrow> query" where "equals k w = leaf_of (Some k) (Equals w)"
definition not_equals :: "string \<Rightarrow> string \<Rightarrow> query" where
  "not_equals k w = leaf_of (Some k) (NotEquals w)"
definition is_in :: "string \<Rightarrow> string list \<Rightarrow> query" where "is_in k ws = leaf_of (Some k) (In ws)"
definition not_in :: "string \<Rightarrow> string list \<Rightarrow> query" where
  "not_in k ws = leaf_of (Some k) (NotIn ws)"
definition contains :: "string \<Rightarrow> string \<Rightarrow> query" where
  "contains k item = leaf_of (Some k) (Contains item)"
definition ordering_of :: "string \<Rightarrow> op \<Rightarrow> value_type \<Rightarrow> string \<Rightarrow> query" where
  "ordering_of k p h w = leaf_of (Some k) (Order p h w)"
definition anywhere :: "test \<Rightarrow> query" where "anywhere t = leaf_of None t"

definition test_of :: "compare \<Rightarrow> string \<Rightarrow> test" where
  "test_of c wanted =
     (case c of
        CEquals \<Rightarrow> Equals wanted
      | CBefore \<Rightarrow> Order Less VDate wanted
      | CAfter \<Rightarrow> Order Greater VDate wanted
      | CLess \<Rightarrow> Order Less VNumber wanted
      | CGreater \<Rightarrow> Order Greater VNumber wanted)"

definition comparing :: "string \<Rightarrow> compare \<Rightarrow> string \<Rightarrow> query" where
  "comparing k c wanted = leaf_of (Some k) (test_of c wanted)"

section \<open>Evaluation\<close>

primrec op_passes :: "op \<Rightarrow> ordering \<Rightarrow> bool" where
  "op_passes Less r = (r = OLess)"
| "op_passes LessOrEqual r = (r \<noteq> OGreater)"
| "op_passes Greater r = (r = OGreater)"
| "op_passes GreaterOrEqual r = (r \<noteq> OLess)"

definition ordered :: "world \<Rightarrow> op \<Rightarrow> value_type \<Rightarrow> string \<Rightarrow> string \<Rightarrow> bool" where
  "ordered W p h held wanted =
     (case (read_orderable W h held, read_orderable W h wanted) of
        (Some a, Some b) \<Rightarrow> op_passes p (cmp a b)
      | _ \<Rightarrow> False)"

primrec passes :: "world \<Rightarrow> test \<Rightarrow> string \<Rightarrow> bool" where
  "passes W Exists held = True"
| "passes W (Equals wanted) held = holds_between W CEquals held wanted"
| "passes W (NotEquals wanted) held = (\<not> holds_between W CEquals held wanted)"
| "passes W (In wanted) held = (\<exists>one \<in> set wanted. holds_between W CEquals held one)"
| "passes W (NotIn wanted) held = (\<not> (\<exists>one \<in> set wanted. holds_between W CEquals held one))"
| "passes W (Contains item) held = list_holds held item"
| "passes W (Order p h wanted) held = ordered W p h held wanted"

definition needs_the_key_held :: "test \<Rightarrow> bool" where
  "needs_the_key_held t = (case t of NotEquals _ \<Rightarrow> True | NotIn _ \<Rightarrow> True | _ \<Rightarrow> False)"

definition leaf_holds :: "world \<Rightarrow> leaf \<Rightarrow> fields \<Rightarrow> bool" where
  "leaf_holds W l fs =
     (case leaf_key l of
        Some k \<Rightarrow>
          (if leaf_test l = Exists then has_key fs k
           else case bt_get fs k of None \<Rightarrow> False | Some held \<Rightarrow> passes W (leaf_test l) held)
      | None \<Rightarrow>
          (if leaf_test l = Exists then False
           else if needs_the_key_held (leaf_test l) then False
           else \<exists>(k, held) \<in> set fs. passes W (leaf_test l) held))"

fun holds_in :: "world \<Rightarrow> lookup \<Rightarrow> subject \<Rightarrow> query \<Rightarrow> bool" where
  "holds_in W L s (All qs) = (\<forall>q \<in> set qs. holds_in W L s q)"
| "holds_in W L s (Any qs) = (\<exists>q \<in> set qs. holds_in W L s q)"
| "holds_in W L s (Not q) = (\<not> holds_in W L s q)"
| "holds_in W L s (Leaf l) = leaf_holds W l (subject_fields s)"
| "holds_in W L s (Refs k quantifier q) =
     (let held = (case bt_get (subject_fields s) k of None \<Rightarrow> [] | Some v \<Rightarrow> v);
          answers = (\<lambda>handle. case thing L handle of
                       None \<Rightarrow> False | Some named \<Rightarrow> holds_in W L named q);
          handles = list_items held
      in case quantifier of
           QAll \<Rightarrow> \<forall>h \<in> set handles. answers h
         | QAny \<Rightarrow> \<exists>h \<in> set handles. answers h)"
| "holds_in W L s Finished =
     (\<not> subject_archived s \<and> is_finished (subject_kind s) (subject_fields s) (instance_record L))"

definition query_holds :: "world \<Rightarrow> query \<Rightarrow> fields \<Rightarrow> bool" where
  "query_holds W q fs =
     holds_in W nothing \<lparr>subject_kind = [], subject_fields = fs, subject_archived = False\<rparr> q"

definition held_by_a_record :: "world \<Rightarrow> query \<Rightarrow> fields list \<Rightarrow> bool" where
  "held_by_a_record W q records = (\<exists>r \<in> set records. query_holds W q r)"

fun keys :: "query \<Rightarrow> string list" where
  "keys (All qs) = concat (map keys qs)"
| "keys (Any qs) = concat (map keys qs)"
| "keys (Not q) = keys q"
| "keys (Leaf l) = list_of (leaf_key l)"
| "keys (Refs k _ _) = [k]"
| "keys Finished = []"

section \<open>What an index can say\<close>

record query_term =
  term_key :: string
  term_value :: "string option"
  term_ask :: "test option"

record routed =
  any_of :: "query_term list list"
  exact :: bool

definition MOST_CONJUNCTIONS :: nat where "MOST_CONJUNCTIONS = 16"

definition leaf_routed :: "leaf \<Rightarrow> routed option" where
  "leaf_routed l =
     (case leaf_key l of
        None \<Rightarrow> None
      | Some k0 \<Rightarrow>
          (let k = trim k0;
               one = (\<lambda>value. \<lparr>term_key = k, term_value = value, term_ask = None\<rparr>);
               asked = (\<lambda>t. \<lparr>any_of = [[\<lparr>term_key = k, term_value = None, term_ask = Some t\<rparr>]],
                             exact = True\<rparr>)
           in case leaf_test l of
                Exists \<Rightarrow> Some \<lparr>any_of = [[one None]], exact = True\<rparr>
              | Equals wanted \<Rightarrow> Some \<lparr>any_of = [[one (Some (trim wanted))]], exact = True\<rparr>
              | In wanted \<Rightarrow>
                  if wanted \<noteq> []
                  then Some \<lparr>any_of = map (\<lambda>value. [one (Some (trim value))]) wanted, exact = True\<rparr>
                  else Some \<lparr>any_of = [[one None]], exact = False\<rparr>
              | t \<Rightarrow> Some (asked t)))"

text \<open>The loop of the conjunction: each served child multiplies out, up to the limit.\<close>

fun multiply_out :: "routed list \<Rightarrow> query_term list list \<Rightarrow> query_term list list option" where
  "multiply_out [] acc = Some acc"
| "multiply_out (child # children) acc =
     (let acc' = concat (map (\<lambda>held. map (\<lambda>also. held @ also) (any_of child)) acc) in
      if length acc' > MOST_CONJUNCTIONS then None else multiply_out children acc')"

fun routed_of :: "query \<Rightarrow> routed option" where
  "routed_of (Leaf l) = leaf_routed l"
| "routed_of (All children) =
     (let served = map routed_of children;
          all_exact = list_all (\<lambda>c. case c of None \<Rightarrow> False | Some c \<Rightarrow> exact c) served;
          flat = concat (map list_of served)
      in case multiply_out flat [[]] of
           None \<Rightarrow> None
         | Some conjs \<Rightarrow> if flat \<noteq> [] then Some \<lparr>any_of = conjs, exact = all_exact\<rparr> else None)"
| "routed_of (Any children) =
     (if children = [] then None
      else case all_some (map routed_of children) of
             None \<Rightarrow> None
           | Some rs \<Rightarrow>
               (let conjs = concat (map any_of rs) in
                if length conjs \<le> MOST_CONJUNCTIONS
                then Some \<lparr>any_of = conjs, exact = list_all exact rs\<rparr> else None))"
| "routed_of (Not _) = None"
| "routed_of (Refs _ _ _) = None"
| "routed_of Finished = None"

section \<open>What the declarations license\<close>

definition declares ::
  "world \<Rightarrow> declared_type list \<Rightarrow> kind option \<Rightarrow> string \<Rightarrow> (field \<Rightarrow> bool) \<Rightarrow> bool" where
  "declares W declared k name accepts =
     (let says = (\<lambda>d. case the_field d name of None \<Rightarrow> False | Some f \<Rightarrow> accepts f) in
      case k of
        None \<Rightarrow> \<exists>d \<in> set declared. says d
      | Some k \<Rightarrow>
          (case Option.bind (find (\<lambda>d. type_name d = k) declared) (\<lambda>d. the_field d name) of
             Some f \<Rightarrow> accepts f
           | None \<Rightarrow> \<exists>d \<in> set declared. \<not> known W (type_name d) \<and> says d))"

definition declares_a_list :: "world \<Rightarrow> declared_type list \<Rightarrow> kind option \<Rightarrow> string \<Rightarrow> bool" where
  "declares_a_list W declared k name = declares W declared k name is_list"

definition declares_a_reference_list ::
  "world \<Rightarrow> declared_type list \<Rightarrow> kind option \<Rightarrow> string \<Rightarrow> bool" where
  "declares_a_reference_list W declared k name =
     declares W declared k name (\<lambda>f. is_list f \<and> holds f = VReference)"

definition licensed_for_every ::
  "world \<Rightarrow> routed \<Rightarrow> declared_type list \<Rightarrow> kind list \<Rightarrow> bool" where
  "licensed_for_every W r declared ks =
     list_all (\<lambda>t.
       (case term_ask t of
          Some (Contains _) \<Rightarrow> list_all (\<lambda>k. declares W declared (Some k) (term_key t) is_list) ks
        | Some (Order _ h _) \<Rightarrow>
            list_all (\<lambda>k. declares W declared (Some k) (term_key t) (\<lambda>f. holds f = h)) ks
        | _ \<Rightarrow> True)) (concat (any_of r))"

section \<open>Ordering the answers\<close>

datatype direction = Ascending | Descending

datatype read_as = ReadText | ReadNumber | ReadDate

datatype sortable = SText string | SNumber f64 | SDate int

record order_by =
  order_key :: string
  order_direction :: direction

datatype order_refusal =
    NoOrderKey
  | NotADirection string

definition order_new :: "string \<Rightarrow> direction \<Rightarrow> order_by" where
  "order_new k d = \<lparr>order_key = trim k, order_direction = d\<rparr>"

definition order_asked :: "string \<Rightarrow> string option \<Rightarrow> order_refusal + order_by" where
  "order_asked k d =
     (if trim k = [] then Inl NoOrderKey
      else (let named = (case map_option trim d of Some w \<Rightarrow> if w \<noteq> [] then Some w else None
                                                 | None \<Rightarrow> None) in
            case named of
              None \<Rightarrow> Inr (order_new k Ascending)
            | Some w \<Rightarrow>
                if w = ''ascending'' \<or> w = ''asc'' then Inr (order_new k Ascending)
                else if w = ''descending'' \<or> w = ''desc'' then Inr (order_new k Descending)
                else Inl (NotADirection w)))"

definition order_read_as :: "world \<Rightarrow> order_by \<Rightarrow> declared_type list \<Rightarrow> kind option \<Rightarrow> read_as" where
  "order_read_as W ord declared k =
     (let says = (\<lambda>h. declares W declared k (order_key ord) (\<lambda>f. holds f = h)) in
      case (says VDate, says VNumber) of
        (True, False) \<Rightarrow> ReadDate
      | (False, True) \<Rightarrow> ReadNumber
      | _ \<Rightarrow> ReadText)"

definition order_reads_as ::
  "world \<Rightarrow> order_by \<Rightarrow> declared_type list \<Rightarrow> kind option \<Rightarrow> value_type option" where
  "order_reads_as W ord declared k =
     (case order_read_as W ord declared k of
        ReadDate \<Rightarrow> Some VDate | ReadNumber \<Rightarrow> Some VNumber | ReadText \<Rightarrow> None)"

definition order_read :: "world \<Rightarrow> string \<Rightarrow> read_as \<Rightarrow> sortable option" where
  "order_read W held r =
     (let held = trim held in
      case r of
        ReadText \<Rightarrow> Some (SText held)
      | ReadNumber \<Rightarrow> (case read_to_order W VNumber held of
                         Some (ONumber n) \<Rightarrow> Some (SNumber n) | _ \<Rightarrow> None)
      | ReadDate \<Rightarrow> (case read_to_order W VDate held of
                       Some (ODate d) \<Rightarrow> Some (SDate d) | _ \<Rightarrow> None))"

text \<open>
  The comparison \<open>Order::sort\<close> hands to \<open>sort_by\<close>: by the value as it is read, an item
  without one after every item with one, whatever the direction.  \<open>partial_cmp\<close> of two
  finite doubles is their order.
\<close>

definition compare_sortable :: "sortable \<Rightarrow> sortable \<Rightarrow> ordering" where
  "compare_sortable a b =
     (case (a, b) of
        (SNumber x, SNumber y) \<Rightarrow>
          if f64_less x y then OLess else if f64_less y x then OGreater else OEqual
      | (SDate x, SDate y) \<Rightarrow> cmp x y
      | (SText x, SText y) \<Rightarrow> cmp x y
      | _ \<Rightarrow> OEqual)"

definition compare_by :: "direction \<Rightarrow> sortable option \<Rightarrow> sortable option \<Rightarrow> ordering" where
  "compare_by d a b =
     (case (a, b) of
        (Some x, Some y) \<Rightarrow>
          (let ascending = compare_sortable x y in
           case d of Ascending \<Rightarrow> ascending | Descending \<Rightarrow> reverse ascending)
      | (Some _, None) \<Rightarrow> OLess
      | (None, Some _) \<Rightarrow> OGreater
      | (None, None) \<Rightarrow> OEqual)"

definition order_value ::
  "world \<Rightarrow> order_by \<Rightarrow> read_as \<Rightarrow> ('a \<Rightarrow> fields option) \<Rightarrow> 'a \<Rightarrow> sortable option" where
  "order_value W ord r fields_of item =
     (case Option.bind (fields_of item) (\<lambda>fs. bt_get fs (order_key ord)) of
        None \<Rightarrow> None
      | Some held \<Rightarrow> order_read W held r)"

definition order_sort ::
  "world \<Rightarrow> order_by \<Rightarrow> 'a list \<Rightarrow> ('a \<Rightarrow> fields option) \<Rightarrow> declared_type list \<Rightarrow> kind option
     \<Rightarrow> 'a list \<times> bool" where
  "order_sort W ord items fields_of declared k =
     (let r = order_read_as W ord declared k;
          value = order_value W ord r fields_of;
          said_text = declares W declared k (order_key ord) (\<lambda>f. holds f = VText);
          looks_otherwise =
            (r = ReadText \<and> \<not> said_text \<and>
             (\<exists>item \<in> set items.
                case Option.bind (fields_of item) (\<lambda>fs. bt_get fs (order_key ord)) of
                  None \<Rightarrow> False
                | Some held \<Rightarrow> order_read W held ReadNumber \<noteq> None
                               \<or> order_read W held ReadDate \<noteq> None))
      in (sort_by (\<lambda>a b. compare_by (order_direction ord) (value a) (value b)) items,
          looks_otherwise))"

section \<open>The index never misses\<close>

text \<open>
  What the documentation of \<open>Term\<close> says a term asks of the fields a thing holds: the key is
  carried; its value, whole and trimmed, is the one named; or it passes the test the store is
  asked.  A routed answer selects a thing when one conjunction's terms all hold.
\<close>

definition term_holds :: "world \<Rightarrow> fields \<Rightarrow> query_term \<Rightarrow> bool" where
  "term_holds W fs t =
     (case bt_get fs (term_key t) of
        None \<Rightarrow> False
      | Some held \<Rightarrow>
          (case term_ask t of
             Some q \<Rightarrow> passes W q held
           | None \<Rightarrow> (case term_value t of None \<Rightarrow> True | Some v \<Rightarrow> trim held = v)))"

definition conj_holds :: "world \<Rightarrow> fields \<Rightarrow> query_term list \<Rightarrow> bool" where
  "conj_holds W fs ts = list_all (term_holds W fs) ts"

definition routed_holds :: "world \<Rightarrow> fields \<Rightarrow> routed \<Rightarrow> bool" where
  "routed_holds W fs r = list_ex (conj_holds W fs) (any_of r)"

text \<open>Every leaf is built by \<open>Filter::leaf\<close>, which trims its key.\<close>

fun well_keyed :: "query \<Rightarrow> bool" where
  "well_keyed (All qs) = list_all well_keyed qs"
| "well_keyed (Any qs) = list_all well_keyed qs"
| "well_keyed (Not q) = well_keyed q"
| "well_keyed (Leaf l) = (case leaf_key l of None \<Rightarrow> True | Some k \<Rightarrow> trim k = k)"
| "well_keyed (Refs _ _ q) = well_keyed q"
| "well_keyed Finished = True"

lemma well_keyed_leaf_of [simp]: "well_keyed (leaf_of k t)"
  by (cases k) (simp_all add: leaf_of_def)

lemma holds_between_equals [simp]: "holds_between W CEquals a b \<longleftrightarrow> trim a = trim b"
  by (simp add: holds_between_def)

lemma conj_holds_append [simp]: "conj_holds W fs (a @ b) \<longleftrightarrow> conj_holds W fs a \<and> conj_holds W fs b"
  by (simp add: conj_holds_def)

lemma leaf_routed_holds:
  assumes "leaf_routed l = Some r" and "well_keyed (Leaf l)"
  shows "leaf_holds W l fs \<Longrightarrow> routed_holds W fs r"
    and "exact r \<Longrightarrow> routed_holds W fs r \<Longrightarrow> leaf_holds W l fs"
proof -
  obtain k where k: "leaf_key l = Some k" "trim k = k"
    using assms by (auto simp: leaf_routed_def split: option.splits)
  note defs = leaf_routed_def leaf_holds_def routed_holds_def conj_holds_def term_holds_def
    has_key_def Let_def list_ex_iff
  show "leaf_holds W l fs \<Longrightarrow> routed_holds W fs r"
    using assms(1) k by (cases "leaf_test l") (force simp: defs split: if_splits option.splits)+
  show "exact r \<Longrightarrow> routed_holds W fs r \<Longrightarrow> leaf_holds W l fs"
    using assms(1) k by (cases "leaf_test l") (force simp: defs split: if_splits option.splits)+
qed

lemma multiply_out_holds:
  "multiply_out rs acc = Some out \<Longrightarrow>
     list_ex (conj_holds W fs) out
     \<longleftrightarrow> list_ex (conj_holds W fs) acc \<and> (\<forall>r \<in> set rs. routed_holds W fs r)"
proof (induction rs acc rule: multiply_out.induct)
  case (2 child children acc)
  let ?acc = "concat (map (\<lambda>held. map (\<lambda>also. held @ also) (any_of child)) acc)"
  have "list_ex (conj_holds W fs) ?acc
      \<longleftrightarrow> list_ex (conj_holds W fs) acc \<and> routed_holds W fs child"
    by (auto simp: list_ex_iff routed_holds_def)
  then show ?case using 2 by (auto simp: Let_def split: if_splits)
qed simp

lemma all_some_Some: "all_some xs = Some ys \<longleftrightarrow> xs = map Some ys"
  by (auto simp: all_some_def map_idI intro!: nth_equalityI
           dest: nth_mem split: if_splits) (metis nth_mem option.collapse)

lemma routed_children:
  "r \<in> set (concat (map list_of (map f qs))) \<longleftrightarrow> (\<exists>q \<in> set qs. f q = Some r)"
  by auto

definition routing_sound :: "world \<Rightarrow> lookup \<Rightarrow> subject \<Rightarrow> query \<Rightarrow> routed \<Rightarrow> bool" where
  "routing_sound W L s q r \<longleftrightarrow>
     (holds_in W L s q \<longrightarrow> routed_holds W (subject_fields s) r)
     \<and> (exact r \<longrightarrow> routed_holds W (subject_fields s) r \<longrightarrow> holds_in W L s q)"

text \<open>A conjunction routes soundly when each child that routes does.\<close>

lemma routed_all_sound:
  assumes routed: "routed_of (All children) = Some r"
    and child: "\<And>q c. q \<in> set children \<Longrightarrow> routed_of q = Some c \<Longrightarrow> routing_sound W L s q c"
  shows "routing_sound W L s (All children) r"
proof -
  let ?fs = "subject_fields s" and ?flat = "concat (map list_of (map routed_of children))"
  obtain conjs where out: "multiply_out ?flat [[]] = Some conjs" "any_of r = conjs"
      "exact r \<longleftrightarrow> list_all (\<lambda>c. case c of None \<Rightarrow> False | Some c \<Rightarrow> exact c) (map routed_of children)"
    using routed by (auto simp: Let_def split: option.splits if_splits)
  have iff: "routed_holds W ?fs r \<longleftrightarrow> (\<forall>c \<in> set ?flat. routed_holds W ?fs c)"
    using multiply_out_holds [OF out(1), of W ?fs] out(2)
    by (simp add: routed_holds_def conj_holds_def)
  have "holds_in W L s (All children) \<Longrightarrow> routed_holds W ?fs r"
    unfolding iff routed_children using child by (auto simp: routing_sound_def)
  moreover have "holds_in W L s q" if e: "exact r" and h: "routed_holds W ?fs r" and q: "q \<in> set children" for q
  proof -
    obtain c where c: "routed_of q = Some c" "exact c"
      using e q by (auto simp: out(3) list_all_iff split: option.splits)
    then have "c \<in> set ?flat" using q by (simp only: routed_children) blast
    then have "routed_holds W ?fs c" using h unfolding iff by blast
    then show ?thesis using child [OF q c(1)] c(2) by (simp add: routing_sound_def)
  qed
  ultimately show ?thesis by (simp add: routing_sound_def)
qed

text \<open>So does a disjunction, every child of which must route.\<close>

lemma routed_any_sound:
  assumes routed: "routed_of (Any children) = Some r"
    and child: "\<And>q c. q \<in> set children \<Longrightarrow> routed_of q = Some c \<Longrightarrow> routing_sound W L s q c"
  shows "routing_sound W L s (Any children) r"
proof -
  let ?fs = "subject_fields s"
  obtain rs where rs: "all_some (map routed_of children) = Some rs"
      "any_of r = concat (map any_of rs)" "exact r \<longleftrightarrow> list_all exact rs"
    using routed by (auto simp: Let_def split: option.splits if_splits)
  then have map: "map routed_of children = map Some rs" by (simp add: all_some_Some)
  have iff: "routed_holds W ?fs r \<longleftrightarrow> (\<exists>c \<in> set rs. routed_holds W ?fs c)"
    by (auto simp: routed_holds_def rs(2) list_ex_iff)
  have forth: "\<exists>c \<in> set rs. routed_of q = Some c" if "q \<in> set children" for q
    using map that by (metis (no_types, lifting) image_iff list.set_map)
  have backward: "\<exists>q \<in> set children. routed_of q = Some c" if "c \<in> set rs" for c
    using map that by (metis (no_types, lifting) image_iff list.set_map)
  show ?thesis unfolding routing_sound_def iff rs(3) list_all_iff
    using child forth backward by (fastforce simp: routing_sound_def)
qed

lemma routing_is_sound:
  "routed_of q = Some r \<Longrightarrow> well_keyed q \<Longrightarrow> routing_sound W L s q r"
proof (induction q arbitrary: r rule: routed_of.induct)
  case (1 l)
  then show ?case
    using leaf_routed_holds [of l r W "subject_fields s"] by (auto simp: routing_sound_def)
next
  case (2 children)
  then show ?case by (intro routed_all_sound) (auto simp: list_all_iff)
next
  case (3 children)
  then have "children \<noteq> []" by auto
  then show ?case using 3 by (intro routed_any_sound) (auto simp: list_all_iff)
qed simp_all

text \<open>
  C30: what an index says about a tree is never too little: every thing the tree selects is
  selected by the routed answer; and when the answer says it is exact, it selects nothing else.
\<close>

theorem routed_superset_and_exact:
  assumes "routed_of q = Some r" and "well_keyed q"
  shows "(holds_in W L s q \<longrightarrow> routed_holds W (subject_fields s) r)
       \<and> (exact r \<longrightarrow> routed_holds W (subject_fields s) r \<longrightarrow> holds_in W L s q)"
  using routing_is_sound [OF assms] by (simp add: routing_sound_def)

theorem routed_superset_and_exact_witness:
  "let q = All [equals ''status'' ''done'', not_equals ''owner'' ''bot:marge''];
             s = \<lparr>subject_kind = ''work'', subject_fields = [(''owner'', ''bot:lisa''), (''status'', ''done'')],
                  subject_archived = False\<rparr>
         in \<exists>r. routed_of q = Some r \<and> exact r \<and>
              (holds_in sample_world nothing s q \<longleftrightarrow> routed_holds sample_world (subject_fields s) r)"
proof -
  let ?q = "All [equals ''status'' ''done'', not_equals ''owner'' ''bot:marge'']"
  have "well_keyed ?q" by (simp add: equals_def not_equals_def)
  moreover obtain r where "routed_of ?q = Some r" "exact r"
    by (simp add: equals_def not_equals_def leaf_of_def leaf_routed_def Let_def MOST_CONJUNCTIONS_def)
  ultimately show ?thesis using routed_superset_and_exact [of ?q r sample_world nothing] unfolding Let_def by metis
qed

section \<open>The order of the answers\<close>

text \<open>
  Every item of one sort is read the same way, so the values compared are of one shape and the
  comparison is a total preorder: it is the comparison by a key of an ordered type.
\<close>

definition shape_ok :: "read_as \<Rightarrow> sortable \<Rightarrow> bool" where
  "shape_ok r x \<longleftrightarrow>
     (case x of SText _ \<Rightarrow> r = ReadText | SNumber n \<Rightarrow> r = ReadNumber \<and> is_finite n
              | SDate _ \<Rightarrow> r = ReadDate)"

definition rank :: "sortable \<Rightarrow> string \<times> int" where
  "rank x = (case x of SText t \<Rightarrow> (t, 0) | SNumber (Fin k) \<Rightarrow> ([], k) | SNumber _ \<Rightarrow> ([], 0)
                     | SDate d \<Rightarrow> ([], d))"

definition rank_compare :: "sortable \<Rightarrow> sortable \<Rightarrow> ordering" where
  "rank_compare x y = then_with (cmp (fst (rank x)) (fst (rank y))) (cmp (snd (rank x)) (snd (rank y)))"

lemma order_read_shape: "order_read W held r = Some x \<Longrightarrow> shape_ok r x"
  by (cases r)
     (auto simp: order_read_def shape_ok_def read_to_order_def read_orderable_def Let_def
           split: option.splits orderable.splits if_splits)

lemma compare_sortable_rank:
  "shape_ok r x \<Longrightarrow> shape_ok r y \<Longrightarrow> compare_sortable x y = rank_compare x y"
  by (cases x; cases y)
     (auto simp: shape_ok_def compare_sortable_def rank_compare_def rank_def then_with_def
        is_finite_def cmp_def)

lemma comparator_rank: "comparator rank_compare"
  unfolding rank_compare_def
  by (intro comparator_then comparator_key [of "\<lambda>x. fst (rank x)", simplified]
        comparator_key [of "\<lambda>x. snd (rank x)", simplified])

definition compare_ranked :: "direction \<Rightarrow> sortable option \<Rightarrow> sortable option \<Rightarrow> ordering" where
  "compare_ranked d a b =
     (case (a, b) of
        (Some x, Some y) \<Rightarrow> (case d of Ascending \<Rightarrow> rank_compare x y | Descending \<Rightarrow> rank_compare y x)
      | (Some _, None) \<Rightarrow> OLess | (None, Some _) \<Rightarrow> OGreater | (None, None) \<Rightarrow> OEqual)"

lemma comparator_ranked: "comparator (compare_ranked d)"
proof -
  note c = comparator.sym [OF comparator_rank] comparator.trans [OF comparator_rank]
  show ?thesis
  proof (rule comparator.intro)
    show "compare_ranked d a b = reverse (compare_ranked d b a)" for a b
      using c(1) [symmetric] by (cases d; cases a; cases b) (simp_all add: compare_ranked_def)
    show "compare_ranked d x y \<noteq> OGreater \<Longrightarrow> compare_ranked d y z \<noteq> OGreater \<Longrightarrow>
          compare_ranked d x z \<noteq> OGreater" for x y z
      by (cases d; cases x; cases y; cases z; simp add: compare_ranked_def; metis c(2))
  qed
qed

definition well_shaped :: "read_as \<Rightarrow> sortable option \<Rightarrow> bool" where
  "well_shaped r v \<longleftrightarrow> (\<forall>x. v = Some x \<longrightarrow> shape_ok r x)"

lemma compare_by_ranked:
  "well_shaped r a \<Longrightarrow> well_shaped r b \<Longrightarrow> compare_by d a b = compare_ranked d a b"
  using comparator.sym [OF comparator_rank, symmetric]
  by (cases d; cases a; cases b)
     (simp_all add: compare_by_def compare_ranked_def well_shaped_def compare_sortable_rank)

lemma order_value_shaped: "well_shaped r (order_value W ord r fields_of item)"
  by (auto simp: well_shaped_def order_value_def order_read_shape split: option.splits)

lemma order_compare_eq:
  "(\<lambda>a b. compare_by d (order_value W ord r fields_of a) (order_value W ord r fields_of b))
   = (\<lambda>a b. compare_ranked d (order_value W ord r fields_of a) (order_value W ord r fields_of b))"
  by (intro ext compare_by_ranked [where r = r] order_value_shaped)

lemma comparator_pull: "comparator c \<Longrightarrow> comparator (\<lambda>x y. c (f x) (f y))"
proof (rule comparator.intro)
  show "comparator c \<Longrightarrow> c (f x) (f y) = reverse (c (f y) (f x))" for x y by (rule comparator.sym)
  show "comparator c \<Longrightarrow> c (f x) (f y) \<noteq> OGreater \<Longrightarrow> c (f y) (f z) \<noteq> OGreater \<Longrightarrow>
      c (f x) (f z) \<noteq> OGreater" for x y z by (rule comparator.trans)
qed

interpretation ordered_answers: comparator
  "\<lambda>a b. compare_by d (order_value W ord r fields_of a) (order_value W ord r fields_of b)"
  unfolding order_compare_eq by (rule comparator_pull) (rule comparator_ranked)

text \<open>
  ordering the answers is a stable sort: the result is a permutation of the items, no item
  comes before one that compares less in the asked direction, the items without a value come
  last whatever the direction, and items that compare equal keep their order.
\<close>

theorem order_sort_stable:
  fixes W ord items fields_of declared k
  defines "r \<equiv> order_read_as W ord declared k"
  defines "value \<equiv> order_value W ord r fields_of"
  defines "out \<equiv> fst (order_sort W ord items fields_of declared k)"
  shows "mset out = mset items
    \<and> sorted_wrt (\<lambda>a b. compare_by (order_direction ord) (value a) (value b) \<noteq> OGreater) out
    \<and> sorted_wrt (\<lambda>a b. \<not> (value a = None \<and> value b \<noteq> None)) out
    \<and> filter (\<lambda>b. compare_by (order_direction ord) (value z) (value b) = OEqual) out
        = filter (\<lambda>b. compare_by (order_direction ord) (value z) (value b) = OEqual) items"
proof -
  have out: "out = sort_by (\<lambda>a b. compare_by (order_direction ord) (value a) (value b)) items"
    by (simp add: out_def order_sort_def Let_def value_def r_def)
  have s: "sorted_wrt (\<lambda>a b. compare_by (order_direction ord) (value a) (value b) \<noteq> OGreater) out"
    unfolding out value_def by (rule ordered_answers.sorted_sort_by)
  have n: "compare_by d a b \<noteq> OGreater \<Longrightarrow> \<not> (a = None \<and> b \<noteq> None)" for d a b
    by (cases a; cases b) (auto simp: compare_by_def)
  have "sorted_wrt (\<lambda>a b. \<not> (value a = None \<and> value b \<noteq> None)) out"
    by (rule sorted_wrt_mono_rel [OF _ s]) (use n in blast)
  moreover have "filter (\<lambda>b. compare_by (order_direction ord) (value z) (value b) = OEqual) out
      = filter (\<lambda>b. compare_by (order_direction ord) (value z) (value b) = OEqual) items"
    unfolding out value_def by (rule ordered_answers.sort_by_stable)
  ultimately show ?thesis using s by (simp add: out)
qed

text \<open>
  The documented limit on conjunctions is applied where a tree multiplies out, and not to a
  single \<open>in\<close> list, which routes to one conjunction per value however many there are.
\<close>

lemma in_list_over_the_limit:
  "\<exists>q r. routed_of q = Some r \<and> length (any_of r) > MOST_CONJUNCTIONS"
proof -
  let ?q = "is_in ''status'' (replicate 17 ''done'')"
  have "routed_of ?q = Some \<lparr>any_of = map (\<lambda>v. [\<lparr>term_key = trim (trim ''status''),
      term_value = Some (trim v), term_ask = None\<rparr>]) (replicate 17 ''done''), exact = True\<rparr>"
    by (simp add: is_in_def leaf_of_def leaf_routed_def Let_def)
  then show ?thesis by (intro exI) (auto simp: MOST_CONJUNCTIONS_def)
qed

end
