(* ===== verification/Expression.thy ===== *)
theory Expression
  imports Query_Filter
begin

text \<open>
  \<open>memory/filter/expression.rs\<close>: the one-line language a query is written in, its lexer and
  its reader.  The lexer works on the characters of the text, each given by its UTF-8 bytes.
  A refusal is a constructor with the values its message interpolates; the wording, and the
  list of accepted words, which is fixed per place, is the place.
\<close>

definition MAX_LENGTH :: nat where "MAX_LENGTH = 4096"
definition MAX_DEPTH :: nat where "MAX_DEPTH = 32"

datatype accepted =
    StartOfTerm | AfterAKey | AValue | OpenList | ListNext | ListEnd | GroupNext | GroupEnd
  | TheEnd | AnOperand

datatype refusal =
    TooLong
  | EmptyExpression
  | LoneAmpersand nat
  | LoneBar nat
  | UnclosedQuote nat
  | Unexpected string nat accepted
  | Ended accepted
  | TooDeep string nat
  | DoubleEquals nat
  | QuotedOperand string nat
  | NotComparable string string nat
  | NotRelative string nat
  | NotADate string
  | QuoteInInput

section \<open>Tokens\<close>

datatype token_kind =
    TOpen | TClose | TComma | TNot | TAnd | TOr | TEquals | TNotEquals
  | TLess | TLessOrEqual | TGreater | TGreaterOrEqual
  | TWord string
  | TQuoted string

record token =
  token_kind :: token_kind
  token_position :: nat
  token_end :: nat

definition DQ :: char where "DQ = CHR 0x22"

primrec spelled :: "token_kind \<Rightarrow> string" where
  "spelled TOpen = ''(''"
| "spelled TClose = '')''"
| "spelled TComma = '',''"
| "spelled TNot = ''!''"
| "spelled TAnd = ''&&''"
| "spelled TOr = ''||''"
| "spelled TEquals = ''=''"
| "spelled TNotEquals = ''!=''"
| "spelled TLess = ''<''"
| "spelled TLessOrEqual = ''<=''"
| "spelled TGreater = ''>''"
| "spelled TGreaterOrEqual = ''>=''"
| "spelled (TWord w) = w"
| "spelled (TQuoted w) = DQ # w @ [DQ]"

definition word_enders :: "string list" where
  "word_enders = map (\<lambda>c. [c]) (''()!=<>&|'' @ [DQ] @ '','')"

definition ends_a_word :: "string \<Rightarrow> bool" where
  "ends_a_word c \<longleftrightarrow> is_ws_char c \<or> c \<in> set word_enders"

text \<open>One token at a character that is not white space: its kind and its width.\<close>

definition lex_one :: "nat \<Rightarrow> string \<Rightarrow> string list \<Rightarrow> refusal + (token_kind \<times> nat)" where
  "lex_one pos c cs =
     (let next = (case cs of [] \<Rightarrow> [] | n # _ \<Rightarrow> n) in
      if c = ''('' then Inr (TOpen, 1)
      else if c = '')'' then Inr (TClose, 1)
      else if c = '','' then Inr (TComma, 1)
      else if c = ''&'' \<and> next = ''&'' then Inr (TAnd, 2)
      else if c = ''|'' \<and> next = ''|'' then Inr (TOr, 2)
      else if c = ''!'' \<and> next = ''='' then Inr (TNotEquals, 2)
      else if c = ''!'' then Inr (TNot, 1)
      else if c = ''<'' \<and> next = ''='' then Inr (TLessOrEqual, 2)
      else if c = ''<'' then Inr (TLess, 1)
      else if c = ''>'' \<and> next = ''='' then Inr (TGreaterOrEqual, 2)
      else if c = ''>'' then Inr (TGreater, 1)
      else if c = ''='' then Inr (TEquals, 1)
      else if c = ''&'' then Inl (LoneAmpersand pos)
      else if c = ''|'' then Inl (LoneBar pos)
      else if c = [DQ] then
        (case position (\<lambda>d. d = [DQ]) cs of
           None \<Rightarrow> Inl (UnclosedQuote pos)
         | Some close \<Rightarrow> Inr (TQuoted (concat (take close cs)), close + 2))
      else
        (let width = (case position ends_a_word (c # cs) of
                        None \<Rightarrow> length (c # cs) | Some w \<Rightarrow> w)
         in Inr (TWord (concat (take width (c # cs))), width)))"

function lex_from :: "nat \<Rightarrow> string list \<Rightarrow> refusal + token list" where
  "lex_from i [] = Inr []"
| "lex_from i (c # cs) =
     (if is_ws_char c then lex_from (i + 1) cs
      else ok_then (lex_one (i + 1) c cs) (\<lambda>(k, width).
           ok_then (lex_from (i + width) (drop (width - 1) cs)) (\<lambda>ts.
             Inr (\<lparr>token_kind = k, token_position = i + 1, token_end = i + 1 + width\<rparr> # ts))))"
  by pat_completeness auto
termination lex_from
  by (relation "measure (\<lambda>(i, cs). length cs)") auto

definition lex :: "string \<Rightarrow> refusal + token list" where
  "lex text = lex_from 0 (utf8_chars text)"

section \<open>The reader\<close>

record value_word =
  word_start :: nat
  word_end :: nat
  word_text :: string

text \<open>
  The reader's state: the tokens from \<open>at\<close> on, the depth, and the value words met.  The day it
  reads for does not change and is an argument.
\<close>

record reader =
  rest :: "token list"
  depth :: nat
  value_words_met :: "value_word list"

datatype operand = OText string | ODay string

definition is_a_number :: "string \<Rightarrow> bool" where
  "is_a_number text = (case parse_f64 text of None \<Rightarrow> False | Some x \<Rightarrow> is_finite x)"

definition unexpected :: "token \<Rightarrow> accepted \<Rightarrow> refusal" where
  "unexpected t acc = Unexpected (spelled (token_kind t)) (token_position t) acc"

text \<open>A word that may be a day relative to today: \<open>today\<close>, \<open>today+3d\<close>, \<open>today-2w\<close>.\<close>

definition read_word :: "world \<Rightarrow> int \<Rightarrow> string \<Rightarrow> token \<Rightarrow> refusal + operand" where
  "read_word W today word t =
     (case strip_prefix ''today'' word of
        None \<Rightarrow> Inr (OText word)
      | Some r \<Rightarrow>
          (case r of
             [] \<Rightarrow> Inr (ODay (text_of_date W today))
           | c # digits \<Rightarrow>
               if c \<noteq> CHR ''+'' \<and> c \<noteq> CHR ''-'' then Inr (OText word)
               else
                 (let sign = (if c = CHR ''+'' then 1 else - 1);
                      chars = utf8_chars digits;
                      count = concat (butlast chars);
                      unit = (if chars = [] then [] else last chars);
                      days = (case parse_unsigned u32_max count of
                                None \<Rightarrow> None
                              | Some n \<Rightarrow> if unit = ''d'' then Some (int n)
                                          else if unit = ''w'' then Some (int n * 7)
                                          else None)
                  in case Option.bind days (\<lambda>days. add_days W today (sign * days)) of
                       Some day \<Rightarrow> Inr (ODay (text_of_date W day))
                     | None \<Rightarrow> Inl (NotRelative word (token_position t)))))"

definition enter :: "token \<Rightarrow> reader \<Rightarrow> refusal + reader" where
  "enter t r =
     (let d = depth r + 1 in
      if d > MAX_DEPTH then Inl (TooDeep (spelled (token_kind t)) (token_position t))
      else Inr (r\<lparr>depth := d\<rparr>))"

definition read_value :: "world \<Rightarrow> int \<Rightarrow> reader \<Rightarrow> refusal + (string \<times> reader)" where
  "read_value W today r =
     (case rest r of
        [] \<Rightarrow> Inl (Ended AValue)
      | t # ts \<Rightarrow>
          (let r = r\<lparr>rest := ts\<rparr> in
           case token_kind t of
             TWord w \<Rightarrow>
               (let met = \<lparr>word_start = token_position t - 1, word_end = token_end t - 1, word_text = w\<rparr>;
                    r = r\<lparr>value_words_met := value_words_met r @ [met]\<rparr>
                in ok_then (read_word W today w t) (\<lambda>v.
                     Inr ((case v of OText x \<Rightarrow> x | ODay x \<Rightarrow> x), r)))
           | TQuoted w \<Rightarrow>
               (let met = \<lparr>word_start = token_position t, word_end = token_end t - 2, word_text = w\<rparr>
                in Inr (trim w, r\<lparr>value_words_met := value_words_met r @ [met]\<rparr>))
           | TEquals \<Rightarrow> Inl (DoubleEquals (token_position t))
           | _ \<Rightarrow> Inl (unexpected t AValue)))"

lemma enter_rest: "enter t r = Inr r' \<Longrightarrow> rest r' = rest r"
  by (auto simp: enter_def Let_def split: if_splits)

lemma read_value_rest: "read_value W today r = Inr (v, r') \<Longrightarrow> length (rest r) = Suc (length (rest r'))"
  by (auto simp: read_value_def Let_def ok_then_Inr split: list.splits token_kind.splits)

text \<open>The items after the first one, to the closing parenthesis.\<close>

function read_items :: "world \<Rightarrow> int \<Rightarrow> reader \<Rightarrow> refusal + (string list \<times> reader)" where
  "read_items W today r =
     (case rest r of
        [] \<Rightarrow> Inl (Ended ListEnd)
      | t # ts \<Rightarrow>
          (let r = r\<lparr>rest := ts\<rparr> in
           case token_kind t of
             TComma \<Rightarrow> ok_then (read_value W today r) (\<lambda>(v, r).
                        ok_then (read_items W today r) (\<lambda>(vs, r). Inr (v # vs, r)))
           | TClose \<Rightarrow> Inr ([], r)
           | _ \<Rightarrow> Inl (unexpected t ListNext)))"
  by pat_completeness auto
termination read_items
  by (relation "measure (\<lambda>(W, today, r). length (rest r))") (auto dest: read_value_rest)

declare read_items.simps [simp del]

definition read_list :: "world \<Rightarrow> int \<Rightarrow> reader \<Rightarrow> refusal + (string list \<times> reader)" where
  "read_list W today r =
     (case rest r of
        [] \<Rightarrow> Inl (Ended OpenList)
      | t # ts \<Rightarrow>
          if token_kind t \<noteq> TOpen then Inl (unexpected t OpenList)
          else ok_then (read_value W today (r\<lparr>rest := ts\<rparr>)) (\<lambda>(v, r).
               ok_then (read_items W today r) (\<lambda>(vs, r). Inr (v # vs, r))))"

definition read_operand :: "world \<Rightarrow> int \<Rightarrow> token \<Rightarrow> reader \<Rightarrow> refusal + ((value_type \<times> string) \<times> reader)" where
  "read_operand W today p r =
     (case rest r of
        [] \<Rightarrow> Inl (Ended AnOperand)
      | t # ts \<Rightarrow>
          (let r = r\<lparr>rest := ts\<rparr> in
           case token_kind t of
             TQuoted w \<Rightarrow> Inl (QuotedOperand w (token_position t))
           | TWord w \<Rightarrow>
               ok_then (read_word W today w t) (\<lambda>v.
                 case v of
                   ODay day \<Rightarrow> Inr ((VDate, day), r)
                 | OText text \<Rightarrow>
                     if date_of_text W text \<noteq> None then Inr ((VDate, text), r)
                     else if is_a_number text then Inr ((VNumber, text), r)
                     else Inl (NotComparable (spelled (token_kind p)) w (token_position t)))
           | _ \<Rightarrow> Inl (unexpected t AnOperand)))"

definition order_op :: "token_kind \<Rightarrow> op option" where
  "order_op k =
     (case k of TLess \<Rightarrow> Some Less | TLessOrEqual \<Rightarrow> Some LessOrEqual
      | TGreater \<Rightarrow> Some Greater | TGreaterOrEqual \<Rightarrow> Some GreaterOrEqual | _ \<Rightarrow> None)"

definition read_term :: "world \<Rightarrow> int \<Rightarrow> string \<Rightarrow> reader \<Rightarrow> refusal + (query \<times> reader)" where
  "read_term W today k r =
     (case rest r of
        [] \<Rightarrow> Inr (exists_key k, r)
      | t # ts \<Rightarrow>
          (let tk = token_kind t; r' = r\<lparr>rest := ts\<rparr> in
           if tk = TAnd \<or> tk = TOr \<or> tk = TClose then Inr (exists_key k, r)
           else if tk = TEquals then
             ok_then (read_value W today r') (\<lambda>(v, r). Inr (equals k v, r))
           else if tk = TNotEquals then
             ok_then (read_value W today r') (\<lambda>(v, r). Inr (not_equals k v, r))
           else if tk = TWord ''in'' then
             ok_then (read_list W today r') (\<lambda>(vs, r). Inr (is_in k vs, r))
           else if tk = TWord ''contains'' then
             ok_then (read_value W today r') (\<lambda>(v, r). Inr (contains k v, r))
           else case order_op tk of
             None \<Rightarrow> Inl (unexpected t AfterAKey)
           | Some p \<Rightarrow> ok_then (read_operand W today t r') (\<lambda>((h, v), r). Inr (ordering_of k p h v, r))))"

definition one_or :: "query list \<Rightarrow> (query list \<Rightarrow> query) \<Rightarrow> query" where
  "one_or parts combine = (case parts of [q] \<Rightarrow> q | _ \<Rightarrow> combine parts)"

function (sequential)
    read_or :: "world \<Rightarrow> int \<Rightarrow> reader \<Rightarrow> refusal + (query \<times> reader)"
and more_or :: "world \<Rightarrow> int \<Rightarrow> reader \<Rightarrow> refusal + (query list \<times> reader)"
and read_and :: "world \<Rightarrow> int \<Rightarrow> reader \<Rightarrow> refusal + (query \<times> reader)"
and more_and :: "world \<Rightarrow> int \<Rightarrow> reader \<Rightarrow> refusal + (query list \<times> reader)"
and read_unary :: "world \<Rightarrow> int \<Rightarrow> reader \<Rightarrow> refusal + (query \<times> reader)" where
  "read_or W today r =
     ok_then (read_and W today r) (\<lambda>(q, r1).
     ok_then (more_or W today r1) (\<lambda>(qs, r2). Inr (one_or (q # qs) Any, r2)))"
| "more_or W today r =
     (case rest r of
        [] \<Rightarrow> Inr ([], r)
      | t # ts \<Rightarrow>
          if token_kind t \<noteq> TOr then Inr ([], r)
          else ok_then (read_and W today (r\<lparr>rest := ts\<rparr>)) (\<lambda>(q, r1).
               ok_then (more_or W today r1) (\<lambda>(qs, r2). Inr (q # qs, r2))))"
| "read_and W today r =
     ok_then (read_unary W today r) (\<lambda>(q, r1).
     ok_then (more_and W today r1) (\<lambda>(qs, r2). Inr (one_or (q # qs) All, r2)))"
| "more_and W today r =
     (case rest r of
        [] \<Rightarrow> Inr ([], r)
      | t # ts \<Rightarrow>
          if token_kind t \<noteq> TAnd then Inr ([], r)
          else ok_then (read_unary W today (r\<lparr>rest := ts\<rparr>)) (\<lambda>(q, r1).
               ok_then (more_and W today r1) (\<lambda>(qs, r2). Inr (q # qs, r2))))"
| "read_unary W today r =
     (case rest r of
        [] \<Rightarrow> Inl (Ended StartOfTerm)
      | t # ts \<Rightarrow>
          (case token_kind t of
             TNot \<Rightarrow>
               ok_then (enter t (r\<lparr>rest := ts\<rparr>)) (\<lambda>r.
               ok_then (read_unary W today r) (\<lambda>(inner, r). Inr (Not inner, r\<lparr>depth := depth r - 1\<rparr>)))
           | TOpen \<Rightarrow>
               ok_then (enter t (r\<lparr>rest := ts\<rparr>)) (\<lambda>r.
               ok_then (read_or W today r) (\<lambda>(inner, r).
                 let r = r\<lparr>depth := depth r - 1\<rparr> in
                 case rest r of
                   [] \<Rightarrow> Inl (Ended GroupEnd)
                 | u # us \<Rightarrow> if token_kind u = TClose then Inr (inner, r\<lparr>rest := us\<rparr>)
                             else Inl (unexpected u GroupNext)))
           | TWord k \<Rightarrow> read_term W today k (r\<lparr>rest := ts\<rparr>)
           | _ \<Rightarrow> Inl (unexpected t StartOfTerm)))"
  by pat_completeness auto

text \<open>
  The reader terminates: every function that returns a tree has consumed a token, so each call
  works on fewer tokens or one level further down at the same tokens.
\<close>

lemma read_items_rest: "read_items W today r = Inr (vs, r') \<Longrightarrow> length (rest r') < length (rest r)"
proof (induction W today r arbitrary: vs r' rule: read_items.induct)
  case (1 W today r)
  obtain t ts where r: "rest r = t # ts" using "1.prems" by (cases "rest r") (auto simp: read_items.simps)
  show ?case
  proof (cases "token_kind t")
    case TComma
    then obtain v r1 vs1 where 2: "read_value W today (r\<lparr>rest := ts\<rparr>) = Inr (v, r1)"
        "read_items W today r1 = Inr (vs1, r')"
      using "1.prems" r by (auto simp: read_items.simps [of W today r] ok_then_Inr)
    then have "length (rest r') < length (rest r1)" using "1.IH" r TComma by auto
    then show ?thesis using read_value_rest [OF 2(1)] r by simp
  next
    case TClose
    then show ?thesis using "1.prems" r by (auto simp: read_items.simps)
  qed (use "1.prems" r in \<open>auto simp: read_items.simps\<close>)
qed

lemma read_list_rest: "read_list W today r = Inr (v, r') \<Longrightarrow> length (rest r') < length (rest r)"
  by (auto simp: read_list_def ok_then_Inr split: list.split_asm if_split_asm
      dest!: read_value_rest read_items_rest)

lemma read_operand_rest: "read_operand W today p r = Inr (v, r') \<Longrightarrow> length (rest r) = Suc (length (rest r'))"
  by (auto simp: read_operand_def Let_def elim!: ok_then_InrE
      split: list.split_asm token_kind.split_asm operand.split_asm if_split_asm)

lemma read_term_rest: "read_term W today k r = Inr (q, r') \<Longrightarrow> length (rest r') \<le> length (rest r)"
  by (auto simp: read_term_def Let_def ok_then_Inr split: list.splits if_splits option.splits
      dest!: read_value_rest read_list_rest read_operand_rest)

lemma read_shrinks:
  "read_or_more_or_read_and_more_and_read_unary_dom (Inl (Inl (W, today, r))) \<Longrightarrow>
     read_or W today r = Inr (q, r') \<Longrightarrow> length (rest r') < length (rest r)"
  "read_or_more_or_read_and_more_and_read_unary_dom (Inl (Inr (W, today, r))) \<Longrightarrow>
     more_or W today r = Inr (qs, r') \<Longrightarrow> length (rest r') \<le> length (rest r)"
  "read_or_more_or_read_and_more_and_read_unary_dom (Inr (Inl (W, today, r))) \<Longrightarrow>
     read_and W today r = Inr (q, r') \<Longrightarrow> length (rest r') < length (rest r)"
  "read_or_more_or_read_and_more_and_read_unary_dom (Inr (Inr (Inl (W, today, r)))) \<Longrightarrow>
     more_and W today r = Inr (qs, r') \<Longrightarrow> length (rest r') \<le> length (rest r)"
  "read_or_more_or_read_and_more_and_read_unary_dom (Inr (Inr (Inr (W, today, r)))) \<Longrightarrow>
     read_unary W today r = Inr (q, r') \<Longrightarrow> length (rest r') < length (rest r)"
proof (induction W today r and W today r and W today r and W today r and W today r
       arbitrary: q r' and qs r' and q r' and qs r' and q r'
       rule: read_or_more_or_read_and_more_and_read_unary.pinduct)
  case (1 W today r)
  then show ?case by (fastforce simp: read_or.psimps ok_then_Inr)
next
  case (2 W today r)
  then show ?case by (fastforce simp: more_or.psimps ok_then_Inr split: list.splits if_splits)
next
  case (3 W today r)
  then show ?case by (fastforce simp: read_and.psimps ok_then_Inr)
next
  case (4 W today r)
  then show ?case by (fastforce simp: more_and.psimps ok_then_Inr split: list.splits if_splits)
next
  case (5 W today r)
  obtain t ts where r: "rest r = t # ts" using 5 by (cases "rest r") (auto simp: read_unary.psimps)
  show ?case
  proof (cases "token_kind t")
    case TOpen
    then obtain r1 r2 u where r1: "enter t (r\<lparr>rest := ts\<rparr>) = Inr r1"
        "read_or W today r1 = Inr (q, r2)" "rest r2 = u # rest r'"
      using 5(1,4) r
      by (auto simp: read_unary.psimps Let_def elim!: ok_then_InrE split: list.split_asm if_split_asm)
    then have "length (rest r2) < length (rest r1)" using 5(2) TOpen r by blast
    then show ?thesis using enter_rest [OF r1(1)] r1(3) r by simp
  next
    case TNot
    then obtain r1 q1 r2 where r1: "enter t (r\<lparr>rest := ts\<rparr>) = Inr r1"
        "read_unary W today r1 = Inr (q1, r2)" "rest r2 = rest r'"
      using 5(1,4) r by (auto simp: read_unary.psimps elim!: ok_then_InrE)
    then have "length (rest r2) < length (rest r1)" using 5(3) TNot r by blast
    then show ?thesis using enter_rest [OF r1(1)] r1(3) r by simp
  next
    case (TWord k)
    then have "read_term W today k (r\<lparr>rest := ts\<rparr>) = Inr (q, r')"
      using 5(1,4) r by (simp add: read_unary.psimps)
    then show ?thesis using read_term_rest [of W today k "r\<lparr>rest := ts\<rparr>"] r by fastforce
  qed (use 5 r in \<open>auto simp: read_unary.psimps\<close>)
qed

termination read_or
proof (relation "measure (\<lambda>x. case x of
          Inl (Inl (W, today, r)) \<Rightarrow> 4 * length (rest r) + 2
        | Inl (Inr (W, today, r)) \<Rightarrow> 4 * length (rest r)
        | Inr (Inl (W, today, r)) \<Rightarrow> 4 * length (rest r) + 1
        | Inr (Inr (Inl (W, today, r))) \<Rightarrow> 4 * length (rest r)
        | Inr (Inr (Inr (W, today, r))) \<Rightarrow> 4 * length (rest r))", simp_all, goal_cases)
  case (1 W today r x q y)
  then show ?case using read_shrinks(3) [of W today r q y] by simp
next
  case (2 W today r t ts x q y)
  then show ?case using read_shrinks(3) [of W today "r\<lparr>rest := ts\<rparr>" q y] by simp
next
  case (3 W today r x q y)
  then show ?case using read_shrinks(5) [of W today r q y] by simp
next
  case (4 W today r t ts x q y)
  then show ?case using read_shrinks(5) [of W today "r\<lparr>rest := ts\<rparr>" q y] by simp
qed (auto dest: enter_rest)

declare read_or.simps [simp del] more_or.simps [simp del] read_and.simps [simp del]
  more_and.simps [simp del] read_unary.simps [simp del]

definition start_reader :: "token list \<Rightarrow> reader" where
  "start_reader ts = \<lparr>rest = ts, depth = 0, value_words_met = []\<rparr>"

definition read_expression :: "world \<Rightarrow> string \<Rightarrow> int \<Rightarrow> refusal + (query \<times> value_word list)" where
  "read_expression W text today =
     (if char_count text > MAX_LENGTH then Inl TooLong
      else ok_then (lex text) (\<lambda>tokens.
        if tokens = [] then Inl EmptyExpression
        else ok_then (read_or W today (start_reader tokens)) (\<lambda>(tree, r).
          case rest r of
            [] \<Rightarrow> Inr (tree, value_words_met r)
          | t # _ \<Rightarrow> Inl (unexpected t TheEnd))))"

definition parse :: "world \<Rightarrow> string \<Rightarrow> int \<Rightarrow> refusal + query" where
  "parse W text today = ok_then (read_expression W text today) (\<lambda>(tree, _). Inr tree)"

text \<open>
  \<open>Date::constant(2000, 1, 1)\<close>, the day the reads that do not keep the tree are given, as a
  day number of the calendar: an argument, because the calendar is one.
\<close>

definition value_words :: "world \<Rightarrow> int \<Rightarrow> string \<Rightarrow> refusal + value_word list" where
  "value_words W y2k text = ok_then (read_expression W text y2k) (\<lambda>(_, values). Inr values)"

definition date_word :: "world \<Rightarrow> string \<Rightarrow> int \<Rightarrow> refusal + string" where
  "date_word W word today =
     ok_then (read_word W today word
                \<lparr>token_kind = TWord word, token_position = 1, token_end = char_count word + 1\<rparr>)
       (\<lambda>v. case v of
              ODay day \<Rightarrow> Inr day
            | OText text \<Rightarrow> if date_of_text W text \<noteq> None then Inr text else Inl (NotADate word))"


section \<open>What the reader builds\<close>

fun height :: "query \<Rightarrow> nat" where
  "height (All qs) = Suc (foldr max (map height qs) 0)"
| "height (Any qs) = Suc (foldr max (map height qs) 0)"
| "height (Not q) = Suc (height q)"
| "height (Leaf l) = 1"
| "height (Refs k u q) = Suc (height q)"
| "height Finished = 1"

lemma foldr_max_le: "foldr max xs 0 \<le> (n::nat) \<longleftrightarrow> (\<forall>x \<in> set xs. x \<le> n)"
  by (induction xs) auto

text \<open>
  A tree the reader made at a level: its leaves carry trimmed keys, and its height is within
  what the remaining levels allow.
\<close>

definition built :: "nat \<Rightarrow> query \<Rightarrow> bool" where
  "built n q \<longleftrightarrow> well_keyed q \<and> height q \<le> n"

lemma read_value_depth: "read_value W today r = Inr (v, r') \<Longrightarrow> depth r' = depth r"
  by (auto simp: read_value_def Let_def elim!: ok_then_InrE split: list.splits token_kind.splits)

lemma read_items_depth: "read_items W today r = Inr (vs, r') \<Longrightarrow> depth r' = depth r"
proof (induction W today r arbitrary: vs r' rule: read_items.induct)
  case (1 W today r)
  obtain t ts where r: "rest r = t # ts" using "1.prems" by (cases "rest r") (auto simp: read_items.simps)
  show ?case
  proof (cases "token_kind t")
    case TComma
    then obtain v r1 vs1 where 2: "read_value W today (r\<lparr>rest := ts\<rparr>) = Inr (v, r1)"
        "read_items W today r1 = Inr (vs1, r')"
      using "1.prems" r by (auto simp: read_items.simps [of W today r] elim!: ok_then_InrE)
    then have "depth r' = depth r1" using "1.IH" [OF r refl TComma 2(1) refl] by blast
    then show ?thesis using read_value_depth [OF 2(1)] by simp
  next
    case TClose
    then show ?thesis using "1.prems" r by (auto simp: read_items.simps)
  qed (use "1.prems" r in \<open>auto simp: read_items.simps\<close>)
qed

lemma read_list_depth: "read_list W today r = Inr (v, r') \<Longrightarrow> depth r' = depth r"
proof -
  assume *: "read_list W today r = Inr (v, r')"
  obtain ts w r1 ws where "read_value W today (r\<lparr>rest := ts\<rparr>) = Inr (w, r1)"
      "read_items W today r1 = Inr (ws, r')"
    using * by (auto simp: read_list_def split: list.split_asm if_split_asm elim!: ok_then_InrE)
  then show ?thesis using read_value_depth read_items_depth by fastforce
qed

lemma read_operand_depth: "read_operand W today p r = Inr (v, r') \<Longrightarrow> depth r' = depth r"
  by (auto simp: read_operand_def Let_def elim!: ok_then_InrE
      split: list.split_asm token_kind.split_asm operand.split_asm if_split_asm)

lemma height_leaf_of [simp]: "height (leaf_of k t) = 1"
  by (simp add: leaf_of_def)

lemmas leaf_builders = exists_key_def equals_def not_equals_def is_in_def contains_def ordering_of_def

lemma read_term_built:
  "read_term W today k r = Inr (q, r') \<Longrightarrow> built 1 q \<and> depth r' = depth r"
  by (auto simp: read_term_def Let_def leaf_builders built_def elim!: ok_then_InrE
      split: list.split_asm if_split_asm option.split_asm
      dest!: read_value_depth read_list_depth read_operand_depth)

lemma enter_Inr: "enter t r = Inr r' \<longleftrightarrow> depth r < MAX_DEPTH \<and> r' = r\<lparr>depth := depth r + 1\<rparr>"
  by (auto simp: enter_def Let_def)

definition levels :: "reader \<Rightarrow> nat" where
  "levels r = 2 * (MAX_DEPTH - depth r)"

lemma built_one_or:
  assumes "combine = All \<or> combine = Any" and "\<forall>q \<in> set (p # ps). built n q"
  shows "built (Suc n) (one_or (p # ps) combine)"
  using assms by (cases ps) (auto simp: one_or_def built_def list_all_iff foldr_max_le)

lemma reader_builds:
  "read_or W today r = Inr (q, r') \<Longrightarrow> built (levels r + 3) q \<and> depth r' = depth r"
  "more_or W today r = Inr (qs, r') \<Longrightarrow> (\<forall>q \<in> set qs. built (levels r + 2) q) \<and> depth r' = depth r"
  "read_and W today r = Inr (q, r') \<Longrightarrow> built (levels r + 2) q \<and> depth r' = depth r"
  "more_and W today r = Inr (qs, r') \<Longrightarrow> (\<forall>q \<in> set qs. built (levels r + 1) q) \<and> depth r' = depth r"
  "read_unary W today r = Inr (q, r') \<Longrightarrow> built (levels r + 1) q \<and> depth r' = depth r"
proof (induction W today r and W today r and W today r and W today r and W today r
       arbitrary: q r' and qs r' and q r' and qs r' and q r'
       rule: read_or_more_or_read_and_more_and_read_unary.induct)
  case (1 W today r)
  obtain p ps r1 where *: "read_and W today r = Inr (p, r1)" "more_or W today r1 = Inr (ps, r')"
      "q = one_or (p # ps) Any"
    using "1.prems" by (auto simp: read_or.simps elim!: ok_then_InrE)
  have "built (levels r + 2) p" "depth r1 = depth r" using "1.IH"(1) [OF *(1)] by auto
  moreover have "\<forall>x \<in> set ps. built (levels r1 + 2) x" "depth r' = depth r1"
    using "1.IH"(2) [OF *(1) refl *(2)] by auto
  ultimately show ?case using built_one_or [of Any p ps "levels r + 2"] *(3)
    by (simp add: levels_def numeral_3_eq_3)
next
  case (2 W today r)
  show ?case
  proof (cases "rest r")
    case (Cons t ts)
    show ?thesis
    proof (cases "token_kind t = TOr")
      case True
      obtain p ps r1 where *: "read_and W today (r\<lparr>rest := ts\<rparr>) = Inr (p, r1)"
          "more_or W today r1 = Inr (ps, r')" "qs = p # ps"
        using "2.prems" Cons True by (auto simp: more_or.simps [of W today r] elim!: ok_then_InrE)
      then show ?thesis
        using "2.IH"(1) [OF Cons _ *(1)] "2.IH"(2) [OF Cons _ *(1) refl *(2)] True
        by (simp add: levels_def)
    qed (use "2.prems" Cons in \<open>simp add: more_or.simps\<close>)
  qed (use "2.prems" in \<open>simp add: more_or.simps\<close>)
next
  case (3 W today r)
  obtain p ps r1 where *: "read_unary W today r = Inr (p, r1)" "more_and W today r1 = Inr (ps, r')"
      "q = one_or (p # ps) All"
    using "3.prems" by (auto simp: read_and.simps elim!: ok_then_InrE)
  have "built (levels r + 1) p" "depth r1 = depth r" using "3.IH"(1) [OF *(1)] by auto
  moreover have "\<forall>x \<in> set ps. built (levels r1 + 1) x" "depth r' = depth r1"
    using "3.IH"(2) [OF *(1) refl *(2)] by auto
  ultimately show ?case using built_one_or [of All p ps "levels r + 1"] *(3) by (simp add: levels_def)
next
  case (4 W today r)
  show ?case
  proof (cases "rest r")
    case (Cons t ts)
    show ?thesis
    proof (cases "token_kind t = TAnd")
      case True
      obtain p ps r1 where *: "read_unary W today (r\<lparr>rest := ts\<rparr>) = Inr (p, r1)"
          "more_and W today r1 = Inr (ps, r')" "qs = p # ps"
        using "4.prems" Cons True by (auto simp: more_and.simps [of W today r] elim!: ok_then_InrE)
      then show ?thesis
        using "4.IH"(1) [OF Cons _ *(1)] "4.IH"(2) [OF Cons _ *(1) refl *(2)] True
        by (simp add: levels_def)
    qed (use "4.prems" Cons in \<open>simp add: more_and.simps\<close>)
  qed (use "4.prems" in \<open>simp add: more_and.simps\<close>)
next
  case (5 W today r)
  obtain t ts where r: "rest r = t # ts" using 5 by (cases "rest r") (auto simp: read_unary.simps)
  show ?case
  proof (cases "token_kind t")
    case TOpen
    then obtain r1 r2 where r1: "enter t (r\<lparr>rest := ts\<rparr>) = Inr r1"
        "read_or W today r1 = Inr (q, r2)" "depth r' = depth r2 - 1"
      using "5.prems" r
      by (auto simp: read_unary.simps Let_def elim!: ok_then_InrE split: list.split_asm if_split_asm)
    then have "built (levels r1 + 3) q" "depth r2 = depth r1"
      using "5.IH"(1) [OF r TOpen r1(1,2)] by blast+
    then show ?thesis using r1 by (auto simp: enter_Inr levels_def built_def)
  next
    case TNot
    then obtain r1 p r2 where r1: "enter t (r\<lparr>rest := ts\<rparr>) = Inr r1"
        "read_unary W today r1 = Inr (p, r2)" "depth r' = depth r2 - 1" "q = Not p"
      using "5.prems" r by (auto simp: read_unary.simps elim!: ok_then_InrE)
    then have "built (levels r1 + 1) p" "depth r2 = depth r1"
      using "5.IH"(2) [OF r TNot r1(1,2)] by blast+
    then show ?thesis using r1 by (auto simp: enter_Inr levels_def built_def)
  next
    case (TWord k)
    then have "read_term W today k (r\<lparr>rest := ts\<rparr>) = Inr (q, r')"
      using "5.prems" r by (simp add: read_unary.simps)
    then show ?thesis using read_term_built by (fastforce simp: built_def)
  qed (use "5.prems" r in \<open>auto simp: read_unary.simps\<close>)
qed

lemma parse_read_or:
  assumes "parse W text today = Inr q"
  obtains tokens r where "lex text = Inr tokens" "read_or W today (start_reader tokens) = Inr (q, r)"
  using assms
  by (auto simp: parse_def read_expression_def elim!: ok_then_InrE split: if_split_asm list.split_asm)

text \<open>
  a tree the reader returns is bounded: whatever the text, its height is at most
  twice the nesting limit plus three, and every key in it is trimmed.
\<close>

theorem parse_bounded:
  assumes "parse W text today = Inr q"
  shows "height q \<le> 2 * MAX_DEPTH + 3 \<and> well_keyed q"
proof -
  obtain tokens r where "read_or W today (start_reader tokens) = Inr (q, r)"
    using assms by (rule parse_read_or)
  then show ?thesis using reader_builds(1) by (fastforce simp: built_def levels_def start_reader_def)
qed

theorem parse_bounded_witness:
  "\<exists>q. parse sample_world ''name=ada'' 0 = Inr q \<and> height q \<le> 2 * MAX_DEPTH + 3"
proof -
  have "\<not> isl (parse sample_world ''name=ada'' 0)" by code_simp
  then show ?thesis using parse_bounded by (cases "parse sample_world ''name=ada'' 0") auto
qed

end
