(* ===== verification/Claims.thy ===== *)
theory Claims
  imports Vocabulary
begin

text \<open>
  Claims (\<open>memory.rs\<close>): a claim's own vocabulary (who backs it, how sure anyone is, whether it
  counts), the handles and addresses that name things and claims, the claim itself and the
  edit of a claim, and what is checked before one is written.

  A refusal is a constructor of \<open>memory_error\<close>; the wording of its message is fixed per
  constructor, and the values the message interpolates are the constructor's arguments.
\<close>

section \<open>Who backs a claim, and how sure anyone is\<close>

datatype provenance = Testimony | Observation | Inference
datatype standing = Settled | Unsettled  \<comment> \<open>\<open>Standing::Open\<close>\<close>
datatype fact_status = Active | Archived
datatype edge_shape = Location | Membership | Attendance | About | Connection

primrec provenance_token :: "provenance \<Rightarrow> string" where
  "provenance_token Testimony = ''testimony''"
| "provenance_token Observation = ''observation''"
| "provenance_token Inference = ''inference''"

definition provenance_of_token :: "string \<Rightarrow> provenance" where
  "provenance_of_token cell =
     (let c = trim cell in
      if c = ''testimony'' then Testimony else if c = ''observation'' then Observation else Inference)"

primrec default_for :: "provenance \<Rightarrow> standing" where
  "default_for Testimony = Settled"
| "default_for Observation = Settled"
| "default_for Inference = Unsettled"

primrec standing_token :: "standing \<Rightarrow> string" where
  "standing_token Settled = ''settled''"
| "standing_token Unsettled = ''open''"

definition standing_parse :: "string \<Rightarrow> provenance \<Rightarrow> standing" where
  "standing_parse cell p =
     (let c = trim cell in
      if c = [] then default_for p else if c = ''settled'' then Settled else Unsettled)"

primrec status_token :: "fact_status \<Rightarrow> string" where
  "status_token Active = ''active''"
| "status_token Archived = ''archived''"

definition status_of_token :: "string \<Rightarrow> fact_status" where
  "status_of_token cell =
     (if trim cell \<in> {''archived'', ''superseded'', ''retracted'', ''negated''} then Archived else Active)"

definition edge_shapes :: "edge_shape list" where
  "edge_shapes = [Location, Membership, Attendance, About, Connection]"

primrec edge_token :: "edge_shape \<Rightarrow> string" where
  "edge_token Location = ''location''"
| "edge_token Membership = ''membership''"
| "edge_token Attendance = ''attendance''"
| "edge_token About = ''about''"
| "edge_token Connection = ''connection''"

primrec edge_name :: "edge_shape \<Rightarrow> string" where
  "edge_name Location = ''location''"
| "edge_name Membership = ''memberOf''"
| "edge_name Attendance = ''attendee''"
| "edge_name About = ''about''"
| "edge_name Connection = ''relatedTo''"

definition edge_of_token :: "string \<Rightarrow> edge_shape option" where
  "edge_of_token token = find (\<lambda>s. edge_token s = trim token) edge_shapes"

definition edge_of_word :: "string \<Rightarrow> edge_shape option" where
  "edge_of_word word =
     (let w = trim word in find (\<lambda>s. edge_token s = w \<or> edge_name s = w) edge_shapes)"

primrec object_kind :: "edge_shape \<Rightarrow> kind option" where
  "object_kind Location = Some ''place''"
| "object_kind Membership = Some ''org''"
| "object_kind Attendance = Some ''event''"
| "object_kind About = None"
| "object_kind Connection = None"

section \<open>Numbers in handles\<close>

definition whole_number :: "string \<Rightarrow> nat option" where
  "whole_number raw =
     (let r = trim raw in
      if r = [] \<or> \<not> list_all is_digit r then None
      else if length r > 1 \<and> starts_with ''0'' r then None
      else case parse_unsigned usize_max r of
             None \<Rightarrow> None
           | Some n \<Rightarrow> if n > 0 \<and> n < usize_max then Some n else None)"

definition numbered_handle :: "entity_id \<Rightarrow> (entity_id \<times> nat) option" where
  "numbered_handle i =
     (case rsplit_once CHR ''/'' i of
        None \<Rightarrow> None
      | Some (collection, number) \<Rightarrow>
          if trim number \<noteq> number \<or> CHR '':'' \<notin> set collection then None
          else map_option (\<lambda>n. (collection, n)) (whole_number number))"

section \<open>Who writes\<close>

datatype actor =
    Bot entity_id
  | App string
  | Operator
  | System string

definition actor_bot :: "actor \<Rightarrow> entity_id option" where
  "actor_bot a = (case a of Bot b \<Rightarrow> Some b | _ \<Rightarrow> None)"

definition actor_app :: "actor \<Rightarrow> string option" where
  "actor_app a = (case a of App i \<Rightarrow> Some i | _ \<Rightarrow> None)"

definition actor_sender :: "actor \<Rightarrow> string option" where
  "actor_sender a =
     (case a of Bot b \<Rightarrow> Some b | App i \<Rightarrow> Some (''app/'' @ i) | Operator \<Rightarrow> None | System _ \<Rightarrow> None)"

section \<open>Claims\<close>

record edge =
  e_shape :: edge_shape
  e_object :: entity_id

record address =
  a_home :: entity_id
  a_local :: fact_id

datatype receipt =
    Check string
  | Confirmed int string

record app_stamp =
  stamp_app :: string
  stamp_grant :: string
  stamp_received_at :: string

datatype text_field = Content | Details

record text_edit =
  te_field :: text_field
  te_find :: string
  te_replace :: string

datatype role_move_kind = Renew | Release

record role_move =
  rm_kind :: role_move_kind
  rm_role :: string
  rm_claimant :: string

record override =
  o_token :: string
  o_reason :: string

record fact =
  f_id :: fact_id
  f_home :: entity_id
  f_subject :: entity_id
  f_content :: string
  f_details :: "string option"
  f_provenance :: provenance
  f_standing :: standing
  f_status :: fact_status
  f_recorded_at :: int
  f_happened_at :: "int option"
  f_happened_through :: "int option"
  f_inserted_at :: "int option"
  f_stale_after :: "int option"
  f_receipt :: "receipt option"
  f_app_stamp :: "app_stamp option"
  f_written_by_another :: bool
  f_edge :: "edge option"
  f_fields :: fields
  f_refs :: "entity_id list"
  f_derived_from :: "address option"
  f_stands_for :: "address list"
  f_sets :: "string set"
  f_reaching :: "string set"
  f_field_links :: "(string, entity_id list) btree"

record fact_patch =
  p_content :: "string option"
  p_details :: "string option"
  p_text_edit :: "text_edit option"
  p_status :: "fact_status option"
  p_recorded_at :: "int option"
  p_happened_at :: "int option"
  p_clear_happened_at :: bool
  p_happened_through :: "int option"
  p_clear_happened_through :: bool
  p_provenance :: "provenance option"
  p_standing :: "standing option"
  p_receipt :: "receipt option"
  p_edge :: "edge option"
  p_clear_edge :: bool
  p_fields :: fields
  p_clear_fields :: "string list"
  p_derived_from :: "address option"
  p_clear_derived_from :: bool
  p_stands_for :: "address list option"
  p_clear_stands_for :: bool
  p_stale_after :: "int option"
  p_clear_stale_after :: bool
  p_confirmed_by_user :: bool
  p_aged_before :: "int option"
  p_role_move :: "role_move option"
  p_session :: "string option"
  p_sets :: "string set"
  p_derived :: "string set"
  p_expected_revision :: "nat option"
  p_must_back :: "string set"
  p_must_override :: "override option"
  p_must_day :: "int option"

definition empty_patch :: fact_patch where
  "empty_patch =
     \<lparr>p_content = None, p_details = None, p_text_edit = None, p_status = None,
      p_recorded_at = None, p_happened_at = None, p_clear_happened_at = False,
      p_happened_through = None, p_clear_happened_through = False, p_provenance = None,
      p_standing = None, p_receipt = None, p_edge = None, p_clear_edge = False,
      p_fields = [], p_clear_fields = [], p_derived_from = None, p_clear_derived_from = False,
      p_stands_for = None, p_clear_stands_for = False, p_stale_after = None,
      p_clear_stale_after = False, p_confirmed_by_user = False, p_aged_before = None,
      p_role_move = None, p_session = None, p_sets = {}, p_derived = {},
      p_expected_revision = None, p_must_back = {}, p_must_override = None, p_must_day = None\<rparr>"

datatype bad_fact =
    EmptyContent
  | ManyLines
  | EndWithoutStart
  | WritesReserved string
  | StoredMark string
  | BadCeiling string string
  | KeyTooLong string nat
  | ClearsReserved string
  | EmptyMark
  | TwiceInMark string
  | EmptyCheck
  | EmptyPlace
  | MarksASource string string
  | UnappliedTextEdit text_field
  | AlsoWritten

datatype bad_entity =
    FieldEmpty string
  | FieldLong string nat
  | FieldNotPlain string
  | AliasComma string
  | CrmNotOne string
  | NewHandleSlash string
  | RhythmWithoutParent string
  | PromiseWithoutParent string

datatype memory_error =
    InvalidAddress string
  | NoHandle string
  | UnknownKind string not_a_kind
  | KindsNeverLoaded "string option"
  | SessionWritten string
  | WeekOfUsageWritten string
  | InvalidFact bad_fact
  | InvalidEntity bad_entity
  | InvalidEdge edge_shape kind entity_id
  | UnconfirmedPromotion
  | UnreceiptedSettling
  | ReceiptWithoutSettling
  | UnstatedProvenance
  | UnsourcedObservation
  | AppClaimRewritten string
  | TestimonyRewritten string
  | ItselfARetraction string
  | AlreadyRetracted string
  | AlreadyMerged string string
  | RoleNotHeld string string
  | RoleTaken string string int

text \<open>A claim with an id, a home and fields and nothing else, for concrete instances.\<close>

definition plain_fact :: "fact_id \<Rightarrow> entity_id \<Rightarrow> fields \<Rightarrow> fact" where
  "plain_fact i home fs =
     \<lparr>f_id = i, f_home = home, f_subject = home, f_content = ''said'', f_details = None,
      f_provenance = Inference, f_standing = Unsettled, f_status = Active, f_recorded_at = 0,
      f_happened_at = None, f_happened_through = None, f_inserted_at = None,
      f_stale_after = None, f_receipt = None, f_app_stamp = None,
      f_written_by_another = False, f_edge = None, f_fields = fs, f_refs = [],
      f_derived_from = None, f_stands_for = [], f_sets = {}, f_reaching = {},
      f_field_links = []\<rparr>"

section \<open>Handles\<close>

definition is_slug_byte :: "char \<Rightarrow> bool" where
  "is_slug_byte c \<longleftrightarrow>
     (97 \<le> (of_char c :: nat) \<and> (of_char c :: nat) \<le> 122) \<or> is_digit c \<or> c = CHR ''-''"

function slug_shaped :: "string \<Rightarrow> bool" where
  "slug_shaped s =
     (case rsplit_once CHR ''/'' s of
        Some (head, number) \<Rightarrow>
          whole_number number \<noteq> None \<and> trim number = number \<and> slug_shaped head
      | None \<Rightarrow> s \<noteq> [] \<and> list_all is_slug_byte s)"
  by pat_completeness auto
termination slug_shaped
  by (relation "measure length") (auto simp: rsplit_once_Some)

declare slug_shaped.simps [simp del]

definition validate_shape :: "entity_id \<Rightarrow> memory_error + unit" where
  "validate_shape subject =
     refuse_when (\<not> (length subject \<le> 128 \<and> slug_shaped (slug subject))) (NoHandle subject)"

definition validate_subject :: "world \<Rightarrow> entity_id \<Rightarrow> memory_error + unit" where
  "validate_subject W subject =
     ok_then (validate_shape subject) (\<lambda>_.
       case resolve W (kind_token subject) of
         Inr _ \<Rightarrow> Inr ()
       | Inl SetNeverLoaded \<Rightarrow> Inl (KindsNeverLoaded (Some subject))
       | Inl why \<Rightarrow> Inl (UnknownKind subject why))"

definition validate_write_subject :: "world \<Rightarrow> entity_id \<Rightarrow> memory_error + unit" where
  "validate_write_subject W subject =
     ok_then (validate_subject W subject) (\<lambda>_.
     ok_then (refuse_when (entity_kind W subject = Some ''session'') (SessionWritten subject)) (\<lambda>_.
       refuse_when (entity_kind W subject = Some ''usage'') (WeekOfUsageWritten subject)))"

definition validate_new_handle :: "entity_id \<Rightarrow> memory_error + unit" where
  "validate_new_handle i =
     refuse_when (CHR ''/'' \<in> set (slug i)) (InvalidEntity (NewHandleSlash i))"

section \<open>Addresses\<close>

definition show_address :: "address \<Rightarrow> string" where
  "show_address a = a_home a @ ''#'' @ a_local a"

definition parse_address :: "world \<Rightarrow> string \<Rightarrow> memory_error + address" where
  "parse_address W raw =
     (case split_once CHR ''#'' (trim raw) of
        None \<Rightarrow> Inl (InvalidAddress raw)
      | Some (home, r) \<Rightarrow>
          (case validate_subject W home of
             Inl _ \<Rightarrow> Inl (InvalidAddress raw)
           | Inr _ \<Rightarrow>
               (let l = trim r in
                if l = [] \<or> \<not> list_all is_slug_byte l then Inl (InvalidAddress raw)
                else Inr \<lparr>a_home = home, a_local = l\<rparr>)))"

definition fact_address :: "fact \<Rightarrow> address" where
  "fact_address f = \<lparr>a_home = f_home f, a_local = f_id f\<rparr>"

section \<open>What is checked of a thing's own row\<close>

definition validate_field :: "string \<Rightarrow> string \<Rightarrow> memory_error + unit" where
  "validate_field label value =
     (let v = trim value in
      ok_then (refuse_when (v = []) (InvalidEntity (FieldEmpty label))) (\<lambda>_.
      ok_then (refuse_when (char_count v > 200) (InvalidEntity (FieldLong label (char_count v)))) (\<lambda>_.
        refuse_when (\<exists>c \<in> set (utf8_chars v). c = ''`'' \<or> is_control_char c)
          (InvalidEntity (FieldNotPlain label)))))"

definition validate_aliases :: "string list \<Rightarrow> memory_error + unit" where
  "validate_aliases aliases =
     check_all (\<lambda>alias. ok_then (validate_field ''alias'' alias) (\<lambda>_.
                  refuse_when (CHR '','' \<in> set alias) (InvalidEntity (AliasComma alias)))) aliases"

definition validate_crm :: "string \<Rightarrow> memory_error + unit" where
  "validate_crm crm =
     ok_then (validate_field ''crm'' crm) (\<lambda>_.
       refuse_when (\<exists>c \<in> set (utf8_chars (trim crm)). is_ws_char c \<or> c = '','')
         (InvalidEntity (CrmNotOne crm)))"

definition validate_entity ::
  "world \<Rightarrow> entity_id \<Rightarrow> string \<Rightarrow> string list \<Rightarrow> string \<Rightarrow> string option \<Rightarrow> entity_id option
     \<Rightarrow> memory_error + unit" where
  "validate_entity W i name aliases source crm parent =
     ok_then (validate_write_subject W i) (\<lambda>_.
     ok_then (validate_new_handle i) (\<lambda>_.
     ok_then (validate_field ''name'' name) (\<lambda>_.
     ok_then (validate_aliases aliases) (\<lambda>_.
     ok_then (validate_field ''source'' source) (\<lambda>_.
     ok_then (case crm of None \<Rightarrow> Inr () | Some c \<Rightarrow> validate_crm c) (\<lambda>_.
     ok_then (case parent of None \<Rightarrow> Inr () | Some p \<Rightarrow> validate_subject W p) (\<lambda>_.
     ok_then (refuse_when (entity_kind W i = Some ''rhythm'' \<and> parent = None)
                (InvalidEntity (RhythmWithoutParent i))) (\<lambda>_.
       refuse_when (entity_kind W i = Some ''promise'' \<and> parent = None)
         (InvalidEntity (PromiseWithoutParent i))))))))))"

section \<open>What is checked of a claim\<close>

definition RETRACTS :: string where "RETRACTS = ''retracts''"
definition MERGED_FROM :: string where "MERGED_FROM = ''merged_from''"
definition MAX_KEY_CHARS :: nat where "MAX_KEY_CHARS = 128"
definition READ_FROM :: string where "READ_FROM = ''read_from''"
definition ARCHIVE_REASON :: string where "ARCHIVE_REASON = ''archive_reason''"
definition RECORD_CAPACITY :: string where "RECORD_CAPACITY = ''record_capacity''"
definition THOUGHT_CAPACITY :: string where "THOUGHT_CAPACITY = ''thought_capacity''"
definition THOUGHT_BODY_CAP :: string where "THOUGHT_BODY_CAP = ''thought_body_cap''"
definition MARK :: string where "MARK = ''@#''"

definition reserved_key :: "string \<Rightarrow> bool" where
  "reserved_key k \<longleftrightarrow> trim k = RETRACTS \<or> trim k = MERGED_FROM"

definition ceiling_value_refusal :: "string \<Rightarrow> string \<Rightarrow> memory_error option" where
  "ceiling_value_refusal k value =
     (let named = trim k;
          least = (if named = RECORD_CAPACITY then Some 1
                   else if named = THOUGHT_CAPACITY \<or> named = THOUGHT_BODY_CAP then Some 0
                   else None)
      in case least of
           None \<Rightarrow> None
         | Some least \<Rightarrow>
             (case parse_unsigned usize_max (trim value) of
                Some n \<Rightarrow> if n \<ge> least then None else Some (InvalidFact (BadCeiling named value))
              | None \<Rightarrow> Some (InvalidFact (BadCeiling named value))))"

definition validate_fields :: "fields \<Rightarrow> memory_error + unit" where
  "validate_fields fs =
     (case find reserved_key (map fst fs) of
        Some k \<Rightarrow> Inl (InvalidFact (WritesReserved k))
      | None \<Rightarrow>
     (case find (\<lambda>(k, v). \<exists>item \<in> set (split_on CHR '','' v). starts_with MARK (trim item)) fs of
        Some (k, v) \<Rightarrow> Inl (InvalidFact (StoredMark k))
      | None \<Rightarrow>
          ok_then (check_all (\<lambda>(k, v). case ceiling_value_refusal k v of None \<Rightarrow> Inr () | Some e \<Rightarrow> Inl e) fs) (\<lambda>_.
            case find (\<lambda>k. char_count k > MAX_KEY_CHARS) (map fst fs) of
              Some k \<Rightarrow> Inl (InvalidFact (KeyTooLong (concat (take 24 (utf8_chars k))) (char_count k)))
            | None \<Rightarrow> Inr ())))"

definition validate_cleared_fields :: "string list \<Rightarrow> memory_error + unit" where
  "validate_cleared_fields cleared =
     (case find reserved_key cleared of
        Some k \<Rightarrow> Inl (InvalidFact (ClearsReserved k)) | None \<Rightarrow> Inr ())"

definition validate_provenance_source :: "provenance \<Rightarrow> fields \<Rightarrow> memory_error + unit" where
  "validate_provenance_source p fs =
     (if p \<noteq> Observation then Inr ()
      else case bt_get fs READ_FROM of
             None \<Rightarrow> Inl UnsourcedObservation
           | Some v \<Rightarrow> refuse_when (trim v = []) UnsourcedObservation)"

fun first_repeat :: "string list \<Rightarrow> string list \<Rightarrow> string option" where
  "first_repeat named [] = None"
| "first_repeat named (x # xs) =
     (if x \<in> set named then Some x else first_repeat (x # named) xs)"

definition validate_stands_for :: "address list \<Rightarrow> memory_error + unit" where
  "validate_stands_for stands_for =
     (if stands_for = [] then Inl (InvalidFact EmptyMark)
      else case first_repeat [] (map show_address stands_for) of
             Some twice \<Rightarrow> Inl (InvalidFact (TwiceInMark twice))
           | None \<Rightarrow> Inr ())"

definition refuses_marking_a_source :: "address \<Rightarrow> address list \<Rightarrow> memory_error option" where
  "refuses_marking_a_source marked holders =
     (case holders of
        [] \<Rightarrow> None
      | holder # _ \<Rightarrow> Some (InvalidFact (MarksASource (show_address marked) (show_address holder))))"

definition breaks_the_row :: "string \<Rightarrow> bool" where
  "breaks_the_row v \<longleftrightarrow> CHR 0x0A \<in> set v \<or> CHR 0x0D \<in> set v"

definition validate_content :: "string \<Rightarrow> memory_error + unit" where
  "validate_content content =
     ok_then (refuse_when (trim content = []) (InvalidFact EmptyContent)) (\<lambda>_.
       refuse_when (breaks_the_row content) (InvalidFact ManyLines))"

definition validate_happened_span :: "int option \<Rightarrow> int option \<Rightarrow> memory_error + unit" where
  "validate_happened_span happened_at through =
     refuse_when (through \<noteq> None \<and> happened_at = None) (InvalidFact EndWithoutStart)"

definition validate_resolved_edge :: "world \<Rightarrow> edge \<Rightarrow> entity_id \<Rightarrow> memory_error + unit" where
  "validate_resolved_edge W e target =
     (case object_kind (e_shape e) of
        Some wanted \<Rightarrow>
          refuse_when (entity_kind W target \<noteq> Some wanted) (InvalidEdge (e_shape e) wanted (e_object e))
      | None \<Rightarrow> Inr ())"

definition validate_edge :: "world \<Rightarrow> edge \<Rightarrow> memory_error + unit" where
  "validate_edge W e =
     ok_then (validate_subject W (e_object e)) (\<lambda>_.
       if numbered_handle (e_object e) \<noteq> None then Inr ()
       else validate_resolved_edge W e (e_object e))"

definition normalize_content :: "string \<Rightarrow> string" where
  "normalize_content content = trim content"

definition normalize_details :: "string option \<Rightarrow> string option" where
  "normalize_details details =
     (case details of None \<Rightarrow> None | Some d \<Rightarrow> if trim d = [] then None else Some (trim d))"

definition is_retraction :: "fact \<Rightarrow> bool" where
  "is_retraction f \<longleftrightarrow> has_key (f_fields f) RETRACTS"

definition is_stale :: "fact \<Rightarrow> int \<Rightarrow> bool" where
  "is_stale f as_of = (case f_stale_after f of None \<Rightarrow> False | Some day \<Rightarrow> day < as_of)"

definition happened_covers :: "fact \<Rightarrow> int \<Rightarrow> bool" where
  "happened_covers f day =
     (case (f_happened_at f, f_happened_through f) of
        (Some start, Some final) \<Rightarrow> start \<le> day \<and> day \<le> final
      | (Some start, None) \<Rightarrow> start = day
      | (None, _) \<Rightarrow> False)"

section \<open>A new claim\<close>

text \<open>
  The records the same act writes are new facts again; the code here only asks whether there
  are any, so their type is a parameter of the record.
\<close>

record 'n new_fact =
  n_subject :: entity_id
  n_content :: string
  n_details :: "string option"
  n_provenance :: provenance
  n_standing :: "standing option"
  n_status :: fact_status
  n_recorded_at :: int
  n_happened_at :: "int option"
  n_happened_through :: "int option"
  n_edge :: "edge option"
  n_fields :: fields
  n_refs :: "entity_id list"
  n_derived_from :: "address option"
  n_stale_after :: "int option"
  n_receipt :: "receipt option"
  n_app_stamp :: "app_stamp option"
  n_drop :: "address option"
  n_drop_because :: "string option"
  n_borrow :: bool
  n_aged_before :: "int option"
  n_written_by_bot :: "entity_id option"
  n_session :: "string option"
  n_sets :: "string set"
  n_derived :: "string set"
  n_also_written :: "'n list"
  n_must_override :: "override option"
  n_must_day :: "int option"

definition new_fact_about :: "entity_id \<Rightarrow> string \<Rightarrow> int \<Rightarrow> 'n new_fact" where
  "new_fact_about subject content recorded_at =
     \<lparr>n_subject = subject, n_content = content, n_details = None, n_provenance = Inference,
      n_standing = None, n_status = Active, n_recorded_at = recorded_at, n_happened_at = None,
      n_happened_through = None, n_edge = None, n_fields = [], n_refs = [],
      n_derived_from = None, n_stale_after = None, n_receipt = None, n_app_stamp = None,
      n_drop = None, n_drop_because = None, n_borrow = False, n_aged_before = None,
      n_written_by_bot = None, n_session = None, n_sets = {}, n_derived = {},
      n_also_written = [], n_must_override = None, n_must_day = None\<rparr>"

definition standing_of :: "'n new_fact \<Rightarrow> standing" where
  "standing_of n = (case n_standing n of Some s \<Rightarrow> s | None \<Rightarrow> default_for (n_provenance n))"

definition validate_new_fact :: "world \<Rightarrow> 'n new_fact \<Rightarrow> memory_error + unit" where
  "validate_new_fact W n =
     ok_then (refuse_when (n_also_written n \<noteq> []) (InvalidFact AlsoWritten)) (\<lambda>_.
     ok_then (validate_write_subject W (n_subject n)) (\<lambda>_.
     ok_then (validate_content (n_content n)) (\<lambda>_.
     ok_then (case n_edge n of None \<Rightarrow> Inr () | Some e \<Rightarrow> validate_edge W e) (\<lambda>_.
     ok_then (validate_happened_span (n_happened_at n) (n_happened_through n)) (\<lambda>_.
     ok_then (validate_fields (n_fields n)) (\<lambda>_.
       validate_provenance_source (n_provenance n) (n_fields n)))))))"

section \<open>Taking a claim back\<close>

definition check_retractable :: "fact \<Rightarrow> memory_error + unit" where
  "check_retractable f =
     ok_then (refuse_when (f_status f = Archived) (AlreadyRetracted (show_address (fact_address f)))) (\<lambda>_.
       refuse_when (is_retraction f) (ItselfARetraction (show_address (fact_address f))))"

definition said_reason :: "string option \<Rightarrow> string option" where
  "said_reason reason = normalize_details reason"

definition retraction_of :: "fact \<Rightarrow> string option \<Rightarrow> int \<Rightarrow> memory_error + 'n new_fact" where
  "retraction_of target reason date =
     ok_then (check_retractable target) (\<lambda>_.
       let reason = said_reason reason in
       ok_then (case reason of None \<Rightarrow> Inr () | Some r \<Rightarrow> validate_content r) (\<lambda>_.
         let content = (case reason of Some r \<Rightarrow> normalize_content r
                        | None \<Rightarrow> ''retracted; no reason was given'')
         in Inr ((new_fact_about (f_subject target) content date)
                   \<lparr>n_fields := bt_of [(RETRACTS, show_address (fact_address target))]\<rparr>)))"

definition merge_account ::
  "entity_id \<Rightarrow> entity_id \<Rightarrow> string option \<Rightarrow> int \<Rightarrow> memory_error + 'n new_fact" where
  "merge_account folded survivor reason date =
     (let reason = said_reason reason in
      ok_then (case reason of None \<Rightarrow> Inr () | Some r \<Rightarrow> validate_content r) (\<lambda>_.
        let content = (case reason of Some r \<Rightarrow> normalize_content r
                       | None \<Rightarrow> ''folded '' @ folded @ '' into this thing; no reason was given'')
        in Inr ((new_fact_about survivor content date)
                  \<lparr>n_fields := bt_of [(MERGED_FROM, folded), (''engine_record'', ''merge'')]\<rparr>)))"

end
