(* ===== verification/Document.thy ===== *)
theory Document
  imports Order_Keys Claims
begin

text \<open>
  Documents (\<open>memory/document.rs\<close>): a markdown text is split at its headings into sections,
  each kept as one record, with the white space between the parts kept beside the words, and
  the sections are joined back into the text.  A section too big for a record is cut into
  chunks.
\<close>

definition NL :: char where "NL = CHR 0x0A"
definition CR :: char where "CR = CHR 0x0D"
definition TAB :: char where "TAB = CHR 0x09"
definition BACKSLASH :: char where "BACKSLASH = CHR 0x5C"

section \<open>The white space beside a section's words\<close>

record edges =
  lead :: string
  mid :: string
  sep :: string
  tail :: string

text \<open>The code point of a character given by its UTF-8 bytes, and back.\<close>

definition code_point :: "string \<Rightarrow> nat" where
  "code_point w =
     (case w of
        [a] \<Rightarrow> of_char a
      | [a, b] \<Rightarrow> (of_char a - 192) * 64 + (of_char b - 128)
      | [a, b, c] \<Rightarrow> ((of_char a - 224) * 64 + (of_char b - 128)) * 64 + (of_char c - 128)
      | [a, b, c, d] \<Rightarrow>
          (((of_char a - 240) * 64 + (of_char b - 128)) * 64 + (of_char c - 128)) * 64
            + (of_char d - 128)
      | _ \<Rightarrow> 0)"

definition utf8_encode :: "nat \<Rightarrow> string" where
  "utf8_encode n =
     map char_of
       (if n < 128 then [n]
        else if n < 2048 then [192 + n div 64, 128 + n mod 64]
        else if n < 65536 then [224 + n div 4096, 128 + n div 64 mod 64, 128 + n mod 64]
        else [240 + n div 262144, 128 + n div 4096 mod 64, 128 + n div 64 mod 64, 128 + n mod 64])"

definition char_from_u32 :: "nat \<Rightarrow> string option" where
  "char_from_u32 n =
     (if n \<ge> 1114112 \<or> (55296 \<le> n \<and> n < 57344) then None else Some (utf8_encode n))"

definition hex_char :: "nat \<Rightarrow> char" where
  "hex_char d = ''0123456789abcdef'' ! d"

fun show_hex :: "nat \<Rightarrow> string" where
  "show_hex n = (if n < 16 then [hex_char n] else show_hex (n div 16) @ [hex_char (n mod 16)])"

declare show_hex.simps [simp del]

definition hex_value :: "char \<Rightarrow> nat option" where
  "hex_value c =
     (let n = (of_char c :: nat) in
      if 48 \<le> n \<and> n \<le> 57 then Some (n - 48)
      else if 97 \<le> n \<and> n \<le> 102 then Some (n - 87)
      else if 65 \<le> n \<and> n \<le> 70 then Some (n - 55)
      else None)"

text \<open>\<open>u32::from_str_radix(_, 16)\<close>, which takes a leading plus sign.\<close>

definition parse_hex :: "string \<Rightarrow> nat option" where
  "parse_hex s =
     (let ds = (case strip_prefix ''+'' s of None \<Rightarrow> s | Some r \<Rightarrow> r) in
      if ds = [] then None
      else case all_some (map hex_value ds) of
             None \<Rightarrow> None
           | Some vs \<Rightarrow> (let n = foldl (\<lambda>n d. 16 * n + d) 0 vs in if n \<le> u32_max then Some n else None))"

definition escape_char :: "string \<Rightarrow> string" where
  "escape_char c =
     (if c = [NL] then [BACKSLASH, CHR ''n'']
      else if c = [CR] then [BACKSLASH, CHR ''r'']
      else if c = [TAB] then [BACKSLASH, CHR ''t'']
      else if c = '' '' then [BACKSLASH, CHR ''s'']
      else [BACKSLASH] @ ''u{'' @ show_hex (code_point c) @ ''}'')"

definition escape :: "string \<Rightarrow> string" where
  "escape run = concat (map escape_char (utf8_chars run))"

function unescape_chars :: "string list \<Rightarrow> string option" where
  "unescape_chars [] = Some []"
| "unescape_chars (c # cs) =
     (if c \<noteq> [BACKSLASH] then None
      else case cs of
        [] \<Rightarrow> None
      | d # ds \<Rightarrow>
          (if d = ''n'' then map_option (\<lambda>out. [NL] @ out) (unescape_chars ds)
           else if d = ''r'' then map_option (\<lambda>out. [CR] @ out) (unescape_chars ds)
           else if d = ''t'' then map_option (\<lambda>out. [TAB] @ out) (unescape_chars ds)
           else if d = ''s'' then map_option (\<lambda>out. '' '' @ out) (unescape_chars ds)
           else if d = ''u'' then
             (case ds of
                [] \<Rightarrow> None
              | b # bs \<Rightarrow>
                  if b \<noteq> ''{'' then None
                  else case dropWhile (\<lambda>h. h \<noteq> ''}'') bs of
                         [] \<Rightarrow> None
                       | _ # r \<Rightarrow>
                           (case Option.bind (parse_hex (concat (takeWhile (\<lambda>h. h \<noteq> ''}'') bs))) char_from_u32 of
                              None \<Rightarrow> None
                            | Some w \<Rightarrow> map_option (\<lambda>out. w @ out) (unescape_chars r)))
           else None))"
  by pat_completeness auto
termination unescape_chars
proof (relation "measure length", goal_cases)
  case (6 c cs d ds b bs x r y)
  then have "length (dropWhile (\<lambda>h. h \<noteq> ''}'') bs) \<le> length bs" by (intro length_dropWhile_le)
  then show ?case using 6 by simp
qed auto

definition unescape :: "string \<Rightarrow> string option" where
  "unescape t = unescape_chars (utf8_chars t)"

definition encode_edges :: "edges \<Rightarrow> string" where
  "encode_edges e = join '';'' (map escape [lead e, mid e, sep e, tail e])"

definition decode_edges :: "string \<Rightarrow> edges option" where
  "decode_edges encoded =
     (case map unescape (split_on CHR '';'' encoded) of
        [Some a, Some b, Some c, Some d] \<Rightarrow> Some \<lparr>lead = a, mid = b, sep = c, tail = d\<rparr>
      | _ \<Rightarrow> None)"

section \<open>Headings and fences\<close>

record document_section =
  first_line :: string
  level :: nat
  body :: string
  section_edges :: edges
  continues :: bool

datatype split_error =
    Blank
  | LoneCarriageReturn nat

definition indent_of :: "string \<Rightarrow> nat" where
  "indent_of line = length (takeWhile (\<lambda>b. b = CHR '' '') line)"

definition heading_level :: "string \<Rightarrow> nat option" where
  "heading_level line =
     (if indent_of line > 3 then None
      else
        (let r = drop (indent_of line) line;
             hashes = length (takeWhile (\<lambda>b. b = CHR ''#'') r)
         in if hashes < 1 \<or> hashes > 6 then None
            else case drop hashes r of
                   [] \<Rightarrow> Some hashes
                 | c # _ \<Rightarrow> if c = CHR '' '' \<or> c = TAB then Some hashes else None))"

definition fence_of :: "string \<Rightarrow> (char \<times> nat \<times> string) option" where
  "fence_of line =
     (if indent_of line > 3 then None
      else
        (let r = drop (indent_of line) line in
         case r of
           [] \<Rightarrow> None
         | c # _ \<Rightarrow>
             if c \<noteq> CHR ''`'' \<and> c \<noteq> CHR ''~'' then None
             else (let run = length (takeWhile (\<lambda>x. x = c) r)
                   in if run \<ge> 3 then Some (c, run, drop run r) else None)))"

text \<open>\<open>split_inclusive\<close> at line feeds, and a line without its ending.\<close>

function lines_inclusive :: "string \<Rightarrow> string list" where
  "lines_inclusive [] = []"
| "lines_inclusive (c # s) =
     (let text = c # s; l = takeWhile (\<lambda>b. b \<noteq> NL) text; r = dropWhile (\<lambda>b. b \<noteq> NL) text in
      case r of [] \<Rightarrow> [l] | n # r' \<Rightarrow> (l @ [n]) # lines_inclusive r')"
  by pat_completeness auto
termination lines_inclusive
proof (relation "measure length", goal_cases)
  case (2 c s x xa xb x21 x22)
  have "length (dropWhile (\<lambda>b. b \<noteq> NL) (c # s)) \<le> length (c # s)" by (rule length_dropWhile_le)
  moreover have "length (dropWhile (\<lambda>b. b \<noteq> NL) (c # s)) = Suc (length x22)"
    using 2 by (metis length_Cons)
  ultimately show ?case by (simp del: dropWhile.simps)
qed simp

definition strip_suffix_char :: "char \<Rightarrow> string \<Rightarrow> string" where
  "strip_suffix_char c s = (if s \<noteq> [] \<and> last s = c then butlast s else s)"

definition bare :: "string \<Rightarrow> string" where
  "bare raw = strip_suffix_char CR (strip_suffix_char NL raw)"

fun frontmatter_scan :: "nat \<Rightarrow> string list \<Rightarrow> nat" where
  "frontmatter_scan p [] = 0"
| "frontmatter_scan p (raw # lines) =
     (if bare raw = ''---'' \<or> bare raw = ''...'' then p + length raw
      else frontmatter_scan (p + length raw) lines)"

definition frontmatter_end :: "string \<Rightarrow> nat" where
  "frontmatter_end text =
     (case lines_inclusive text of
        [] \<Rightarrow> 0
      | first # lines \<Rightarrow> if bare first \<noteq> ''---'' then 0 else frontmatter_scan (length first) lines)"

definition closes :: "char \<times> nat \<Rightarrow> char \<times> nat \<times> string \<Rightarrow> bool" where
  "closes op fence =
     (case (op, fence) of ((c, run), (fc, frun, after)) \<Rightarrow> fc = c \<and> frun \<ge> run \<and> trim after = [])"

fun heading_scan :: "nat \<Rightarrow> nat \<Rightarrow> (char \<times> nat) option \<Rightarrow> string list \<Rightarrow> (nat \<times> nat) list" where
  "heading_scan frontmatter p op [] = []"
| "heading_scan frontmatter p op (raw # lines) =
     (let next = p + length raw in
      if p < frontmatter then heading_scan frontmatter next op lines
      else case (op, fence_of (bare raw)) of
             (None, Some (c, run, _)) \<Rightarrow> heading_scan frontmatter next (Some (c, run)) lines
           | (Some o1, Some fence) \<Rightarrow>
               heading_scan frontmatter next (if closes o1 fence then None else Some o1) lines
           | (None, None) \<Rightarrow>
               (case heading_level (bare raw) of
                  Some l \<Rightarrow> (p, l) # heading_scan frontmatter next None lines
                | None \<Rightarrow> heading_scan frontmatter next None lines)
           | (Some o1, None) \<Rightarrow> heading_scan frontmatter next (Some o1) lines)"

definition heading_starts :: "string \<Rightarrow> (nat \<times> nat) list" where
  "heading_starts text = heading_scan (frontmatter_end text) 0 None (lines_inclusive text)"

section \<open>Splitting and joining\<close>

definition section_of :: "string \<Rightarrow> nat \<Rightarrow> document_section" where
  "section_of raw lvl =
     (let core = trim raw;
          first_raw = takeWhile (\<lambda>b. b \<noteq> NL) core;
          rest_raw = dropWhile (\<lambda>b. b \<noteq> NL) core;
          fl = trim_end first_raw;
          bd = trim_start rest_raw
      in \<lparr>first_line = fl, level = lvl, body = bd,
          section_edges =
            \<lparr>lead = take (length raw - length (trim_start raw)) raw,
             mid = drop (length fl) first_raw,
             sep = take (length rest_raw - length bd) rest_raw,
             tail = drop (length (trim_end raw)) raw\<rparr>,
          continues = False\<rparr>)"

definition join_section :: "document_section \<Rightarrow> string" where
  "join_section s =
     (let e = section_edges s in lead e @ first_line s @ mid e @ sep e @ body s @ tail e)"

definition join_document :: "document_section list \<Rightarrow> string" where
  "join_document ss = concat (map join_section ss)"

fun lone_cr :: "nat \<Rightarrow> string \<Rightarrow> nat option" where
  "lone_cr i [] = None"
| "lone_cr i (c # s) =
     (if c = CR \<and> (s = [] \<or> hd s \<noteq> NL) then Some i else lone_cr (i + 1) s)"

fun sections_from :: "string \<Rightarrow> string \<Rightarrow> (nat \<times> nat) list \<Rightarrow> document_section list" where
  "sections_from text carried [] = []"
| "sections_from text carried ((start, lvl) # cuts) =
     (let fin = (case cuts of [] \<Rightarrow> length text | (next, _) # _ \<Rightarrow> next);
          raw = take (fin - start) (drop start text)
      in if trim raw = [] then sections_from text (carried @ raw) cuts
         else
           (let s = section_of raw lvl;
                s = (if carried \<noteq> []
                     then s\<lparr>section_edges := (section_edges s)\<lparr>lead := carried @ lead (section_edges s)\<rparr>\<rparr>
                     else s)
            in s # sections_from text [] cuts))"

definition split_document :: "string \<Rightarrow> split_error + document_section list" where
  "split_document text =
     (case lone_cr 0 text of
        Some i \<Rightarrow> Inl (LoneCarriageReturn i)
      | None \<Rightarrow>
          if text = [] then Inr []
          else if trim text = [] then Inl Blank
          else
            (let headings = heading_starts text;
                 cuts = (case headings of [] \<Rightarrow> [(0, 0)]
                         | (i, _) # _ \<Rightarrow> (if i \<noteq> 0 then [(0, 0)] else [])) @ headings
             in Inr (sections_from text [] cuts)))"


section \<open>A document reads back as it was written\<close>

lemma join_section_of:
  assumes "trim raw \<noteq> []"
  shows "join_section (section_of raw l) = raw"
proof -
  let ?core = "trim raw"
  let ?a = "takeWhile (\<lambda>b. b \<noteq> NL) ?core" and ?b = "dropWhile (\<lambda>b. b \<noteq> NL) ?core"
  have "trim_end ?a @ drop (length (trim_end ?a)) ?a = ?a" by (rule drop_trim_end)
  moreover have "take (length ?b - length (trim_start ?b)) ?b @ trim_start ?b = ?b" by (rule take_trim_start)
  ultimately have "trim_end ?a @ drop (length (trim_end ?a)) ?a
      @ take (length ?b - length (trim_start ?b)) ?b @ trim_start ?b = ?core"
    by (metis append.assoc takeWhile_dropWhile_id)
  then show ?thesis
    using trim_split [OF assms] by (simp add: join_section_def section_of_def Let_def) (metis append.assoc)
qed

lemma join_section_lead:
  "join_section (s\<lparr>section_edges := (section_edges s)\<lparr>lead := p @ lead (section_edges s)\<rparr>\<rparr>)
     = p @ join_section s"
  by (simp add: join_section_def Let_def)

text \<open>
  Cuts at the places headings start: each later than the one before it, with the heading's
  number sign in between.
\<close>

fun cuts_ok :: "string \<Rightarrow> nat \<Rightarrow> (nat \<times> nat) list \<Rightarrow> bool" where
  "cuts_ok text p [] = (p \<le> length text)"
| "cuts_ok text p ((start, l) # cuts) \<longleftrightarrow>
     p \<le> start \<and> (\<exists>q. start \<le> q \<and> CHR ''#'' \<in> set (take (q - start) (drop start text)) \<and> cuts_ok text q cuts)"

lemma cuts_ok_length: "cuts_ok text p cuts \<Longrightarrow> p \<le> length text"
  by (induction cuts arbitrary: p) fastforce+

lemma cuts_ok_weaken: "cuts_ok text q cuts \<Longrightarrow> p \<le> q \<Longrightarrow> cuts_ok text p cuts"
  by (cases cuts) auto

lemma concat_lines_inclusive: "concat (lines_inclusive s) = s"
proof (induction s rule: lines_inclusive.induct)
  case (2 c s)
  let ?r = "dropWhile (\<lambda>b. b \<noteq> NL) (c # s)"
  have "takeWhile (\<lambda>b. b \<noteq> NL) (c # s) @ ?r = c # s" by (rule takeWhile_dropWhile_id)
  moreover have "lines_inclusive (c # s) =
      (case ?r of [] \<Rightarrow> [takeWhile (\<lambda>b. b \<noteq> NL) (c # s)]
       | n # r' \<Rightarrow> (takeWhile (\<lambda>b. b \<noteq> NL) (c # s) @ [n]) # lines_inclusive r')"
    by (simp only: lines_inclusive.simps Let_def)
  ultimately show ?case using "2.IH" [OF refl refl refl]
    by (cases ?r) (simp_all del: takeWhile.simps dropWhile.simps lines_inclusive.simps dropWhile_eq_Nil_conv)
qed simp

lemma heading_level_sharp: "heading_level line = Some l \<Longrightarrow> CHR ''#'' \<in> set line"
proof -
  assume "heading_level line = Some l"
  then have "takeWhile (\<lambda>b. b = CHR ''#'') (drop (indent_of line) line) \<noteq> []"
    by (auto simp: heading_level_def Let_def split: if_split_asm)
  then obtain c where "c \<in> set (takeWhile (\<lambda>b. b = CHR ''#'') (drop (indent_of line) line))"
    by (metis ex_in_conv set_empty)
  then have "c = CHR ''#'' \<and> c \<in> set (drop (indent_of line) line)" by (auto dest: set_takeWhileD)
  then show ?thesis using in_set_dropD by metis
qed

lemma set_bare: "set (bare raw) \<subseteq> set raw"
  by (auto simp: bare_def strip_suffix_char_def dest: in_set_butlastD split: if_splits)

lemma heading_scan_cuts:
  "concat lines = drop p text \<Longrightarrow> p \<le> length text \<Longrightarrow> cuts_ok text p (heading_scan fm p op lines)"
proof (induction lines arbitrary: p op)
  case (Cons raw lines)
  let ?next = "p + length raw"
  have len: "?next \<le> length text"
    using arg_cong [OF Cons.prems(1), of length] Cons.prems(2) by simp
  have rest: "concat lines = drop ?next text" and raw: "take (length raw) (drop p text) = raw"
    using Cons.prems(1) by (metis append_eq_conv_conj concat.simps(2) drop_drop add.commute)+
  have IH: "cuts_ok text ?next (heading_scan fm ?next op' lines)" for op'
    by (rule Cons.IH [OF rest len])
  then have skip: "cuts_ok text p (heading_scan fm ?next op' lines)" for op'
    by (rule cuts_ok_weaken) simp
  have heading: "cuts_ok text p ((p, l) # heading_scan fm ?next None lines)"
    if "heading_level (bare raw) = Some l" for l
    using IH heading_level_sharp [OF that] set_bare [of raw] raw
    by (auto intro!: exI [of _ ?next])
  show ?case
  proof (cases "p < fm")
    case False
    then show ?thesis using skip heading
      by (cases op; cases "fence_of (bare raw)"; cases "heading_level (bare raw)")
         (simp_all add: Let_def split: prod.split del: cuts_ok.simps)
  qed (use skip in simp)
qed simp

lemma headings_join:
  "cuts_ok text p ((start, l) # cuts) \<Longrightarrow>
     join_document (sections_from text carried ((start, l) # cuts)) = carried @ drop start text"
proof (induction cuts arbitrary: p start l carried)
  case Nil
  then obtain q where "CHR ''#'' \<in> set (take (q - start) (drop start text))" by auto
  then have "trim (take (length text - start) (drop start text)) \<noteq> []"
    using trim_keeps [of "CHR ''#''" "drop start text"] in_set_takeD
    by (fastforce simp: printable_def)
  then show ?case by (simp add: Let_def join_document_def join_section_lead join_section_of)
next
  case (Cons cut cuts)
  obtain n l' where cut: "cut = (n, l')" by (cases cut)
  obtain q where q: "start \<le> q" "q \<le> n" "CHR ''#'' \<in> set (take (q - start) (drop start text))"
      "cuts_ok text q ((n, l') # cuts)"
    using Cons.prems cut by auto
  let ?raw = "take (n - start) (drop start text)"
  have "CHR ''#'' \<in> set ?raw"
    using q(2,3) set_take_subset_set_take [of "q - start" "n - start" "drop start text"] by fastforce
  then have "trim ?raw \<noteq> []" using trim_keeps [of "CHR ''#''" ?raw] by (fastforce simp: printable_def)
  moreover have "?raw @ drop n text = drop start text"
    using q(1,2) by (metis append_take_drop_id drop_drop le_add_diff_inverse2 le_trans)
  moreover have "join_document (sections_from text [] ((n, l') # cuts)) = drop n text"
    using Cons.IH [OF q(4), of "[]"] by simp
  ultimately show ?case
    using cut by (simp add: Let_def join_document_def join_section_lead join_section_of)
qed

text \<open>
  C35: a text that splits into sections joins back into itself, byte for byte: nothing between
  or around the headings is lost.
\<close>

theorem split_join:
  assumes "split_document text = Inr sections"
  shows "join_document sections = text"
proof (cases "text = []")
  case False
  let ?h = "heading_starts text"
  have t: "trim text \<noteq> []" and s: "sections = sections_from text []
      ((case ?h of [] \<Rightarrow> [(0, 0)] | (i, _) # _ \<Rightarrow> (if i \<noteq> 0 then [(0, 0)] else [])) @ ?h)"
    using assms False by (auto simp: split_document_def Let_def split: option.splits if_splits)
  have ok: "cuts_ok text 0 ?h"
    unfolding heading_starts_def by (rule heading_scan_cuts) (simp_all add: concat_lines_inclusive)
  show ?thesis
  proof (cases ?h)
    case Nil
    then show ?thesis using t s by (simp add: Let_def join_document_def join_section_of)
  next
    case (Cons cut cuts)
    obtain i l where cut: "cut = (i, l)" by (cases cut)
    have rest: "join_document (sections_from text carried ?h) = carried @ drop i text" for carried
      using headings_join [of "text" 0 i l cuts] ok Cons cut by simp
    show ?thesis
    proof (cases "i = 0")
      case True
      then show ?thesis using s rest [of "[]"] Cons cut by simp
    next
      case False
      have "sections = sections_from text [] ((0, 0) # ?h)" using s Cons cut False by simp
      then show ?thesis
        using rest [of "take i text"] rest [of "[]"] Cons cut False
        by (cases "trim (take i text) = []")
           (simp_all add: Let_def join_document_def join_section_of)
    qed
  qed
qed (use assms in \<open>simp add: split_document_def join_document_def\<close>)


lemma utf8_chars_append:
  "b = [] \<or> \<not> is_cont (hd b) \<Longrightarrow> utf8_chars (a @ b) = utf8_chars a @ utf8_chars b"
proof (induction a rule: utf8_chars.induct)
  case (2 c s)
  show ?case
  proof (cases "\<forall>x \<in> set s. is_cont x")
    case True
    then have "takeWhile is_cont (s @ b) = s" "dropWhile is_cont (s @ b) = b"
      using while_append_stop [of s is_cont b] "2.prems" by auto
    moreover have "takeWhile is_cont s = s" "dropWhile is_cont s = []"
      using while_append_stop [of s is_cont "[]"] True by simp_all
    ultimately show ?thesis using 2 by (simp del: takeWhile_eq_all_conv)
  next
    case False
    then have "takeWhile is_cont (s @ b) = takeWhile is_cont s"
      "dropWhile is_cont (s @ b) = dropWhile is_cont s @ b"
      by (auto simp: takeWhile_append dropWhile_append)
    then show ?thesis using 2 by simp
  qed
qed simp

lemma utf8_chars_ascii: "\<forall>c \<in> set s. is_ascii c \<Longrightarrow> utf8_chars s = map (\<lambda>c. [c]) s"
  by (induction s) auto

lemma utf8_chars_ws: "set ws \<subseteq> set ws_encodings \<Longrightarrow> utf8_chars (concat ws) = ws"
proof (induction ws)
  case (Cons w ws)
  have w: "w \<in> set ws_encodings" using Cons.prems by simp
  have "\<not> is_cont (hd (concat ws))" if "ws \<noteq> []"
  proof -
    have "hd ws \<in> set ws_encodings" using Cons.prems that by (cases ws) auto
    then have "hd ws \<noteq> [] \<and> \<not> is_cont (hd (hd ws))" by (auto simp: ws_encodings_def is_cont_def)
    then show ?thesis using that by (cases ws) auto
  qed
  then have "utf8_chars (w @ concat ws) = utf8_chars w @ utf8_chars (concat ws)"
    by (cases "ws = []") (simp, intro utf8_chars_append, blast)
  moreover have "utf8_chars w = [w]"
    using w by (auto simp: ws_encodings_def is_ascii_def is_cont_def)
  ultimately show ?case using Cons by simp
qed simp

text \<open>A text that is white space and nothing else.\<close>

definition blank :: "string \<Rightarrow> bool" where
  "blank run \<longleftrightarrow> (\<exists>ws. run = concat ws \<and> set ws \<subseteq> set ws_encodings)"

lemma blank_append: "blank a \<Longrightarrow> blank b \<Longrightarrow> blank (a @ b)"
  unfolding blank_def by (metis Un_least concat_append set_append)

lemma blank_Nil [simp]: "blank []"
  unfolding blank_def by (rule exI [of _ "[]"]) simp

lemma blank_concat: "\<forall>w \<in> set ws. is_ws_char w \<Longrightarrow> blank (concat ws)"
  unfolding blank_def is_ws_char_def by blast

lemma blank_trim: "trim s = [] \<Longrightarrow> blank s"
  using blank_concat [of "utf8_chars s"] by (simp add: trim_empty)

lemma blank_lead: "blank (take (length s - length (trim_start s)) s)"
proof -
  have "take (length s - length (trim_start s)) s = concat (takeWhile is_ws_char (utf8_chars s))"
    using take_trim_start [of s] trim_start_split [of s] by (metis append_same_eq)
  then show ?thesis using blank_concat set_takeWhileD by metis
qed

lemma blank_tail: "blank (drop (length (trim_end s)) s)"
proof -
  have "drop (length (trim_end s)) s = concat (rev (takeWhile is_ws_char (rev (utf8_chars s))))"
    using drop_trim_end [of s] trim_end_split [of s] by (metis same_append_eq)
  then show ?thesis using blank_concat set_takeWhileD by (metis set_rev)
qed

lemma escape_ws:
  "map escape_char ws_encodings =
     map (\<lambda>r. BACKSLASH # r)
       [''t'', ''n'', ''u{b}'', ''u{c}'', ''r'', ''s'', ''u{85}'', ''u{a0}'', ''u{1680}'', ''u{2000}'',
        ''u{2001}'', ''u{2002}'', ''u{2003}'', ''u{2004}'', ''u{2005}'', ''u{2006}'', ''u{2007}'',
        ''u{2008}'', ''u{2009}'', ''u{200a}'', ''u{2028}'', ''u{2029}'', ''u{202f}'', ''u{205f}'',
        ''u{3000}'']"
  by (simp add: ws_encodings_def escape_char_def NL_def CR_def TAB_def BACKSLASH_def code_point_def
      show_hex.simps hex_char_def)

lemma char_from_u32_ws:
  "map char_from_u32
     [11, 12, 133, 160, 5760, 8192, 8193, 8194, 8195, 8196, 8197, 8198, 8199, 8200, 8201, 8202,
      8232, 8233, 8239, 8287, 12288]
   = map Some (filter (\<lambda>w. w \<notin> {[NL], [CR], [TAB], '' ''}) ws_encodings)"
  by (simp add: ws_encodings_def NL_def CR_def TAB_def char_from_u32_def utf8_encode_def char_of_eq_iff)

lemma unescape_one:
  "w \<in> set ws_encodings \<Longrightarrow>
     unescape_chars (map (\<lambda>c. [c]) (escape_char w) @ r) = map_option (\<lambda>out. w @ out) (unescape_chars r)
     \<and> (\<forall>c \<in> set (escape_char w). is_ascii c \<and> c \<noteq> CHR '';'')"
proof -
  assume "w \<in> set ws_encodings"
  moreover have "\<forall>w \<in> set ws_encodings. \<exists>e. escape_char w = BACKSLASH # e \<and>
     (unescape_chars (map (\<lambda>c. [c]) (BACKSLASH # e) @ r) = map_option (\<lambda>out. w @ out) (unescape_chars r)
     \<and> (\<forall>c \<in> set (BACKSLASH # e). is_ascii c \<and> c \<noteq> CHR '';''))"
    using escape_ws char_from_u32_ws
    by (simp add: u32_max_def ws_encodings_def NL_def CR_def TAB_def BACKSLASH_def is_ascii_def parse_hex_def
        strip_prefix_def starts_with_def hex_value_def all_some_def)
  ultimately show ?thesis by force
qed


lemma unescape_escape_ws:
  "set ws \<subseteq> set ws_encodings \<Longrightarrow>
     unescape_chars (map (\<lambda>c. [c]) (concat (map escape_char ws))) = Some (concat ws)"
  by (induction ws) (simp_all add: unescape_one)

lemma escape_blank:
  assumes "blank run"
  shows "unescape (escape run) = Some run" and "CHR '';'' \<notin> set (escape run)"
proof -
  obtain ws where ws: "run = concat ws" "set ws \<subseteq> set ws_encodings"
    using assms by (auto simp: blank_def)
  then have e: "escape run = concat (map escape_char ws)" by (simp add: escape_def utf8_chars_ws)
  have bytes: "\<forall>c \<in> set (escape run). is_ascii c \<and> c \<noteq> CHR '';''"
    unfolding e using ws(2) unescape_one by fastforce
  then show "CHR '';'' \<notin> set (escape run)" by blast
  have "utf8_chars (escape run) = map (\<lambda>c. [c]) (escape run)"
    using bytes by (intro utf8_chars_ascii) blast
  then show "unescape (escape run) = Some run"
    using e ws unescape_escape_ws by (simp add: unescape_def)
qed

definition blank_edges :: "edges \<Rightarrow> bool" where
  "blank_edges e \<longleftrightarrow> blank (lead e) \<and> blank (mid e) \<and> blank (sep e) \<and> blank (tail e)"

lemma decode_encode_edges: "blank_edges e \<Longrightarrow> decode_edges (encode_edges e) = Some e"
proof -
  assume e: "blank_edges e"
  then have "split_on CHR '';'' (encode_edges e) = map escape [lead e, mid e, sep e, tail e]"
    unfolding encode_edges_def by (intro split_on_join) (auto simp: blank_edges_def escape_blank)
  then show ?thesis using e by (simp add: decode_edges_def blank_edges_def escape_blank)
qed

section \<open>A section's record\<close>

definition LEVEL :: string where "LEVEL = ''level''"
definition ORDER :: string where "ORDER = ''order''"
definition EDGES :: string where "EDGES = ''edges''"
definition CONTINUES :: string where "CONTINUES = ''continues''"

definition record_fields :: "document_section \<Rightarrow> string \<Rightarrow> fields" where
  "record_fields s order =
     bt_of ([(LEVEL, show_nat (level s)), (ORDER, order), (EDGES, encode_edges (section_edges s))]
            @ (if continues s then [(CONTINUES, ''true'')] else []))"

definition from_record :: "string \<Rightarrow> string option \<Rightarrow> fields \<Rightarrow> (string \<times> document_section) option" where
  "from_record content details fs =
     (case bt_get fs ORDER of
        None \<Rightarrow> None
      | Some order \<Rightarrow>
          (let bd = (case details of None \<Rightarrow> [] | Some d \<Rightarrow> d);
               e = (case Option.bind (bt_get fs EDGES) decode_edges of
                      Some e \<Rightarrow> e
                    | None \<Rightarrow> \<lparr>lead = [], mid = [], sep = [NL, NL], tail = [NL, NL]\<rparr>);
               e = (if bd = [] then e\<lparr>sep := []\<rparr>
                    else if NL \<notin> set (sep e) then e\<lparr>sep := [NL, NL]\<rparr> else e)
           in Some (order,
                \<lparr>first_line = content,
                 level = (case Option.bind (bt_get fs LEVEL) (parse_unsigned 255) of
                            None \<Rightarrow> 0 | Some n \<Rightarrow> n),
                 body = bd, section_edges = e,
                 continues = (case bt_get fs CONTINUES of None \<Rightarrow> False
                              | Some v \<Rightarrow> v \<noteq> [] \<and> v \<noteq> ''false'')\<rparr>)))"

text \<open>A section as splitting makes it: what a record of it can hold.\<close>

definition section_ok :: "document_section \<Rightarrow> bool" where
  "section_ok s \<longleftrightarrow>
     blank_edges (section_edges s) \<and> level s \<le> 255 \<and>
     (if body s = [] then sep (section_edges s) = [] else NL \<in> set (sep (section_edges s)))"

lemma from_record_fields:
  assumes "section_ok s"
  shows "from_record (first_line s) (if body s = [] then None else Some (body s)) (record_fields s order)
           = Some (order, s)"
proof -
  let ?fs = "record_fields s order"
  have get: "bt_get ?fs LEVEL = Some (show_nat (level s))" "bt_get ?fs ORDER = Some order"
      "bt_get ?fs EDGES = Some (encode_edges (section_edges s))"
      "bt_get ?fs CONTINUES = (if continues s then Some ''true'' else None)"
    by (simp_all add: record_fields_def bt_of_def LEVEL_def ORDER_def EDGES_def CONTINUES_def bt_get_def)
  have "decode_edges (encode_edges (section_edges s)) = Some (section_edges s)"
    using assms by (simp add: section_ok_def decode_encode_edges)
  moreover have "parse_unsigned 255 (show_nat (level s)) = Some (level s)"
    using assms by (intro parse_unsigned_show_nat) (simp add: section_ok_def)
  ultimately show ?thesis
    using assms by (simp add: from_record_def get section_ok_def)
qed

lemma trim_last: "trim s \<noteq> [] \<Longrightarrow> \<not> is_ws_char (last (utf8_chars (trim s)))"
proof -
  assume "trim s \<noteq> []"
  let ?r = "dropWhile is_ws_char (rev (utf8_chars (trim s)))"
  have "utf8_chars (trim s) = rev ?r" using utf8_chars_trim_end [of "trim s"] by simp
  moreover have "?r \<noteq> []" using calculation \<open>trim s \<noteq> []\<close> by (metis rev.simps(1) utf8_chars_Nil_iff)
  ultimately show ?thesis by (metis hd_dropWhile last_rev)
qed

lemma blank_mid: "blank (drop (length (trim_end s)) s)"
  by (rule blank_tail)

lemma section_ok_section_of:
  assumes "trim raw \<noteq> []" and "l \<le> 255"
  shows "section_ok (section_of raw l)"
proof -
  let ?a = "takeWhile (\<lambda>b. b \<noteq> NL) (trim raw)" and ?b = "dropWhile (\<lambda>b. b \<noteq> NL) (trim raw)"
  let ?sep = "take (length ?b - length (trim_start ?b)) ?b"
  have "(trim_start ?b = [] \<longrightarrow> ?b = []) \<and> (trim_start ?b \<noteq> [] \<longrightarrow> NL \<in> set ?sep)"
  proof (cases ?b)
    case (Cons c r)
    then have c: "c = NL" using hd_dropWhile [of "\<lambda>b. b \<noteq> NL" "trim raw"] by simp
    then have "utf8_chars ?b = [NL] # utf8_chars r" using Cons by (simp add: NL_def is_ascii_def)
    moreover have "is_ws_char [NL]" by (simp add: NL_def is_ws_char_def ws_encodings_def)
    ultimately have "length (trim_start ?b) \<le> length r"
      using length_trim_start [of r] by (simp add: trim_start_def)
    then have "NL \<in> set ?sep" using Cons c by (cases "length ?b - length (trim_start ?b)") auto
    moreover have "trim_start ?b \<noteq> []"
    proof
      assume "trim_start ?b = []"
      then have "dropWhile is_ws_char (utf8_chars ?b) = []" using utf8_chars_trim_start [of ?b] by simp
      then have "\<forall>w \<in> set (utf8_chars ?b). is_ws_char w" by (simp only: dropWhile_eq_Nil_conv)
      moreover have "utf8_chars (trim raw) = utf8_chars ?a @ utf8_chars ?b"
        using utf8_chars_append [of ?b ?a] Cons c by (simp add: NL_def is_cont_def)
      ultimately show False using trim_last [OF assms(1)] Cons
        by (metis last_appendR last_in_set list.distinct(1) utf8_chars_Nil_iff)
    qed
    ultimately show ?thesis by simp
  next
    case Nil
    moreover have "trim_start [] = []" by (simp add: trim_start_def)
    ultimately show ?thesis by (simp only:) simp
  qed
  moreover have "blank (take (length raw - length (trim_start raw)) raw)" "blank ?sep"
    "blank (drop (length (trim_end ?a)) ?a)" "blank (drop (length (trim_end raw)) raw)"
    by (rule blank_lead blank_tail)+
  moreover have "?sep = []" if "?b = []" using that by simp
  ultimately show ?thesis
    using assms(2) unfolding section_ok_def section_of_def Let_def blank_edges_def
    by (simp del: dropWhile_eq_Nil_conv)
qed

lemma section_ok_lead:
  "section_ok s \<Longrightarrow> blank p \<Longrightarrow>
     section_ok (s\<lparr>section_edges := (section_edges s)\<lparr>lead := p @ lead (section_edges s)\<rparr>\<rparr>)"
  by (auto simp: section_ok_def blank_edges_def blank_append)

lemma heading_level_bound: "heading_level line = Some l \<Longrightarrow> l \<le> 6"
  by (auto simp: heading_level_def Let_def split: if_split_asm list.split_asm)

lemma heading_scan_levels: "(i, l) \<in> set (heading_scan fm p op lines) \<Longrightarrow> l \<le> 6"
proof (induction lines arbitrary: p op)
  case (Cons raw lines)
  then show ?case
    by (cases op; cases "fence_of (bare raw)"; cases "heading_level (bare raw)")
       (auto simp: Let_def heading_level_bound split: if_split_asm prod.split_asm)
qed simp

lemma sections_from_ok:
  "\<forall>(i, l) \<in> set cuts. l \<le> 255 \<Longrightarrow> blank carried \<Longrightarrow> s \<in> set (sections_from text carried cuts) \<Longrightarrow>
     section_ok s"
proof (induction cuts arbitrary: carried)
  case (Cons cut cuts)
  obtain start l where cut: "cut = (start, l)" by (cases cut)
  let ?fin = "case cuts of [] \<Rightarrow> length text | (n, _) # _ \<Rightarrow> n"
  let ?raw = "take (?fin - start) (drop start text)"
  show ?case
  proof (cases "trim ?raw = []")
    case True
    then have "s \<in> set (sections_from text (carried @ ?raw) cuts)" using Cons.prems(3) cut by (simp add: Let_def)
    then show ?thesis using Cons.IH Cons.prems(1,2) blank_trim [OF True] blank_append by auto
  next
    case False
    then have "section_ok (section_of ?raw l)"
      using section_ok_section_of Cons.prems(1) cut by auto
    moreover have "s \<in> set (sections_from text [] cuts) \<Longrightarrow> section_ok s"
      using Cons.IH [of "[]"] Cons.prems(1) by auto
    ultimately show ?thesis
      using Cons.prems(2,3) False cut section_ok_lead by (auto simp: Let_def split: if_split_asm)
  qed
qed simp

lemma split_document_ok:
  assumes "split_document text = Inr sections" and "s \<in> set sections"
  shows "section_ok s"
proof -
  have "s \<in> set (sections_from text []
      ((case heading_starts text of [] \<Rightarrow> [(0, 0)] | (i, _) # _ \<Rightarrow> (if i \<noteq> 0 then [(0, 0)] else []))
        @ heading_starts text))"
    using assms by (auto simp: split_document_def Let_def split: option.splits if_splits)
  moreover have "\<forall>(i, l) \<in> set (heading_starts text). l \<le> 255"
    using heading_scan_levels by (fastforce simp: heading_starts_def)
  ultimately show ?thesis
    by (intro sections_from_ok [of _ "[]" s "text"]) (auto split: list.split_asm if_split_asm)
qed

text \<open>
  every section a text splits into survives its record: the words, the body, the level
  and the fields written for it read back as the same section under the same order key.
\<close>

theorem section_record_round_trip:
  assumes "split_document text = Inr sections" and "s \<in> set sections"
  shows "from_record (first_line s) (if body s = [] then None else Some (body s)) (record_fields s order)
           = Some (order, s)"
  using split_document_ok [OF assms] by (rule from_record_fields)

definition sample_text :: string where
  "sample_text = ''# T'' @ [NL] @ ''abc'' @ [NL, NL] @ ''## U'' @ [NL] @ ''d''"

definition sample_sections :: "document_section list" where
  "sample_sections =
     [\<lparr>first_line = ''# T'', level = 1, body = ''abc'',
       section_edges = \<lparr>lead = [], mid = [], sep = [NL], tail = [NL, NL]\<rparr>, continues = False\<rparr>,
      \<lparr>first_line = ''## U'', level = 2, body = ''d'',
       section_edges = \<lparr>lead = [], mid = [], sep = [NL], tail = []\<rparr>, continues = False\<rparr>]"

lemma split_sample: "split_document sample_text = Inr sample_sections"
  by code_simp

theorem split_join_witness: "join_document sample_sections = sample_text"
  by (rule split_join [OF split_sample])

theorem section_record_round_trip_witness:
  "from_record ''# T'' (Some ''abc'') (record_fields (hd sample_sections) ''m'') = Some (''m'', hd sample_sections)
   \<and> from_record ''## U'' (Some ''d'') (record_fields (last sample_sections) ''t'') = Some (''t'', last sample_sections)"
  using section_record_round_trip [OF split_sample, of "hd sample_sections" "''m''"]
    section_record_round_trip [OF split_sample, of "last sample_sections" "''t''"]
  by (simp add: sample_sections_def)

end
