(* ===== verification/Document_Cuts.thy ===== *)
theory Document_Cuts
  imports Document Stable_Sort
begin

text \<open>
  The rest of \<open>memory/document.rs\<close>: the white space a seam between two sections needs, the
  order its key gives a record, the place a merged document's sections take, and a section cut
  into chunks that each fit a record.
\<close>

section \<open>Seams\<close>

definition count_char :: "char \<Rightarrow> string \<Rightarrow> nat" where
  "count_char c s = length (filter (\<lambda>b. b = c) s)"

definition line_feeds_needed :: "string \<Rightarrow> string \<Rightarrow> bool \<Rightarrow> nat" where
  "line_feeds_needed before ld blank_line =
     (let held = count_char NL before + count_char NL ld;
          last_line = (case rsplit_once NL before of None \<Rightarrow> before | Some (_, l) \<Rightarrow> l);
          indented = (\<exists>c \<in> set last_line. c \<noteq> CR) \<and> ld = [];
          wanted = (if blank_line \<or> held = 0 then 2 else held)
      in max (wanted - held) (if indented then 1 else 0))"

definition lead_behind :: "string option \<Rightarrow> string \<Rightarrow> string" where
  "lead_behind before_tail ld =
     (case before_tail of None \<Rightarrow> []
      | Some before \<Rightarrow> replicate (line_feeds_needed before ld True) NL @ ld)"

definition lead_closing_a_gap :: "string option \<Rightarrow> string \<Rightarrow> string" where
  "lead_closing_a_gap before_tail ld =
     (case before_tail of None \<Rightarrow> []
      | Some before \<Rightarrow> replicate (line_feeds_needed before ld False) NL @ ld)"

definition tail_before :: "string \<Rightarrow> string option \<Rightarrow> string" where
  "tail_before before next_lead =
     (case next_lead of None \<Rightarrow> before
      | Some ld \<Rightarrow> before @ replicate (line_feeds_needed before ld True) NL)"

definition differs_only_by_a_blank_lead :: "string \<Rightarrow> string \<Rightarrow> bool" where
  "differs_only_by_a_blank_lead held sent =
     (case (decode_edges held, decode_edges sent) of
        (Some h, Some s) \<Rightarrow>
          mid h = mid s \<and> sep h = sep s \<and> tail h = tail s
            \<and> list_all (\<lambda>c. c = NL) (lead h) \<and> list_all (\<lambda>c. c = NL) (lead s)
      | _ \<Rightarrow> False)"

section \<open>The order of a document's records\<close>

definition claim_sequence :: "fact \<Rightarrow> nat" where
  "claim_sequence f =
     (case parse_unsigned usize_max (dropWhile (\<lambda>c. c = CHR ''f'') (f_id f)) of
        Some n \<Rightarrow> n | None \<Rightarrow> usize_max)"

definition placed_order :: "fact \<Rightarrow> fact \<Rightarrow> ordering" where
  "placed_order a b =
     then_with (cmp (the (bt_get (f_fields a) ORDER)) (the (bt_get (f_fields b) ORDER)))
       (then_with (cmp (claim_sequence a) (claim_sequence b)) (cmp (f_id a) (f_id b)))"

definition placed_in_order :: "fact list \<Rightarrow> fact list" where
  "placed_in_order facts = sort_by placed_order (filter (\<lambda>f. has_key (f_fields f) ORDER) facts)"

record relocated =
  r_fact :: fact_id
  r_order :: string
  r_continues :: "fact_id option"

definition relocate :: "(fact_id \<times> fact_id) list \<Rightarrow> fact \<Rightarrow> string \<Rightarrow> relocated" where
  "relocate claims f order =
     \<lparr>r_fact = f_id f, r_order = order,
      r_continues =
        (case bt_get (f_fields f) CONTINUES of
           None \<Rightarrow> None
         | Some head \<Rightarrow>
             if head = [] \<or> head = ''false'' then None
             else map_option snd (find (\<lambda>(was, now). was = head) claims))\<rparr>"

text \<open>\<open>append_after\<close>: minting the keys may panic as \<open>spread\<close> may, which is \<open>None\<close>.\<close>

definition append_after ::
  "fact list \<Rightarrow> fact list \<Rightarrow> (fact_id \<times> fact_id) list \<Rightarrow> (order_error + relocated list) option" where
  "append_after survivor folded claims =
     (let placed = placed_in_order survivor;
          last_key = (if placed = [] then None else bt_get (f_fields (last placed)) ORDER);
          moving = filter (\<lambda>f. f_status f = Active) (placed_in_order folded)
      in try_then (spread last_key None (length moving)) (\<lambda>orders.
           Some (Inr (map2 (relocate claims) moving orders))))"

section \<open>Cutting a section into chunks\<close>

fun fence_scan :: "nat \<Rightarrow> (char \<times> nat \<times> nat) option \<Rightarrow> string list \<Rightarrow> (nat \<times> nat) list" where
  "fence_scan p op [] = []"
| "fence_scan p op (raw # lines) =
     (let after_it = p + length raw in
      case (op, fence_of (bare raw)) of
        (None, Some (c, run, _)) \<Rightarrow> fence_scan after_it (Some (c, run, p)) lines
      | (Some (c, run, start), Some fence) \<Rightarrow>
          if closes (c, run) fence then (start, after_it) # fence_scan after_it None lines
          else fence_scan after_it op lines
      | _ \<Rightarrow> fence_scan after_it op lines)"

definition fenced_blocks :: "string \<Rightarrow> (nat \<times> nat) list" where
  "fenced_blocks text = fence_scan 0 None (lines_inclusive text)"

text \<open>The places a text may be cut, coarsest kind first.\<close>

definition line_feeds_at :: "string \<Rightarrow> nat list" where
  "line_feeds_at text = filter (\<lambda>i. text ! i = NL) [0..<length text]"

definition blank_line_ends :: "string \<Rightarrow> nat list" where
  "blank_line_ends text =
     map (\<lambda>i. let after = drop (i + 1) text in i + 1 + (length after - length (trim_start after)))
       (filter (\<lambda>i. starts_with [NL]
                     (dropWhile (\<lambda>c. c = CHR '' '' \<or> c = TAB \<or> c = CR) (drop (i + 1) text)))
          (line_feeds_at text))"

definition line_ends :: "string \<Rightarrow> nat list" where
  "line_ends text = map (\<lambda>i. i + 1) (line_feeds_at text)"

definition char_ends :: "string \<Rightarrow> nat list" where
  "char_ends text =
     map (\<lambda>n. length (concat (take n (utf8_chars text)))) [1..<length (utf8_chars text) + 1]"

definition may_cut :: "string \<Rightarrow> nat \<Rightarrow> bool" where
  "may_cut text i \<longleftrightarrow>
     i < length text \<and> length text - length (trim_start text) < i \<and> trim (take i text) \<noteq> []
     \<and> \<not> (\<exists>(start, fin) \<in> set (fenced_blocks text). start < i \<and> i < fin)"

text \<open>The binary search for the last candidate that passes.\<close>

function search_last :: "(nat \<Rightarrow> bool) \<Rightarrow> nat list \<Rightarrow> nat \<Rightarrow> nat \<Rightarrow> nat" where
  "search_last passes candidates low high =
     (if low < high
      then (let m = (low + high) div 2 in
            if passes (candidates ! m) then search_last passes candidates (m + 1) high
            else search_last passes candidates low m)
      else low)"
  by pat_completeness auto
termination search_last
  by (relation "measure (\<lambda>(passes, candidates, low, high). high - low)") auto

declare search_last.simps [simp del]

fun first_tier :: "(nat \<Rightarrow> bool) \<Rightarrow> nat list list \<Rightarrow> nat option" where
  "first_tier passes [] = None"
| "first_tier passes (candidates # tiers) =
     (let low = search_last passes candidates 0 (length candidates) in
      if low > 0 then Some (candidates ! (low - 1)) else first_tier passes tiers)"

definition largest_cut :: "string \<Rightarrow> (string \<Rightarrow> bool) \<Rightarrow> nat option" where
  "largest_cut text passes =
     first_tier (\<lambda>i. passes (take i text))
       (map (filter (may_cut text)) [blank_line_ends text, line_ends text, char_ends text])"

record too_big =
  tb_unit :: document_section
  tb_fenced :: bool

definition too_big_of :: "string \<Rightarrow> too_big" where
  "too_big_of r =
     (let start = length r - length (trim_start r);
          (unit_text, fenced) =
            (case find (\<lambda>(s, _). s = start) (fenced_blocks r) of
               Some (s, fin) \<Rightarrow> (take (fin - s) (drop s r), True)
             | None \<Rightarrow> (case utf8_chars (drop start r) of [] \<Rightarrow> '' '' | c # _ \<Rightarrow> c, False))
      in \<lparr>tb_unit = (section_of unit_text 0)\<lparr>continues := True\<rparr>, tb_fenced = fenced\<rparr>)"

definition as_chunk :: "(nat \<times> bool) option \<Rightarrow> string \<Rightarrow> document_section" where
  "as_chunk head raw =
     (case head of
        Some (lvl, cont) \<Rightarrow> (section_of raw lvl)\<lparr>continues := cont\<rparr>
      | None \<Rightarrow> (section_of raw 0)\<lparr>continues := True\<rparr>)"

lemma search_last_le: "low \<le> high \<Longrightarrow> search_last passes cs low high \<le> high"
proof (induction passes cs low high rule: search_last.induct)
  case (1 passes cs low high)
  show ?case
  proof (cases "low < high")
    case True
    define m where "m = (low + high) div 2"
    have "m + 1 \<le> high" "low \<le> m" "m < high" using True by (auto simp: m_def)
    then show ?thesis using 1 True
      by (subst search_last.simps) (auto simp: m_def [symmetric] Let_def intro: le_trans less_imp_le)
  qed (use 1 in \<open>subst search_last.simps, simp\<close>)
qed

lemma search_last_passes:
  "low \<le> high \<Longrightarrow> low = 0 \<or> passes (cs ! (low - 1)) \<Longrightarrow>
     (let r = search_last passes cs low high in r = 0 \<or> passes (cs ! (r - 1)))"
proof (induction passes cs low high rule: search_last.induct)
  case (1 passes cs low high)
  show ?case
  proof (cases "low < high")
    case True
    define m where "m = (low + high) div 2"
    have "m + 1 \<le> high" "low \<le> m" using True by (auto simp: m_def)
    then show ?thesis using 1 True
      by (subst search_last.simps) (auto simp: m_def [symmetric] Let_def)
  qed (use 1 in \<open>subst search_last.simps, simp\<close>)
qed

lemma first_tier_Some:
  "first_tier passes tiers = Some i \<Longrightarrow> passes i \<and> (\<exists>t \<in> set tiers. i \<in> set t)"
proof (induction tiers)
  case (Cons cs tiers)
  let ?r = "search_last passes cs 0 (length cs)"
  have "?r \<le> length cs" "?r = 0 \<or> passes (cs ! (?r - 1))"
    using search_last_le [of 0 "length cs" passes cs] search_last_passes [of 0 "length cs" passes cs]
    by (auto simp: Let_def)
  then show ?case using Cons by (auto simp: Let_def split: if_split_asm)
qed simp

lemma largest_cut_Some:
  assumes "largest_cut text passes = Some i"
  shows "passes (take i text)" and "may_cut text i"
    and "i \<in> set (blank_line_ends text) \<union> set (line_ends text) \<union> set (char_ends text)"
  using first_tier_Some [OF assms [unfolded largest_cut_def]] by auto

function fit_loop ::
  "(document_section \<Rightarrow> bool) \<Rightarrow> (nat \<times> bool) option \<Rightarrow> string \<Rightarrow> too_big + document_section list" where
  "fit_loop fits head r =
     (if fits (as_chunk head r) then Inr [as_chunk head r]
      else case largest_cut r (\<lambda>p. fits (as_chunk head p)) of
             None \<Rightarrow> Inl (too_big_of r)
           | Some here \<Rightarrow>
               ok_then (fit_loop fits None (drop here r)) (\<lambda>chunks.
                 Inr (as_chunk head (take here r) # chunks)))"
  by pat_completeness auto
termination fit_loop
proof (relation "measure (\<lambda>(fits, head, r). length r)", goal_cases)
  case (2 fits head r here)
  then have "may_cut r here" using largest_cut_Some by blast
  then show ?case by (auto simp: may_cut_def)
qed simp

declare fit_loop.simps [simp del]

definition fit :: "document_section \<Rightarrow> (document_section \<Rightarrow> bool) \<Rightarrow> too_big + document_section list" where
  "fit s fits =
     (if fits s then Inr [s] else fit_loop fits (Some (level s, continues s)) (join_section s))"


section \<open>A cut falls between characters\<close>

definition boundary :: "string \<Rightarrow> nat \<Rightarrow> bool" where
  "boundary text i \<longleftrightarrow> utf8_chars text = utf8_chars (take i text) @ utf8_chars (drop i text)"

lemma utf8_chars_append_ascii:
  "is_ascii c \<Longrightarrow> utf8_chars (a @ c # b) = utf8_chars (a @ [c]) @ utf8_chars b"
  using utf8_chars_append [of "c # b" a] utf8_chars_append [of "[c]" a]
  by (auto simp: is_ascii_def is_cont_def)

lemma line_feeds_at_iff: "i \<in> set (line_feeds_at text) \<longleftrightarrow> i < length text \<and> text ! i = NL"
  by (auto simp: line_feeds_at_def)

lemma boundary_line_feed:
  assumes "i < length text" and "text ! i = NL"
  shows "boundary text (i + 1)"
proof -
  have "text = take i text @ NL # drop (i + 1) text" using assms by (metis id_take_nth_drop Suc_eq_plus1)
  moreover have "take (i + 1) text = take i text @ [NL]"
    using assms by (metis Suc_eq_plus1 take_Suc_conv_app_nth)
  ultimately show ?thesis
    using utf8_chars_append_ascii [of NL "take i text" "drop (i + 1) text"]
    by (simp add: boundary_def NL_def is_ascii_def)
qed

lemma boundary_chars: "boundary text (length (concat (take n (utf8_chars text))))"
proof -
  let ?a = "concat (take n (utf8_chars text))" and ?b = "concat (drop n (utf8_chars text))"
  have "text = ?a @ ?b" by (metis append_take_drop_id concat_append concat_utf8_chars)
  then have "take (length ?a) text = ?a" "drop (length ?a) text = ?b"
    by (metis append_eq_conv_conj)+
  then show ?thesis by (simp add: boundary_def utf8_chars_take utf8_chars_drop)
qed

lemma boundary_trans:
  assumes "boundary text i" and "boundary (drop i text) j"
  shows "boundary text (i + j)"
proof -
  have t: "take (i + j) text = take i text @ take j (drop i text)" by (rule take_add)
  have "utf8_chars text = utf8_chars (take i text) @ utf8_chars (take j (drop i text))
      @ utf8_chars (drop j (drop i text))"
    using assms by (simp add: boundary_def)
  moreover have "utf8_chars (take i text @ take j (drop i text))
      = utf8_chars (take i text) @ utf8_chars (take j (drop i text))"
  proof -
    let ?n = "length (utf8_chars (take i text)) + length (utf8_chars (take j (drop i text)))"
    have "take ?n (utf8_chars text) = utf8_chars (take i text) @ utf8_chars (take j (drop i text))"
      using calculation by simp
    then show ?thesis by (metis utf8_chars_take concat_append concat_utf8_chars)
  qed
  ultimately show ?thesis unfolding boundary_def t by (simp add: add.commute)
qed

lemma boundary_lead: "boundary text (length text - length (trim_start text))"
proof -
  have "length text - length (trim_start text) = length (concat (takeWhile is_ws_char (utf8_chars text)))"
    using trim_start_split [of "text"] by (metis add_diff_cancel_right' length_append)
  then show ?thesis using boundary_chars by (metis takeWhile_eq_take)
qed

lemma cut_boundary:
  assumes "i \<in> set (blank_line_ends text) \<union> set (line_ends text) \<union> set (char_ends text)"
  shows "boundary text i"
proof -
  consider j where "i = j + 1" "j \<in> set (line_feeds_at text)"
    | j where "i = j + 1 + (length (drop (j + 1) text) - length (trim_start (drop (j + 1) text)))"
        "j \<in> set (line_feeds_at text)"
    | n where "i = length (concat (take n (utf8_chars text)))"
    using assms by (auto simp: blank_line_ends_def line_ends_def char_ends_def Let_def)
  then show ?thesis
  proof cases
    case 1
    then show ?thesis using boundary_line_feed by (simp add: line_feeds_at_iff)
  next
    case 2
    then show ?thesis
      using boundary_trans [OF boundary_line_feed boundary_lead] by (simp add: line_feeds_at_iff)
  next
    case 3
    then show ?thesis using boundary_chars by simp
  qed
qed

lemma trim_append_blank:
  assumes "trim a \<noteq> []" and "utf8_chars (a @ b) = utf8_chars a @ utf8_chars b" and "trim b = []"
  shows "trim (a @ b) = trim a"
proof -
  have b: "\<forall>w \<in> set (utf8_chars b). is_ws_char w" using assms(3) trim_empty by blast
  have "\<exists>w \<in> set (utf8_chars a). \<not> is_ws_char w" using assms(1) trim_empty by blast
  then have "dropWhile is_ws_char (utf8_chars a @ utf8_chars b)
               = dropWhile is_ws_char (utf8_chars a) @ utf8_chars b"
    by (auto simp: dropWhile_append)
  moreover have "dropWhile is_ws_char (rev (utf8_chars b) @ xs) = dropWhile is_ws_char xs" for xs
    using b by (simp add: dropWhile_append)
  ultimately show ?thesis
    by (simp add: trim_def assms(2) flip: utf8_chars_inject)
qed

section \<open>The chunks of a section join back into it\<close>

text \<open>
  The size a record is measured by does not count the white space at the edges of the chunk:
  then no chunk is white space alone.
\<close>

definition blind_to_edges :: "(document_section \<Rightarrow> bool) \<Rightarrow> bool" where
  "blind_to_edges fits \<longleftrightarrow> (\<forall>s e. fits (s\<lparr>section_edges := e\<rparr>) = fits s)"

lemma as_chunk_words:
  assumes "blind_to_edges fits" and "trim a = trim b"
  shows "fits (as_chunk head a) = fits (as_chunk head b)"
proof -
  have "\<exists>e. as_chunk head a = (as_chunk head b)\<lparr>section_edges := e\<rparr>"
    using assms(2) by (auto simp: as_chunk_def section_of_def Let_def split: option.split)
  then show ?thesis using assms(1) by (auto simp: blind_to_edges_def)
qed

lemma join_as_chunk: "trim r \<noteq> [] \<Longrightarrow> join_section (as_chunk head r) = r"
  using join_section_of by (auto simp: as_chunk_def join_section_def split: option.split)

lemma fit_loop_joins:
  "blind_to_edges fits \<Longrightarrow> trim r \<noteq> [] \<Longrightarrow> fit_loop fits head r = Inr chunks \<Longrightarrow>
     join_document chunks = r \<and> (\<forall>c \<in> set chunks. fits c) \<and> chunks \<noteq> []"
proof (induction fits head r arbitrary: chunks rule: fit_loop.induct)
  case (1 fits head r)
  show ?case
  proof (cases "fits (as_chunk head r)")
    case True
    then show ?thesis using 1 by (auto simp: fit_loop.simps [of fits head r] join_document_def join_as_chunk)
  next
    case False
    then obtain i where i: "largest_cut r (\<lambda>p. fits (as_chunk head p)) = Some i"
      using "1.prems" by (auto simp: fit_loop.simps [of fits head r] split: option.split_asm)
    then obtain cs where cs: "fit_loop fits None (drop i r) = Inr cs" "chunks = as_chunk head (take i r) # cs"
      using "1.prems" False by (auto simp: fit_loop.simps [of fits head r] elim!: ok_then_InrE)
    note * = largest_cut_Some [OF i]
    have t: "trim (take i r) \<noteq> []" using *(2) by (simp add: may_cut_def)
    have "trim (drop i r) \<noteq> []"
    proof
      assume "trim (drop i r) = []"
      then have "trim (take i r @ drop i r) = trim (take i r)"
        using trim_append_blank [OF t, of "drop i r"] cut_boundary [OF *(3)] by (simp add: boundary_def)
      then show False using *(1) False as_chunk_words "1.prems"(1) by (metis append_take_drop_id)
    qed
    then have "join_document cs = drop i r \<and> (\<forall>c \<in> set cs. fits c)"
      using "1.IH" [OF False i] cs(1) "1.prems"(1) by blast
    then show ?thesis using cs(2) *(1) t by (simp add: join_document_def join_as_chunk)
  qed
qed


lemma headings_sharp:
  "cuts_ok text p cuts \<Longrightarrow> s \<in> set (sections_from text carried cuts) \<Longrightarrow>
     CHR ''#'' \<in> set (join_section s)"
proof (induction cuts arbitrary: p carried)
  case (Cons cut cuts)
  obtain start l where cut: "cut = (start, l)" by (cases cut)
  let ?fin = "case cuts of [] \<Rightarrow> length text | (n, _) # _ \<Rightarrow> n"
  let ?raw = "take (?fin - start) (drop start text)"
  obtain q where q: "CHR ''#'' \<in> set (take (q - start) (drop start text))" "cuts_ok text q cuts"
    using Cons.prems(1) cut by auto
  have "q \<le> ?fin" using q(2) cuts_ok_length [OF q(2)] by (cases cuts) auto
  then have raw: "CHR ''#'' \<in> set ?raw"
    using q(1) set_take_subset_set_take [of "q - start" "?fin - start" "drop start text"] by fastforce
  then have "trim ?raw \<noteq> []" using trim_keeps [of "CHR ''#''" ?raw] by (fastforce simp: printable_def)
  then show ?case
    using Cons.prems(2) Cons.IH [OF q(2), of "[]"] raw cut
    by (auto simp: Let_def join_section_lead join_section_of split: if_split_asm)
qed simp

lemma section_not_blank:
  assumes "split_document text = Inr sections" and "s \<in> set sections"
  shows "trim (join_section s) \<noteq> []"
proof -
  let ?h = "heading_starts text"
  let ?raw = "take (case ?h of [] \<Rightarrow> length text | (n, _) # _ \<Rightarrow> n) text"
  have ok: "cuts_ok text 0 ?h"
    unfolding heading_starts_def by (rule heading_scan_cuts) (simp_all add: concat_lines_inclusive)
  have "s \<in> set (sections_from text []
      ((case ?h of [] \<Rightarrow> [(0, 0)] | (i, _) # _ \<Rightarrow> (if i \<noteq> 0 then [(0, 0)] else [])) @ ?h))"
    using assms by (auto simp: split_document_def Let_def split: option.splits if_splits)
  then consider "\<exists>carried. s \<in> set (sections_from text carried ?h)"
    | "s \<in> set (sections_from text [] ((0, 0) # ?h))"
    by (cases ?h) (force simp del: sections_from.simps split: if_split_asm)+
  then have "CHR ''#'' \<in> set (join_section s) \<or> (join_section s = ?raw \<and> trim ?raw \<noteq> [])"
  proof cases
    case 2
    then show ?thesis
      using headings_sharp [OF ok] by (auto simp: Let_def join_section_of split: if_split_asm)
  qed (use headings_sharp [OF ok] in blast)
  then show ?thesis using trim_keeps [of "CHR ''#''" "join_section s"] by (fastforce simp: printable_def)
qed

text \<open>
  a section cut for size joins back into itself, byte for byte, and every chunk fits, when
  the size of a chunk does not depend on the white space at its edges.
\<close>

theorem fit_joins:
  assumes "blind_to_edges fits" and "split_document text = Inr sections" and "s \<in> set sections"
    and "fit s fits = Inr chunks"
  shows "join_document chunks = join_section s \<and> (\<forall>c \<in> set chunks. fits c)"
proof (cases "fits s")
  case False
  then have "fit_loop fits (Some (level s, continues s)) (join_section s) = Inr chunks"
    using assms(4) by (simp add: fit_def)
  then show ?thesis using fit_loop_joins [OF assms(1)] section_not_blank [OF assms(2,3)] by blast
qed (use assms in \<open>auto simp: fit_def join_document_def\<close>)


text \<open>The words of a section, without what the edges hold: the size the code's tests measure by.\<close>

definition words_size :: "document_section \<Rightarrow> nat" where
  "words_size s = length (first_line s) + length (body s)"

definition sample_section :: document_section where
  "sample_section =
     \<lparr>first_line = ''# T'', level = 1, body = ''abc def'',
      section_edges = \<lparr>lead = [], mid = [], sep = [NL], tail = []\<rparr>, continues = False\<rparr>"

theorem fit_joins_witness:
  "\<exists>chunks. split_document (''# T'' @ [NL] @ ''abc def'') = Inr [sample_section]
     \<and> fit sample_section (\<lambda>c. words_size c \<le> 7) = Inr chunks \<and> length chunks = 2
     \<and> join_document chunks = join_section sample_section"
proof -
  let ?f = "\<lambda>c. words_size c \<le> 7"
  have split: "split_document (''# T'' @ [NL] @ ''abc def'') = Inr [sample_section]" by code_simp
  let ?a = "\<lparr>first_line = ''# T'', level = 1, body = [],
      section_edges = \<lparr>lead = [], mid = [], sep = [], tail = [NL]\<rparr>, continues = False\<rparr>"
  let ?b = "\<lparr>first_line = ''abc def'', level = 0, body = [],
      section_edges = \<lparr>lead = [], mid = [], sep = [], tail = []\<rparr>, continues = True\<rparr>"
  have fit: "fit sample_section ?f = Inr [?a, ?b]" by code_simp
  have "blind_to_edges ?f" by (simp add: blind_to_edges_def words_size_def)
  then have "join_document [?a, ?b] = join_section sample_section"
    using fit_joins [OF _ split _ fit] by simp
  then show ?thesis using split fit by auto
qed

definition stored_size :: "document_section \<Rightarrow> nat" where
  "stored_size s = words_size s + length (encode_edges (section_edges s))"

text \<open>
  when the size counts the white space at the edges, as the size of a stored record does,
  the chunks may not join back into the section: a run of line feeds too long for one record
  is kept once as the lead and once as the tail of a chunk with no words.
\<close>

theorem fit_repeats_blank_tail:
  "\<exists>s chunks. split_document (CHR ''a'' # [NL, NL, NL]) = Inr [s]
     \<and> fit s (\<lambda>c. stored_size c \<le> 9) = Inr chunks
     \<and> join_document chunks = join_section s @ [NL]"
proof -
  let ?s = "\<lparr>first_line = ''a'', level = 0, body = [],
      section_edges = \<lparr>lead = [], mid = [], sep = [], tail = [NL, NL, NL]\<rparr>, continues = False\<rparr>"
  let ?c = "[?s\<lparr>section_edges := \<lparr>lead = [], mid = [], sep = [], tail = [NL, NL]\<rparr>\<rparr>,
      \<lparr>first_line = [], level = 0, body = [],
       section_edges = \<lparr>lead = [NL], mid = [], sep = [], tail = [NL]\<rparr>, continues = True\<rparr>]"
  have "split_document (CHR ''a'' # [NL, NL, NL]) = Inr [?s]" by code_simp
  moreover have "fit ?s (\<lambda>c. stored_size c \<le> 9) = Inr ?c" by code_simp
  moreover have "join_document ?c = join_section ?s @ [NL]" by code_simp
  ultimately show ?thesis by blast
qed


section \<open>A merged document's sections go last\<close>

interpretation placement: comparator placed_order
  unfolding placed_order_def by (intro comparator_then comparator_key)

definition order_key :: "fact \<Rightarrow> string" where
  "order_key f = the (bt_get (f_fields f) ORDER)"

lemma set_placed: "set (placed_in_order fs) = {f \<in> set fs. has_key (f_fields f) ORDER}"
  by (auto simp: placed_in_order_def)

lemma placed_keys_ascend: "sorted (map order_key (placed_in_order fs))"
proof -
  have "placed_order a b \<noteq> OGreater \<Longrightarrow> order_key a \<le> order_key b" for a b
    by (auto simp: placed_order_def order_key_def then_with_def cmp_def split: if_split_asm)
  then show ?thesis
    unfolding placed_in_order_def sorted_map
    by (rule sorted_wrt_mono_rel [rotated, OF placement.sorted_sort_by])
qed

lemma last_placed_greatest:
  assumes "f \<in> set fs" and "has_key (f_fields f) ORDER"
  shows "placed_in_order fs \<noteq> [] \<and> order_key f \<le> order_key (last (placed_in_order fs))"
proof -
  let ?p = "placed_in_order fs"
  have "f \<in> set ?p" using assms set_placed by blast
  then obtain ys z where p: "?p = ys @ [z]" by (metis rev_exhaust empty_iff list.set(1))
  then have "f = z \<or> f \<in> set ys" using \<open>f \<in> set ?p\<close> by auto
  then show ?thesis using placed_keys_ascend [of fs] unfolding p by (auto simp: sorted_append)
qed

text \<open>
  when two documents merge, the folded document's standing sections keep their own order
  and take valid keys, strictly ascending, each after every order key the survivor holds,
  archived sections included; minting them neither refuses nor panics.
\<close>

theorem append_after_last:
  assumes "\<forall>f \<in> set survivor. has_key (f_fields f) ORDER \<longrightarrow> is_a_key (order_key f)"
  shows "\<exists>rs. append_after survivor folded claims = Some (Inr rs)
     \<and> map r_fact rs = map f_id (filter (\<lambda>f. f_status f = Active) (placed_in_order folded))
     \<and> sorted_wrt (<) (map r_order rs)
     \<and> (\<forall>r \<in> set rs. is_a_key (r_order r)
          \<and> (\<forall>f \<in> set survivor. has_key (f_fields f) ORDER \<longrightarrow> order_key f < r_order r))"
proof -
  let ?p = "placed_in_order survivor"
  let ?m = "filter (\<lambda>f. f_status f = Active) (placed_in_order folded)"
  let ?lo = "if ?p = [] then None else bt_get (f_fields (last ?p)) ORDER"
  have in_p: "f \<in> set ?p \<Longrightarrow> bt_get (f_fields f) ORDER = Some (order_key f) \<and> is_a_key (order_key f)" for f
    using assms set_placed by (auto simp: has_key_def order_key_def)
  have lo: "?p \<noteq> [] \<Longrightarrow> ?lo = Some (order_key (last ?p)) \<and> is_a_key (order_key (last ?p))"
    using in_p last_in_set by simp
  then have "bounds is_a_key ?lo None" by (auto simp: bounds_def)
  then obtain ks where ks: "spread ?lo None (length ?m) = Some (Inr ks)" "length ks = length ?m"
      "sorted_wrt (<) ks" "\<forall>k \<in> set ks. is_a_key k \<and> lies_in ?lo k None"
    using ok_keys.spread_keys_sorted by blast
  let ?rs = "map2 (relocate claims) ?m ks"
  have orders: "map r_order ?rs = ks"
    using ks(2) by (intro nth_equalityI) (simp_all add: relocate_def)
  have facts: "map r_fact ?rs = map f_id ?m"
    using ks(2) by (intro nth_equalityI) (simp_all add: relocate_def)
  have "append_after survivor folded claims = Some (Inr ?rs)"
    using ks(1) by (simp add: append_after_def Let_def)
  moreover have above: "is_a_key k \<and> (\<forall>f \<in> set survivor. has_key (f_fields f) ORDER \<longrightarrow> order_key f < k)"
    if "k \<in> set ks" for k
  proof -
    have "order_key f < k" if f: "f \<in> set survivor" "has_key (f_fields f) ORDER" for f
      using last_placed_greatest [OF f] lo ks(4) \<open>k \<in> set ks\<close> by (auto simp: lies_in_def)
    then show ?thesis using ks(4) that by blast
  qed
  moreover have "\<forall>r \<in> set ?rs. is_a_key (r_order r)
          \<and> (\<forall>f \<in> set survivor. has_key (f_fields f) ORDER \<longrightarrow> order_key f < r_order r)"
  proof
    fix r assume "r \<in> set ?rs"
    then have "r_order r \<in> set (map r_order ?rs)" by (simp only: set_map image_eqI)
    then show "is_a_key (r_order r)
          \<and> (\<forall>f \<in> set survivor. has_key (f_fields f) ORDER \<longrightarrow> order_key f < r_order r)"
      unfolding orders by (rule above)
  qed
  moreover have "sorted_wrt (<) (map r_order ?rs)" unfolding orders by (rule ks(3))
  ultimately show ?thesis using facts by blast
qed


theorem append_after_last_witness:
  "\<exists>rs. append_after [plain_fact ''f1'' ''document:a'' [(ORDER, ''V'')]]
          [plain_fact ''f1'' ''document:b'' [(ORDER, ''k'')], plain_fact ''f2'' ''document:b'' [(ORDER, ''c'')]] []
        = Some (Inr rs)
     \<and> map r_fact rs = [''f2'', ''f1''] \<and> (\<forall>r \<in> set rs. ''V'' < r_order r)"
proof -
  let ?s = "[plain_fact ''f1'' ''document:a'' [(ORDER, ''V'')]]"
  let ?f = "[plain_fact ''f1'' ''document:b'' [(ORDER, ''k'')], plain_fact ''f2'' ''document:b'' [(ORDER, ''c'')]]"
  have "map f_id (filter (\<lambda>f. f_status f = Active) (placed_in_order ?f)) = [''f2'', ''f1'']"
    by (simp add: placed_in_order_def plain_fact_def has_key_def bt_get_def sort_by_def placed_order_def
        then_with_def cmp_def)
  moreover have ok: "\<forall>f \<in> set ?s. has_key (f_fields f) ORDER \<longrightarrow> is_a_key (order_key f)"
    and survivor: "\<forall>f \<in> set ?s. has_key (f_fields f) ORDER \<and> order_key f = ''V''"
    by (simp_all add: order_key_def plain_fact_def bt_get_def has_key_def is_a_key_def DIGITS_def)
  ultimately show ?thesis
    using append_after_last [OF ok, of ?f "[]"] by (metis list.set_intros(1))
qed

end
