(* ===== verification/Field_Fold.thy ===== *)
theory Field_Fold
  imports Claims Stable_Sort
begin

text \<open>
  What a thing's fields are: the one fold over the writes of its keys
  (\<open>folded_fields\<close>, \<open>folded_ages\<close> and \<open>folded_backing\<close> of \<open>memory.rs\<close>, with \<open>held_value\<close> of
  \<open>memory/types.rs\<close>), and the reference it is checked against, which reads each key alone.
\<close>

section \<open>Writes\<close>

record key_write =
  kw_key :: string
  kw_ordinal :: nat
  kw_value :: "string option"
  kw_fact :: fact_id
  kw_status :: fact_status
  kw_provenance :: provenance
  kw_standing :: standing
  kw_note :: "string option"
  kw_recorded_by :: "app_stamp option"
  kw_writer :: "actor option"
  kw_run :: "string option"
  kw_written_at :: "int option"

definition holds_a_value :: "string \<Rightarrow> bool" where
  "holds_a_value v \<longleftrightarrow> trim v \<noteq> []"

definition VIEW_DECLARATION_KEYS :: "string list" where
  "VIEW_DECLARATION_KEYS =
     [''selects'', ''answers_type'', ''follow_shape'', ''follow_relation'', ''follow_direction'',
      ''follow_fits_type'']"

definition holds_a_list :: "string \<Rightarrow> declared_type list \<Rightarrow> bool" where
  "holds_a_list k declared \<longleftrightarrow>
     (\<exists>d \<in> set declared. case the_field d (trim k) of None \<Rightarrow> False | Some f \<Rightarrow> is_list f)"

definition held_value :: "key_write \<Rightarrow> declared_type list \<Rightarrow> string option" where
  "held_value w declared =
     (case kw_value w of
        None \<Rightarrow> None
      | Some v \<Rightarrow>
          if holds_a_value v \<or> trim (kw_key w) \<in> set VIEW_DECLARATION_KEYS
             \<or> holds_a_list (kw_key w) declared
          then Some v else None)"

definition folds_at_all :: "key_write \<Rightarrow> bool" where
  "folds_at_all w \<longleftrightarrow> kw_status w = Active \<and> \<not> reserved_key (kw_key w)"

definition write_order :: "key_write \<Rightarrow> key_write \<Rightarrow> ordering" where
  "write_order a b = then_with (cmp (kw_key a) (kw_key b)) (cmp (kw_ordinal a) (kw_ordinal b))"

definition standing_writes :: "key_write list \<Rightarrow> key_write list" where
  "standing_writes writes = sort_by write_order (filter folds_at_all writes)"

section \<open>A counter's running total\<close>

text \<open>\<open>Total\<close>; the whole total is an \<open>i128\<close>, which no sum of fewer than \<open>2^64\<close> 64-bit values leaves.\<close>

datatype total =
    TEmpty
  | TWhole int
  | TFractional f64

definition total_plus :: "total \<Rightarrow> string \<Rightarrow> total option" where
  "total_plus t value =
     (let v = trim value; held = (case t of TEmpty \<Rightarrow> TWhole 0 | _ \<Rightarrow> t) in
      case (held, parse_signed i64_max v) of
        (TWhole running, Some added) \<Rightarrow> Some (TWhole (running + added))
      | _ \<Rightarrow>
          (let running = (case held of TFractional r \<Rightarrow> r | TWhole r \<Rightarrow> f64_of_int r | TEmpty \<Rightarrow> Fin 0)
           in map_option (\<lambda>added. TFractional (f64_add running added)) (parse_f64 v)))"

definition total_render :: "total \<Rightarrow> string" where
  "total_render t =
     (case t of TEmpty \<Rightarrow> ''0'' | TWhole r \<Rightarrow> show_int r | TFractional r \<Rightarrow> f64_text r)"

section \<open>The fold\<close>

record fold_state =
  folded :: fields
  moments :: "(string, int option) btree"
  totals :: "(string, total) btree"

definition fold_step :: "declared_type list \<Rightarrow> fold_state \<Rightarrow> key_write \<Rightarrow> fold_state" where
  "fold_step declared st w =
     (let k = kw_key w in
      case held_value w declared of
        None \<Rightarrow> \<lparr>folded = bt_remove k (folded st), moments = bt_remove k (moments st),
                 totals = bt_remove k (totals st)\<rparr>
      | Some v \<Rightarrow>
          (case fold_of k declared of
             FNewest \<Rightarrow> st\<lparr>folded := bt_insert k v (folded st),
                           moments := bt_insert k (kw_written_at w) (moments st)\<rparr>
           | FDescribes \<Rightarrow> st
           | FSum \<Rightarrow>
               (case total_plus (case bt_get (totals st) k of None \<Rightarrow> TEmpty | Some t \<Rightarrow> t) v of
                  Some t \<Rightarrow> \<lparr>folded = bt_insert k (total_render t) (folded st),
                             moments = bt_insert k (kw_written_at w) (moments st),
                             totals = bt_insert k t (totals st)\<rparr>
                | None \<Rightarrow>
                    if \<not> has_key (folded st) k
                    then st\<lparr>folded := bt_insert k v (folded st),
                            moments := bt_insert k (kw_written_at w) (moments st)\<rparr>
                    else st)))"

definition fold_writes :: "key_write list \<Rightarrow> declared_type list \<Rightarrow> fold_state" where
  "fold_writes writes declared =
     foldl (fold_step declared) \<lparr>folded = [], moments = [], totals = []\<rparr> (standing_writes writes)"

definition folded_fields :: "key_write list \<Rightarrow> declared_type list \<Rightarrow> fields" where
  "folded_fields writes declared = folded (fold_writes writes declared)"

definition folded_ages :: "key_write list \<Rightarrow> declared_type list \<Rightarrow> (string, int) btree" where
  "folded_ages writes declared =
     concat (map (\<lambda>(k, m). case m of None \<Rightarrow> [] | Some t \<Rightarrow> [(k, t)]) (moments (fold_writes writes declared)))"

section \<open>Where a value came from\<close>

record field_backing =
  b_fact :: fact_id
  b_provenance :: provenance
  b_standing :: standing
  b_note :: "string option"
  b_recorded_by :: "app_stamp option"

definition backing_of :: "key_write \<Rightarrow> field_backing" where
  "backing_of w =
     \<lparr>b_fact = kw_fact w, b_provenance = kw_provenance w, b_standing = kw_standing w,
      b_note = kw_note w, b_recorded_by = kw_recorded_by w\<rparr>"

definition backing_step ::
  "declared_type list \<Rightarrow> (string, field_backing) btree \<Rightarrow> key_write \<Rightarrow> (string, field_backing) btree" where
  "backing_step declared backing w =
     (if fold_of (kw_key w) declared \<noteq> FNewest then bt_remove (kw_key w) backing
      else case held_value w declared of
             None \<Rightarrow> bt_remove (kw_key w) backing
           | Some _ \<Rightarrow> bt_insert (kw_key w) (backing_of w) backing)"

definition folded_backing ::
  "key_write list \<Rightarrow> declared_type list \<Rightarrow> (string, field_backing) btree" where
  "folded_backing writes declared = foldl (backing_step declared) [] (standing_writes writes)"

section \<open>The reference: each key alone\<close>

text \<open>
  What one key holds after its writes, oldest first: under the default rule what the newest
  write gives it; a key that describes its record, nothing; a counter, the total of the
  numbers written since the key was last taken off.
\<close>

type_synonym cell = "string option \<times> int option option \<times> total option"

definition cell_step :: "fold_rule \<Rightarrow> cell \<Rightarrow> string option \<times> int option \<Rightarrow> cell" where
  "cell_step rule c w =
     (case (c, w) of ((value, moment, running), (held, t)) \<Rightarrow>
      case held of
        None \<Rightarrow> (None, None, None)
      | Some v \<Rightarrow>
          (case rule of
             FNewest \<Rightarrow> (Some v, Some t, running)
           | FDescribes \<Rightarrow> c
           | FSum \<Rightarrow>
               (case total_plus (case running of None \<Rightarrow> TEmpty | Some n \<Rightarrow> n) v of
                  Some n \<Rightarrow> (Some (total_render n), Some t, Some n)
                | None \<Rightarrow> if value = None then (Some v, Some t, running) else c)))"

definition writes_of :: "string \<Rightarrow> key_write list \<Rightarrow> key_write list" where
  "writes_of k writes = filter (\<lambda>w. kw_key w = k) (standing_writes writes)"

definition cell_of :: "key_write list \<Rightarrow> declared_type list \<Rightarrow> string \<Rightarrow> cell" where
  "cell_of writes declared k =
     foldl (cell_step (fold_of k declared)) (None, None, None)
       (map (\<lambda>w. (held_value w declared, kw_written_at w)) (writes_of k writes))"


section \<open>The fold is the reference\<close>

definition state_ok :: "fold_state \<Rightarrow> bool" where
  "state_ok st \<longleftrightarrow> bt_ok (folded st) \<and> bt_ok (moments st) \<and> bt_ok (totals st)"

definition view :: "fold_state \<Rightarrow> string \<Rightarrow> cell" where
  "view st k = (bt_get (folded st) k, bt_get (moments st) k, bt_get (totals st) k)"

lemma fold_step_ok: "state_ok st \<Longrightarrow> state_ok (fold_step declared st w)"
  by (auto simp: state_ok_def fold_step_def Let_def split: option.split fold_rule.split)

lemma view_fold_step:
  "state_ok st \<Longrightarrow>
   view (fold_step declared st w) k =
     (if kw_key w = k
      then cell_step (fold_of k declared) (view st k) (held_value w declared, kw_written_at w)
      else view st k)"
  by (auto simp: state_ok_def view_def fold_step_def cell_step_def Let_def has_key_def
      split: option.split fold_rule.split)

lemma view_foldl:
  "state_ok st \<Longrightarrow>
   view (foldl (fold_step declared) st ws) k =
     foldl (cell_step (fold_of k declared)) (view st k)
       (map (\<lambda>w. (held_value w declared, kw_written_at w)) (filter (\<lambda>w. kw_key w = k) ws))"
  by (induction ws arbitrary: st) (simp_all add: fold_step_ok view_fold_step)

lemma state_ok_foldl: "state_ok st \<Longrightarrow> state_ok (foldl (fold_step declared) st ws)"
  by (induction ws arbitrary: st) (simp_all add: fold_step_ok)

lemma fold_writes_ok: "state_ok (fold_writes writes declared)"
  unfolding fold_writes_def by (rule state_ok_foldl) (simp add: state_ok_def)

lemma view_fold_writes: "view (fold_writes writes declared) k = cell_of writes declared k"
  unfolding fold_writes_def cell_of_def writes_of_def
  by (subst view_foldl) (simp_all add: state_ok_def view_def bt_get_def)

lemma folded_fields_get: "bt_get (folded_fields writes declared) k = fst (cell_of writes declared k)"
  using view_fold_writes [of writes declared k] by (auto simp: folded_fields_def view_def prod_eq_iff)

lemma cell_step_simps [simp]:
  "cell_step rule c (None, t) = (None, None, None)"
  "cell_step FNewest (v, m, n) (Some x, t) = (Some x, Some t, n)"
  "cell_step FDescribes c (Some x, t) = c"
  by (simp_all add: cell_step_def split: prod.split)

lemma cell_newest:
  "foldl (cell_step FNewest) (v, m, n) ws =
     (if ws = [] then (v, m, n)
      else case last ws of (None, _) \<Rightarrow> (None, None, None)
           | (Some x, t) \<Rightarrow> (Some x, Some t, snd (snd (foldl (cell_step FNewest) (v, m, n) ws))))"
proof (induction ws rule: rev_induct)
  case (snoc w ws)
  obtain a b c where "foldl (cell_step FNewest) (v, m, n) ws = (a, b, c)" by (cases "foldl (cell_step FNewest) (v, m, n) ws")
  then show ?case by (cases w; cases "fst w") auto
qed simp

lemma cell_describes: "fst (foldl (cell_step FDescribes) (None, m, n) ws) = None"
proof (induction ws arbitrary: m n)
  case (Cons w ws)
  then show ?case by (cases w; cases "fst w") auto
qed simp

section \<open>Properties of the fold\<close>

interpretation writes_sorted: comparator write_order
  unfolding write_order_def by (intro comparator_then comparator_key)

lemma writes_of_ascend: "sorted (map kw_ordinal (writes_of k writes))"
proof -
  have "sorted_wrt (\<lambda>a b. write_order a b \<noteq> OGreater) (writes_of k writes)"
    unfolding writes_of_def standing_writes_def
    by (intro sorted_wrt_filter writes_sorted.sorted_sort_by)
  moreover have "a \<in> set (writes_of k writes) \<Longrightarrow> b \<in> set (writes_of k writes) \<Longrightarrow>
      write_order a b \<noteq> OGreater \<Longrightarrow> kw_ordinal a \<le> kw_ordinal b" for a b
    by (auto simp: writes_of_def write_order_def then_with_def cmp_def split: if_split_asm)
  ultimately show ?thesis unfolding sorted_map by (rule sorted_wrt_mono_rel [rotated])
qed

lemma set_writes_of: "set (writes_of k writes) = {w \<in> set writes. folds_at_all w \<and> kw_key w = k}"
  by (auto simp: writes_of_def standing_writes_def)

lemma filter_sort_by_key:
  "filter (\<lambda>w. kw_key w = k \<and> kw_ordinal w = m) (sort_by write_order ws) =
     filter (\<lambda>w. kw_key w = k \<and> kw_ordinal w = m) ws"
proof (cases "\<exists>z \<in> set ws. kw_key z = k \<and> kw_ordinal z = m")
  case True
  then obtain z :: key_write where "kw_key z = k" "kw_ordinal z = m" by blast
  then have "(\<lambda>w. write_order z w = OEqual) = (\<lambda>w. kw_key w = k \<and> kw_ordinal w = m)"
    by (auto simp: write_order_def then_with_def cmp_def fun_eq_iff)
  then show ?thesis using writes_sorted.sort_by_stable [of z ws] by simp
next
  case False
  then show ?thesis by (auto simp: filter_empty_conv intro!: trans [OF _ sym])
qed

text \<open>The counting writes of one key, as the stable order of their ordinals.\<close>

lemma writes_of_sorted:
  "writes_of k ws = filter folds_at_all (sort_key kw_ordinal (filter (\<lambda>w. kw_key w = k) ws))"
proof -
  have split: "filter (\<lambda>x. kw_ordinal z = kw_ordinal x) (filter (\<lambda>w. kw_key w = k) vs) =
      filter (\<lambda>w. kw_key w = k \<and> kw_ordinal w = kw_ordinal z) vs" for z vs
    by (induction vs) auto
  have "sort_key kw_ordinal (filter (\<lambda>w. kw_key w = k) (filter folds_at_all ws)) = writes_of k ws"
  proof (rule properties_for_sort_key)
    show "mset (writes_of k ws) = mset (filter (\<lambda>w. kw_key w = k) (filter folds_at_all ws))"
      unfolding writes_of_def standing_writes_def mset_filter mset_sort_by ..
    show "sorted (map kw_ordinal (writes_of k ws))" by (rule writes_of_ascend)
    show "filter (\<lambda>x. kw_ordinal z = kw_ordinal x) (writes_of k ws) =
        filter (\<lambda>x. kw_ordinal z = kw_ordinal x) (filter (\<lambda>w. kw_key w = k) (filter folds_at_all ws))" for z
      unfolding writes_of_def standing_writes_def split by (rule filter_sort_by_key)
  qed
  moreover have "filter (\<lambda>w. kw_key w = k) (filter folds_at_all ws) = filter folds_at_all (filter (\<lambda>w. kw_key w = k) ws)"
    by (simp add: conj_commute)
  ultimately show ?thesis by (metis filter_sort)
qed

lemma folded_newest_of_key:
  assumes "fold_of k declared = FNewest"
  shows "bt_get (folded_fields ws declared) k =
    (case rev (filter folds_at_all (sort_key kw_ordinal (filter (\<lambda>w. kw_key w = k) ws))) of
       [] \<Rightarrow> None | w # _ \<Rightarrow> held_value w declared)"
proof -
  let ?ws = "filter folds_at_all (sort_key kw_ordinal (filter (\<lambda>w. kw_key w = k) ws))"
  have "fst (foldl (cell_step FNewest) (None, None, None) (map (\<lambda>w. (held_value w declared, kw_written_at w)) vs)) =
      (case rev vs of [] \<Rightarrow> None | w # _ \<Rightarrow> held_value w declared)" for vs
    by (subst cell_newest) (cases vs rule: rev_cases; auto split: option.split)
  then show ?thesis by (simp add: folded_fields_get cell_of_def assms writes_of_sorted)
qed

lemma folded_newest_write:
  assumes "fold_of k declared = FNewest"
    and "w \<in> set writes" and "kw_key w = k" and "folds_at_all w"
    and "\<forall>x \<in> set writes. kw_key x = k \<longrightarrow> folds_at_all x \<longrightarrow> x \<noteq> w \<longrightarrow> kw_ordinal x < kw_ordinal w"
  shows "bt_get (folded_fields writes declared) k = held_value w declared"
proof -
  let ?ws = "writes_of k writes"
  have in_ws: "w \<in> set ?ws" using assms by (simp add: set_writes_of)
  then obtain ys z where ws: "?ws = ys @ [z]" by (metis rev_exhaust empty_iff list.set(1))
  have "w = z"
  proof (rule ccontr)
    assume "w \<noteq> z"
    then have "kw_ordinal w \<le> kw_ordinal z"
      using writes_of_ascend [of k writes] in_ws unfolding ws by (auto simp: sorted_append)
    moreover have "z \<in> set ?ws" using ws by simp
    ultimately show False using assms(5) \<open>w \<noteq> z\<close> by (auto simp: set_writes_of dest: leD)
  qed
  then have "fst (cell_of writes declared k) = held_value w declared"
    unfolding cell_of_def assms(1) ws
    by (subst cell_newest) (auto simp: split: option.split)
  then show ?thesis by (simp add: folded_fields_get)
qed

text \<open>
  C1: a key under the default rule holds exactly what its newest counting write gives it: the
  write with the greatest ordinal among the active, unreserved writes of that key, whichever
  record carried it; when that write takes the key off, the thing does not hold the key.
\<close>

theorem newest_write_wins:
  assumes "fold_of k declared = FNewest"
    and "w \<in> set writes" and "kw_key w = k" and "folds_at_all w"
    and "\<forall>x \<in> set writes. kw_key x = k \<longrightarrow> folds_at_all x \<longrightarrow> x \<noteq> w \<longrightarrow> kw_ordinal x < kw_ordinal w"
  shows "bt_get (folded_fields writes declared) k = held_value w declared"
  using assms by (rule folded_newest_write)

text \<open>
  the order a store hands the writes over in does not decide the fold: when no two counting
  writes of one key have the same ordinal, any permutation of the rows folds to the same
  fields, the same backing and the same ages.
\<close>

theorem fold_ignores_row_order:
  assumes "mset writes = mset writes'"
    and "\<forall>a \<in> set writes. \<forall>b \<in> set writes.
           kw_key a = kw_key b \<and> kw_ordinal a = kw_ordinal b \<longrightarrow> a = b"
  shows "folded_fields writes declared = folded_fields writes' declared
     \<and> folded_backing writes declared = folded_backing writes' declared
     \<and> folded_ages writes declared = folded_ages writes' declared"
proof -
  have "standing_writes writes = standing_writes writes'"
    unfolding standing_writes_def
  proof (rule writes_sorted.sort_by_unique)
    show "mset (filter folds_at_all writes) = mset (filter folds_at_all writes')"
      using assms(1) by (simp add: mset_filter)
    show "\<forall>x \<in> set (filter folds_at_all writes). \<forall>y \<in> set (filter folds_at_all writes).
            write_order x y = OEqual \<longrightarrow> x = y"
      using assms(2) by (auto simp: write_order_def then_with_def cmp_def split: if_split_asm)
  qed
  then show ?thesis by (simp add: folded_fields_def folded_backing_def folded_ages_def fold_writes_def)
qed


lemma backing_ok: "bt_ok m \<Longrightarrow> bt_ok (backing_step declared m w)"
  by (auto simp: backing_step_def split: option.split)

lemma backing_foldl:
  "bt_ok m \<Longrightarrow>
   bt_get (foldl (backing_step declared) m ws) k =
     (case filter (\<lambda>w. kw_key w = k) ws of
        [] \<Rightarrow> bt_get m k
      | x # xs \<Rightarrow>
          (let w = last (x # xs) in
           if fold_of k declared = FNewest \<and> held_value w declared \<noteq> None
           then Some (backing_of w) else None))"
proof (induction ws arbitrary: m)
  case (Cons w ws)
  have "bt_get (foldl (backing_step declared) (backing_step declared m w) ws) k =
     (case filter (\<lambda>w. kw_key w = k) ws of
        [] \<Rightarrow> bt_get (backing_step declared m w) k
      | x # xs \<Rightarrow>
          (let w = last (x # xs) in
           if fold_of k declared = FNewest \<and> held_value w declared \<noteq> None
           then Some (backing_of w) else None))"
    using Cons backing_ok by blast
  moreover have "bt_get (backing_step declared m w) k =
      (if kw_key w = k
       then (if fold_of k declared = FNewest \<and> held_value w declared \<noteq> None
             then Some (backing_of w) else None)
       else bt_get m k)"
    using Cons.prems by (auto simp: backing_step_def split: option.split)
  ultimately show ?case by (auto simp: Let_def split: list.split)
qed simp

text \<open>
  a folded value and its backing come from the same write: a key has backing exactly when
  it folds by the default rule and the thing holds it, and the backing is that of the key's
  newest counting write, the one whose value is held.
\<close>

theorem backing_is_the_winners:
  "bt_get (folded_backing writes declared) k =
     (if fold_of k declared = FNewest \<and> bt_get (folded_fields writes declared) k \<noteq> None
      then Some (backing_of (last (writes_of k writes))) else None)"
proof -
  have "bt_get (folded_backing writes declared) k =
     (case writes_of k writes of
        [] \<Rightarrow> None
      | x # xs \<Rightarrow>
          (let w = last (x # xs) in
           if fold_of k declared = FNewest \<and> held_value w declared \<noteq> None
           then Some (backing_of w) else None))"
    unfolding folded_backing_def writes_of_def by (subst backing_foldl) (simp_all add: bt_get_def split: list.split)
  moreover have "bt_get (folded_fields writes declared) k =
        (if writes_of k writes = [] then None else held_value (last (writes_of k writes)) declared)"
    if "fold_of k declared = FNewest"
    unfolding folded_fields_get cell_of_def that
    by (subst cell_newest) (auto simp: last_map split: option.split)
  ultimately show ?thesis by (auto simp: Let_def split: list.split)
qed

text \<open>
  a write carried by a claim that was taken back, or under a key jojobot writes itself,
  never decides what a thing holds: without those writes the fields, the backing and the ages
  are the same, and no reserved key is ever among them.
\<close>

theorem only_standing_writes_fold:
  "folded_fields writes declared = folded_fields (filter folds_at_all writes) declared
   \<and> folded_backing writes declared = folded_backing (filter folds_at_all writes) declared
   \<and> folded_ages writes declared = folded_ages (filter folds_at_all writes) declared
   \<and> filter reserved_key (map fst (folded_fields writes declared)) = []"
proof -
  have "standing_writes (filter folds_at_all writes) = standing_writes writes"
    by (simp add: standing_writes_def)
  moreover have none: "bt_get (folded_fields writes declared) k = None" if "reserved_key k" for k
  proof -
    have "set (writes_of k writes) = {}" using that by (auto simp: set_writes_of folds_at_all_def)
    then have "writes_of k writes = []" by (simp only: set_empty)
    then show ?thesis by (simp add: folded_fields_get cell_of_def)
  qed
  moreover have "\<not> reserved_key k" if "k \<in> set (map fst (folded_fields writes declared))" for k
    using that none [of k] by (auto simp: bt_get_def map_of_eq_None_iff)
  ultimately show ?thesis
    by (simp add: folded_fields_def folded_backing_def folded_ages_def fold_writes_def filter_empty_conv)
qed

lemma cell_sums:
  "ws \<noteq> [] \<Longrightarrow> \<forall>w \<in> set ws. \<exists>v. fst w = Some v \<and> parse_signed i64_max (trim v) = Some (g w) \<Longrightarrow>
   foldl (cell_step FSum) (None, None, None) ws
     = (Some (show_int (sum_list (map g ws))), Some (snd (last ws)), Some (TWhole (sum_list (map g ws))))"
proof (induction ws rule: rev_induct)
  case (snoc w ws)
  obtain v t where w: "w = (Some v, t)" "parse_signed i64_max (trim v) = Some (g w)"
    using snoc.prems(2) by (cases w) auto
  show ?case
  proof (cases "ws = []")
    case True
    then show ?thesis using w by (simp add: cell_step_def total_plus_def total_render_def)
  next
    case False
    then show ?thesis using snoc w by (simp add: cell_step_def total_plus_def total_render_def)
  qed
qed simp

text \<open>
  a counter holds the exact sum of its counting writes, whatever order the rows came in,
  when each of them holds a whole number of 64 bits and none takes the key off.
\<close>

theorem counter_holds_the_sum:
  assumes "fold_of k declared = FSum"
    and "filter (\<lambda>w. folds_at_all w \<and> kw_key w = k) writes \<noteq> []"
    and "\<forall>w \<in> set writes. folds_at_all w \<and> kw_key w = k \<longrightarrow>
           (\<exists>v. held_value w declared = Some v \<and> parse_signed i64_max (trim v) = Some (n w))"
  shows "bt_get (folded_fields writes declared) k =
     Some (show_int (sum_list (map n (filter (\<lambda>w. folds_at_all w \<and> kw_key w = k) writes))))"
proof -
  let ?ws = "writes_of k writes"
  let ?g = "\<lambda>w. the (Option.bind (fst w) (\<lambda>v. parse_signed i64_max (trim v)))"
  have ne: "?ws \<noteq> []" using assms(2) set_writes_of [of k writes] by (auto simp: filter_empty_conv)
  have g: "\<forall>w \<in> set ?ws. \<exists>v. held_value w declared = Some v \<and> parse_signed i64_max (trim v) = Some (n w)"
    using assms(3) by (auto simp: set_writes_of)
  have "fst (cell_of writes declared k)
      = Some (show_int (sum_list (map (?g \<circ> (\<lambda>w. (held_value w declared, kw_written_at w))) ?ws)))"
    unfolding cell_of_def assms(1)
  proof (subst cell_sums [of _ ?g])
    show "\<forall>w \<in> set (map (\<lambda>w. (held_value w declared, kw_written_at w)) ?ws).
            \<exists>v. fst w = Some v \<and> parse_signed i64_max (trim v) = Some (?g w)"
      using g by force
  qed (use ne in simp_all)
  also have "map (?g \<circ> (\<lambda>w. (held_value w declared, kw_written_at w))) ?ws = map n ?ws"
    using g by auto
  also have "sum_list (map n ?ws) = sum_list (map n (filter (\<lambda>w. folds_at_all w \<and> kw_key w = k) writes))"
  proof -
    have "mset ?ws = mset (filter (\<lambda>w. folds_at_all w \<and> kw_key w = k) writes)"
      unfolding writes_of_def standing_writes_def mset_filter mset_sort_by filter_filter_mset ..
    then have "sum_mset (image_mset n (mset ?ws))
        = sum_mset (image_mset n (mset (filter (\<lambda>w. folds_at_all w \<and> kw_key w = k) writes)))"
      by (rule arg_cong)
    then show ?thesis by (simp only: flip: sum_mset_sum_list mset_map)
  qed
  finally show ?thesis by (simp add: folded_fields_get)
qed


section \<open>Concrete instances\<close>

text \<open>A write with a key, an ordinal, a value and the status of its claim, and nothing else.\<close>

definition plain_write :: "string \<Rightarrow> nat \<Rightarrow> string option \<Rightarrow> fact_status \<Rightarrow> key_write" where
  "plain_write k i v st =
     \<lparr>kw_key = k, kw_ordinal = i, kw_value = v, kw_fact = ''f1'', kw_status = st,
      kw_provenance = Inference, kw_standing = Unsettled, kw_note = None, kw_recorded_by = None,
      kw_writer = None, kw_run = None, kw_written_at = None\<rparr>"

definition two_weights :: "key_write list" where
  "two_weights = [plain_write ''weighs'' 2 (Some ''71'') Active, plain_write ''weighs'' 1 (Some ''70'') Active]"

theorem newest_write_wins_witness: "bt_get (folded_fields two_weights []) ''weighs'' = Some ''71''"
proof -
  have "bt_get (folded_fields two_weights []) ''weighs''
      = held_value (plain_write ''weighs'' 2 (Some ''71'') Active) []"
  proof (rule newest_write_wins)
    show "fold_of ''weighs'' [] = FNewest" by code_simp
    show "folds_at_all (plain_write ''weighs'' 2 (Some ''71'') Active)" by code_simp
  qed (auto simp: two_weights_def plain_write_def)
  also have "\<dots> = Some ''71''" by code_simp
  finally show ?thesis .
qed

theorem fold_ignores_row_order_witness:
  "folded_fields two_weights [] = folded_fields (rev two_weights) []
   \<and> folded_backing two_weights [] = folded_backing (rev two_weights) []
   \<and> folded_ages two_weights [] = folded_ages (rev two_weights) []"
  by (rule fold_ignores_row_order) (auto simp: two_weights_def plain_write_def)

theorem counter_holds_the_sum_witness:
  "bt_get (folded_fields
      [plain_write ''count'' 1 (Some ''3'') Active, plain_write ''count'' 2 (Some ''-5'') Active]
      [type_new ''t'' [field_summing ''count'']]) ''count'' = Some ''-2''"
proof -
  let ?ws = "[plain_write ''count'' 1 (Some ''3'') Active, plain_write ''count'' 2 (Some ''-5'') Active]"
  let ?d = "[type_new ''t'' [field_summing ''count'']]"
  let ?n = "\<lambda>w. if kw_ordinal w = 1 then 3 else (- 5 :: int)"
  have f: "filter (\<lambda>w. folds_at_all w \<and> kw_key w = ''count'') ?ws = ?ws" by code_simp
  have "bt_get (folded_fields ?ws ?d) ''count'' =
     Some (show_int (sum_list (map ?n (filter (\<lambda>w. folds_at_all w \<and> kw_key w = ''count'') ?ws))))"
  proof (rule counter_holds_the_sum)
    show "fold_of ''count'' ?d = FSum" by code_simp
    have "held_value (plain_write ''count'' 1 (Some ''3'') Active) ?d = Some ''3''"
      "held_value (plain_write ''count'' 2 (Some ''-5'') Active) ?d = Some ''-5''"
      by code_simp+
    moreover have "parse_signed i64_max (trim ''3'') = Some 3" "parse_signed i64_max (trim ''-5'') = Some (- 5)"
      by (simp_all add: parse_signed_def parse_unsigned_def strip_prefix_def starts_with_def trim_printable
          printable_def is_digit_def dec_value_def digit_value_def i64_max_def)
    ultimately
    show "\<forall>w \<in> set ?ws. folds_at_all w \<and> kw_key w = ''count'' \<longrightarrow>
           (\<exists>v. held_value w ?d = Some v \<and> parse_signed i64_max (trim v) = Some (?n w))"
      by (simp add: plain_write_def)
  qed (use f in simp)
  moreover have "show_int (sum_list (map ?n ?ws)) = ''-2''" by code_simp
  ultimately show ?thesis using f by simp
qed

end
