(* ===== verification/Claim_Edits.thy ===== *)
theory Claim_Edits
  imports Field_Fold Document_Cuts
begin

text \<open>
  The edit of a claim: what a rewrite may be (\<open>settle_rewrite\<close>), what applying a patch does
  (\<open>apply_fact_patch\<close>, with \<open>memory/receipt.rs\<close>), and the edit of part of a claim's text
  (\<open>memory/text_edit.rs\<close>).

  The code edits the claim in place; a refused edit returns an error and its caller drops the
  copy it was editing, so here the result is the error or the edited claim.
\<close>

section \<open>Receipts and certainty\<close>

definition receipt_validated :: "receipt \<Rightarrow> memory_error + receipt" where
  "receipt_validated r =
     (case r of
        Check text \<Rightarrow>
          if trim text = [] then Inl (InvalidFact EmptyCheck) else Inr (Check (trim text))
      | Confirmed day place \<Rightarrow>
          if trim place = [] then Inl (InvalidFact EmptyPlace) else Inr (Confirmed day (trim place)))"

definition rides_only_settled :: "receipt option \<Rightarrow> standing \<Rightarrow> memory_error + unit" where
  "rides_only_settled r s = refuse_when (r \<noteq> None \<and> s \<noteq> Settled) ReceiptWithoutSettling"

definition keep_on_rewrite :: "fact \<Rightarrow> fact_patch \<Rightarrow> bool \<Rightarrow> fact_patch" where
  "keep_on_rewrite f p own =
     (let inference = (f_provenance f = Inference);
          p = (if p_provenance p = None \<and> (own \<or> inference)
               then p\<lparr>p_provenance := Some (f_provenance f)\<rparr> else p);
          stays = (p_provenance p = Some Inference);
          settled = (f_standing f = Settled)
      in if inference \<and> stays \<and> \<not> own \<and> settled \<and> p_receipt p = None
         then p\<lparr>p_standing := Some Unsettled\<rparr> else p)"

definition carry :: "fact \<Rightarrow> bool \<Rightarrow> receipt option \<Rightarrow> fact" where
  "carry f reworded brought =
     (if brought \<noteq> None then f\<lparr>f_receipt := brought\<rparr>
      else if reworded \<and> f_provenance f = Observation then f\<lparr>f_receipt := None\<rparr>
      else f)"

definition check_promotion :: "provenance \<Rightarrow> provenance \<Rightarrow> bool \<Rightarrow> memory_error + unit" where
  "check_promotion current requested confirmed =
     refuse_when (current \<noteq> Testimony \<and> requested = Testimony \<and> \<not> confirmed) UnconfirmedPromotion"

definition check_standing :: "standing \<Rightarrow> standing \<Rightarrow> receipt option \<Rightarrow> memory_error + unit" where
  "check_standing current requested r =
     refuse_when (current = Unsettled \<and> requested = Settled \<and> r = None) UnreceiptedSettling"

section \<open>Keys a rewrite does not count\<close>

definition DUE_ON :: string where "DUE_ON = ''due_on''"
definition DEFRAGGED_AT :: string where "DEFRAGGED_AT = ''defragged_at''"
definition RELEASE_NOTES_TOLD :: string where "RELEASE_NOTES_TOLD = ''release_notes_told''"
definition HELD_TURN :: string where "HELD_TURN = ''held_turn''"
definition HELD_SINCE :: string where "HELD_SINCE = ''held_since''"

definition is_bookkeeping_key :: "string \<Rightarrow> bool" where
  "is_bookkeeping_key k \<longleftrightarrow> k = DEFRAGGED_AT \<or> k = RELEASE_NOTES_TOLD"

definition is_placement_key :: "string \<Rightarrow> bool" where
  "is_placement_key k \<longleftrightarrow> trim k \<in> {ORDER, HELD_TURN, HELD_SINCE}"

definition places_its_records :: "kind option \<Rightarrow> bool" where
  "places_its_records k \<longleftrightarrow> k = Some ''document'' \<or> k = Some ''list''"

section \<open>What a rewrite may be\<close>

definition archived_reason :: "fact \<Rightarrow> fact_patch \<Rightarrow> fact_patch" where
  "archived_reason f p =
     (if p_status p \<noteq> Some Archived then p
      else
        (let sent = p_details p; p = p\<lparr>p_details := None\<rparr> in
         case normalize_details sent of
           None \<Rightarrow> p
         | Some reason \<Rightarrow>
             if f_details f \<noteq> Some reason
             then p\<lparr>p_fields := bt_insert ARCHIVE_REASON reason (p_fields p)\<rparr>
             else p))"

definition held_trimmed :: "fact \<Rightarrow> string \<Rightarrow> string option" where
  "held_trimmed f k = map_option trim (bt_get (f_fields f) k)"

definition rewrites_value ::
  "world \<Rightarrow> address \<Rightarrow> fact \<Rightarrow> declared_type list \<Rightarrow> string \<Rightarrow> string option \<Rightarrow> bool" where
  "rewrites_value W a f declared k value \<longleftrightarrow>
     k \<noteq> DUE_ON \<and> k \<noteq> ARCHIVE_REASON \<and> \<not> is_bookkeeping_key k
     \<and> \<not> (is_placement_key k \<and> places_its_records (entity_kind W (a_home a)))
     \<and> \<not> (k = EDGES \<and> entity_kind W (a_home a) = Some ''document''
          \<and> (case (value, held_trimmed f k) of
               (Some sent, Some held) \<Rightarrow> differs_only_by_a_blank_lead held sent
             | _ \<Rightarrow> False))
     \<and> fold_of k declared \<noteq> FDescribes
     \<and> held_trimmed f k \<noteq> value"

definition value_edits :: "fact_patch \<Rightarrow> (string \<times> string option) list" where
  "value_edits p =
     map (\<lambda>(k, v). (trim k, Some (trim v))) (p_fields p) @ map (\<lambda>k. (trim k, None)) (p_clear_fields p)"

definition settle_rewrite ::
  "world \<Rightarrow> address \<Rightarrow> fact \<Rightarrow> fact_patch \<Rightarrow> string option \<Rightarrow> declared_type list
     \<Rightarrow> memory_error + fact_patch" where
  "settle_rewrite W a f p written_in declared =
     (let p = archived_reason f p;
          rewrites_words = (case p_content p of None \<Rightarrow> False | Some ws \<Rightarrow> trim ws \<noteq> trim (f_content f));
          p = (if \<not> rewrites_words then p\<lparr>p_content := None\<rparr> else p);
          archives = (p_status p = Some Archived);
          rewrites_details =
            (\<not> archives \<and> (case p_details p of None \<Rightarrow> False
                            | Some d \<Rightarrow> normalize_details (Some d) \<noteq> f_details f));
          rewrites_values = (\<exists>(k, v) \<in> set (value_edits p). rewrites_value W a f declared k v)
      in if \<not> rewrites_words \<and> \<not> rewrites_details \<and> \<not> rewrites_values then Inr p
         else
           (let own = (case (p_session p, written_in) of
                         (Some caller, Some writer) \<Rightarrow> caller = writer | _ \<Rightarrow> False)
            in if f_app_stamp f \<noteq> None then Inl (AppClaimRewritten (show_address a))
               else if f_provenance f = Testimony \<and> \<not> own then Inl (TestimonyRewritten (show_address a))
               else Inr (if rewrites_words then keep_on_rewrite f p own else p)))"

section \<open>Applying a patch\<close>

definition cleared_or :: "bool \<Rightarrow> 'a option \<Rightarrow> 'a option \<Rightarrow> 'a option" where
  "cleared_or clear patch held = (if clear then None else case patch of Some x \<Rightarrow> Some x | None \<Rightarrow> held)"

definition check_patch :: "world \<Rightarrow> fact \<Rightarrow> fact_patch \<Rightarrow> memory_error + receipt option" where
  "check_patch W f p =
     ok_then (case p_provenance p of None \<Rightarrow> Inr ()
              | Some requested \<Rightarrow> check_promotion (f_provenance f) requested (p_confirmed_by_user p)) (\<lambda>_.
     ok_then (case p_receipt p of None \<Rightarrow> Inr None
              | Some r \<Rightarrow> ok_then (receipt_validated r) (\<lambda>r. Inr (Some r))) (\<lambda>receipt.
     ok_then (rides_only_settled receipt (case p_standing p of Some s \<Rightarrow> s | None \<Rightarrow> f_standing f)) (\<lambda>_.
     ok_then (case p_standing p of None \<Rightarrow> Inr ()
              | Some requested \<Rightarrow> check_standing (f_standing f) requested receipt) (\<lambda>_.
     ok_then (refuse_when (p_content p \<noteq> None \<and> p_provenance p = None) UnstatedProvenance) (\<lambda>_.
     ok_then (case p_content p of None \<Rightarrow> Inr () | Some c \<Rightarrow> validate_content c) (\<lambda>_.
     ok_then (case p_edge p of None \<Rightarrow> Inr () | Some e \<Rightarrow> validate_edge W e) (\<lambda>_.
     ok_then (validate_happened_span
                (cleared_or (p_clear_happened_at p) (p_happened_at p) (f_happened_at f))
                (cleared_or (p_clear_happened_through p) (p_happened_through p) (f_happened_through f))) (\<lambda>_.
     ok_then (validate_fields (p_fields p)) (\<lambda>_.
     ok_then (validate_cleared_fields (p_clear_fields p)) (\<lambda>_.
     ok_then (case p_stands_for p of None \<Rightarrow> Inr () | Some s \<Rightarrow> validate_stands_for s) (\<lambda>_.
       Inr receipt)))))))))))"

definition edit_fields :: "fields \<Rightarrow> string list \<Rightarrow> fields \<Rightarrow> fields" where
  "edit_fields fs clear put =
     fold (\<lambda>(k, v). bt_insert (trim k) v) put (fold (\<lambda>k. bt_remove (trim k)) clear fs)"

text \<open>Each field a patch names takes the patch's value; the others stay.\<close>

definition or_held :: "'a option \<Rightarrow> 'a \<Rightarrow> 'a" where
  "or_held patch held = (case patch of Some x \<Rightarrow> x | None \<Rightarrow> held)"

lemma or_held_simps [simp]: "or_held None h = h" "or_held (Some x) h = x"
  by (simp_all add: or_held_def)

definition set_or_clear :: "bool \<Rightarrow> 'a option \<Rightarrow> 'a option \<Rightarrow> 'a option" where
  "set_or_clear clear patch held = (case patch of Some x \<Rightarrow> Some x | None \<Rightarrow> if clear then None else held)"

definition edit_claim :: "fact \<Rightarrow> fact_patch \<Rightarrow> receipt option \<Rightarrow> fact" where
  "edit_claim f p receipt =
     (let reworded = (case p_content p of None \<Rightarrow> False | Some c \<Rightarrow> normalize_content c \<noteq> f_content f);
          f = f\<lparr>f_content := or_held (map_option normalize_content (p_content p)) (f_content f),
                f_details := (if p_details p \<noteq> None then normalize_details (p_details p) else f_details f),
                f_status := or_held (p_status p) (f_status f),
                f_recorded_at := or_held (p_recorded_at p) (f_recorded_at f),
                f_happened_at := cleared_or (p_clear_happened_at p) (p_happened_at p) (f_happened_at f),
                f_happened_through :=
                  cleared_or (p_clear_happened_through p) (p_happened_through p) (f_happened_through f),
                f_provenance := or_held (p_provenance p) (f_provenance f),
                f_receipt := (if p_standing p = Some Unsettled then None else f_receipt f),
                f_standing := or_held (p_standing p) (f_standing f)\<rparr>;
          f = carry f reworded receipt
      in f\<lparr>f_edge := set_or_clear (p_clear_edge p) (p_edge p) (f_edge f),
           f_fields := edit_fields (f_fields f) (p_clear_fields p) (p_fields p),
           f_derived_from := set_or_clear (p_clear_derived_from p) (p_derived_from p) (f_derived_from f),
           f_stands_for := or_held (p_stands_for p) (if p_clear_stands_for p then [] else f_stands_for f),
           f_stale_after := set_or_clear (p_clear_stale_after p) (p_stale_after p) (f_stale_after f)\<rparr>)"

definition apply_fact_patch :: "world \<Rightarrow> fact \<Rightarrow> fact_patch \<Rightarrow> memory_error + fact" where
  "apply_fact_patch W f p =
     ok_then (check_patch W f p) (\<lambda>receipt.
       let f' = edit_claim f p receipt in
       ok_then (validate_provenance_source (f_provenance f') (f_fields f')) (\<lambda>_. Inr f'))"

text \<open>\<open>fold_after_field_edits\<close> sets first and clears second, the other way round.\<close>

definition fold_after_field_edits :: "fields \<Rightarrow> fact_patch \<Rightarrow> fields" where
  "fold_after_field_edits before p =
     fold (\<lambda>k. bt_remove (trim k)) (p_clear_fields p)
       (fold (\<lambda>(k, v). bt_insert (trim k) v) (p_fields p) before)"

definition refuses_an_unapplied_text_edit :: "fact_patch \<Rightarrow> memory_error option" where
  "refuses_an_unapplied_text_edit p =
     map_option (\<lambda>e. InvalidFact (UnappliedTextEdit (te_field e))) (p_text_edit p)"

section \<open>The edit of part of a text\<close>

datatype text_edit_error =
    EmptyFind
  | TextEditMatches string text_field nat

record text_edited =
  td_field :: text_field
  td_bytes_before :: nat
  td_bytes_after :: nat
  td_start :: nat
  td_end :: nat
  td_removed :: string
  td_inserted :: string

definition char_starts :: "string \<Rightarrow> nat list" where
  "char_starts text =
     map (\<lambda>n. length (concat (take n (utf8_chars text)))) [0..<length (utf8_chars text)]"

definition apply_text_edit ::
  "address \<Rightarrow> string \<Rightarrow> text_edit \<Rightarrow> text_edit_error + (string \<times> text_edited)" where
  "apply_text_edit a current e =
     (if te_find e = [] then Inl EmptyFind
      else
        (let starts = filter (\<lambda>i. starts_with (te_find e) (drop i current)) (char_starts current) in
         case starts of
           [start] \<Rightarrow>
             (let text = take start current @ te_replace e @ drop (start + length (te_find e)) current
              in Inr (text,
                   \<lparr>td_field = te_field e, td_bytes_before = length current,
                    td_bytes_after = length text, td_start = start,
                    td_end = start + length (te_replace e), td_removed = te_find e,
                    td_inserted = te_replace e\<rparr>))
         | _ \<Rightarrow> Inl (TextEditMatches (show_address a) (te_field e) (length starts))))"


section \<open>What a patch cannot do\<close>

lemma check_patchD:
  assumes "check_patch W f p = Inr r"
  shows "p_provenance p = Some v \<Longrightarrow> f_provenance f = Testimony \<or> v \<noteq> Testimony \<or> p_confirmed_by_user p"
    and "case p_receipt p of None \<Rightarrow> r = None | Some b \<Rightarrow> \<exists>c. receipt_validated b = Inr c \<and> r = Some c"
    and "r = None \<or> (case p_standing p of Some s \<Rightarrow> s | None \<Rightarrow> f_standing f) = Settled"
    and "f_standing f = Unsettled \<Longrightarrow> p_standing p = Some Settled \<Longrightarrow> r \<noteq> None"
    and "p_content p \<noteq> None \<Longrightarrow> p_provenance p \<noteq> None"
    and "p_content p = Some c \<Longrightarrow> validate_content c = Inr ()"
    and "cleared_or (p_clear_happened_through p) (p_happened_through p) (f_happened_through f) \<noteq> None \<Longrightarrow>
         cleared_or (p_clear_happened_at p) (p_happened_at p) (f_happened_at f) \<noteq> None"
    and "validate_fields (p_fields p) = Inr ()"
    and "validate_cleared_fields (p_clear_fields p) = Inr ()"
proof -
  obtain u1 u2 u3 u4 u5 u6 u7 u8 where c:
    "(case p_provenance p of None \<Rightarrow> Inr ()
      | Some requested \<Rightarrow> check_promotion (f_provenance f) requested (p_confirmed_by_user p)) = Inr u1"
    "(case p_receipt p of None \<Rightarrow> Inr None
      | Some r \<Rightarrow> ok_then (receipt_validated r) (\<lambda>r. Inr (Some r))) = Inr r"
    "rides_only_settled r (case p_standing p of Some s \<Rightarrow> s | None \<Rightarrow> f_standing f) = Inr u2"
    "(case p_standing p of None \<Rightarrow> Inr () | Some q \<Rightarrow> check_standing (f_standing f) q r) = Inr u3"
    "refuse_when (p_content p \<noteq> None \<and> p_provenance p = None) UnstatedProvenance = Inr u4"
    "(case p_content p of None \<Rightarrow> Inr () | Some c \<Rightarrow> validate_content c) = Inr u5"
    "validate_happened_span
       (cleared_or (p_clear_happened_at p) (p_happened_at p) (f_happened_at f))
       (cleared_or (p_clear_happened_through p) (p_happened_through p) (f_happened_through f)) = Inr u6"
    "validate_fields (p_fields p) = Inr u7" "validate_cleared_fields (p_clear_fields p) = Inr u8"
    using assms unfolding check_patch_def
    by (elim ok_then_InrE) blast
  show "p_provenance p = Some v \<Longrightarrow> f_provenance f = Testimony \<or> v \<noteq> Testimony \<or> p_confirmed_by_user p"
    using c(1) by (auto simp: check_promotion_def)
  show "case p_receipt p of None \<Rightarrow> r = None | Some b \<Rightarrow> \<exists>c. receipt_validated b = Inr c \<and> r = Some c"
    using c(2) by (auto simp: ok_then_Inr split: option.splits)
  show "r = None \<or> (case p_standing p of Some s \<Rightarrow> s | None \<Rightarrow> f_standing f) = Settled"
    using c(3) by (simp only: rides_only_settled_def refuse_when_Inr) blast
  show "f_standing f = Unsettled \<Longrightarrow> p_standing p = Some Settled \<Longrightarrow> r \<noteq> None"
    using c(4) by (auto simp: check_standing_def)
  show "p_content p \<noteq> None \<Longrightarrow> p_provenance p \<noteq> None" using c(5) by simp
  show "p_content p = Some c \<Longrightarrow> validate_content c = Inr ()" using c(6) by simp
  show "cleared_or (p_clear_happened_through p) (p_happened_through p) (f_happened_through f) \<noteq> None \<Longrightarrow>
         cleared_or (p_clear_happened_at p) (p_happened_at p) (f_happened_at f) \<noteq> None"
    using c(7) by (simp add: validate_happened_span_def)
  show "validate_fields (p_fields p) = Inr ()" "validate_cleared_fields (p_clear_fields p) = Inr ()"
    using c(8,9) by simp_all
qed

text \<open>What an edit leaves in each field of the claim.\<close>

lemma carry_sel [simp]:
  "f_content (carry f w r) = f_content f" "f_details (carry f w r) = f_details f"
  "f_provenance (carry f w r) = f_provenance f" "f_standing (carry f w r) = f_standing f"
  "f_fields (carry f w r) = f_fields f" "f_happened_at (carry f w r) = f_happened_at f"
  "f_happened_through (carry f w r) = f_happened_through f" "f_id (carry f w r) = f_id f"
  "f_home (carry f w r) = f_home f" "f_subject (carry f w r) = f_subject f"
  "f_app_stamp (carry f w r) = f_app_stamp f" "f_status (carry f w r) = f_status f"
  by (simp_all add: carry_def)

lemma edit_claim_sel:
  "f_content (edit_claim f p r) = or_held (map_option normalize_content (p_content p)) (f_content f)"
  "f_details (edit_claim f p r) = (if p_details p \<noteq> None then normalize_details (p_details p) else f_details f)"
  "f_provenance (edit_claim f p r) = or_held (p_provenance p) (f_provenance f)"
  "f_standing (edit_claim f p r) = or_held (p_standing p) (f_standing f)"
  "f_fields (edit_claim f p r) = edit_fields (f_fields f) (p_clear_fields p) (p_fields p)"
  "f_happened_at (edit_claim f p r) = cleared_or (p_clear_happened_at p) (p_happened_at p) (f_happened_at f)"
  "f_happened_through (edit_claim f p r) =
     cleared_or (p_clear_happened_through p) (p_happened_through p) (f_happened_through f)"
  "f_id (edit_claim f p r) = f_id f" "f_home (edit_claim f p r) = f_home f"
  "f_subject (edit_claim f p r) = f_subject f" "f_app_stamp (edit_claim f p r) = f_app_stamp f"
  by (simp_all add: edit_claim_def Let_def)

lemma edit_claim_receipt:
  "f_receipt (edit_claim f p r) =
     (if r \<noteq> None then r
      else if (\<exists>c. p_content p = Some c \<and> normalize_content c \<noteq> f_content f)
              \<and> or_held (p_provenance p) (f_provenance f) = Observation then None
      else if p_standing p = Some Unsettled then None else f_receipt f)"
  by (cases "p_content p") (simp_all add: edit_claim_def carry_def Let_def)


lemma bt_get_put:
  "bt_ok m \<Longrightarrow>
   bt_get (fold (\<lambda>(k, v). bt_insert (trim k) v) put m) k =
     (case find (\<lambda>(j, v). trim j = k) (rev put) of Some (j, v) \<Rightarrow> Some v | None \<Rightarrow> bt_get m k)
   \<and> bt_ok (fold (\<lambda>(k, v). bt_insert (trim k) v) put m)"
proof (induction put rule: rev_induct)
  case (snoc p put)
  then show ?case by (cases p) auto
qed simp

lemma bt_get_clear:
  "bt_get (fold (\<lambda>k. bt_remove (trim k)) clear m) k =
     (if \<exists>j \<in> set clear. trim j = k then None else bt_get m k)"
  by (induction clear arbitrary: m) auto

lemma bt_ok_clear: "bt_ok m \<Longrightarrow> bt_ok (fold (\<lambda>k. bt_remove (trim k)) clear m)"
  by (induction clear arbitrary: m) auto

lemma edit_fields_get:
  assumes "bt_ok fs"
  shows "bt_get (edit_fields fs clear put) k =
     (case find (\<lambda>(j, v). trim j = k) (rev put) of
        Some (j, v) \<Rightarrow> Some v
      | None \<Rightarrow> if \<exists>j \<in> set clear. trim j = k then None else bt_get fs k)"
    and "bt_ok (edit_fields fs clear put)"
  using bt_get_put [OF bt_ok_clear [OF assms], of put clear k]
  by (auto simp: edit_fields_def bt_get_clear split: option.split)

lemma edit_fields_same:
  assumes "bt_ok fs" and "\<forall>(j, v) \<in> set put. trim j = k \<longrightarrow> g (bt_get fs k) = g (Some v)"
    and "\<forall>j \<in> set clear. trim j = k \<longrightarrow> g (bt_get fs k) = g None"
  shows "g (bt_get (edit_fields fs clear put) k) = g (bt_get fs k)"
proof (cases "find (\<lambda>(j, v). trim j = k) (rev put)")
  case None
  then show ?thesis using edit_fields_get(1) [OF assms(1)] assms(3) by auto
next
  case (Some jv)
  then have "jv \<in> set put \<and> trim (fst jv) = k" by (auto dest!: find_SomeD)
  then show ?thesis using edit_fields_get(1) [OF assms(1)] assms(2) Some by (cases jv) auto
qed

lemma apply_fact_patch_Inr:
  "apply_fact_patch W f p = Inr f' \<longleftrightarrow>
     (\<exists>r. check_patch W f p = Inr r \<and> f' = edit_claim f p r
        \<and> validate_provenance_source (f_provenance f') (f_fields f') = Inr ())"
  by (auto simp: apply_fact_patch_def Let_def ok_then_Inr)

lemma validate_fieldsD: "validate_fields fs = Inr u \<Longrightarrow> (k, v) \<in> set fs \<Longrightarrow> \<not> reserved_key k"
  by (auto simp: validate_fields_def find_None_iff split: option.split_asm)

lemma validate_cleared_fieldsD: "validate_cleared_fields ks = Inr u \<Longrightarrow> k \<in> set ks \<Longrightarrow> \<not> reserved_key k"
  by (auto simp: validate_cleared_fields_def find_None_iff split: option.split_asm)

text \<open>
  an edit cannot make a record an engine account or unmake one: what a claim holds under
  the two keys only jojobot writes is the same after any edit that is accepted, so a retraction
  stays a retraction, of the same record.
\<close>

theorem edit_keeps_engine_marks:
  assumes "bt_ok (f_fields f)" and "apply_fact_patch W f p = Inr f'"
  shows "bt_get (f_fields f') RETRACTS = bt_get (f_fields f) RETRACTS
     \<and> bt_get (f_fields f') MERGED_FROM = bt_get (f_fields f) MERGED_FROM
     \<and> is_retraction f' = is_retraction f"
proof -
  obtain r where r: "check_patch W f p = Inr r" "f' = edit_claim f p r"
    using assms(2) by (auto simp: apply_fact_patch_Inr)
  have "bt_get (f_fields f') k = bt_get (f_fields f) k" if "k = RETRACTS \<or> k = MERGED_FROM" for k
    unfolding r(2) edit_claim_sel
    by (rule edit_fields_same [of _ _ _ "\<lambda>x. x", OF assms(1)])
       (use that validate_fieldsD [OF check_patchD(8) [OF r(1)]]
          validate_cleared_fieldsD [OF check_patchD(9) [OF r(1)]] in \<open>auto simp: reserved_key_def\<close>)
  then show ?thesis by (simp add: is_retraction_def has_key_def)
qed

text \<open>
  C7: certainty only rises for a reason: an accepted edit makes a claim testimony only when it
  was testimony or the operator confirmed, and settles an open claim only with a receipt, which
  the claim then carries.
\<close>

theorem edit_raises_certainty_for_a_reason:
  assumes "apply_fact_patch W f p = Inr f'"
  shows "(f_provenance f' = Testimony \<longrightarrow> f_provenance f = Testimony \<or> p_confirmed_by_user p)
     \<and> (f_standing f' = Settled \<longrightarrow> f_standing f = Settled \<or> (p_receipt p \<noteq> None \<and> f_receipt f' \<noteq> None))"
proof -
  obtain r where r: "check_patch W f p = Inr r" "f' = edit_claim f p r"
    using assms by (auto simp: apply_fact_patch_Inr)
  note * = check_patchD [OF r(1)]
  have "f_provenance f' = Testimony \<longrightarrow> f_provenance f = Testimony \<or> p_confirmed_by_user p"
    using *(1) by (cases "p_provenance p") (auto simp: r(2) edit_claim_sel)
  moreover have "f_standing f = Settled \<or> (p_receipt p \<noteq> None \<and> f_receipt f' \<noteq> None)"
    if s: "f_standing f' = Settled"
  proof (cases "f_standing f")
    case Unsettled
    then have "p_standing p = Some Settled"
      using s by (cases "p_standing p") (auto simp: r(2) edit_claim_sel)
    then have "r \<noteq> None" using *(4) Unsettled by blast
    then show ?thesis using *(2) by (auto simp: r(2) edit_claim_receipt split: option.split_asm)
  qed simp
  ultimately show ?thesis by blast
qed

section \<open>What every stored claim satisfies\<close>

definition claim_ok :: "fact \<Rightarrow> bool" where
  "claim_ok f \<longleftrightarrow>
     bt_ok (f_fields f)
     \<and> f_content f \<noteq> [] \<and> trim (f_content f) = f_content f \<and> \<not> breaks_the_row (f_content f)
     \<and> (\<forall>d. f_details f = Some d \<longrightarrow> d \<noteq> [] \<and> trim d = d)
     \<and> (f_happened_through f \<noteq> None \<longrightarrow> f_happened_at f \<noteq> None)
     \<and> (f_receipt f \<noteq> None \<longrightarrow> f_standing f = Settled)
     \<and> (f_provenance f = Observation \<longrightarrow>
          (\<exists>source. bt_get (f_fields f) READ_FROM = Some source \<and> trim source \<noteq> []))"

text \<open>
  an accepted edit keeps a claim well formed: one trimmed non-empty line of words, no blank
  details, no end of a span without its start, a receipt only on a settled claim, and an
  observation always naming where it was read.
\<close>

theorem edit_keeps_claim_ok:
  assumes "claim_ok f" and "apply_fact_patch W f p = Inr f'"
  shows "claim_ok f'"
proof -
  obtain r where r: "check_patch W f p = Inr r" "f' = edit_claim f p r"
      "validate_provenance_source (f_provenance f') (f_fields f') = Inr ()"
    using assms(2) by (auto simp: apply_fact_patch_Inr)
  note * = check_patchD [OF r(1)]
  have "f_content f' \<noteq> [] \<and> trim (f_content f') = f_content f' \<and> \<not> breaks_the_row (f_content f')"
  proof (cases "p_content p")
    case (Some c)
    then have "trim c \<noteq> []" "\<not> breaks_the_row c"
      using *(6) [OF Some] by (auto simp: validate_content_def ok_then_Inr)
    then show ?thesis using Some set_trim [of c]
      by (auto simp: r(2) edit_claim_sel normalize_content_def breaks_the_row_def)
  qed (use assms(1) in \<open>simp add: claim_ok_def r(2) edit_claim_sel\<close>)
  moreover have "\<forall>d. f_details f' = Some d \<longrightarrow> d \<noteq> [] \<and> trim d = d"
    using assms(1)
    by (auto simp: claim_ok_def r(2) edit_claim_sel normalize_details_def split: option.splits if_splits)
  moreover have "f_happened_through f' \<noteq> None \<longrightarrow> f_happened_at f' \<noteq> None"
    using *(7) by (simp add: r(2) edit_claim_sel)
  moreover have "f_receipt f' \<noteq> None \<longrightarrow> f_standing f' = Settled"
  proof
    assume "f_receipt f' \<noteq> None"
    then have "r \<noteq> None \<or> (p_standing p \<noteq> Some Unsettled \<and> f_receipt f \<noteq> None)"
      by (auto simp: r(2) edit_claim_receipt split: if_split_asm)
    then show "f_standing f' = Settled"
      using *(3) assms(1)
      by (cases "p_standing p") (auto simp: r(2) edit_claim_sel claim_ok_def intro: standing.exhaust)
  qed
  moreover have "f_provenance f' = Observation \<longrightarrow>
      (\<exists>source. bt_get (f_fields f') READ_FROM = Some source \<and> trim source \<noteq> [])"
    using r(3) by (auto simp: validate_provenance_source_def split: option.split_asm)
  moreover have "bt_ok (f_fields f')"
    using assms(1) edit_fields_get(2) by (simp add: claim_ok_def r(2) edit_claim_sel)
  ultimately show ?thesis unfolding claim_ok_def by blast
qed

section \<open>Testimony is its own session's to rewrite\<close>

text \<open>The keys an edit may change on another session's testimony: they say nothing the operator said.\<close>

definition says_nothing :: "world \<Rightarrow> entity_id \<Rightarrow> declared_type list \<Rightarrow> string \<Rightarrow> bool" where
  "says_nothing W home declared k \<longleftrightarrow>
     k = DUE_ON \<or> k = ARCHIVE_REASON \<or> is_bookkeeping_key k
     \<or> (is_placement_key k \<and> places_its_records (entity_kind W home))
     \<or> (k = EDGES \<and> entity_kind W home = Some ''document'')
     \<or> fold_of k declared = FDescribes"

lemma archived_reason_sel:
  "p_content (archived_reason f p) = p_content p" "p_status (archived_reason f p) = p_status p"
  "p_session (archived_reason f p) = p_session p"
  "p_status p = Some Archived \<Longrightarrow> p_details (archived_reason f p) = None"
  by (auto simp: archived_reason_def Let_def split: option.split)

text \<open>
  C2: a claim the operator's words back, or an app wrote, keeps its words, its details and the
  value of every key that says something, whatever edit another session sends that is not
  refused.
\<close>

theorem testimony_is_protected:
  assumes "claim_ok f"
    and "f_app_stamp f \<noteq> None
         \<or> (f_provenance f = Testimony \<and> (p_session p = None \<or> p_session p \<noteq> written_in))"
    and "settle_rewrite W (fact_address f) f p written_in declared = Inr p'"
    and "apply_fact_patch W f p' = Inr f'"
    and "\<not> says_nothing W (f_home f) declared k"
  shows "f_content f' = f_content f \<and> f_details f' = f_details f \<and> held_trimmed f' k = held_trimmed f k"
proof -
  let ?q = "archived_reason f p"
  let ?words = "case p_content ?q of None \<Rightarrow> False | Some ws \<Rightarrow> trim ws \<noteq> trim (f_content f)"
  let ?q' = "if \<not> ?words then ?q\<lparr>p_content := None\<rparr> else ?q"
  let ?details = "p_status ?q' \<noteq> Some Archived \<and> (case p_details ?q' of None \<Rightarrow> False
      | Some d \<Rightarrow> normalize_details (Some d) \<noteq> f_details f)"
  let ?changes = "\<exists>(k, v) \<in> set (value_edits ?q'). rewrites_value W (fact_address f) f declared k v"
  let ?own = "case (p_session ?q', written_in) of (Some caller, Some writer) \<Rightarrow> caller = writer | _ \<Rightarrow> False"
  have session: "p_session ?q' = p_session p" by (simp add: archived_reason_sel)
  have settle: "settle_rewrite W (fact_address f) f p written_in declared =
      (if \<not> ?words \<and> \<not> ?details \<and> \<not> ?changes then Inr ?q'
       else if f_app_stamp f \<noteq> None then Inl (AppClaimRewritten (show_address (fact_address f)))
       else if f_provenance f = Testimony \<and> \<not> ?own then Inl (TestimonyRewritten (show_address (fact_address f)))
       else Inr (if ?words then keep_on_rewrite f ?q' ?own else ?q'))"
    unfolding settle_rewrite_def Let_def by (rule refl)
  have "\<not> (f_provenance f = Testimony \<and> \<not> ?own) \<Longrightarrow> f_app_stamp f \<noteq> None"
    using assms(2) unfolding session by (auto split: option.split_asm)
  then have no: "\<not> ?words" "\<not> ?details" "\<not> ?changes" and p': "p' = ?q\<lparr>p_content := None\<rparr>"
    using assms(3) unfolding settle by (auto split: if_split_asm)
  obtain r where f': "f' = edit_claim f p' r" using assms(4) by (auto simp: apply_fact_patch_Inr)
  have content: "f_content f' = f_content f" by (simp add: f' edit_claim_sel p')
  have "p_details ?q = None \<or> normalize_details (p_details ?q) = f_details f"
    using no(1,2) archived_reason_sel(2) [of f p] archived_reason_sel(4) [of p f]
    by (cases "p_status p = Some Archived") (auto split: option.split_asm)
  then have details: "f_details f' = f_details f" by (auto simp: f' edit_claim_sel p')
  have edits: "\<not> rewrites_value W (fact_address f) f declared j v" if "(j, v) \<in> set (value_edits ?q)" for j v
    using no(1,3) that by (auto simp: value_edits_def)
  have same: "held_trimmed f k = v" if "(k, v) \<in> set (value_edits ?q)" for v
    using edits [OF that] assms(5) by (auto simp: rewrites_value_def says_nothing_def fact_address_def)
  have "held_trimmed f' k = map_option trim (bt_get (edit_fields (f_fields f) (p_clear_fields ?q) (p_fields ?q)) k)"
    by (simp add: held_trimmed_def f' edit_claim_sel p')
  also have "\<dots> = map_option trim (bt_get (f_fields f) k)"
  proof (rule edit_fields_same [of _ _ _ "map_option trim"])
    show "bt_ok (f_fields f)" using assms(1) by (simp add: claim_ok_def)
    show "\<forall>(j, v) \<in> set (p_fields ?q). trim j = k \<longrightarrow> map_option trim (bt_get (f_fields f) k) = map_option trim (Some v)"
      using same by (force simp: value_edits_def held_trimmed_def)
    show "\<forall>j \<in> set (p_clear_fields ?q). trim j = k \<longrightarrow> map_option trim (bt_get (f_fields f) k) = map_option trim None"
      using same by (force simp: value_edits_def held_trimmed_def)
  qed
  finally show ?thesis using content details by (simp add: held_trimmed_def)
qed


section \<open>The edit of part of a text is of the one place it names\<close>

lemma take_chars_inj:
  assumes "n \<le> length (utf8_chars s)" and "m \<le> length (utf8_chars s)"
    and "length (concat (take n (utf8_chars s))) = length (concat (take m (utf8_chars s)))"
  shows "n = m"
proof -
  have split: "concat (take k (utf8_chars s)) @ concat (drop k (utf8_chars s)) = s" for k
    by (metis append_take_drop_id concat_append concat_utf8_chars)
  have "concat (take n (utf8_chars s)) = concat (take m (utf8_chars s))"
    using split [of n] split [of m] assms(3) by (metis append_eq_append_conv)
  then have "take n (utf8_chars s) = take m (utf8_chars s)" by (metis utf8_chars_take)
  then show ?thesis using assms(1,2) by (metis length_take min.absorb2)
qed

lemma distinct_char_starts: "distinct (char_starts s)"
  unfolding char_starts_def using take_chars_inj [of _ s]
  by (auto simp: distinct_map inj_on_def)

definition occurs_at :: "string \<Rightarrow> string \<Rightarrow> nat \<Rightarrow> bool" where
  "occurs_at w s i \<longleftrightarrow> (\<exists>l r. s = l @ w @ r \<and> length l = i)"

lemma occurs_at_iff: "w \<noteq> [] \<Longrightarrow> occurs_at w s i \<longleftrightarrow> i < length s \<and> starts_with w (drop i s)"
proof
  assume "w \<noteq> []" and "i < length s \<and> starts_with w (drop i s)"
  then have "s = take i s @ w @ drop (length w) (drop i s)"
    by (metis append_take_drop_id starts_with_def)
  moreover have "length (take i s) = i" using \<open>i < length s \<and> _\<close> by simp
  ultimately show "occurs_at w s i" unfolding occurs_at_def by blast
qed (auto simp: occurs_at_def starts_with_def)

lemma set_starts:
  assumes "w \<noteq> []" and "\<not> is_cont (hd w)"
  shows "set (filter (\<lambda>i. starts_with w (drop i s)) (char_starts s)) = {i. occurs_at w s i}"
proof -
  have "i \<in> set (char_starts s)" if at_i: "occurs_at w s i" for i
  proof -
    obtain l r where s: "s = l @ w @ r" "length l = i" using at_i unfolding occurs_at_def by blast
    have "utf8_chars s = utf8_chars l @ utf8_chars (w @ r)"
      unfolding s(1) using assms by (intro utf8_chars_append) auto
    then have "concat (take (length (utf8_chars l)) (utf8_chars s)) = l"
        "length (utf8_chars l) < length (utf8_chars s)"
      using assms(1) by auto
    then show ?thesis using s(2) unfolding char_starts_def by force
  qed
  moreover have "i < length s" if at_i: "i \<in> set (char_starts s)" for i
  proof -
    obtain n where n: "n < length (utf8_chars s)" "i = length (concat (take n (utf8_chars s)))"
      using at_i by (auto simp: char_starts_def)
    have "length (concat (take n (utf8_chars s))) + length (concat (drop n (utf8_chars s))) = length s"
      by (metis append_take_drop_id concat_append concat_utf8_chars length_append)
    moreover have "concat (drop n (utf8_chars s)) \<noteq> []"
      using n(1) utf8_chars_drop [of n s] by (metis drop_eq_Nil not_le utf8_chars.simps(1))
    ultimately show ?thesis using n(2) by (metis length_greater_0_conv less_add_same_cancel1)
  qed
  ultimately show ?thesis using occurs_at_iff [OF assms(1)] by auto
qed

lemma singleton_list: "distinct xs \<Longrightarrow> (\<exists>x. xs = [x]) \<longleftrightarrow> (\<exists>!x. x \<in> set xs)"
  by (cases xs; cases "tl xs") auto

text \<open>
  an edit of part of a text is accepted exactly when the words to find occur at one place
  and no other, overlapping places counted; then only that place changes: the text before it
  and the text after it stay, and the receipt says where the new words are.
\<close>

theorem text_edit_is_exact:
  assumes "te_find e \<noteq> []" and "\<not> is_cont (hd (te_find e))"
  shows "((\<exists>r. apply_text_edit a s e = Inr r) \<longleftrightarrow> (\<exists>!i. occurs_at (te_find e) s i))
     \<and> (\<forall>t ed. apply_text_edit a s e = Inr (t, ed) \<longrightarrow>
          (\<exists>l r. s = l @ te_find e @ r \<and> t = l @ te_replace e @ r
             \<and> take (td_end ed - td_start ed) (drop (td_start ed) t) = te_replace e
             \<and> td_start ed = length l \<and> td_bytes_after ed = length t))"
proof -
  let ?starts = "filter (\<lambda>i. starts_with (te_find e) (drop i s)) (char_starts s)"
  have d: "distinct ?starts" by (simp add: distinct_char_starts)
  have "(\<exists>r. apply_text_edit a s e = Inr r) \<longleftrightarrow> (\<exists>x. ?starts = [x])"
    using assms(1) by (auto simp: apply_text_edit_def Let_def split: list.split)
  also have "\<dots> \<longleftrightarrow> (\<exists>!i. occurs_at (te_find e) s i)"
    unfolding singleton_list [OF d] set_starts [OF assms] by simp
  finally have "(\<exists>r. apply_text_edit a s e = Inr r) \<longleftrightarrow> (\<exists>!i. occurs_at (te_find e) s i)" .
  moreover have "\<exists>l r. s = l @ te_find e @ r \<and> t = l @ te_replace e @ r
       \<and> take (td_end ed - td_start ed) (drop (td_start ed) t) = te_replace e
       \<and> td_start ed = length l \<and> td_bytes_after ed = length t"
    if ok: "apply_text_edit a s e = Inr (t, ed)" for t ed
  proof -
    obtain i where i: "?starts = [i]"
      using ok by (auto simp: apply_text_edit_def Let_def split: list.split_asm if_split_asm)
    then have "occurs_at (te_find e) s i"
      using set_starts [OF assms, of s] by (metis list.set_intros(1) mem_Collect_eq)
    then obtain l r where s: "s = l @ te_find e @ r" "length l = i" by (auto simp: occurs_at_def)
    then have "t = l @ te_replace e @ r" "td_start ed = i" "td_end ed = i + length (te_replace e)"
        "td_bytes_after ed = length t"
      using ok i assms(1) unfolding apply_text_edit_def Let_def by (auto split: if_split_asm)
    then show ?thesis using s by (intro exI [of _ l] exI [of _ r]) simp
  qed
  ultimately show ?thesis by blast
qed

section \<open>Concrete instances\<close>

theorem text_edit_is_exact_witness:
  "\<exists>t ed. apply_text_edit \<lparr>a_home = ''bot:a'', a_local = ''f1''\<rparr> ''aab''
       \<lparr>te_field = Content, te_find = ''ab'', te_replace = ''x''\<rparr> = Inr (t, ed) \<and> t = ''ax''"
proof -
  let ?e = "\<lparr>te_field = Content, te_find = ''ab'', te_replace = ''x''\<rparr>"
  let ?a = "\<lparr>a_home = ''bot:a'', a_local = ''f1''\<rparr>"
  have "\<exists>!i. occurs_at ''ab'' ''aab'' i"
  proof (rule ex1I [of _ 1])
    show "i = 1" if "occurs_at ''ab'' ''aab'' i" for i
      using that by (auto simp: occurs_at_iff starts_with_def less_Suc_eq numeral_3_eq_3)
  qed (simp add: occurs_at_iff starts_with_def)
  then obtain t ed where r: "apply_text_edit ?a ''aab'' ?e = Inr (t, ed)"
    using text_edit_is_exact [of ?e ?a "''aab''"] by (auto simp: is_cont_def)
  moreover have "t = ''ax''" using r by (simp add: apply_text_edit_def char_starts_def starts_with_def is_ascii_def)
  ultimately show ?thesis by blast
qed


text \<open>A retraction of another record of the same bot, reopened: the edit changes its standing only.\<close>

definition sample_retraction :: fact where
  "sample_retraction =
     (plain_fact ''f2'' ''bot:a'' [(RETRACTS, ''bot:a#f1'')])\<lparr>f_standing := Settled\<rparr>"

definition reopening :: fact_patch where
  "reopening = empty_patch\<lparr>p_standing := Some Unsettled\<rparr>"

lemma reopening_applies:
  "apply_fact_patch sample_world sample_retraction reopening
     = Inr (sample_retraction\<lparr>f_standing := Unsettled\<rparr>)"
  by (simp add: apply_fact_patch_def check_patch_def reopening_def empty_patch_def sample_retraction_def
      plain_fact_def rides_only_settled_def check_standing_def refuse_when_def validate_happened_span_def
      cleared_or_def validate_fields_def validate_cleared_fields_def edit_claim_def carry_def
      edit_fields_def set_or_clear_def validate_provenance_source_def)

theorem edit_keeps_engine_marks_witness:
  "is_retraction (sample_retraction\<lparr>f_standing := Unsettled\<rparr>) = is_retraction sample_retraction
     \<and> is_retraction sample_retraction"
  using edit_keeps_engine_marks [OF _ reopening_applies]
  by (simp add: sample_retraction_def plain_fact_def bt_ok_def is_retraction_def has_key_def bt_get_def)

definition settling :: fact_patch where
  "settling = empty_patch\<lparr>p_standing := Some Settled, p_receipt := Some (Check ''ran the query'')\<rparr>"

lemma settling_applies:
  "apply_fact_patch sample_world (plain_fact ''f1'' ''bot:a'' []) settling
     = Inr ((plain_fact ''f1'' ''bot:a'' [])\<lparr>f_standing := Settled, f_receipt := Some (Check ''ran the query'')\<rparr>)"
  by (simp add: apply_fact_patch_def check_patch_def settling_def empty_patch_def receipt_validated_def
      plain_fact_def rides_only_settled_def check_standing_def refuse_when_def validate_happened_span_def
      cleared_or_def validate_fields_def validate_cleared_fields_def edit_claim_def carry_def
      edit_fields_def set_or_clear_def validate_provenance_source_def trim_printable printable_def)

theorem edit_raises_certainty_for_a_reason_witness:
  "p_receipt settling \<noteq> None"
  using edit_raises_certainty_for_a_reason [OF settling_applies]
  by (simp add: plain_fact_def)

lemma plain_fact_ok: "claim_ok (plain_fact i h [])"
  by (simp add: claim_ok_def plain_fact_def trim_printable printable_def breaks_the_row_def)

theorem edit_keeps_claim_ok_witness:
  "claim_ok ((plain_fact ''f1'' ''bot:a'' [])\<lparr>f_standing := Settled, f_receipt := Some (Check ''ran the query'')\<rparr>)"
  by (rule edit_keeps_claim_ok [OF plain_fact_ok settling_applies])

text \<open>Another session archives the operator's words, giving a reason: the words stay.\<close>

definition sample_testimony :: fact where
  "sample_testimony = (plain_fact ''f1'' ''bot:a'' [])\<lparr>f_provenance := Testimony\<rparr>"

definition archiving :: fact_patch where
  "archiving = empty_patch\<lparr>p_status := Some Archived, p_details := Some ''moved'', p_session := Some ''s2''\<rparr>"

theorem testimony_is_protected_witness:
  "\<exists>p' f'. settle_rewrite sample_world (fact_address sample_testimony) sample_testimony archiving (Some ''s1'') [] = Inr p'
     \<and> apply_fact_patch sample_world sample_testimony p' = Inr f'
     \<and> f_content f' = ''said'' \<and> f_details f' = None \<and> f_status f' = Archived
     \<and> bt_get (f_fields f') ARCHIVE_REASON = Some ''moved''"
proof -
  let ?p = "archiving\<lparr>p_details := None, p_fields := [(ARCHIVE_REASON, ''moved'')]\<rparr>"
  let ?f = "sample_testimony\<lparr>f_status := Archived, f_fields := [(ARCHIVE_REASON, ''moved'')]\<rparr>"
  have trims: "trim ''moved'' = ''moved''" "trim ''archive_reason'' = ''archive_reason''"
    by (simp_all add: trim_printable printable_def)
  have settle: "settle_rewrite sample_world (fact_address sample_testimony) sample_testimony archiving (Some ''s1'') [] = Inr ?p"
    by (simp add: settle_rewrite_def archived_reason_def archiving_def empty_patch_def Let_def
        normalize_details_def sample_testimony_def plain_fact_def trims value_edits_def rewrites_value_def
        ARCHIVE_REASON_def)
  have keep: "apply_fact_patch sample_world sample_testimony ?p = Inr ?f"
    by (simp add: apply_fact_patch_def check_patch_def archiving_def empty_patch_def sample_testimony_def
        plain_fact_def rides_only_settled_def refuse_when_def validate_happened_span_def
        cleared_or_def validate_fields_def validate_cleared_fields_def edit_claim_def carry_def
        edit_fields_def set_or_clear_def validate_provenance_source_def trims ARCHIVE_REASON_def
        reserved_key_def RETRACTS_def MERGED_FROM_def MARK_def starts_with_def ceiling_value_refusal_def
        RECORD_CAPACITY_def THOUGHT_CAPACITY_def THOUGHT_BODY_CAP_def char_count_def is_ascii_def MAX_KEY_CHARS_def)
  have "f_content ?f = f_content sample_testimony \<and> f_details ?f = f_details sample_testimony
      \<and> held_trimmed ?f ''weighs'' = held_trimmed sample_testimony ''weighs''"
  proof (rule testimony_is_protected [OF _ _ settle keep])
    show "claim_ok sample_testimony"
      using plain_fact_ok [of "''f1''" "''bot:a''"] by (simp add: claim_ok_def sample_testimony_def)
    show "f_app_stamp sample_testimony \<noteq> None \<or> f_provenance sample_testimony = Testimony
        \<and> (p_session archiving = None \<or> p_session archiving \<noteq> Some ''s1'')"
      by (simp add: sample_testimony_def archiving_def)
    show "\<not> says_nothing sample_world (f_home sample_testimony) [] ''weighs''" by code_simp
  qed
  moreover have "f_status ?f = Archived" "bt_get (f_fields ?f) ARCHIVE_REASON = Some ''moved''"
    by (simp_all add: bt_get_def)
  ultimately show ?thesis using settle keep
    by (auto simp: sample_testimony_def plain_fact_def)
qed

end
