(* ===== verification/Licence.thy ===== *)
theory Licence
  imports Claims
begin

text \<open>
  Who may write a guarded key (\<open>memory.rs\<close>, \<open>memory/bot_request.rs\<close>): the table of the keys the
  build guards, the lineage a write is judged against, the walk up a chain of managers, the
  licence itself, and the refusals of a write, of a change and of a merge.
\<close>

section \<open>Requests for a bot\<close>

definition REQUEST_KIND :: string where "REQUEST_KIND = ''bot-request''"
definition TARGET_BOT :: string where "TARGET_BOT = ''target_bot''"
definition DESIRED :: string where "DESIRED = ''desired''"
definition MACHINE :: string where "MACHINE = ''machine''"
definition MODEL :: string where "MODEL = ''model''"
definition BOUND_APP :: string where "BOUND_APP = ''bound_app''"
definition GENERATION :: string where "GENERATION = ''generation''"
definition OBSERVED_STATE :: string where "OBSERVED_STATE = ''observed_state''"
definition OBSERVED_GENERATION :: string where "OBSERVED_GENERATION = ''observed_generation''"
definition RUNTIME_REF :: string where "RUNTIME_REF = ''runtime_ref''"
definition LAST_RESULT :: string where "LAST_RESULT = ''last_result''"
definition SETTINGS_RECORD :: string where "SETTINGS_RECORD = ''settings_record''"

definition SPEC_KEYS :: "string list" where
  "SPEC_KEYS = [TARGET_BOT, DESIRED, MACHINE, MODEL, BOUND_APP]"

definition is_request :: "entity_id \<Rightarrow> bool" where
  "is_request subject =
     (case strip_prefix REQUEST_KIND subject of None \<Rightarrow> False | Some tail_of \<Rightarrow> starts_with '':'' tail_of)"

section \<open>The keys the build guards\<close>

definition THOUGHT_AGES_AFTER_RUNS :: string where "THOUGHT_AGES_AFTER_RUNS = ''thought_ages_after_runs''"
definition RULE_SEATS :: string where "RULE_SEATS = ''rule_seats''"
definition CLAIMS_ROLE :: string where "CLAIMS_ROLE = ''claims_role''"
definition REPORTS_TO :: string where "REPORTS_TO = ''reports_to''"
definition OPERATOR :: string where "OPERATOR = ''operator''"
definition ASSISTANT :: entity_id where "ASSISTANT = ''bot:assistant''"
definition INSTANCE_RECORD :: entity_id where "INSTANCE_RECORD = ''topic:instance''"
definition CARRIED_RULES :: nat where "CARRIED_RULES = 5"
definition AGES_AFTER_RUNS :: nat where "AGES_AFTER_RUNS = 20"

datatype may_write =
    Subject
  | DifferentIdentity
  | Ancestor
  | Superior
  | WritersSuperior
  | HeadOnceHeld entity_id
  | RequestSpec
  | RequestStatus
  | RequestGeneration

record guarded_key =
  g_key :: string
  g_may :: may_write

definition GUARDED_KEYS :: "guarded_key list" where
  "GUARDED_KEYS =
     [\<lparr>g_key = THOUGHT_CAPACITY, g_may = WritersSuperior\<rparr>,
      \<lparr>g_key = RECORD_CAPACITY, g_may = WritersSuperior\<rparr>,
      \<lparr>g_key = THOUGHT_BODY_CAP, g_may = DifferentIdentity\<rparr>,
      \<lparr>g_key = THOUGHT_AGES_AFTER_RUNS, g_may = WritersSuperior\<rparr>,
      \<lparr>g_key = RULE_SEATS, g_may = DifferentIdentity\<rparr>,
      \<lparr>g_key = CLAIMS_ROLE, g_may = DifferentIdentity\<rparr>,
      \<lparr>g_key = REPORTS_TO, g_may = Superior\<rparr>,
      \<lparr>g_key = OPERATOR, g_may = HeadOnceHeld INSTANCE_RECORD\<rparr>,
      \<lparr>g_key = TARGET_BOT, g_may = RequestSpec\<rparr>,
      \<lparr>g_key = DESIRED, g_may = RequestSpec\<rparr>,
      \<lparr>g_key = MACHINE, g_may = RequestSpec\<rparr>,
      \<lparr>g_key = MODEL, g_may = RequestSpec\<rparr>,
      \<lparr>g_key = BOUND_APP, g_may = RequestSpec\<rparr>,
      \<lparr>g_key = GENERATION, g_may = RequestGeneration\<rparr>,
      \<lparr>g_key = OBSERVED_STATE, g_may = RequestStatus\<rparr>,
      \<lparr>g_key = OBSERVED_GENERATION, g_may = RequestStatus\<rparr>,
      \<lparr>g_key = RUNTIME_REF, g_may = RequestStatus\<rparr>,
      \<lparr>g_key = LAST_RESULT, g_may = RequestStatus\<rparr>]"

definition on_a_request_only :: "may_write \<Rightarrow> bool" where
  "on_a_request_only m \<longleftrightarrow> m = RequestSpec \<or> m = RequestStatus \<or> m = RequestGeneration"

definition ceiling_keys :: "guarded_key list" where
  "ceiling_keys = filter (\<lambda>rule. \<not> on_a_request_only (g_may rule)) GUARDED_KEYS"

definition positive_setting :: "string \<Rightarrow> fields \<Rightarrow> nat option" where
  "positive_setting k fs =
     (case bt_get fs k of
        None \<Rightarrow> None
      | Some held \<Rightarrow>
          (case parse_unsigned usize_max (trim held) of
             Some n \<Rightarrow> if n > 0 then Some n else None
           | None \<Rightarrow> None))"

definition rule_seats_of :: "fields \<Rightarrow> nat" where
  "rule_seats_of fs = (case positive_setting RULE_SEATS fs of Some n \<Rightarrow> n | None \<Rightarrow> CARRIED_RULES)"

definition ages_after_runs_setting :: "fields \<Rightarrow> nat option" where
  "ages_after_runs_setting fs = positive_setting THOUGHT_AGES_AFTER_RUNS fs"

definition ages_after_runs_of :: "fields \<Rightarrow> nat" where
  "ages_after_runs_of fs = (case ages_after_runs_setting fs of Some n \<Rightarrow> n | None \<Rightarrow> AGES_AFTER_RUNS)"

definition is_the_assistant :: "entity_id \<Rightarrow> bool" where
  "is_the_assistant writer \<longleftrightarrow> writer = ASSISTANT"

definition exempt_from_the_writers :: "string \<Rightarrow> entity_id option" where
  "exempt_from_the_writers k = (if k = RECORD_CAPACITY then Some ASSISTANT else None)"

definition reports_to :: "fields \<Rightarrow> entity_id \<Rightarrow> bool" where
  "reports_to fs subject = (case bt_get fs REPORTS_TO of None \<Rightarrow> False | Some m \<Rightarrow> trim m = subject)"

definition writers_in :: "world \<Rightarrow> entity_id \<Rightarrow> fact list \<Rightarrow> entity_id list" where
  "writers_in W thread claims =
     foldl (\<lambda>writers c.
       if (case f_edge c of None \<Rightarrow> False | Some e \<Rightarrow> e_shape e = Connection \<and> e_object e = thread)
          \<and> \<not> f_written_by_another c \<and> entity_kind W (f_home c) = Some ''bot''
          \<and> f_home c \<notin> set writers
       then writers @ [f_home c] else writers) [] claims"

section \<open>The chart around a write\<close>

record lineage =
  l_creating :: bool
  l_above :: "entity_id list"
  l_named :: "entity_id option"
  l_above_named :: "entity_id list"
  l_has_reports :: bool
  l_holds :: "string set"
  l_heads :: "entity_id list"
  l_writers :: "entity_id list"
  l_above_writers :: "entity_id list"

definition no_lineage :: lineage where
  "no_lineage = \<lparr>l_creating = False, l_above = [], l_named = None, l_above_named = [],
     l_has_reports = False, l_holds = {}, l_heads = [], l_writers = [], l_above_writers = []\<rparr>"

definition MAX_CHAIN :: nat where "MAX_CHAIN = 32"

definition manager_in :: "world \<Rightarrow> string \<Rightarrow> entity_id option" where
  "manager_in W value =
     (case validate_subject W (trim value) of Inr _ \<Rightarrow> Some (trim value) | Inl _ \<Rightarrow> None)"

record chain_walk =
  w_seen :: "entity_id list"
  w_at :: "entity_id option"

definition chain_from :: "entity_id \<Rightarrow> chain_walk" where
  "chain_from start = \<lparr>w_seen = [start], w_at = Some start\<rparr>"

definition chain_step :: "world \<Rightarrow> string option \<Rightarrow> chain_walk \<Rightarrow> chain_walk" where
  "chain_step W held w =
     (case Option.bind held (manager_in W) of
        None \<Rightarrow> w\<lparr>w_at := None\<rparr>
      | Some m \<Rightarrow>
          if m \<in> set (w_seen w) then w\<lparr>w_at := None\<rparr>
          else if length (w_seen w) > MAX_CHAIN then w\<lparr>w_at := None\<rparr>
          else \<lparr>w_seen = w_seen w @ [m], w_at = Some m\<rparr>)"

definition chain_managers :: "chain_walk \<Rightarrow> entity_id list" where
  "chain_managers w = drop 1 (w_seen w)"

definition held_guarded_keys :: "fields \<Rightarrow> string set" where
  "held_guarded_keys fs =
     set (map g_key (filter (\<lambda>rule. case bt_get fs (g_key rule) of
                               None \<Rightarrow> False | Some v \<Rightarrow> trim v \<noteq> []) GUARDED_KEYS))"

definition heads_wanted :: "string set \<Rightarrow> bool" where
  "heads_wanted held \<longleftrightarrow>
     (\<exists>rule \<in> set GUARDED_KEYS. (case g_may rule of HeadOnceHeld _ \<Rightarrow> True | _ \<Rightarrow> False) \<and> g_key rule \<in> held)"

definition needs_lineage :: "may_write \<Rightarrow> bool" where
  "needs_lineage m =
     (case m of Ancestor \<Rightarrow> True | Superior \<Rightarrow> True | HeadOnceHeld _ \<Rightarrow> True
        | WritersSuperior \<Rightarrow> True | RequestSpec \<Rightarrow> True | _ \<Rightarrow> False)"

definition chart_wanted :: "world \<Rightarrow> entity_id \<Rightarrow> guarded_key list \<Rightarrow> fields \<Rightarrow> entity_id option option" where
  "chart_wanted W subject rules written =
     (if \<not> list_ex (\<lambda>rule. needs_lineage (g_may rule)) rules then None
      else Some (Option.bind
        (if is_request subject then bt_get written TARGET_BOT
         else case bt_get written REPORTS_TO of
                Some m \<Rightarrow> Some m | None \<Rightarrow> bt_get written TARGET_BOT)
        (manager_in W)))"

definition guarded_keys_in :: "fields \<Rightarrow> guarded_key list" where
  "guarded_keys_in fs = filter (\<lambda>rule. has_key fs (g_key rule)) GUARDED_KEYS"

definition names_a_guarded_key :: "fields \<Rightarrow> bool" where
  "names_a_guarded_key fs \<longleftrightarrow> guarded_keys_in fs \<noteq> []"

definition names_a_ceiling_key :: "fields \<Rightarrow> bool" where
  "names_a_ceiling_key fs \<longleftrightarrow> list_ex (\<lambda>rule. has_key fs (g_key rule)) ceiling_keys"

definition needs_the_chart :: "world \<Rightarrow> entity_id \<Rightarrow> fields \<Rightarrow> entity_id option option" where
  "needs_the_chart W subject fs = chart_wanted W subject (guarded_keys_in fs) fs"

definition chart_wanted_by_change :: "world \<Rightarrow> entity_id \<Rightarrow> fields \<Rightarrow> fields \<Rightarrow> entity_id option option" where
  "chart_wanted_by_change W subject before after =
     chart_wanted W subject
       (filter (\<lambda>rule. bt_get before (g_key rule) \<noteq> bt_get after (g_key rule)) GUARDED_KEYS) after"

definition SERVED_KEYS :: "string list" where
  "SERVED_KEYS = [REPORTS_TO, OPERATOR, TARGET_BOT]"

definition stored_id :: "string \<Rightarrow> entity_id" where
  "stored_id stored =
     (case strip_prefix MARK (trim stored) of Some i \<Rightarrow> i | None \<Rightarrow> trim stored)"

definition stored_served_ids :: "fields \<Rightarrow> entity_id list" where
  "stored_served_ids fs = map stored_id (concat (map (\<lambda>k. list_of (bt_get fs k)) SERVED_KEYS))"

definition with_manager_served :: "fields \<Rightarrow> (entity_id \<Rightarrow> entity_id) \<Rightarrow> fields" where
  "with_manager_served fs handle_of =
     foldl (\<lambda>served k. case bt_get fs k of
                         None \<Rightarrow> served
                       | Some stored \<Rightarrow> bt_insert k (handle_of (stored_id stored)) served) fs SERVED_KEYS"

section \<open>The licence\<close>

definition spec_licensed :: "string \<Rightarrow> entity_id \<Rightarrow> entity_id \<Rightarrow> lineage option \<Rightarrow> bool" where
  "spec_licensed k subject caller chart =
     (if \<not> is_request subject then True
      else case chart of
             None \<Rightarrow> False
           | Some l \<Rightarrow>
               if TARGET_BOT \<in> l_holds l then k \<noteq> TARGET_BOT \<and> caller \<in> set (l_above l)
               else l_named l \<noteq> None \<and> caller \<in> set (l_above_named l))"

definition who_may_spec :: "string \<Rightarrow> lineage \<Rightarrow> entity_id list" where
  "who_may_spec k l =
     (if TARGET_BOT \<in> l_holds l then (if k = TARGET_BOT then [] else l_above l) else l_above_named l)"

datatype why = NotLicensed | Cycle entity_id

definition writers_license :: "lineage \<Rightarrow> entity_id \<Rightarrow> bool" where
  "writers_license l caller \<longleftrightarrow>
     caller \<notin> set (l_writers l) \<and> (l_writers l = [] \<or> caller \<in> set (l_above_writers l))"

definition superior_licensed :: "entity_id \<Rightarrow> entity_id \<Rightarrow> lineage \<Rightarrow> bool" where
  "superior_licensed subject caller l =
     (case (l_above l = [], l_named l) of
        (False, _) \<Rightarrow> caller \<in> set (l_above l)
      | (True, Some named) \<Rightarrow>
          if l_has_reports l then caller = subject
          else if l_creating l then caller = named \<or> caller \<in> set (l_above_named l)
          else is_the_assistant caller
      | (True, None) \<Rightarrow> False)"

definition yes_or_not :: "bool \<Rightarrow> why + unit" where
  "yes_or_not yes = (if yes then Inr () else Inl NotLicensed)"

definition licensed ::
  "world \<Rightarrow> may_write \<Rightarrow> string \<Rightarrow> entity_id \<Rightarrow> entity_id \<Rightarrow> lineage option \<Rightarrow> why + unit" where
  "licensed W may k subject caller chart =
     (case may of
        Subject \<Rightarrow> yes_or_not (caller = subject)
      | DifferentIdentity \<Rightarrow> yes_or_not (caller \<noteq> subject)
      | WritersSuperior \<Rightarrow>
          if entity_kind W subject \<noteq> Some ''thread'' \<and> k \<noteq> RECORD_CAPACITY
          then yes_or_not (caller \<noteq> subject)
          else if entity_kind W subject \<noteq> Some ''thread''
          then yes_or_not (caller \<noteq> subject \<and>
                 (exempt_from_the_writers k = Some caller \<or>
                  (case chart of None \<Rightarrow> True | Some l \<Rightarrow> writers_license l caller)))
          else yes_or_not (case chart of None \<Rightarrow> False
                 | Some l \<Rightarrow> writers_license l caller \<or> exempt_from_the_writers k = Some caller)
      | Ancestor \<Rightarrow> yes_or_not (case chart of None \<Rightarrow> False | Some l \<Rightarrow> caller \<in> set (l_above l))
      | HeadOnceHeld on \<Rightarrow>
          yes_or_not (subject \<noteq> on \<or>
            (case chart of None \<Rightarrow> False | Some l \<Rightarrow> k \<notin> l_holds l \<or> caller \<in> set (l_heads l)))
      | RequestSpec \<Rightarrow> yes_or_not (spec_licensed k subject caller chart)
      | RequestStatus \<Rightarrow> yes_or_not (\<not> is_request subject)
      | RequestGeneration \<Rightarrow> yes_or_not (\<not> is_request subject)
      | Superior \<Rightarrow>
          (case chart of
             None \<Rightarrow> Inl NotLicensed
           | Some l \<Rightarrow>
               (case l_named l of
                  Some named \<Rightarrow>
                    if named = subject \<or> subject \<in> set (l_above_named l) then Inl (Cycle named)
                    else yes_or_not (superior_licensed subject caller l)
                | None \<Rightarrow> yes_or_not (superior_licensed subject caller l))))"

definition who_may_write :: "may_write \<Rightarrow> string \<Rightarrow> entity_id \<Rightarrow> lineage option \<Rightarrow> entity_id list" where
  "who_may_write may k subject chart =
     (case chart of
        None \<Rightarrow> []
      | Some l \<Rightarrow>
          (case may of
             Ancestor \<Rightarrow> l_above l
           | HeadOnceHeld _ \<Rightarrow> l_heads l
           | WritersSuperior \<Rightarrow>
               filter (\<lambda>b. b \<notin> set (l_writers l)) (l_above_writers l)
               @ filter (\<lambda>b. b \<noteq> subject \<and> b \<notin> set (l_above_writers l))
                   (list_of (exempt_from_the_writers k))
           | RequestSpec \<Rightarrow> who_may_spec k l
           | Superior \<Rightarrow>
               if l_above l \<noteq> [] then l_above l
               else if l_has_reports l \<and> l_named l \<noteq> None then [subject]
               else if l_creating l then list_of (l_named l) @ l_above_named l
               else if l_named l \<noteq> None then [ASSISTANT]
               else []
           | _ \<Rightarrow> []))"

definition worded_for :: "may_write \<Rightarrow> entity_id \<Rightarrow> string \<Rightarrow> lineage option \<Rightarrow> may_write" where
  "worded_for may subject k chart =
     (let judged_by_writers = (starts_with ''thread:'' subject \<or>
            (k = RECORD_CAPACITY \<and> (case chart of None \<Rightarrow> False | Some l \<Rightarrow> l_writers l \<noteq> [])))
      in if may = WritersSuperior \<and> \<not> judged_by_writers then DifferentIdentity else may)"

section \<open>Refusals\<close>

text \<open>The refusals of \<open>MemoryError\<close> this part answers with.\<close>

datatype licence_error =
    ChartCycle entity_id entity_id  \<comment> \<open>the subject and the manager named\<close>
  | KeyNotYours entity_id string may_write "entity_id list"
  | MergeCarriesGuardedKeys entity_id entity_id string may_write "entity_id list" bool bool
      \<comment> \<open>duplicate, survivor, keys, relation, who may, whether the clear opens, judged on the duplicate\<close>

definition refusal_of :: "why \<Rightarrow> guarded_key \<Rightarrow> entity_id \<Rightarrow> lineage option \<Rightarrow> licence_error" where
  "refusal_of w rule subject chart =
     (case w of
        Cycle manager \<Rightarrow> ChartCycle subject manager
      | NotLicensed \<Rightarrow>
          KeyNotYours subject (g_key rule) (worded_for (g_may rule) subject (g_key rule) chart)
            (who_may_write (g_may rule) (g_key rule) subject chart))"

fun first_refused ::
  "world \<Rightarrow> guarded_key list \<Rightarrow> entity_id \<Rightarrow> entity_id \<Rightarrow> lineage option \<Rightarrow> licence_error option" where
  "first_refused W [] subject caller chart = None"
| "first_refused W (rule # rules) subject caller chart =
     (case licensed W (g_may rule) (g_key rule) subject caller chart of
        Inl w \<Rightarrow> Some (refusal_of w rule subject chart)
      | Inr _ \<Rightarrow> first_refused W rules subject caller chart)"

definition refuses_unlicensed_write_by ::
  "world \<Rightarrow> guarded_key list \<Rightarrow> entity_id \<Rightarrow> entity_id \<Rightarrow> fields \<Rightarrow> lineage option \<Rightarrow> licence_error option" where
  "refuses_unlicensed_write_by W table subject caller fs chart =
     first_refused W (filter (\<lambda>rule. has_key fs (g_key rule)) table) subject caller chart"

definition refuses_unlicensed_write ::
  "world \<Rightarrow> entity_id \<Rightarrow> entity_id \<Rightarrow> fields \<Rightarrow> lineage option \<Rightarrow> licence_error option" where
  "refuses_unlicensed_write W = refuses_unlicensed_write_by W GUARDED_KEYS"

definition refuses_unlicensed_change_by ::
  "world \<Rightarrow> guarded_key list \<Rightarrow> entity_id \<Rightarrow> entity_id \<Rightarrow> fields \<Rightarrow> fields \<Rightarrow> lineage option
     \<Rightarrow> licence_error option" where
  "refuses_unlicensed_change_by W table subject caller before after chart =
     first_refused W
       (filter (\<lambda>rule. bt_get before (g_key rule) \<noteq> bt_get after (g_key rule))
         (filter (\<lambda>rule. g_may rule \<noteq> RequestGeneration) table)) subject caller chart"

definition refuses_unlicensed_change ::
  "world \<Rightarrow> entity_id \<Rightarrow> entity_id \<Rightarrow> fields \<Rightarrow> fields \<Rightarrow> lineage option \<Rightarrow> licence_error option" where
  "refuses_unlicensed_change W = refuses_unlicensed_change_by W GUARDED_KEYS"

definition refuses_merge_below_the_duplicate ::
  "entity_id \<Rightarrow> entity_id \<Rightarrow> entity_id list \<Rightarrow> licence_error option" where
  "refuses_merge_below_the_duplicate survivor duplicate above_survivor =
     (if duplicate \<in> set above_survivor then Some (ChartCycle survivor duplicate) else None)"

section \<open>A merge that carries guarded keys\<close>

definition judged_on ::
  "entity_id \<Rightarrow> entity_id \<Rightarrow> lineage option \<Rightarrow> lineage option \<Rightarrow> guarded_key
     \<Rightarrow> entity_id \<times> lineage option" where
  "judged_on survivor duplicate chart duplicate_chart rule =
     (if is_request duplicate \<and> on_a_request_only (g_may rule) then (duplicate, duplicate_chart)
      else (survivor, chart))"

text \<open>The loop: a chart cycle answers at once, the other refused keys are gathered.\<close>

fun barred_keys ::
  "world \<Rightarrow> (guarded_key \<Rightarrow> entity_id \<times> lineage option) \<Rightarrow> entity_id \<Rightarrow> guarded_key list
     \<Rightarrow> (guarded_key \<times> why) + guarded_key list" where
  "barred_keys W judge caller [] = Inr []"
| "barred_keys W judge caller (rule # rules) =
     (case judge rule of (judged, chart) \<Rightarrow>
        (case licensed W (g_may rule) (g_key rule) judged caller chart of
           Inr _ \<Rightarrow> barred_keys W judge caller rules
         | Inl (Cycle m) \<Rightarrow> Inl (rule, Cycle m)
         | Inl NotLicensed \<Rightarrow> map_sum id (\<lambda>barred. rule # barred) (barred_keys W judge caller rules)))"

definition refuses_merge_carrying_by ::
  "world \<Rightarrow> guarded_key list \<Rightarrow> entity_id \<Rightarrow> entity_id \<Rightarrow> entity_id \<Rightarrow> fields
     \<Rightarrow> lineage option \<Rightarrow> lineage option \<Rightarrow> licence_error option" where
  "refuses_merge_carrying_by W table caller survivor duplicate carried chart duplicate_chart =
     (if duplicate = survivor then None
      else case barred_keys W (judged_on survivor duplicate chart duplicate_chart) caller
                  (filter (\<lambda>rule. has_key carried (g_key rule)) table) of
        Inl (rule, w) \<Rightarrow> Some (refusal_of w rule survivor chart)
      | Inr [] \<Rightarrow> None
      | Inr (first # barred) \<Rightarrow>
          (case judged_on survivor duplicate chart duplicate_chart first of (judged, judged_chart) \<Rightarrow>
             Some (MergeCarriesGuardedKeys duplicate survivor
               (join '', '' (map g_key (first # barred)))
               (worded_for (g_may first) judged (g_key first) judged_chart)
               (who_may_write (g_may first) (g_key first) judged judged_chart)
               (list_all (\<lambda>rule. licensed W (g_may rule) (g_key rule) duplicate caller duplicate_chart = Inr ())
                  (first # barred))
               (judged = duplicate))))"

definition refuses_merge_carrying ::
  "world \<Rightarrow> entity_id \<Rightarrow> entity_id \<Rightarrow> entity_id \<Rightarrow> fields \<Rightarrow> lineage option \<Rightarrow> lineage option
     \<Rightarrow> licence_error option" where
  "refuses_merge_carrying W = refuses_merge_carrying_by W GUARDED_KEYS"


section \<open>What the licence promises\<close>

lemma first_refused_None:
  "first_refused W rules subject caller chart = None
   \<longleftrightarrow> (\<forall>rule \<in> set rules. licensed W (g_may rule) (g_key rule) subject caller chart = Inr ())"
  by (induction rules) (auto split: sum.splits)


lemma first_refused_Some:
  "first_refused W rules subject caller chart \<noteq> None
   \<longleftrightarrow> (\<exists>rule \<in> set rules. isl (licensed W (g_may rule) (g_key rule) subject caller chart))"
  by (induction rules) (auto split: sum.splits)

lemma barred_keys_ok:
  "barred_keys W judge caller rules = Inr []
   \<longleftrightarrow> (\<forall>rule \<in> set rules. licensed W (g_may rule) (g_key rule) (fst (judge rule)) caller (snd (judge rule)) = Inr ())"
proof (induction rules)
  case (Cons rule rules)
  then show ?case
    by (cases "barred_keys W judge caller rules") (auto split: sum.splits why.splits prod.splits)
qed simp

lemma refuses_merge_None:
  "refuses_merge_carrying_by W table caller survivor duplicate carried chart duplicate_chart = None
   \<longleftrightarrow> duplicate = survivor
      \<or> (\<forall>rule \<in> set table. has_key carried (g_key rule) \<longrightarrow>
           (case judged_on survivor duplicate chart duplicate_chart rule of (judged, judged_chart) \<Rightarrow>
              licensed W (g_may rule) (g_key rule) judged caller judged_chart = Inr ()))"
proof -
  have "refuses_merge_carrying_by W table caller survivor duplicate carried chart duplicate_chart = None
     \<longleftrightarrow> duplicate = survivor
        \<or> barred_keys W (judged_on survivor duplicate chart duplicate_chart) caller
             (filter (\<lambda>rule. has_key carried (g_key rule)) table) = Inr []"
    by (auto simp: refuses_merge_carrying_by_def split: sum.splits list.splits prod.splits)
  then show ?thesis by (auto simp: barred_keys_ok split: prod.splits)
qed

text \<open>The keys that bind the thing they are read off.\<close>

definition OWN_CEILINGS :: "string list" where
  "OWN_CEILINGS = [THOUGHT_CAPACITY, RECORD_CAPACITY, THOUGHT_BODY_CAP, THOUGHT_AGES_AFTER_RUNS, RULE_SEATS, CLAIMS_ROLE]"

lemma own_ceiling_unlicensed:
  assumes "k \<in> set OWN_CEILINGS" and "entity_kind W subject \<noteq> Some ''thread''"
  obtains rule where "rule \<in> set GUARDED_KEYS" and "g_key rule = k"
    and "g_may rule \<noteq> RequestGeneration" and "\<not> on_a_request_only (g_may rule)"
    and "\<And>chart. licensed W (g_may rule) k subject subject chart = Inl NotLicensed"
proof -
  have "k \<in> {THOUGHT_CAPACITY, RECORD_CAPACITY, THOUGHT_AGES_AFTER_RUNS}
      \<or> k \<in> {THOUGHT_BODY_CAP, RULE_SEATS, CLAIMS_ROLE}"
    using assms(1) by (auto simp: OWN_CEILINGS_def)
  then show thesis
  proof
    assume k: "k \<in> {THOUGHT_CAPACITY, RECORD_CAPACITY, THOUGHT_AGES_AFTER_RUNS}"
    show thesis
      by (rule that [of "\<lparr>g_key = k, g_may = WritersSuperior\<rparr>"])
        (use k assms(2) in \<open>auto simp: GUARDED_KEYS_def on_a_request_only_def licensed_def yes_or_not_def\<close>)
  next
    assume k: "k \<in> {THOUGHT_BODY_CAP, RULE_SEATS, CLAIMS_ROLE}"
    show thesis
      by (rule that [of "\<lparr>g_key = k, g_may = DifferentIdentity\<rparr>"])
        (use k in \<open>auto simp: GUARDED_KEYS_def on_a_request_only_def licensed_def yes_or_not_def\<close>)
  qed
qed

text \<open>
  C15: a bot cannot move a ceiling that binds it, by any of the three doors that reach one: not by
  a write that names the key, not by a change of what it folds to, not by merging into itself a
  thing that carries the key; whatever chart was read, or none.
\<close>

theorem own_ceiling_is_held:
  assumes k: "k \<in> set OWN_CEILINGS" and kind: "entity_kind W subject \<noteq> Some ''thread''"
  shows "(has_key fs k \<longrightarrow> refuses_unlicensed_write W subject subject fs chart \<noteq> None)
    \<and> (bt_get before k \<noteq> bt_get after k \<longrightarrow>
           refuses_unlicensed_change W subject subject before after chart \<noteq> None)
    \<and> (has_key carried k \<longrightarrow> duplicate \<noteq> subject \<longrightarrow>
           refuses_merge_carrying W subject subject duplicate carried chart duplicate_chart \<noteq> None)"
proof -
  obtain rule where rule: "rule \<in> set GUARDED_KEYS" "g_key rule = k" "g_may rule \<noteq> RequestGeneration"
      "\<not> on_a_request_only (g_may rule)" "\<And>chart. licensed W (g_may rule) k subject subject chart = Inl NotLicensed"
    using own_ceiling_unlicensed [OF k kind] by metis
  show ?thesis
    unfolding refuses_unlicensed_write_def refuses_unlicensed_write_by_def
      refuses_unlicensed_change_def refuses_unlicensed_change_by_def
      refuses_merge_carrying_def refuses_merge_None first_refused_Some
    using rule by (auto simp: judged_on_def intro!: bexI [of _ rule])
qed

theorem own_ceiling_is_held_witness:
  "refuses_unlicensed_write sample_world ''bot:a'' ''bot:a'' [(THOUGHT_CAPACITY, ''9'')] None \<noteq> None
   \<and> refuses_unlicensed_change sample_world ''bot:a'' ''bot:a'' [(THOUGHT_CAPACITY, ''9'')] [] None \<noteq> None
   \<and> refuses_merge_carrying sample_world ''bot:a'' ''bot:a'' ''bot:b'' [(THOUGHT_CAPACITY, ''9'')] None None \<noteq> None"
proof -
  have "entity_kind sample_world ''bot:a'' \<noteq> Some ''thread''" by code_simp
  then show ?thesis
    using own_ceiling_is_held [of THOUGHT_CAPACITY sample_world "''bot:a''" "[(THOUGHT_CAPACITY, ''9'')]" None
        "[(THOUGHT_CAPACITY, ''9'')]" "[]" "[(THOUGHT_CAPACITY, ''9'')]" "''bot:b''" None]
    by (simp add: OWN_CEILINGS_def has_key_def bt_get_def)
qed

text \<open>The keys whose licence asks the chart of this subject.\<close>

definition asks_the_chart :: "world \<Rightarrow> entity_id \<Rightarrow> may_write \<Rightarrow> bool" where
  "asks_the_chart W subject m =
     (case m of Ancestor \<Rightarrow> True | Superior \<Rightarrow> True | HeadOnceHeld on \<Rightarrow> subject = on
        | WritersSuperior \<Rightarrow> entity_kind W subject = Some ''thread''
        | RequestSpec \<Rightarrow> is_request subject | _ \<Rightarrow> False)"

text \<open>
  a write judged with no chart read fails closed: a change of a key whose licence asks the
  chart is refused for every caller when the chart was not read, and the code does read it for
  every such change.
\<close>

theorem unread_chart_fails_closed:
  assumes "rule \<in> set GUARDED_KEYS" and "asks_the_chart W subject (g_may rule)"
    and "bt_get before (g_key rule) \<noteq> bt_get after (g_key rule)"
  shows "refuses_unlicensed_change W subject caller before after None \<noteq> None
    \<and> chart_wanted_by_change W subject before after \<noteq> None"
proof
  have "isl (licensed W (g_may rule) (g_key rule) subject caller None)"
    using assms(2) by (auto simp: asks_the_chart_def licensed_def yes_or_not_def spec_licensed_def split: may_write.splits)
  moreover have "g_may rule \<noteq> RequestGeneration" using assms(2) by (auto simp: asks_the_chart_def)
  ultimately show "refuses_unlicensed_change W subject caller before after None \<noteq> None"
    unfolding refuses_unlicensed_change_def refuses_unlicensed_change_by_def first_refused_Some
    using assms by (auto intro!: bexI [of _ rule])
  have "needs_lineage (g_may rule)"
    using assms(2) by (auto simp: asks_the_chart_def needs_lineage_def split: may_write.splits)
  then show "chart_wanted_by_change W subject before after \<noteq> None"
    using assms by (auto simp: chart_wanted_by_change_def chart_wanted_def list_ex_iff)
qed

theorem unread_chart_fails_closed_witness:
  "refuses_unlicensed_change sample_world ''bot:b'' ''bot:a'' [] [(REPORTS_TO, ''bot:a'')] None \<noteq> None
   \<and> chart_wanted_by_change sample_world ''bot:b'' [] [(REPORTS_TO, ''bot:a'')] \<noteq> None"
  by (rule unread_chart_fails_closed [of "\<lparr>g_key = REPORTS_TO, g_may = Superior\<rparr>", simplified guarded_key.simps])
    (simp_all add: GUARDED_KEYS_def asks_the_chart_def bt_get_def)

lemma merge_same_licence:
  assumes "\<not> is_request duplicate" and "duplicate \<noteq> survivor"
  shows "refuses_merge_carrying W caller survivor duplicate carried chart duplicate_chart = None
     \<longleftrightarrow> refuses_unlicensed_write W survivor caller carried chart = None"
  unfolding refuses_merge_carrying_def refuses_merge_None refuses_unlicensed_write_def
    refuses_unlicensed_write_by_def first_refused_None
  using assms by (auto simp: judged_on_def)

text \<open>
  a merge is no other door: folding a thing that is no request into another is refused for
  the keys it carries exactly when a write of those keys onto the survivor would be.
\<close>

theorem merge_is_no_other_door:
  assumes "\<not> is_request duplicate" and "duplicate \<noteq> survivor"
  shows "refuses_merge_carrying W caller survivor duplicate carried chart duplicate_chart = None
     \<longleftrightarrow> refuses_unlicensed_write W survivor caller carried chart = None"
  using assms by (rule merge_same_licence)

theorem merge_is_no_other_door_witness:
  "refuses_merge_carrying sample_world ''bot:c'' ''bot:a'' ''bot:b'' [(RULE_SEATS, ''9'')] None None = None"
proof -
  have "\<not> is_request ''bot:b''" by code_simp
  moreover have "refuses_unlicensed_write sample_world ''bot:a'' ''bot:c'' [(RULE_SEATS, ''9'')] None = None"
    by code_simp
  ultimately show ?thesis
    using merge_is_no_other_door [of "''bot:b''" "''bot:a''" sample_world "''bot:c''" "[(RULE_SEATS, ''9'')]" None None]
    by simp
qed

text \<open>
  the bots a refusal names are bots that may make the write: the one exception is a ceiling's
  refusal, which may name the thing itself when the thing is above one of its writers.
\<close>

theorem refusal_names_who_may:
  assumes "licensed W may k subject caller (Some l) = Inl NotLicensed"
    and "b \<in> set (who_may_write may k subject (Some l))"
    and "may = WritersSuperior \<Longrightarrow> b \<noteq> subject"
    and "l_named l = None \<Longrightarrow> l_above_named l = []"
  shows "licensed W may k subject b (Some l) = Inr ()"
proof (cases may)
  case Superior
  then show ?thesis
    using assms by (auto simp: licensed_def who_may_write_def superior_licensed_def yes_or_not_def is_the_assistant_def
        split: option.splits if_splits bool.splits)
next
  case WritersSuperior
  then show ?thesis
    using assms(1,2) assms(3) [OF WritersSuperior]
    by (auto simp: licensed_def who_may_write_def yes_or_not_def writers_license_def exempt_from_the_writers_def
        split: option.splits if_splits)
next
  case RequestSpec
  then show ?thesis
    using assms by (cases "l_named l") (auto simp: licensed_def who_may_write_def yes_or_not_def
        spec_licensed_def who_may_spec_def split: if_splits)
qed (use assms in \<open>auto simp: licensed_def who_may_write_def yes_or_not_def split: if_splits\<close>)

theorem refusal_names_who_may_witness:
  "licensed sample_world Superior REPORTS_TO ''bot:b'' ''bot:a'' (Some (no_lineage\<lparr>l_above := [''bot:a'']\<rparr>)) = Inr ()"
  by (rule refusal_names_who_may [of _ _ _ _ "''bot:c''"])
    (simp_all add: licensed_def no_lineage_def who_may_write_def superior_licensed_def yes_or_not_def)

text \<open>The exception is real: \<open>bot:a\<close>, above the only writer of its own records, is named and refused.\<close>

lemma refusal_names_the_thing_itself:
  "let l = no_lineage\<lparr>l_writers := [''bot:b''], l_above_writers := [''bot:a'']\<rparr> in
     refuses_unlicensed_write sample_world ''bot:a'' ''bot:b'' [(RECORD_CAPACITY, ''9'')] (Some l)
       = Some (KeyNotYours ''bot:a'' RECORD_CAPACITY WritersSuperior [''bot:a'', ASSISTANT])
     \<and> refuses_unlicensed_write sample_world ''bot:a'' ''bot:a'' [(RECORD_CAPACITY, ''9'')] (Some l) \<noteq> None"
  by code_simp

end
