(* ===== verification/Chart.thy ===== *)
theory Chart
  imports Licence
begin

text \<open>
  The chart of managers as the server reads it around a write (\<open>jojobot-mcp/src/memory/capture.rs\<close>,
  \<open>fillers.rs\<close>, \<open>jojobot-domain/src/memory/thread_writers.rs\<close>): the walk up a chain, the heads,
  the lineage of a write, and the one licence check every verb that sets fields makes.

  The store is the memory port: what it answers for each thing is a parameter (\<open>chart_store\<close>).
  A port read that fails refuses the write before any of this decides; that path is not modelled.
\<close>

record chart_store =
  cs_things :: "entity_id list"                     \<comment> \<open>\<open>list_entities(None)\<close>\<close>
  cs_fields :: "entity_id \<Rightarrow> fields"                \<comment> \<open>\<open>fields\<close>, folded and served as handles\<close>
  cs_handle :: "entity_id \<Rightarrow> entity_id"             \<comment> \<open>\<open>current_handle\<close>\<close>
  cs_thoughts :: "entity_id \<Rightarrow> entity_id list"      \<comment> \<open>\<open>thought_writers\<close>\<close>
  cs_fills :: "entity_id \<Rightarrow> entity_id list"         \<comment> \<open>\<open>record_writers\<close>\<close>

section \<open>The walk\<close>

text \<open>Each caller's loop: read the manager of \<open>at\<close>, hand it to \<open>step\<close>, until \<open>at\<close> is nothing.\<close>

function climb :: "world \<Rightarrow> (entity_id \<Rightarrow> string option) \<Rightarrow> chain_walk \<Rightarrow> chain_walk" where
  "climb W held w =
     (case w_at w of None \<Rightarrow> w | Some a \<Rightarrow> climb W held (chain_step W (held a) w))"
  by pat_completeness auto
termination climb
  by (relation "measure (\<lambda>(W, held, w). case w_at w of None \<Rightarrow> 0 | Some _ \<Rightarrow> Suc (Suc MAX_CHAIN - length (w_seen w)))")
     (auto simp: chain_step_def split: option.splits)

declare climb.simps [simp del]

definition chain_above :: "world \<Rightarrow> chart_store \<Rightarrow> entity_id \<Rightarrow> entity_id list" where
  "chain_above W S start =
     chain_managers (climb W (\<lambda>a. bt_get (cs_fields S a) REPORTS_TO) (chain_from start))"

section \<open>The lineage of a write\<close>

definition chain_start :: "world \<Rightarrow> entity_id \<Rightarrow> fields \<Rightarrow> entity_id" where
  "chain_start W subject held =
     (if \<not> is_request subject then subject
      else case Option.bind (bt_get held TARGET_BOT) (manager_in W) of Some b \<Rightarrow> b | None \<Rightarrow> subject)"

definition push_new :: "'a list \<Rightarrow> 'a list \<Rightarrow> 'a list" where
  "push_new xs ys = foldl (\<lambda>kept y. if y \<in> set kept then kept else kept @ [y]) xs ys"

definition thread_writers :: "entity_id list \<Rightarrow> entity_id list \<Rightarrow> entity_id list" where
  "thread_writers thoughts fills = push_new [] (thoughts @ fills)"

definition above_the_writers :: "entity_id list list \<Rightarrow> entity_id list" where
  "above_the_writers above_each = push_new [] (concat above_each)"

definition fills :: "(fields \<Rightarrow> bool) \<Rightarrow> fact \<Rightarrow> fact_id set \<Rightarrow> bool" where
  "fills takes_no_slot f settings \<longleftrightarrow>
     f_status f = Active \<and> \<not> takes_no_slot (f_fields f)
     \<and> \<not> list_ex (\<lambda>rule. g_key rule \<in> f_sets f) ceiling_keys \<and> f_id f \<notin> settings"

text \<open>The managers anything reports to, as the ordered set the code gathers them in.\<close>

definition named_managers :: "world \<Rightarrow> chart_store \<Rightarrow> entity_id list" where
  "named_managers W S =
     map fst (bt_of (map (\<lambda>m. (m, ()))
       (concat (map (\<lambda>b. list_of (Option.bind (bt_get (cs_fields S b) REPORTS_TO) (manager_in W))) (cs_things S)))))"

definition chart_heads :: "world \<Rightarrow> chart_store \<Rightarrow> entity_id list" where
  "chart_heads W S = filter (\<lambda>m. chain_above W S m = []) (named_managers W S)"

definition has_reports :: "chart_store \<Rightarrow> entity_id \<Rightarrow> bool" where
  "has_reports S subject \<longleftrightarrow>
     list_ex (\<lambda>b. b \<noteq> subject \<and> reports_to (cs_fields S b) subject) (cs_things S)"

definition chart_around :: "world \<Rightarrow> chart_store \<Rightarrow> entity_id \<Rightarrow> entity_id option \<Rightarrow> lineage" where
  "chart_around W S subject named =
     (let held = cs_fields S subject;
          above = chain_above W S (chain_start W subject held);
          held_keys = held_guarded_keys held;
          thoughts = (if entity_kind W subject = Some ''thread'' then cs_thoughts S subject else []);
          writers = thread_writers thoughts (cs_fills S subject)
      in \<lparr>l_creating = False, l_above = above, l_named = named,
          l_above_named = (case named of None \<Rightarrow> [] | Some m \<Rightarrow> chain_above W S m),
          l_has_reports = (above = [] \<and> named \<noteq> None \<and> has_reports S subject),
          l_holds = held_keys,
          l_heads = (if heads_wanted held_keys then chart_heads W S else []),
          l_writers = writers,
          l_above_writers = above_the_writers (map (chain_above W S) writers)\<rparr>)"

definition chart_around_new :: "world \<Rightarrow> chart_store \<Rightarrow> entity_id \<Rightarrow> entity_id option \<Rightarrow> lineage" where
  "chart_around_new W S subject named =
     \<lparr>l_creating = True, l_above = [], l_named = named,
      l_above_named = (case named of None \<Rightarrow> [] | Some m \<Rightarrow> chain_above W S m),
      l_has_reports = (named \<noteq> None \<and> has_reports S subject),
      l_holds = {}, l_heads = [], l_writers = [], l_above_writers = []\<rparr>"

section \<open>The check every verb that sets fields makes\<close>

definition fields_that_would_change :: "chart_store \<Rightarrow> entity_id \<Rightarrow> fields \<Rightarrow> fields" where
  "fields_that_would_change S subject written =
     filter (\<lambda>(k, value).
       \<not> (case bt_get (cs_fields S subject) (trim k) of
            None \<Rightarrow> False
          | Some now \<Rightarrow>
              list_ex (\<lambda>rule. g_key rule = trim k) GUARDED_KEYS \<and>
              (case strip_prefix MARK (trim now) of
                 Some i \<Rightarrow> cs_handle S i | None \<Rightarrow> trim now) = trim value)) written"

definition refuses_a_filler_widening ::
  "world \<Rightarrow> chart_store \<Rightarrow> entity_id \<Rightarrow> entity_id \<Rightarrow> fields \<Rightarrow> string list \<Rightarrow> licence_error option" where
  "refuses_a_filler_widening W S subject caller sent cleared =
     (let written = filter (\<lambda>(k, _). trim k = RECORD_CAPACITY) sent;
          clears = list_ex (\<lambda>k. trim k = RECORD_CAPACITY) cleared
      in if written = [] \<and> \<not> clears then None
         else if is_the_assistant caller then None
         else if list_ex (\<lambda>(_, value). ceiling_value_refusal RECORD_CAPACITY value \<noteq> None) written then None
         else (let now = cs_handle S subject;
                   moving = (if written = []
                             then (if has_key (cs_fields S now) RECORD_CAPACITY
                                   then [(RECORD_CAPACITY, [])] else [])
                             else fields_that_would_change S now written)
               in if moving = [] then None
                  else refuses_unlicensed_write W now caller moving (Some (chart_around W S now None))))"

definition refuses_an_unlicensed_key ::
  "world \<Rightarrow> chart_store \<Rightarrow> entity_id \<Rightarrow> bool \<Rightarrow> entity_id \<Rightarrow> fields \<Rightarrow> licence_error option" where
  "refuses_an_unlicensed_key W S subject already caller sent =
     (let judged = (if already \<and> names_a_guarded_key sent then cs_handle S subject else subject);
          changing = (if already \<and> names_a_guarded_key sent
                      then fields_that_would_change S judged sent else sent);
          chart = (case needs_the_chart W judged changing of
                     None \<Rightarrow> None
                   | Some named \<Rightarrow>
                       Some (if already then chart_around W S judged named
                             else chart_around_new W S judged named))
      in case refuses_unlicensed_write W judged caller changing chart of
           Some refused \<Rightarrow> Some refused
         | None \<Rightarrow> if already then refuses_a_filler_widening W S judged caller sent [] else None)"


section \<open>What a walk finds\<close>

text \<open>The manager of a bot, as the walk reads it, and the chart as a relation.\<close>

definition manager_of :: "world \<Rightarrow> (entity_id \<Rightarrow> string option) \<Rightarrow> entity_id \<Rightarrow> entity_id option" where
  "manager_of W held a = Option.bind (held a) (manager_in W)"

definition walk_ok :: "world \<Rightarrow> (entity_id \<Rightarrow> string option) \<Rightarrow> entity_id \<Rightarrow> chain_walk \<Rightarrow> bool" where
  "walk_ok W held start w \<longleftrightarrow>
     distinct (w_seen w) \<and> w_seen w \<noteq> [] \<and> hd (w_seen w) = start \<and> length (w_seen w) \<le> Suc MAX_CHAIN
     \<and> successively (\<lambda>a m. manager_of W held a = Some m) (w_seen w)
     \<and> (case w_at w of
          Some a \<Rightarrow> a = last (w_seen w)
        | None \<Rightarrow> length (w_seen w) = Suc MAX_CHAIN
                  \<or> (case manager_of W held (last (w_seen w)) of
                       None \<Rightarrow> True | Some m \<Rightarrow> m \<in> set (w_seen w)))"

lemma walk_ok_from: "walk_ok W held start (chain_from start)"
  by (simp add: walk_ok_def chain_from_def)

lemma walk_ok_step:
  assumes "walk_ok W held start w" and "w_at w = Some a"
  shows "walk_ok W held start (chain_step W (held a) w)"
  using assms
  by (auto simp: walk_ok_def chain_step_def manager_of_def successively_append_iff hd_append
      split: option.splits)

lemma climb_ok:
  "walk_ok W held start w \<Longrightarrow> walk_ok W held start (climb W held w) \<and> w_at (climb W held w) = None"
proof (induction W held w rule: climb.induct)
  case (1 W held w)
  show ?case
  proof (cases "w_at w")
    case None
    then show ?thesis using 1 by (simp add: climb.simps [of W held w])
  next
    case (Some a)
    have "climb W held w = climb W held (chain_step W (held a) w)"
      using Some by (subst climb.simps) simp
    then show ?thesis using 1(1) [OF Some] walk_ok_step [OF 1(2) Some] by simp
  qed
qed

definition chart_manager :: "world \<Rightarrow> chart_store \<Rightarrow> entity_id \<Rightarrow> entity_id option" where
  "chart_manager W S = manager_of W (\<lambda>a. bt_get (cs_fields S a) REPORTS_TO)"

text \<open>
  the walk up a chain of managers ends whatever the chart holds, loops included: it visits
  no bot twice, reads at most \<open>MAX_CHAIN\<close> managers, each the manager of the one before, and
  unless it met that limit it stopped at a bot with no manager or one already visited.
\<close>

theorem chain_walk_ends:
  "distinct (start # chain_above W S start) \<and> length (chain_above W S start) \<le> MAX_CHAIN
   \<and> successively (\<lambda>a m. chart_manager W S a = Some m) (start # chain_above W S start)
   \<and> (length (chain_above W S start) = MAX_CHAIN
      \<or> (case chart_manager W S (last (start # chain_above W S start)) of
           None \<Rightarrow> True | Some m \<Rightarrow> m \<in> set (start # chain_above W S start)))"
proof -
  let ?w = "climb W (\<lambda>a. bt_get (cs_fields S a) REPORTS_TO) (chain_from start)"
  have ok: "walk_ok W (\<lambda>a. bt_get (cs_fields S a) REPORTS_TO) start ?w" "w_at ?w = None"
    using climb_ok [OF walk_ok_from] by blast+
  then have seen: "w_seen ?w = start # chain_above W S start"
    by (cases "w_seen ?w") (auto simp: walk_ok_def chain_above_def chain_managers_def)
  show ?thesis
    using ok(1) unfolding walk_ok_def ok(2) seen chart_manager_def by simp
qed

section \<open>No bot above itself\<close>

definition reporting :: "world \<Rightarrow> chart_store \<Rightarrow> (entity_id \<times> entity_id) set" where
  "reporting W S = {(a, m). chart_manager W S a = Some m}"

lemma successively_above:
  "successively (\<lambda>a m. (a, m) \<in> r) (x # xs) \<Longrightarrow> y \<in> set xs \<Longrightarrow> (x, y) \<in> r\<^sup>+"
proof (induction xs arbitrary: x)
  case (Cons z zs)
  then have xz: "(x, z) \<in> r" and "successively (\<lambda>a m. (a, m) \<in> r) (z # zs)" by simp_all
  then have "y \<noteq> z \<Longrightarrow> (z, y) \<in> r\<^sup>+" using Cons by simp
  then show ?case using xz by (cases "y = z") (auto intro: trancl_into_trancl2)
qed simp

lemma successively_to_last:
  "successively (\<lambda>a m. (a, m) \<in> r) (x # xs) \<Longrightarrow> y \<in> set (x # xs) \<Longrightarrow> (y, last (x # xs)) \<in> r\<^sup>*"
proof (induction xs arbitrary: x y)
  case (Cons z zs)
  then have xz: "(x, z) \<in> r" and zs: "successively (\<lambda>a m. (a, m) \<in> r) (z # zs)" by simp_all
  have all: "(y, last (z # zs)) \<in> r\<^sup>*" if "y \<in> set (z # zs)" for y
    by (rule Cons.IH [OF zs that])
  show ?case
  proof (cases "y \<in> set (z # zs)")
    case True
    then show ?thesis using all by simp
  next
    case False
    then show ?thesis using Cons.prems(2) xz all [of z] by (auto intro: converse_rtrancl_into_rtrancl)
  qed
qed simp

lemma successively_next:
  "successively (\<lambda>a m. f a = Some m) (x # xs) \<Longrightarrow> a \<in> set (x # xs) \<Longrightarrow> f a = Some m \<Longrightarrow>
     f (last (x # xs)) = None \<Longrightarrow> m \<in> set xs"
  by (induction xs arbitrary: x) (auto split: if_splits)

lemma chain_above_all:
  assumes acyc: "acyclic (reporting W S)" and short: "length (chain_above W S start) < MAX_CHAIN"
  shows "(start, m) \<in> (reporting W S)\<^sup>+ \<longleftrightarrow> m \<in> set (chain_above W S start)"
proof -
  let ?c = "chain_above W S start" and ?f = "chart_manager W S"
  have succ: "successively (\<lambda>a m. ?f a = Some m) (start # ?c)"
    and stop: "case ?f (last (start # ?c)) of None \<Rightarrow> True | Some m \<Rightarrow> m \<in> set (start # ?c)"
    using chain_walk_ends [of start W S] short by auto
  have up: "(start, y) \<in> (reporting W S)\<^sup>+" if "y \<in> set ?c" for y
    by (rule successively_above [OF _ that]) (use succ in \<open>simp add: reporting_def\<close>)
  have none: "?f (last (start # ?c)) = None"
  proof (rule ccontr)
    assume "?f (last (start # ?c)) \<noteq> None"
    then obtain y where y: "?f (last (start # ?c)) = Some y" "y \<in> set (start # ?c)" using stop by auto
    have "(y, last (start # ?c)) \<in> (reporting W S)\<^sup>*"
      by (rule successively_to_last [OF _ y(2)]) (use succ in \<open>simp add: reporting_def\<close>)
    then have "(last (start # ?c), last (start # ?c)) \<in> (reporting W S)\<^sup>+"
      using y(1) by (auto simp: reporting_def intro: rtrancl_into_trancl2)
    then show False using acyc by (simp add: acyclic_def)
  qed
  have "m \<in> set ?c" if "(start, m) \<in> (reporting W S)\<^sup>+"
    using that
  proof (induction rule: trancl_induct)
    case (base y)
    then show ?case using successively_next [OF succ _ _ none, of start y] by (simp add: reporting_def)
  next
    case (step y z)
    then show ?case using successively_next [OF succ _ _ none, of y z] by (simp add: reporting_def)
  qed
  then show ?thesis using up by blast
qed

lemma acyclic_new_manager:
  assumes "acyclic (reporting W S)"
    and "\<And>n. chart_manager W (S\<lparr>cs_fields := (cs_fields S)(subject := fs)\<rparr>) subject = Some n \<Longrightarrow>
           chart_manager W S subject \<noteq> Some n \<Longrightarrow> n \<noteq> subject \<and> (n, subject) \<notin> (reporting W S)\<^sup>+"
  shows "acyclic (reporting W (S\<lparr>cs_fields := (cs_fields S)(subject := fs)\<rparr>))"
proof -
  let ?S = "S\<lparr>cs_fields := (cs_fields S)(subject := fs)\<rparr>"
  have other: "chart_manager W ?S a = chart_manager W S a" if "a \<noteq> subject" for a
    using that by (simp add: chart_manager_def manager_of_def)
  show ?thesis
  proof (cases "chart_manager W ?S subject = None \<or> chart_manager W ?S subject = chart_manager W S subject")
    case True
    then have "reporting W ?S \<subseteq> reporting W S"
      using other unfolding reporting_def by (clarsimp simp del: fun_upd_apply) (metis option.distinct(1))
    then show ?thesis using assms(1) by (rule acyclic_subset [rotated])
  next
    case False
    then obtain n where n: "chart_manager W ?S subject = Some n" "chart_manager W S subject \<noteq> Some n"
      by (metis option.exhaust)
    have "reporting W ?S \<subseteq> insert (subject, n) (reporting W S)"
      using other n(1) unfolding reporting_def by (clarsimp simp del: fun_upd_apply) (metis option.inject)
    moreover have "(n, subject) \<notin> (reporting W S)\<^sup>*"
      using assms(2) [OF n] by (auto dest: rtranclD)
    then have "acyclic (insert (subject, n) (reporting W S))" using assms(1) by simp
    ultimately show ?thesis by (rule acyclic_subset [rotated])
  qed
qed

lemma superior_places_no_cycle:
  assumes "licensed W Superior k subject caller chart = Inr ()"
  obtains l where "chart = Some l"
    and "\<And>n. l_named l = Some n \<Longrightarrow> n \<noteq> subject \<and> subject \<notin> set (l_above_named l)"
  using assms by (auto simp: licensed_def split: option.splits if_splits)

lemma reports_to_guarded: "\<lparr>g_key = REPORTS_TO, g_may = Superior\<rparr> \<in> set GUARDED_KEYS"
  by (simp add: GUARDED_KEYS_def)

text \<open>The chart a change of the fields of a thing is judged on, and whether it is accepted.\<close>

definition chart_of_change :: "world \<Rightarrow> chart_store \<Rightarrow> entity_id \<Rightarrow> fields \<Rightarrow> lineage option" where
  "chart_of_change W S subject after =
     map_option (chart_around W S subject) (chart_wanted_by_change W subject (cs_fields S subject) after)"

definition change_accepted :: "world \<Rightarrow> chart_store \<Rightarrow> entity_id \<Rightarrow> entity_id \<Rightarrow> fields \<Rightarrow> bool" where
  "change_accepted W S subject caller after \<longleftrightarrow>
     refuses_unlicensed_change W subject caller (cs_fields S subject) after (chart_of_change W S subject after) = None"

definition creation_accepted :: "world \<Rightarrow> chart_store \<Rightarrow> entity_id \<Rightarrow> entity_id \<Rightarrow> fields \<Rightarrow> bool" where
  "creation_accepted W S subject caller fs \<longleftrightarrow>
     refuses_unlicensed_write W subject caller fs
       (map_option (chart_around_new W S subject) (needs_the_chart W subject fs)) = None"

definition with_fields :: "chart_store \<Rightarrow> entity_id \<Rightarrow> fields \<Rightarrow> chart_store" where
  "with_fields S subject fs = S\<lparr>cs_fields := (cs_fields S)(subject := fs)\<rparr>"

definition shallow :: "world \<Rightarrow> chart_store \<Rightarrow> bool" where
  "shallow W S \<longleftrightarrow> (\<forall>b. length (chain_above W S b) < MAX_CHAIN)"

lemma wanted_names_the_manager:
  assumes "\<not> is_request subject" and "bt_get after REPORTS_TO = Some v"
    and "\<lparr>g_key = REPORTS_TO, g_may = Superior\<rparr> \<in> set rules"
  shows "chart_wanted W subject rules after = Some (manager_in W v)"
  using assms by (auto simp: chart_wanted_def list_ex_iff needs_lineage_def intro!: bexI [OF _ assms(3)])

lemma accepted_change_acyclic:
  assumes "acyclic (reporting W S)" and "shallow W S" and "\<not> is_request subject"
    and ok: "change_accepted W S subject caller after"
  shows "acyclic (reporting W (with_fields S subject after))"
  unfolding with_fields_def
proof (rule acyclic_new_manager [OF assms(1)])
  fix n
  assume n: "chart_manager W (S\<lparr>cs_fields := (cs_fields S)(subject := after)\<rparr>) subject = Some n"
    and new: "chart_manager W S subject \<noteq> Some n"
  obtain v where v: "bt_get after REPORTS_TO = Some v" "manager_in W v = Some n"
    using n by (auto simp: chart_manager_def manager_of_def bind_eq_Some_conv)
  have moved: "bt_get (cs_fields S subject) REPORTS_TO \<noteq> bt_get after REPORTS_TO"
    using new v by (auto simp: chart_manager_def manager_of_def)
  then have "chart_wanted_by_change W subject (cs_fields S subject) after = Some (Some n)"
    using wanted_names_the_manager [OF assms(3) v(1)] reports_to_guarded v(2)
    by (simp add: chart_wanted_by_change_def)
  moreover have "licensed W Superior REPORTS_TO subject caller (chart_of_change W S subject after) = Inr ()"
    using ok moved reports_to_guarded
    unfolding change_accepted_def refuses_unlicensed_change_def refuses_unlicensed_change_by_def first_refused_None
    by fastforce
  ultimately have "n \<noteq> subject \<and> subject \<notin> set (chain_above W S n)"
    by (auto simp: chart_of_change_def chart_around_def Let_def elim!: superior_places_no_cycle)
  then show "n \<noteq> subject \<and> (n, subject) \<notin> (reporting W S)\<^sup>+"
    using chain_above_all [OF assms(1)] assms(2) by (simp add: shallow_def)
qed

lemma accepted_creation_acyclic:
  assumes "acyclic (reporting W S)" and "shallow W S" and "\<not> is_request subject"
    and ok: "creation_accepted W S subject caller fs"
  shows "acyclic (reporting W (with_fields S subject fs))"
  unfolding with_fields_def
proof (rule acyclic_new_manager [OF assms(1)])
  fix n
  assume n: "chart_manager W (S\<lparr>cs_fields := (cs_fields S)(subject := fs)\<rparr>) subject = Some n"
  obtain v where v: "bt_get fs REPORTS_TO = Some v" "manager_in W v = Some n"
    using n by (auto simp: chart_manager_def manager_of_def bind_eq_Some_conv)
  have "needs_the_chart W subject fs = Some (Some n)"
    using wanted_names_the_manager [OF assms(3) v(1)] reports_to_guarded v
    by (simp add: needs_the_chart_def guarded_keys_in_def has_key_def)
  moreover have "licensed W Superior REPORTS_TO subject caller
      (map_option (chart_around_new W S subject) (needs_the_chart W subject fs)) = Inr ()"
    using ok v reports_to_guarded
    unfolding creation_accepted_def refuses_unlicensed_write_def refuses_unlicensed_write_by_def first_refused_None
    by (fastforce simp: has_key_def)
  ultimately have "n \<noteq> subject \<and> subject \<notin> set (chain_above W S n)"
    by (auto simp: chart_around_new_def elim!: superior_places_no_cycle)
  then show "n \<noteq> subject \<and> (n, subject) \<notin> (reporting W S)\<^sup>+"
    using chain_above_all [OF assms(1)] assms(2) by (simp add: shallow_def)
qed

text \<open>
  The charts the server can reach from one where nothing has a field: things are made and
  changed by accepted writes, and what the store answers beside the fields moves freely.  Each
  chart is reached with the writes that led to it: the chart each was judged on, and its subject.
\<close>

inductive chart_reach :: "world \<Rightarrow> (chart_store \<times> entity_id) list \<Rightarrow> chart_store \<Rightarrow> bool" for W where
  start: "\<forall>b. cs_fields S b = [] \<Longrightarrow> chart_reach W [] S"
| change: "chart_reach W judged S \<Longrightarrow> change_accepted W S subject caller after \<Longrightarrow>
     chart_reach W ((S, subject) # judged) (with_fields S subject after)"
| create: "chart_reach W judged S \<Longrightarrow> cs_fields S subject = [] \<Longrightarrow> creation_accepted W S subject caller fs \<Longrightarrow>
     chart_reach W ((S, subject) # judged) (with_fields S subject fs)"
| other: "chart_reach W judged S \<Longrightarrow> cs_fields S' = cs_fields S \<Longrightarrow> chart_reach W judged S'"

text \<open>
  C4: while the walk reads every chain to its end, no bot comes to stand above itself: from an empty
  chart, by any sequence of accepted changes and creations, whoever makes them, as long as each is judged on
  a chart whose chains are all shorter than \<open>MAX_CHAIN\<close> and none is a write to a request for a bot (whose
  \<open>reports_to\<close> is judged by the chain of its target), nobody puts a thing under one of its own reports.
\<close>

theorem chart_never_loops:
  assumes "chart_reach W judged S" and "\<forall>(T, subject) \<in> set judged. shallow W T \<and> \<not> is_request subject"
  shows "(b, b) \<notin> (reporting W S)\<^sup>+"
proof -
  have "acyclic (reporting W S)"
    using assms
  proof (induction rule: chart_reach.induct)
    case (start S)
    then have "reporting W S = {}"
      by (simp add: reporting_def chart_manager_def manager_of_def bt_get_def)
    then show ?case by (simp add: acyclic_def)
  next
    case (other judged S S')
    then show ?case by (simp add: reporting_def chart_manager_def)
  next
    case (change judged S subject caller after)
    then show ?case by (intro accepted_change_acyclic) auto
  next
    case (create judged S subject caller fs)
    then show ?case by (intro accepted_creation_acyclic) auto
  qed
  then show ?thesis by (simp add: acyclic_def)
qed

text \<open>A chart of two bots, made by the manager itself.\<close>

definition empty_chart :: chart_store where
  "empty_chart = \<lparr>cs_things = [], cs_fields = (\<lambda>_. []), cs_handle = (\<lambda>b. b),
     cs_thoughts = (\<lambda>_. []), cs_fills = (\<lambda>_. [])\<rparr>"

definition sample_chart :: chart_store where
  "sample_chart = with_fields empty_chart ''bot:b'' [(REPORTS_TO, ''bot:a'')]"

lemma shallow_empty: "shallow W empty_chart"
proof -
  have "chain_above W empty_chart b = []" for b
    by (simp add: chain_above_def empty_chart_def climb.simps chain_from_def chain_step_def
        chain_managers_def bt_get_def)
  then show ?thesis by (simp add: shallow_def MAX_CHAIN_def)
qed

lemma sample_chart_reached: "chart_reach sample_world [(empty_chart, ''bot:b'')] sample_chart"
  unfolding sample_chart_def
proof (rule chart_reach.create)
  show "chart_reach sample_world [] empty_chart" by (rule chart_reach.start) (simp add: empty_chart_def)
  show "cs_fields empty_chart ''bot:b'' = []" by (simp add: empty_chart_def)
  show "creation_accepted sample_world empty_chart ''bot:b'' ''bot:a'' [(REPORTS_TO, ''bot:a'')]"
    by code_simp
qed

theorem chart_never_loops_witness:
  "(''bot:b'', ''bot:a'') \<in> reporting sample_world sample_chart
   \<and> (''bot:b'', ''bot:b'') \<notin> (reporting sample_world sample_chart)\<^sup>+"
proof -
  have "\<not> is_request ''bot:b''" by code_simp
  then have "(''bot:b'', ''bot:b'') \<notin> (reporting sample_world sample_chart)\<^sup>+"
    using shallow_empty by (intro chart_never_loops [OF sample_chart_reached]) simp
  moreover have "chart_manager sample_world sample_chart ''bot:b'' = Some ''bot:a''" by code_simp
  ultimately show ?thesis by (simp add: reporting_def)
qed

text \<open>A chain of thirty-six bots, the last the head.\<close>

definition bot_at :: "nat \<Rightarrow> entity_id" where
  "bot_at n = ''bot:a'' @ replicate n CHR ''a''"

definition deep_chart :: chart_store where
  "deep_chart = empty_chart\<lparr>cs_things := [bot_at 34],
     cs_fields := (\<lambda>b. if length b < 40 \<and> b = bot_at (length b - 5) then [(REPORTS_TO, b @ ''a'')] else [])\<rparr>"

lemma manager_in_bot_at: "n \<le> 100 \<Longrightarrow> manager_in sample_world (bot_at n) = Some (bot_at n)"
proof -
  assume n: "n \<le> 100"
  have t: "trim (bot_at n) = bot_at n"
    by (rule trim_printable) (simp_all add: bot_at_def printable_def last_append)
  have s: "slug (bot_at n) = ''a'' @ replicate n CHR ''a''" and k: "kind_token (bot_at n) = ''bot''"
    by (simp_all add: slug_def kind_token_def bot_at_def)
  have r: "rsplit_once CHR ''/'' (''a'' @ replicate n CHR ''a'') = None"
    by (simp add: rsplit_once_None)
  have "validate_shape (bot_at n) = Inr ()"
    using n r by (simp add: validate_shape_def s slug_shaped.simps refuse_when_def is_slug_byte_def list_all_iff) (simp add: bot_at_def)
  moreover have "resolve sample_world ''bot'' = Inr ''bot''" by code_simp
  ultimately have "validate_subject sample_world (bot_at n) = Inr ()"
    by (simp add: validate_subject_def k)
  then show ?thesis by (simp add: manager_in_def t)
qed

lemma deep_managers:
  assumes "n < 35"
  shows "chart_manager sample_world deep_chart (bot_at n) = Some (bot_at (Suc n))"
proof -
  have "bot_at n @ ''a'' = bot_at (Suc n)" by (simp add: bot_at_def replicate_append_same)
  moreover have "length (bot_at n) = n + 5" by (simp add: bot_at_def)
  ultimately have "bt_get (cs_fields deep_chart (bot_at n)) REPORTS_TO = Some (bot_at (Suc n))"
    using assms by (simp add: deep_chart_def bt_get_def)
  then show ?thesis
    using assms manager_in_bot_at [of "Suc n"] by (simp add: chart_manager_def manager_of_def)
qed

lemma deep_chain:
  "i \<le> length (chain_above sample_world deep_chart (bot_at 0)) \<Longrightarrow>
     (bot_at 0 # chain_above sample_world deep_chart (bot_at 0)) ! i = bot_at i"
proof (induction i)
  case (Suc i)
  let ?c = "bot_at 0 # chain_above sample_world deep_chart (bot_at 0)"
  have ends: "length (chain_above sample_world deep_chart (bot_at 0)) \<le> 32"
      "successively (\<lambda>a m. chart_manager sample_world deep_chart a = Some m) ?c"
    using chain_walk_ends [of "bot_at 0" sample_world deep_chart] by (simp_all add: MAX_CHAIN_def)
  then have "chart_manager sample_world deep_chart (?c ! i) = Some (?c ! Suc i)"
    using Suc.prems by (simp only: successively_conv_nth) simp
  moreover have "chart_manager sample_world deep_chart (bot_at i) = Some (bot_at (Suc i))"
    using Suc.prems ends(1) by (intro deep_managers) simp
  ultimately show ?case using Suc by simp
qed simp

lemma head_off_the_chain: "bot_at 35 \<notin> set (chain_above sample_world deep_chart (bot_at 0))"
proof
  let ?c = "chain_above sample_world deep_chart (bot_at 0)"
  assume "bot_at 35 \<in> set ?c"
  then obtain i where i: "i < length ?c" "?c ! i = bot_at 35" by (auto simp: in_set_conv_nth)
  then have "bot_at (Suc i) = bot_at 35" using deep_chain [of "Suc i"] by simp
  then have "length (bot_at (Suc i)) = length (bot_at 35)" by simp
  then have "i = 34" by (simp add: bot_at_def)
  moreover have "length ?c \<le> 32"
    using chain_walk_ends [of "bot_at 0" sample_world deep_chart] by (simp add: MAX_CHAIN_def)
  ultimately show False using i by simp
qed

lemma deep_accepts:
  "change_accepted sample_world deep_chart (bot_at 35) (bot_at 35) [(REPORTS_TO, bot_at 0)]"
proof -
  let ?after = "[(REPORTS_TO, bot_at 0)]"
  have held: "cs_fields deep_chart (bot_at 35) = []" by (simp add: deep_chart_def bot_at_def)
  have req: "\<not> is_request (bot_at 35)" by code_simp
  have touched: "filter (\<lambda>rule. bt_get [] (g_key rule) \<noteq> bt_get ?after (g_key rule)) GUARDED_KEYS
      = [\<lparr>g_key = REPORTS_TO, g_may = Superior\<rparr>]"
    by code_simp
  have judged: "filter (\<lambda>rule. bt_get [] (g_key rule) \<noteq> bt_get ?after (g_key rule))
        (filter (\<lambda>rule. g_may rule \<noteq> RequestGeneration) GUARDED_KEYS)
      = [\<lparr>g_key = REPORTS_TO, g_may = Superior\<rparr>]"
    by code_simp
  have wanted: "chart_wanted_by_change sample_world (bot_at 35) [] ?after = Some (Some (bot_at 0))"
    unfolding chart_wanted_by_change_def touched
    using req manager_in_bot_at [of 0] by (simp add: chart_wanted_def needs_lineage_def bt_get_def)
  have above: "chain_above sample_world deep_chart (bot_at 35) = []"
    using held by (simp add: chain_above_def climb.simps chain_from_def chain_step_def
        chain_managers_def bt_get_def)
  have reports: "has_reports deep_chart (bot_at 35)" by code_simp
  have "licensed sample_world Superior REPORTS_TO (bot_at 35) (bot_at 35)
      (Some (chart_around sample_world deep_chart (bot_at 35) (Some (bot_at 0)))) = Inr ()"
    using req above reports head_off_the_chain
    by (simp add: licensed_def chart_around_def Let_def chain_start_def superior_licensed_def yes_or_not_def
        bot_at_def)
  then show ?thesis
    unfolding change_accepted_def chart_of_change_def held wanted refuses_unlicensed_change_def
      refuses_unlicensed_change_by_def judged
    by simp
qed

lemma deep_last:
  "chart_manager sample_world (with_fields deep_chart (bot_at 35) [(REPORTS_TO, bot_at 0)]) (bot_at 35) = Some (bot_at 0)"
  using manager_in_bot_at [of 0]
  by (simp add: chart_manager_def manager_of_def with_fields_def bt_get_def)

text \<open>
  C39: the limit on the walk is a limit on the guard: in a chart where a bot has more than
  \<open>MAX_CHAIN\<close> bots below it in one chain, that head can place itself under the bot at the
  bottom, and the accepted write closes a loop.
\<close>

theorem deep_chart_can_loop:
  "acyclic (reporting sample_world deep_chart)
   \<and> change_accepted sample_world deep_chart (bot_at 35) (bot_at 35) [(REPORTS_TO, bot_at 0)]
   \<and> (bot_at 35, bot_at 35)
       \<in> (reporting sample_world (with_fields deep_chart (bot_at 35) [(REPORTS_TO, bot_at 0)]))\<^sup>+"
proof (intro conjI)
  have "length a < length m" if "(a, m) \<in> reporting sample_world deep_chart" for a m
  proof -
    have "length a < 40" and a: "a = bot_at (length a - 5)"
      using that by (auto simp: reporting_def chart_manager_def manager_of_def deep_chart_def
          bt_get_def split: if_splits)
    moreover have "5 \<le> length a" by (subst a) (simp add: bot_at_def)
    ultimately have "length a - 5 < 35" by simp
    then have "chart_manager sample_world deep_chart (bot_at (length a - 5)) = Some (bot_at (Suc (length a - 5)))"
      by (rule deep_managers)
    then have "chart_manager sample_world deep_chart a = Some (bot_at (Suc (length a - 5)))"
      by (simp only: a [symmetric])
    then have "m = bot_at (Suc (length a - 5))" using that by (simp add: reporting_def)
    then show ?thesis using \<open>5 \<le> length a\<close> by (simp add: bot_at_def)
  qed
  then have "reporting sample_world deep_chart \<subseteq> measure length" by (auto simp: measure_def)
  then show "acyclic (reporting sample_world deep_chart)"
    by (rule acyclic_subset [OF wf_acyclic [OF wf_measure]])
  show "change_accepted sample_world deep_chart (bot_at 35) (bot_at 35) [(REPORTS_TO, bot_at 0)]"
    by (rule deep_accepts)
  let ?S = "with_fields deep_chart (bot_at 35) [(REPORTS_TO, bot_at 0)]"
  have up: "(bot_at n, bot_at (Suc n)) \<in> reporting sample_world ?S" if "n < 35" for n
  proof -
    have "bot_at n \<noteq> bot_at 35" using that by (simp add: bot_at_def)
    then have "chart_manager sample_world ?S (bot_at n) = chart_manager sample_world deep_chart (bot_at n)"
      by (simp add: chart_manager_def manager_of_def with_fields_def)
    then show ?thesis using deep_managers [OF that] by (simp add: reporting_def)
  qed
  have "n \<le> 35 \<Longrightarrow> (bot_at 0, bot_at n) \<in> (reporting sample_world ?S)\<^sup>*" for n
  proof (induction n)
    case (Suc n)
    then show ?case using up [of n] by (auto intro: rtrancl_into_rtrancl)
  qed simp
  then show "(bot_at 35, bot_at 35) \<in> (reporting sample_world ?S)\<^sup>+"
    using deep_last by (auto simp: reporting_def intro: rtrancl_into_trancl2)
qed

end
