(* ===== verification/Rooms.thy ===== *)
theory Rooms
  imports Licence Claim_Edits
begin

text \<open>
  Ceilings on how much a thing may hold (\<open>memory/capacity.rs\<close>, the rooms of \<open>memory.rs\<close>, and the
  marks of \<open>memory/review.rs\<close> and \<open>memory/authorship.rs\<close> they read): which records take a slot,
  what a thing's ceiling is, whether a write fits it, which thoughts are in a room, and which of
  them have aged out of its count.

  Moments are \<open>jiff::Timestamp\<close>s, here their count of nanoseconds, an \<open>int\<close>.
\<close>

section \<open>Which records take a slot\<close>

definition ENGINE_RECORD :: string where "ENGINE_RECORD = ''engine_record''"
definition REVIEW_MARK :: string where "REVIEW_MARK = ''review_mark''"
definition WORKING_ON_RECORD :: string where "WORKING_ON_RECORD = ''What this bot is working on now''"
definition THREAD_RECORDS :: nat where "THREAD_RECORDS = 3"
definition DEFAULT_THOUGHT_BODY_CAP :: nat where "DEFAULT_THOUGHT_BODY_CAP = 200"

definition is_review_mark :: "fields \<Rightarrow> bool" where
  "is_review_mark fs \<longleftrightarrow> has_key fs REVIEW_MARK"

definition takes_no_slot :: "fields \<Rightarrow> bool" where
  "takes_no_slot fs \<longleftrightarrow> is_review_mark fs \<or> has_key fs ENGINE_RECORD"

definition live_records :: "fact list \<Rightarrow> fact list" where
  "live_records filed_on = filter (\<lambda>f. f_status f = Active \<and> \<not> takes_no_slot (f_fields f)) filed_on"

definition slots_taken :: "fields \<Rightarrow> nat" where
  "slots_taken fs = (if takes_no_slot fs then 0 else 1)"

section \<open>The ceiling on records\<close>

datatype ceiling_from = FromSetting | FromDefault

record ceiling =
  c_limit :: nat
  c_from :: ceiling_from

definition ceiling_of :: "kind option \<Rightarrow> fields \<Rightarrow> ceiling option" where
  "ceiling_of k held =
     (case positive_setting RECORD_CAPACITY held of
        Some limit \<Rightarrow> Some \<lparr>c_limit = limit, c_from = FromSetting\<rparr>
      | None \<Rightarrow> if k = Some ''thread'' then Some \<lparr>c_limit = THREAD_RECORDS, c_from = FromDefault\<rparr> else None)"

definition held_after_a_merge :: "kind option \<Rightarrow> fields \<Rightarrow> fields \<Rightarrow> fields" where
  "held_after_a_merge k survivor duplicate =
     (case positive_setting RECORD_CAPACITY duplicate of
        None \<Rightarrow> survivor
      | Some carried \<Rightarrow>
          if (case ceiling_of k survivor of None \<Rightarrow> True | Some own \<Rightarrow> carried < c_limit own)
          then bt_insert RECORD_CAPACITY (show_nat carried) survivor else survivor)"

datatype fits = FitsYes | OnTheReserve | FitsNo

definition fits_of :: "nat \<Rightarrow> nat \<Rightarrow> nat \<Rightarrow> bool \<Rightarrow> fits" where
  "fits_of limit held adding borrow =
     (if held + adding \<le> limit then FitsYes
      else if borrow \<and> adding = 1 \<and> held = limit then OnTheReserve
      else FitsNo)"

text \<open>The refusals of \<open>MemoryError\<close> this part answers with.\<close>

datatype room_error =
    OverCapacity entity_id nat nat nat bool "fact list"
  | RoomFull entity_id nat nat nat "fact list"
  | ThoughtTooLong entity_id nat nat
  | MergeThoughtTooLong entity_id string nat nat
  | MergeOverfillsRoom entity_id nat nat nat "fact list"

record container =
  ct_handle :: entity_id
  ct_kind :: "kind option"
  ct_held :: fields

datatype admission =
    Lands
  | Borrowed nat nat
  | AdmissionRefused room_error

definition admit :: "container \<Rightarrow> fact list \<Rightarrow> nat \<Rightarrow> bool \<Rightarrow> admission" where
  "admit ct live adding borrow =
     (case ceiling_of (ct_kind ct) (ct_held ct) of
        None \<Rightarrow> Lands
      | Some c \<Rightarrow>
          (case fits_of (c_limit c) (length live) adding borrow of
             FitsYes \<Rightarrow> Lands
           | OnTheReserve \<Rightarrow> Borrowed (length live + 1) (c_limit c)
           | FitsNo \<Rightarrow> AdmissionRefused
               (OverCapacity (ct_handle ct) (length live) (c_limit c) adding (c_from c = FromSetting) live)))"

definition admit_capture :: "container \<Rightarrow> fact list \<Rightarrow> fields \<Rightarrow> bool \<Rightarrow> admission" where
  "admit_capture ct live fs borrow =
     (case slots_taken fs of 0 \<Rightarrow> Lands | adding \<Rightarrow> admit ct live adding borrow)"

section \<open>Thoughts and rules\<close>

definition is_connection :: "edge option \<Rightarrow> bool" where
  "is_connection e = (case e of None \<Rightarrow> False | Some e \<Rightarrow> e_shape e = Connection)"

definition is_thought_of :: "edge option \<Rightarrow> bool \<Rightarrow> bool" where
  "is_thought_of e written_by_another \<longleftrightarrow> \<not> written_by_another \<and> is_connection e"

definition is_thought :: "fact \<Rightarrow> bool" where
  "is_thought f = is_thought_of (f_edge f) (f_written_by_another f)"

definition thought_room :: "fact list \<Rightarrow> fact list" where
  "thought_room captured = filter is_thought (filter (\<lambda>f. f_status f = Active) captured)"

definition plain_generated_shape :: "fact \<Rightarrow> bool" where
  "plain_generated_shape f \<longleftrightarrow>
     f_provenance f = Inference \<and> f_details f = None \<and> f_edge f = None
     \<and> list_all (\<lambda>k. k \<in> f_sets f \<or> k = DEFRAGGED_AT \<or> k = DUE_ON) (map fst (f_fields f))"

definition is_settings_record :: "fact \<Rightarrow> bool" where
  "is_settings_record f \<longleftrightarrow>
     has_key (f_fields f) SETTINGS_RECORD
     \<or> (plain_generated_shape f \<and> f_sets f \<noteq> {}
        \<and> f_content f = ''Set '' @ join '', '' (sorted_list_of_set (f_sets f)) @ '' on @'' @ f_subject f @ ''.'')"

definition is_working_on_record :: "fact \<Rightarrow> bool" where
  "is_working_on_record f \<longleftrightarrow> f_content f = WORKING_ON_RECORD \<and> plain_generated_shape f"

definition is_rule :: "fact \<Rightarrow> bool" where
  "is_rule f \<longleftrightarrow>
     f_status f = Active \<and> \<not> is_connection (f_edge f) \<and> \<not> takes_no_slot (f_fields f)
     \<and> \<not> is_settings_record f \<and> \<not> is_working_on_record f"

definition rules_in_force :: "fact list \<Rightarrow> fact list" where
  "rules_in_force recalled = filter is_rule recalled"

section \<open>The room of thoughts\<close>

definition aging_cutoff :: "int list \<Rightarrow> nat \<Rightarrow> int option" where
  "aging_cutoff run_starts ages_after_runs =
     (if ages_after_runs = 0 \<or> length run_starts < ages_after_runs then None
      else Some (rev (sort run_starts) ! (ages_after_runs - 1)))"

definition is_quiet :: "int option \<Rightarrow> int option \<Rightarrow> bool" where
  "is_quiet touched_at aged_before =
     (case (touched_at, aged_before) of (Some moment, Some cutoff) \<Rightarrow> moment < cutoff | _ \<Rightarrow> False)"

record room_count =
  rc_capacity :: nat
  rc_live :: "fact list"
  rc_aged_out :: "fact list"

record thought_split =
  ts_live :: "fact list"
  ts_aged_out :: "fact list"

definition split_by_age :: "fact list \<Rightarrow> (fact_id \<Rightarrow> int option) \<Rightarrow> int option \<Rightarrow> thought_split" where
  "split_by_age room touched aged_before =
     \<lparr>ts_live = filter (\<lambda>f. \<not> is_quiet (touched (f_id f)) aged_before) room,
      ts_aged_out = filter (\<lambda>f. is_quiet (touched (f_id f)) aged_before) room\<rparr>"

definition count_room :: "fact list \<Rightarrow> (fact_id \<Rightarrow> int option) \<Rightarrow> int option \<Rightarrow> nat \<Rightarrow> room_count" where
  "count_room nominal touched aged_before capacity =
     (let split = split_by_age nominal touched aged_before
      in \<lparr>rc_capacity = capacity, rc_live = ts_live split, rc_aged_out = ts_aged_out split\<rparr>)"

definition room_full :: "room_count \<Rightarrow> bool" where
  "room_full c \<longleftrightarrow> length (rc_live c) \<ge> rc_capacity c"

definition room_over :: "room_count \<Rightarrow> bool" where
  "room_over c \<longleftrightarrow> length (rc_live c) > rc_capacity c"

definition worth_a_block :: "room_count \<Rightarrow> bool" where
  "worth_a_block c \<longleftrightarrow> rc_aged_out c \<noteq> [] \<or> room_over c"

definition refuses_room_overflow :: "entity_id \<Rightarrow> room_count \<Rightarrow> room_error option" where
  "refuses_room_overflow home c =
     (if room_full c
      then Some (RoomFull home (length (rc_live c)) (rc_capacity c) (length (rc_aged_out c)) (rc_live c))
      else None)"

definition refuses_thought_over_cap ::
  "entity_id \<Rightarrow> string \<Rightarrow> nat option \<Rightarrow> nat option \<Rightarrow> room_error option" where
  "refuses_thought_over_cap home content cap capacity =
     (case (case cap of Some n \<Rightarrow> Some n | None \<Rightarrow> map_option (\<lambda>_. DEFAULT_THOUGHT_BODY_CAP) capacity) of
        None \<Rightarrow> None
      | Some cap \<Rightarrow>
          if char_count content > cap then Some (ThoughtTooLong home (char_count content) cap) else None)"

text \<open>The loop over the arriving thoughts answers with the first one over the cap.\<close>

fun first_too_long :: "entity_id \<Rightarrow> fact list \<Rightarrow> nat option \<Rightarrow> nat option \<Rightarrow> room_error option" where
  "first_too_long survivor [] cap capacity = None"
| "first_too_long survivor (t # ts) cap capacity =
     (case refuses_thought_over_cap survivor (f_content t) cap capacity of
        Some (ThoughtTooLong _ len cap') \<Rightarrow>
          Some (MergeThoughtTooLong survivor (show_address (fact_address t)) len cap')
      | _ \<Rightarrow> first_too_long survivor ts cap capacity)"

definition refuses_merge_into_room ::
  "entity_id \<Rightarrow> fact list \<Rightarrow> fact list \<Rightarrow> nat option \<Rightarrow> nat option \<Rightarrow> room_error option" where
  "refuses_merge_into_room survivor incoming room capacity cap =
     (let arriving = thought_room incoming in
      case first_too_long survivor arriving cap capacity of
        Some e \<Rightarrow> Some e
      | None \<Rightarrow>
          (case capacity of
             None \<Rightarrow> None
           | Some capacity \<Rightarrow>
               if arriving = [] \<or> length room + length arriving \<le> capacity then None
               else Some (MergeOverfillsRoom survivor (length room) capacity (length arriving) room)))"


section \<open>What the ceilings promise\<close>

lemma live_records_append [simp]: "live_records (xs @ ys) = live_records xs @ live_records ys"
  by (simp add: live_records_def)

lemma length_live_records_update:
  "i < length fs \<Longrightarrow> length (live_records (fs[i := (fs ! i)\<lparr>f_status := Archived\<rparr>])) \<le> length (live_records fs)"
  by (induction fs arbitrary: i) (auto simp: live_records_def less_Suc_eq_0_disj)

text \<open>
  The records of one thing over a run of captures and archivings: a capture lands, borrows the
  reserve or is refused (and then changes nothing).
\<close>

inductive filled :: "container \<Rightarrow> fact list \<Rightarrow> bool" for ct where
  nothing_yet: "filled ct []"
| lands: "filled ct fs \<Longrightarrow> admit_capture ct (live_records fs) (f_fields f) borrow = Lands \<Longrightarrow> filled ct (fs @ [f])"
| borrows: "filled ct fs \<Longrightarrow> admit_capture ct (live_records fs) (f_fields f) borrow = Borrowed n limit \<Longrightarrow>
     filled ct (fs @ [f])"
| archives: "filled ct fs \<Longrightarrow> i < length fs \<Longrightarrow> filled ct (fs[i := (fs ! i)\<lparr>f_status := Archived\<rparr>])"

lemma admit_capture_slots:
  "ceiling_of (ct_kind ct) (ct_held ct) = Some c \<Longrightarrow>
   admit_capture ct live fs borrow =
     (if takes_no_slot fs \<or> length live < c_limit c then Lands
      else if borrow \<and> length live = c_limit c then Borrowed (length live + 1) (c_limit c)
      else AdmissionRefused (OverCapacity (ct_handle ct) (length live) (c_limit c) 1 (c_from c = FromSetting) live))"
  by (auto simp: admit_capture_def slots_taken_def admit_def fits_of_def)

text \<open>
  a thing under a ceiling never holds more than one live record over it, whatever captures
  are made, with or without the emergency reserve, and whatever is archived in between.
\<close>

theorem ceiling_passed_by_one_at_most:
  assumes "filled ct fs" and c: "ceiling_of (ct_kind ct) (ct_held ct) = Some c"
  shows "length (live_records fs) \<le> c_limit c + 1"
  using assms(1)
proof (induction rule: filled.induct)
  case (lands fs f borrow)
  then show ?case
    by (auto simp: admit_capture_slots [OF c] live_records_def split: if_splits)
next
  case (borrows fs f borrow n limit)
  then show ?case
    by (auto simp: admit_capture_slots [OF c] live_records_def split: if_splits)
next
  case (archives fs i)
  then show ?case using length_live_records_update [of i fs] by simp
qed (simp add: live_records_def)

text \<open>A thread of the default ceiling, filled and then borrowed on.\<close>

definition sample_thread :: container where
  "sample_thread = \<lparr>ct_handle = ''thread:t'', ct_kind = Some ''thread'', ct_held = []\<rparr>"

definition sample_record :: "fact_id \<Rightarrow> fact" where
  "sample_record i = plain_fact i ''thread:t'' []"

lemma thread_filled: "filled sample_thread (map sample_record [''f1'', ''f2'', ''f3'', ''f4''])"
proof -
  have "filled sample_thread ([] @ [sample_record ''f1''])"
    by (rule filled.lands [OF filled.nothing_yet, where borrow = False]) code_simp
  then have "filled sample_thread (([] @ [sample_record ''f1'']) @ [sample_record ''f2''])"
    by (rule filled.lands [where borrow = False]) code_simp
  then have "filled sample_thread ((([] @ [sample_record ''f1'']) @ [sample_record ''f2'']) @ [sample_record ''f3''])"
    by (rule filled.lands [where borrow = False]) code_simp
  then have "filled sample_thread (((([] @ [sample_record ''f1'']) @ [sample_record ''f2'']) @ [sample_record ''f3''])
      @ [sample_record ''f4''])"
    by (rule filled.borrows [where borrow = True and n = 4 and limit = 3]) code_simp
  then show ?thesis by simp
qed

theorem ceiling_passed_by_one_at_most_witness:
  "length (live_records (map sample_record [''f1'', ''f2'', ''f3'', ''f4''])) \<le> THREAD_RECORDS + 1"
  using ceiling_passed_by_one_at_most [OF thread_filled, of "\<lparr>c_limit = THREAD_RECORDS, c_from = FromDefault\<rparr>"]
  by (simp add: sample_thread_def ceiling_of_def positive_setting_def bt_get_def)

lemma sorted_above:
  fixes ys :: "int list"
  assumes "sorted_wrt (\<ge>) ys" and "n < length ys"
  shows "t < ys ! n \<longleftrightarrow> Suc n \<le> length (filter (\<lambda>s. t < s) ys)"
  using assms
proof (induction ys arbitrary: n)
  case (Cons y ys)
  show ?case
  proof (cases n)
    case 0
    have "filter (\<lambda>s. t < s) ys = []" if "\<not> t < y"
      using that Cons.prems(1) by (fastforce simp: filter_empty_conv)
    then show ?thesis using 0 by auto
  next
    case (Suc m)
    then have IH: "t < ys ! m \<longleftrightarrow> Suc m \<le> length (filter (\<lambda>s. t < s) ys)"
      using Cons by simp
    have "\<not> t < y \<Longrightarrow> filter (\<lambda>s. t < s) ys = []"
      using Cons.prems(1) by (fastforce simp: filter_empty_conv)
    then show ?thesis using Suc IH by auto
  qed
qed simp

text \<open>
  a thought has aged out exactly when the number of runs that started after it was last
  touched has reached the setting (a setting of zero ages nothing).
\<close>

theorem aged_out_after_that_many_runs:
  "is_quiet (Some touched) (aging_cutoff run_starts runs)
     \<longleftrightarrow> 0 < runs \<and> runs \<le> length (filter (\<lambda>s. touched < s) run_starts)"
proof -
  let ?ys = "rev (sort run_starts)"
  have "sorted_wrt (\<ge>) ?ys" by (simp add: sorted_wrt_rev)
  moreover have "length (filter (\<lambda>s. touched < s) ?ys) = length (filter (\<lambda>s. touched < s) run_starts)"
    by (metis mset_filter mset_rev mset_sort size_mset)
  moreover have "runs \<le> length (filter (\<lambda>s. touched < s) run_starts) \<Longrightarrow> runs \<le> length run_starts"
    by (rule order_trans [OF _ length_filter_le])
  ultimately show ?thesis
    using sorted_above [of ?ys "runs - 1" touched]
    by (cases "runs = 0") (auto simp: aging_cutoff_def is_quiet_def)
qed

lemma first_too_long_None:
  "first_too_long survivor ts cap capacity = None
     \<longleftrightarrow> (\<forall>t \<in> set ts. refuses_thought_over_cap survivor (f_content t) cap capacity = None)"
proof (induction ts)
  case (Cons t ts)
  have "refuses_thought_over_cap survivor (f_content t) cap capacity = None
      \<or> (\<exists>len c. refuses_thought_over_cap survivor (f_content t) cap capacity = Some (ThoughtTooLong survivor len c))"
    by (auto simp: refuses_thought_over_cap_def split: option.splits)
  then show ?case using Cons by auto
qed simp

lemma fits_room_iff:
  "refuses_merge_into_room survivor incoming room capacity cap = None
     \<longleftrightarrow> list_all (\<lambda>t. case (cap, capacity) of
            (Some n, _) \<Rightarrow> char_count (f_content t) \<le> n
          | (None, Some _) \<Rightarrow> char_count (f_content t) \<le> DEFAULT_THOUGHT_BODY_CAP
          | (None, None) \<Rightarrow> True) (thought_room incoming)
       \<and> (case capacity of None \<Rightarrow> True
          | Some n \<Rightarrow> thought_room incoming = [] \<or> length room + length (thought_room incoming) \<le> n)"
proof -
  have "refuses_merge_into_room survivor incoming room capacity cap = None
     \<longleftrightarrow> first_too_long survivor (thought_room incoming) cap capacity = None
       \<and> (case capacity of None \<Rightarrow> True
          | Some n \<Rightarrow> thought_room incoming = [] \<or> length room + length (thought_room incoming) \<le> n)"
    by (auto simp: refuses_merge_into_room_def Let_def split: option.splits)
  then show ?thesis
    by (auto simp: first_too_long_None refuses_thought_over_cap_def list_all_iff split: option.splits)
qed

text \<open>
  a merge is let into the survivor's room exactly when every thought it brings is within the
  body cap (the survivor's own, or the default where the room has a capacity) and the room holds
  what it has and what arrives, thoughts another bot wrote and archived ones left out.
\<close>

theorem merge_fits_the_room:
  "refuses_merge_into_room survivor incoming room capacity cap = None
     \<longleftrightarrow> list_all (\<lambda>t. case (cap, capacity) of
            (Some n, _) \<Rightarrow> char_count (f_content t) \<le> n
          | (None, Some _) \<Rightarrow> char_count (f_content t) \<le> DEFAULT_THOUGHT_BODY_CAP
          | (None, None) \<Rightarrow> True) (thought_room incoming)
       \<and> (case capacity of None \<Rightarrow> True
          | Some n \<Rightarrow> thought_room incoming = [] \<or> length room + length (thought_room incoming) \<le> n)"
  by (rule fits_room_iff)

lemma positive_setting_Some:
  "positive_setting k fs = Some n \<Longrightarrow> 0 < n \<and> n \<le> usize_max"
  by (auto simp: positive_setting_def split: option.splits if_splits dest: parse_unsigned_bound)

lemma positive_setting_written:
  "0 < n \<Longrightarrow> n \<le> usize_max \<Longrightarrow> positive_setting k (bt_insert k (show_nat n) fs) = Some n"
  by (simp add: positive_setting_def parse_unsigned_show_nat)

lemma under_either_ceiling:
  assumes "admit \<lparr>ct_handle = h, ct_kind = k, ct_held = held_after_a_merge k survivor duplicate\<rparr>
             live arriving False = Lands"
  shows "(case ceiling_of k survivor of None \<Rightarrow> True | Some c \<Rightarrow> length live + arriving \<le> c_limit c)
    \<and> (case positive_setting RECORD_CAPACITY duplicate of None \<Rightarrow> True
       | Some n \<Rightarrow> length live + arriving \<le> n)"
proof (cases "positive_setting RECORD_CAPACITY duplicate")
  case None
  then show ?thesis
    using assms by (auto simp: admit_def held_after_a_merge_def fits_of_def split: option.splits if_splits fits.splits)
next
  case (Some n)
  then have n: "0 < n" "n \<le> usize_max" using positive_setting_Some by blast+
  then have c: "ceiling_of k (bt_insert RECORD_CAPACITY (show_nat n) survivor) = Some \<lparr>c_limit = n, c_from = FromSetting\<rparr>"
    by (simp add: ceiling_of_def positive_setting_written)
  show ?thesis
    using assms Some by (auto simp: admit_def held_after_a_merge_def fits_of_def c split: option.splits if_splits fits.splits)
qed

text \<open>
  the records a merge brings are admitted only when the merged thing is at or under its
  ceiling whichever of the two numbers it folds to, the survivor's own or the one the duplicate
  carries.
\<close>

theorem merge_keeps_under_either_ceiling:
  assumes "admit \<lparr>ct_handle = h, ct_kind = k, ct_held = held_after_a_merge k survivor duplicate\<rparr>
             live arriving False = Lands"
  shows "(case ceiling_of k survivor of None \<Rightarrow> True | Some c \<Rightarrow> length live + arriving \<le> c_limit c)
    \<and> (case positive_setting RECORD_CAPACITY duplicate of None \<Rightarrow> True
       | Some n \<Rightarrow> length live + arriving \<le> n)"
  using assms by (rule under_either_ceiling)

lemma carried_two: "positive_setting RECORD_CAPACITY (bt_insert RECORD_CAPACITY (show_nat 2) fs) = Some 2"
  by (rule positive_setting_written) (simp_all add: usize_max_def)

theorem merge_keeps_under_either_ceiling_witness:
  "length [sample_record ''f1''] + 1 \<le> THREAD_RECORDS \<and> length [sample_record ''f1''] + 1 \<le> (2::nat)"
proof -
  let ?duplicate = "bt_insert RECORD_CAPACITY (show_nat 2) []"
  have none: "positive_setting RECORD_CAPACITY [] = None" by (simp add: positive_setting_def bt_get_def)
  have "admit \<lparr>ct_handle = ''thread:t'', ct_kind = Some ''thread'',
      ct_held = held_after_a_merge (Some ''thread'') [] ?duplicate\<rparr> [sample_record ''f1''] 1 False = Lands"
    using none by (simp add: admit_def held_after_a_merge_def ceiling_of_def fits_of_def THREAD_RECORDS_def
        carried_two del: bt_insert.simps)
  then show ?thesis
    using merge_keeps_under_either_ceiling none
    by (fastforce simp: ceiling_of_def carried_two simp del: bt_insert.simps)
qed

end
