(* ===== verification/Walks.thy ===== *)
theory Walks
  imports Rooms
begin

text \<open>
  Where a thing or a claim went when its thing was merged away (\<open>memory/claim_walk.rs\<close>): the walk
  of a thing to the survivor it ended at, the walk of a claim's address, and the events they
  read.  The keys of a store are entity ids.

  A walk over a store that answers anything may never end, so its loop is a partial function:
  \<open>None\<close> is a run that does not return.
\<close>

section \<open>Merge events and loops\<close>

record merge_event =
  me_folded :: entity_id
  me_survivor :: entity_id
  me_merged_at :: int
  me_session :: "string option"
  me_claims :: "(fact_id \<times> fact_id) list"

text \<open>\<open>MergeLoop\<close>: the things (or addresses) the loop passes through, in the order met.\<close>

datatype merge_loop = MergeLoop "string list"

section \<open>The walk of a thing\<close>

record thing_walk =
  tw_at :: entity_id
  tw_passed :: "entity_id set"
  tw_path :: "entity_id list"
  tw_looped :: "nat option"

definition thing_walk_new :: "entity_id \<Rightarrow> thing_walk" where
  "thing_walk_new start = \<lparr>tw_at = start, tw_passed = {start}, tw_path = [start], tw_looped = None\<rparr>"

definition thing_step :: "entity_id option \<Rightarrow> thing_walk \<Rightarrow> bool \<times> thing_walk" where
  "thing_step survivor w =
     (case survivor of
        None \<Rightarrow> (False, w)
      | Some m \<Rightarrow>
          if m \<in> tw_passed w then (False, w\<lparr>tw_looped := position (\<lambda>held. held = m) (tw_path w)\<rparr>)
          else (True, \<lparr>tw_at = m, tw_passed = insert m (tw_passed w), tw_path = tw_path w @ [m],
                       tw_looped = tw_looped w\<rparr>))"

definition thing_finish :: "thing_walk \<Rightarrow> merge_loop + entity_id" where
  "thing_finish w =
     (case tw_looped w of
        Some start \<Rightarrow> Inl (MergeLoop (drop start (tw_path w)))
      | None \<Rightarrow> Inr (tw_at w))"

partial_function (option) thing_loop ::
  "(entity_id \<Rightarrow> entity_id option) \<Rightarrow> thing_walk \<Rightarrow> (merge_loop + entity_id) option" where
  "thing_loop survivor_of w =
     (let (again, w') = thing_step (survivor_of (tw_at w)) w
      in if again then thing_loop survivor_of w' else Some (thing_finish w'))"

definition follow_thing ::
  "(entity_id \<Rightarrow> entity_id option) \<Rightarrow> entity_id \<Rightarrow> (merge_loop + entity_id) option" where
  "follow_thing survivor_of start = thing_loop survivor_of (thing_walk_new start)"

section \<open>The walk of a claim's address\<close>

record claim_move =
  cm_order :: nat
  cm_survivor :: entity_id
  cm_survivor_id :: fact_id

record claim_walk =
  cw_at :: "entity_id \<times> fact_id"
  cw_moved :: bool
  cw_passed :: "(entity_id \<times> fact_id) set"
  cw_path :: "(entity_id \<times> fact_id) list"
  cw_looped :: "nat option"

definition claim_walk_new :: "entity_id \<Rightarrow> fact_id \<Rightarrow> claim_walk" where
  "claim_walk_new home l =
     \<lparr>cw_at = (home, l), cw_moved = False, cw_passed = {(home, l)}, cw_path = [(home, l)], cw_looped = None\<rparr>"

text \<open>\<open>max_by_key\<close>: the last of the candidates of the greatest order.\<close>

definition newest_move :: "claim_move list \<Rightarrow> claim_move option" where
  "newest_move candidates =
     foldl (\<lambda>best m. case best of
              None \<Rightarrow> Some m
            | Some b \<Rightarrow> if cm_order b \<le> cm_order m then Some m else Some b) None candidates"

definition claim_step :: "claim_move list \<Rightarrow> claim_walk \<Rightarrow> bool \<times> claim_walk" where
  "claim_step candidates w =
     (case newest_move candidates of
        None \<Rightarrow> (False, w)
      | Some newest \<Rightarrow>
          (let m = (cm_survivor newest, cm_survivor_id newest) in
           if m \<in> cw_passed w then (False, w\<lparr>cw_looped := position (\<lambda>held. held = m) (cw_path w)\<rparr>)
           else (True, \<lparr>cw_at = m, cw_moved = True, cw_passed = insert m (cw_passed w),
                        cw_path = cw_path w @ [m], cw_looped = cw_looped w\<rparr>)))"

definition claim_finish :: "claim_walk \<Rightarrow> merge_loop + (entity_id \<times> fact_id) option" where
  "claim_finish w =
     (case cw_looped w of
        Some start \<Rightarrow> Inl (MergeLoop (map (\<lambda>(home, l). home @ ''#'' @ l) (drop start (cw_path w))))
      | None \<Rightarrow> Inr (if cw_moved w then Some (cw_at w) else None))"

partial_function (option) claim_loop ::
  "(entity_id \<times> fact_id \<Rightarrow> claim_move list) \<Rightarrow> claim_walk
     \<Rightarrow> (merge_loop + (entity_id \<times> fact_id) option) option" where
  "claim_loop moved_from w =
     (let (again, w') = claim_step (moved_from (cw_at w)) w
      in if again then claim_loop moved_from w' else Some (claim_finish w'))"

definition follow_claim ::
  "(entity_id \<times> fact_id \<Rightarrow> claim_move list) \<Rightarrow> entity_id \<Rightarrow> fact_id
     \<Rightarrow> (merge_loop + (entity_id \<times> fact_id) option) option" where
  "follow_claim moved_from home l = claim_loop moved_from (claim_walk_new home l)"

section \<open>Stores that hold their events whole\<close>

definition move_by :: "entity_id \<Rightarrow> fact_id \<Rightarrow> nat \<Rightarrow> merge_event \<Rightarrow> claim_move list" where
  "move_by home l order event =
     (if me_folded event = home
      then (case find (\<lambda>(was, _). was = l) (me_claims event) of
              None \<Rightarrow> []
            | Some (_, now) \<Rightarrow>
                [\<lparr>cm_order = order, cm_survivor = me_survivor event, cm_survivor_id = now\<rparr>])
      else [])"

definition moves_in :: "merge_event list \<Rightarrow> entity_id \<times> fact_id \<Rightarrow> claim_move list" where
  "moves_in events address =
     concat (map (\<lambda>(order, event). move_by (fst address) (snd address) order event) (enumerate 0 events))"

definition survivor_in :: "merge_event list \<Rightarrow> entity_id \<Rightarrow> entity_id option" where
  "survivor_in events k =
     map_option me_survivor (find (\<lambda>event. me_folded event = k) (rev events))"

section \<open>A walk along a successor\<close>

text \<open>
  What both walks are: follow a successor, keep the path, stop at a key with none or at one
  already on the path.
\<close>

inductive chases :: "('k \<Rightarrow> 'k option) \<Rightarrow> 'k list \<Rightarrow> 'k \<Rightarrow> 'k list + 'k list \<Rightarrow> bool" for succ where
  stays: "succ here = None \<Longrightarrow> chases succ path here (Inr path)"
| loops: "succ here = Some m \<Longrightarrow> position (\<lambda>held. held = m) path = Some i \<Longrightarrow>
     chases succ path here (Inl (drop i path))"
| moves: "succ here = Some m \<Longrightarrow> m \<notin> set path \<Longrightarrow> chases succ (path @ [m]) m r \<Longrightarrow> chases succ path here r"

text \<open>\<open>trail succ start path\<close>: the path is the walk from \<open>start\<close>, no key twice.\<close>

definition trail :: "('k \<Rightarrow> 'k option) \<Rightarrow> 'k \<Rightarrow> 'k list \<Rightarrow> bool" where
  "trail succ start path \<longleftrightarrow>
     path \<noteq> [] \<and> hd path = start \<and> distinct path \<and> successively (\<lambda>a m. succ a = Some m) path"


definition cycle :: "('k \<Rightarrow> 'k option) \<Rightarrow> 'k list \<Rightarrow> bool" where
  "cycle succ ks \<longleftrightarrow>
     ks \<noteq> [] \<and> distinct ks \<and> successively (\<lambda>a m. succ a = Some m) ks \<and> succ (last ks) = Some (hd ks)"

definition chased :: "('k \<Rightarrow> 'k option) \<Rightarrow> 'k \<Rightarrow> 'k list + 'k list \<Rightarrow> bool" where
  "chased succ start r =
     (case r of
        Inr path \<Rightarrow> trail succ start path \<and> succ (last path) = None
      | Inl loop \<Rightarrow> cycle succ loop \<and> (\<exists>before. trail succ start (before @ loop)))"

lemma trail_append:
  "trail succ start path \<Longrightarrow> succ (last path) = Some m \<Longrightarrow> m \<notin> set path \<Longrightarrow> trail succ start (path @ [m])"
  by (auto simp: trail_def successively_append_iff hd_append)

lemma trail_cycle:
  assumes t: "trail succ start path" and m: "succ (last path) = Some m"
    and i: "position (\<lambda>held. held = m) path = Some i"
  shows "chased succ start (Inl (drop i path))"
proof -
  have i: "i < length path" "path ! i = m" using i by (auto simp: position_Some)
  have p: "take i path @ drop i path = path" by simp
  have "successively (\<lambda>a m. succ a = Some m) (take i path @ drop i path)" using t by (simp add: trail_def)
  then have "successively (\<lambda>a m. succ a = Some m) (drop i path)" by (simp only: successively_append_iff)
  then have "cycle succ (drop i path)"
    using t m i by (auto simp: cycle_def trail_def hd_drop_conv_nth)
  moreover have "\<exists>before. trail succ start (before @ drop i path)"
    by (rule exI [of _ "take i path"]) (use t in simp)
  ultimately show ?thesis unfolding chased_def by simp
qed

lemma chases_chased:
  "chases succ path here r \<Longrightarrow> trail succ start path \<Longrightarrow> here = last path \<Longrightarrow> chased succ start r"
proof (induction rule: chases.induct)
  case (stays here path)
  then show ?case by (auto simp: chased_def)
next
  case (loops here m path i)
  then show ?case using trail_cycle [of succ start path m i] by simp
next
  case (moves here m path r)
  then show ?case using trail_append [of succ start path m] by simp
qed

text \<open>A store whose events name finitely many keys: the walk over it always returns.\<close>

locale event_store =
  fixes succ :: "'k \<Rightarrow> 'k option" and keys :: "'k set"
  assumes finitely_many: "finite keys"
    and named: "succ k = Some m \<Longrightarrow> m \<in> keys"
begin

lemma chases_something: "\<exists>r. chases succ path here r"
proof (induction "card (keys - set path)" arbitrary: path here rule: less_induct)
  case less
  show ?case
  proof (cases "succ here")
    case None
    then show ?thesis by (blast intro: chases.stays)
  next
    case (Some m)
    show ?thesis
    proof (cases "m \<in> set path")
      case True
      then obtain i where "position (\<lambda>held. held = m) path = Some i"
        by (cases "position (\<lambda>held. held = m) path") (auto simp: position_None)
      then show ?thesis using Some by (blast intro: chases.loops)
    next
      case False
      have "card (keys - set (path @ [m])) < card (keys - set path)"
        by (rule psubset_card_mono) (use finitely_many named [OF Some] False in auto)
      then obtain r where "chases succ (path @ [m]) m r" using less.hyps by blast
      then show ?thesis using Some False by (blast intro: chases.moves)
    qed
  qed
qed

lemma chase_from:
  obtains r where "chases succ [start] start r" and "chased succ start r"
  using chases_something [of "[start]" start] chases_chased [of succ "[start]" start _ start]
  by (auto simp: trail_def)

end

interpretation things: event_store "survivor_in events" "set (map me_survivor events)" for events
  by unfold_locales (auto simp: survivor_in_def dest!: find_SomeD)

definition claim_successor ::
  "(entity_id \<times> fact_id \<Rightarrow> claim_move list) \<Rightarrow> entity_id \<times> fact_id \<Rightarrow> (entity_id \<times> fact_id) option" where
  "claim_successor moved_from address =
     map_option (\<lambda>m. (cm_survivor m, cm_survivor_id m)) (newest_move (moved_from address))"

lemma newest_move_in: "newest_move ms = Some m \<Longrightarrow> m \<in> set ms"
proof -
  have "foldl (\<lambda>best m. case best of None \<Rightarrow> Some m
      | Some b \<Rightarrow> if cm_order b \<le> cm_order m then Some m else Some b) best ms = Some m \<Longrightarrow>
      m \<in> set ms \<or> best = Some m" for best
    by (induction ms arbitrary: best) (auto split: option.splits if_splits)
  then show "newest_move ms = Some m \<Longrightarrow> m \<in> set ms" unfolding newest_move_def by blast
qed

lemma move_by_event:
  assumes "c \<in> set (move_by home l i e)"
  shows "\<exists>was. (was, cm_survivor_id c) \<in> set (me_claims e) \<and> cm_survivor c = me_survivor e"
proof -
  let ?found = "find (\<lambda>(was, _). was = l) (me_claims e)"
  have home: "me_folded e = home" using assms by (rule contrapos_pp) (simp add: move_by_def)
  obtain p where w: "?found = Some p"
    using assms home by (cases ?found) (simp_all add: move_by_def)
  then have "c = \<lparr>cm_order = i, cm_survivor = me_survivor e, cm_survivor_id = snd p\<rparr>"
    using assms home by (cases p) (simp only: move_by_def simp_thms if_True option.case prod.case list.set singleton_iff snd_conv)
  moreover have "(fst p, snd p) \<in> set (me_claims e)" using find_SomeD [OF w] by simp
  ultimately show ?thesis by (intro exI [of _ "fst p"]) simp
qed

lemma moves_in_events:
  assumes "c \<in> set (moves_in events k)"
  obtains e where "e \<in> set events"
    and "\<exists>was. (was, cm_survivor_id c) \<in> set (me_claims e) \<and> cm_survivor c = me_survivor e"
proof -
  obtain p where p: "p \<in> set (enumerate 0 events)" "c \<in> set (move_by (fst k) (snd k) (fst p) (snd p))"
    using assms by (auto simp: moves_in_def)
  then have "snd p \<in> set (map snd (enumerate 0 events))" by (simp only: set_map) blast
  then have "snd p \<in> set events" by (simp only: map_snd_enumerate)
  then show thesis using that move_by_event [OF p(2)] by blast
qed

interpretation claims: event_store "claim_successor (moves_in events)"
  "set (concat (map (\<lambda>e. map (\<lambda>(_, now). (me_survivor e, now)) (me_claims e)) events))" for events
proof unfold_locales
  fix k m
  assume "claim_successor (moves_in events) k = Some m"
  then obtain c where c: "c \<in> set (moves_in events k)" "m = (cm_survivor c, cm_survivor_id c)"
    by (auto simp: claim_successor_def dest: newest_move_in)
  then show "m \<in> set (concat (map (\<lambda>e. map (\<lambda>(_, now). (me_survivor e, now)) (me_claims e)) events))"
    by (fastforce elim!: moves_in_events)
qed auto

section \<open>The walks are that walk\<close>

lemma thing_loop_chases:
  "chases survivor_of path here r \<Longrightarrow> here = last path \<Longrightarrow>
     thing_loop survivor_of \<lparr>tw_at = here, tw_passed = set path, tw_path = path, tw_looped = None\<rparr>
       = Some (map_sum MergeLoop last r)"
proof (induction rule: chases.induct)
  case (loops here m path i)
  then have "m \<in> set path" by (auto simp: position_Some)
  then show ?case using loops by (subst thing_loop.simps) (simp add: thing_step_def thing_finish_def)
next
  case (stays here path)
  then show ?case by (subst thing_loop.simps) (simp add: thing_step_def thing_finish_def)
next
  case (moves here m path r)
  then have "thing_loop survivor_of \<lparr>tw_at = m, tw_passed = insert m (set path), tw_path = path @ [m], tw_looped = None\<rparr>
      = Some (map_sum MergeLoop last r)" by simp
  moreover have "thing_step (survivor_of here) \<lparr>tw_at = here, tw_passed = set path, tw_path = path, tw_looped = None\<rparr>
      = (True, \<lparr>tw_at = m, tw_passed = insert m (set path), tw_path = path @ [m], tw_looped = None\<rparr>)"
    using moves.hyps by (simp add: thing_step_def)
  ultimately show ?case by (subst thing_loop.simps) (simp only: thing_walk.select_convs Let_def prod.case if_True)
qed

lemma claim_loop_chases:
  "chases (claim_successor moved_from) path here r \<Longrightarrow> here = last path \<Longrightarrow> moved = (length path > 1) \<Longrightarrow> path \<noteq> [] \<Longrightarrow>
     claim_loop moved_from \<lparr>cw_at = here, cw_moved = moved, cw_passed = set path, cw_path = path, cw_looped = None\<rparr>
       = Some (map_sum (\<lambda>l. MergeLoop (map (\<lambda>(home, l). home @ ''#'' @ l) l))
                       (\<lambda>p. if length p > 1 then Some (last p) else None) r)"
proof (induction arbitrary: moved rule: chases.induct)
  case (stays here path)
  then show ?case
    by (subst claim_loop.simps) (auto simp: claim_step_def claim_finish_def claim_successor_def)
next
  case (loops here m path i)
  then have "m \<in> set path" by (auto simp: position_Some)
  then show ?case
    using loops by (subst claim_loop.simps) (auto simp: claim_step_def claim_finish_def claim_successor_def Let_def)
next
  case (moves here m path r)
  let ?w = "\<lparr>cw_at = m, cw_moved = True, cw_passed = insert m (set path), cw_path = path @ [m], cw_looped = None\<rparr>"
  have "claim_loop moved_from ?w = Some (map_sum (\<lambda>l. MergeLoop (map (\<lambda>(home, l). home @ ''#'' @ l) l))
                       (\<lambda>p. if length p > 1 then Some (last p) else None) r)"
    using moves.IH [of True] moves.prems by (cases path) (simp_all add: insert_commute)
  moreover have "claim_step (moved_from here)
      \<lparr>cw_at = here, cw_moved = moved, cw_passed = set path, cw_path = path, cw_looped = None\<rparr> = (True, ?w)"
    using moves.hyps by (auto simp: claim_step_def claim_successor_def Let_def)
  ultimately show ?case by (subst claim_loop.simps) (simp only: claim_walk.select_convs Let_def prod.case if_True)
qed

text \<open>
  over a store's events the walk of a thing always returns, however many merges there were:
  with the end of the trail of survivors, which nothing folded, or with the things of a loop the
  trail runs into, each folded into the next and the last into the first.
\<close>

theorem follow_thing_ends:
  "\<exists>r. chased (survivor_in events) start r
     \<and> follow_thing (survivor_in events) start = Some (map_sum MergeLoop last r)"
proof -
  obtain r where "chases (survivor_in events) [start] start r" "chased (survivor_in events) start r"
    by (rule things.chase_from)
  then show ?thesis
    using thing_loop_chases [of "survivor_in events" "[start]" start r]
    by (auto simp: follow_thing_def thing_walk_new_def)
qed

text \<open>
  C38: over a store's events the walk of a claim's address always returns, with where the claim is
  served now, or with nothing when no event moved it, or with the addresses of a loop.
\<close>

theorem follow_claim_ends:
  "\<exists>r. chased (claim_successor (moves_in events)) (home, l) r
     \<and> follow_claim (moves_in events) home l
         = Some (map_sum (\<lambda>ks. MergeLoop (map (\<lambda>(home, l). home @ ''#'' @ l) ks))
                         (\<lambda>path. if length path > 1 then Some (last path) else None) r)"
proof -
  obtain r where "chases (claim_successor (moves_in events)) [(home, l)] (home, l) r"
      "chased (claim_successor (moves_in events)) (home, l) r"
    by (rule claims.chase_from)
  then show ?thesis
    using claim_loop_chases [of "moves_in events" "[(home, l)]" "(home, l)" r False]
    by (auto simp: follow_claim_def claim_walk_new_def)
qed

end
