(* ===== verification/Things.thy ===== *)
theory Things
  imports Walks
begin

text \<open>
  Things (\<open>memory.rs\<close>): the row of a thing, the edit of it, how a handle is resolved to a row
  through former handles and numbers, and the things below a thing by the parent pointers
  (\<open>memory/numbered.rs\<close>).
\<close>

section \<open>The row of a thing\<close>

datatype boot = Always | OnDemand

primrec boot_token :: "boot \<Rightarrow> string" where
  "boot_token Always = ''always''"
| "boot_token OnDemand = ''on-demand''"

definition boot_of_token :: "string \<Rightarrow> boot" where
  "boot_of_token value = (if trim value = ''always'' then Always else OnDemand)"

record archived =
  ar_reason :: string
  ar_at :: int

record entity =
  en_id :: entity_id
  en_merged_into :: "entity_id option"
  en_kind :: kind
  en_name :: string
  en_aliases :: "string list"
  en_folded_names :: "string list"
  en_source :: string
  en_crm :: "string option"
  en_parent :: "entity_id option"
  en_boot :: boot
  en_badge :: "string option"
  en_archived :: "archived option"

record former_handle =
  fh_former :: entity_id
  fh_badge :: string
  fh_changed_at :: int

record entity_patch =
  ep_name :: "string option"
  ep_aliases :: "string list option"
  ep_source :: "string option"
  ep_crm :: "string option"
  ep_session :: "string option"
  ep_override_token :: "string option"
  ep_override_reason :: "string option"

definition labels :: "entity \<Rightarrow> string list" where
  "labels e = filter (\<lambda>l. l \<noteq> []) (map trim (en_name e # en_aliases e @ en_folded_names e))"

definition browsable :: "entity \<Rightarrow> bool" where
  "browsable e \<longleftrightarrow> en_archived e = None \<and> en_merged_into e = None"

definition left_out_as_folded :: "entity \<Rightarrow> bool" where
  "left_out_as_folded e \<longleftrightarrow> en_archived e = None \<and> en_merged_into e \<noteq> None"

definition already_merged :: "entity_id \<Rightarrow> entity \<Rightarrow> memory_error option" where
  "already_merged attempted e = map_option (AlreadyMerged attempted) (en_merged_into e)"

definition children_in :: "entity list \<Rightarrow> entity_id \<Rightarrow> entity list" where
  "children_in all parent = filter (\<lambda>e. en_parent e = Some parent \<and> en_merged_into e = None) all"

definition entity_wearing :: "string \<Rightarrow> entity list \<Rightarrow> entity option" where
  "entity_wearing badge rows = find (\<lambda>e. en_badge e = Some badge) rows"

text \<open>A patch is validated whole before the row changes.\<close>

definition apply_entity_patch :: "entity \<Rightarrow> entity_patch \<Rightarrow> memory_error + entity" where
  "apply_entity_patch e p =
     ok_then (case ep_name p of None \<Rightarrow> Inr () | Some n \<Rightarrow> validate_field ''name'' n) (\<lambda>_.
     ok_then (case ep_aliases p of None \<Rightarrow> Inr () | Some a \<Rightarrow> validate_aliases a) (\<lambda>_.
     ok_then (case ep_source p of None \<Rightarrow> Inr () | Some s \<Rightarrow> validate_field ''source'' s) (\<lambda>_.
     ok_then (case ep_crm p of None \<Rightarrow> Inr () | Some c \<Rightarrow> validate_crm c) (\<lambda>_.
       Inr (e\<lparr>en_name := (case ep_name p of None \<Rightarrow> en_name e | Some n \<Rightarrow> trim n),
              en_aliases := (case ep_aliases p of None \<Rightarrow> en_aliases e | Some a \<Rightarrow> map trim a),
              en_source := (case ep_source p of None \<Rightarrow> en_source e | Some s \<Rightarrow> trim s),
              en_crm := (case ep_crm p of None \<Rightarrow> en_crm e | Some c \<Rightarrow> Some (trim c))\<rparr>)))))"

section \<open>Resolving a handle\<close>

function resolve_walk :: "(entity_id \<Rightarrow> entity option) \<Rightarrow> entity_id \<Rightarrow> entity option" where
  "resolve_walk flat i =
     (case flat i of
        Some e \<Rightarrow> Some e
      | None \<Rightarrow>
          (case numbered_handle i of
             None \<Rightarrow> None
           | Some (outer, number) \<Rightarrow>
               (case resolve_walk flat outer of
                  None \<Rightarrow> None
                | Some inner \<Rightarrow> flat (en_id inner @ ''/'' @ show_nat number))))"
  by pat_completeness auto

lemma numbered_handle_shorter:
  "numbered_handle i = Some (outer, n) \<Longrightarrow> length outer < length i"
  by (auto simp: numbered_handle_def rsplit_once_Some split: option.splits if_splits)

termination resolve_walk
  by (relation "measure (\<lambda>(flat, i). length i)") (auto dest: numbered_handle_shorter)

declare resolve_walk.simps [simp del]

definition flat_lookup :: "entity list \<Rightarrow> former_handle list \<Rightarrow> entity_id \<Rightarrow> entity option" where
  "flat_lookup rows former i =
     (case find (\<lambda>e. en_id e = i) rows of
        Some e \<Rightarrow> Some e
      | None \<Rightarrow>
          (case find (\<lambda>f. fh_former f = i) former of
             None \<Rightarrow> None
           | Some held \<Rightarrow> find (\<lambda>e. en_badge e = Some (fh_badge held)) rows))"

definition resolve_handle :: "entity_id \<Rightarrow> entity list \<Rightarrow> former_handle list \<Rightarrow> entity option" where
  "resolve_handle i rows former = resolve_walk (flat_lookup rows former) i"

section \<open>The things below a thing\<close>

text \<open>
  One pass over the rows for the parent taken off the frontier, which is a stack: the last
  pushed is the next taken.
\<close>

definition sits_under :: "bool \<Rightarrow> entity_id \<Rightarrow> entity \<Rightarrow> bool" where
  "sits_under folded_too parent e \<longleftrightarrow> en_parent e = Some parent \<and> (folded_too \<or> en_merged_into e = None)"

fun reach_rows ::
  "entity list \<Rightarrow> entity list \<times> entity_id set \<times> entity_id list
     \<Rightarrow> entity list \<times> entity_id set \<times> entity_id list" where
  "reach_rows [] st = st"
| "reach_rows (e # rows) (found, seen, frontier) =
     (if en_id e \<in> seen then reach_rows rows (found, seen, frontier)
      else reach_rows rows (found @ [e], insert (en_id e) seen, frontier @ [en_id e]))"

lemma card_take_out:
  "finite A \<Longrightarrow> x \<in> A \<Longrightarrow> x \<notin> seen \<Longrightarrow> card (A - seen) = Suc (card (A - insert x seen))"
proof -
  assume "finite A" and "x \<in> A" and "x \<notin> seen"
  have "A - insert x seen = (A - seen) - {x}" by blast
  then show ?thesis using \<open>finite A\<close> \<open>x \<in> A\<close> \<open>x \<notin> seen\<close>
    by (metis DiffI card_Suc_Diff1 finite_Diff)
qed

lemma reach_rows_measure:
  "finite A \<Longrightarrow> en_id ` set rows \<subseteq> A \<Longrightarrow>
   reach_rows rows (found, seen, frontier) = (found', seen', frontier') \<Longrightarrow>
     length frontier' + card (A - seen') = length frontier + card (A - seen)"
proof (induction rows arbitrary: found seen frontier)
  case (Cons e rows)
  show ?case
  proof (cases "en_id e \<in> seen")
    case True
    then show ?thesis using Cons by auto
  next
    case False
    then show ?thesis
      using Cons.IH [of "found @ [e]" "insert (en_id e) seen" "frontier @ [en_id e]"]
        Cons.prems card_take_out [of A "en_id e" seen] by simp
  qed
qed simp

function below_loop ::
  "bool \<Rightarrow> entity list \<Rightarrow> entity list \<times> entity_id set \<times> entity_id list \<Rightarrow> entity list" where
  "below_loop folded_too entities (found, seen, frontier) =
     (if frontier = [] then found
      else below_loop folded_too entities
             (reach_rows (filter (sits_under folded_too (last frontier)) entities)
                (found, seen, butlast frontier)))"
  by pat_completeness auto

termination below_loop
proof (relation "measure (\<lambda>(f, entities, _, seen, frontier).
    length frontier + card (en_id ` set entities - seen))", goal_cases)
  case (2 f entities found seen frontier)
  obtain found' seen' frontier' where
    pass: "reach_rows (filter (sits_under f (last frontier)) entities) (found, seen, butlast frontier)
      = (found', seen', frontier')" by (metis prod_cases3)
  have "length frontier' + card (en_id ` set entities - seen')
      = length (butlast frontier) + card (en_id ` set entities - seen)"
    by (rule reach_rows_measure [OF _ _ pass]) auto
  then show ?case using 2 by (simp add: pass)
qed simp

declare below_loop.simps [simp del]

definition below :: "entity_id \<Rightarrow> entity list \<Rightarrow> bool \<Rightarrow> entity list" where
  "below anchor entities folded_too =
     sort_key en_id (below_loop folded_too entities ([], {anchor}, [anchor]))"

definition descendants :: "entity_id \<Rightarrow> entity list \<Rightarrow> entity list" where
  "descendants anchor entities = below anchor entities False"


inductive sits_below :: "bool \<Rightarrow> entity list \<Rightarrow> entity_id \<Rightarrow> entity \<Rightarrow> bool"
  for folded_too entities anchor where
  directly: "e \<in> set entities \<Longrightarrow> sits_under folded_too anchor e \<Longrightarrow> sits_below folded_too entities anchor e"
| deeper: "sits_below folded_too entities anchor m \<Longrightarrow> e \<in> set entities \<Longrightarrow>
    sits_under folded_too (en_id m) e \<Longrightarrow> sits_below folded_too entities anchor e"

definition below_inv ::
  "bool \<Rightarrow> entity list \<Rightarrow> entity_id \<Rightarrow> entity list \<times> entity_id set \<times> entity_id list \<Rightarrow> bool" where
  "below_inv folded_too entities anchor st = (case st of (found, seen, frontier) \<Rightarrow>
     seen = insert anchor (en_id ` set found) \<and> anchor \<notin> en_id ` set found \<and>
     distinct (map en_id found) \<and> set frontier \<subseteq> seen \<and>
     (\<forall>e \<in> set found. e \<in> set entities \<and> sits_below folded_too entities anchor e))"

definition below_done ::
  "bool \<Rightarrow> entity list \<Rightarrow> entity_id set \<Rightarrow> entity_id set \<Rightarrow> bool" where
  "below_done folded_too entities taken seen \<longleftrightarrow>
     (\<forall>e \<in> set entities. \<forall>p \<in> taken. sits_under folded_too p e \<longrightarrow> en_id e \<in> seen)"

lemma reach_rows_inv:
  "below_inv f entities anchor (found, seen, frontier) \<Longrightarrow> p \<in> seen \<Longrightarrow>
   set rows \<subseteq> {e \<in> set entities. sits_under f p e} \<Longrightarrow>
   reach_rows rows (found, seen, frontier) = (found', seen', frontier') \<Longrightarrow>
   below_inv f entities anchor (found', seen', frontier') \<and> seen' = seen \<union> en_id ` set rows \<and>
   set frontier' = set frontier \<union> (en_id ` set rows - seen)"
proof (induction rows arbitrary: found seen frontier)
  case (Cons e rows)
  show ?case
  proof (cases "en_id e \<in> seen")
    case True
    then show ?thesis using Cons.IH [OF Cons.prems(1,2)] Cons.prems(3,4) by auto
  next
    case False
    have under: "sits_below f entities anchor e"
      using Cons.prems(1-3) by (auto simp: below_inv_def intro: sits_below.intros)
    have "below_inv f entities anchor (found @ [e], insert (en_id e) seen, frontier @ [en_id e])"
      using Cons.prems(1,3) False under by (auto simp: below_inv_def)
    from Cons.IH [OF this] show ?thesis using Cons.prems False by auto
  qed
qed simp

lemma below_loop_sound:
  "below_inv f entities anchor (found, seen, frontier) \<Longrightarrow>
   below_done f entities (seen - set frontier) seen \<Longrightarrow>
   \<exists>seen'. below_inv f entities anchor (below_loop f entities (found, seen, frontier), seen', []) \<and>
     below_done f entities seen' seen'"
proof (induction f entities "(found, seen, frontier)" arbitrary: found seen frontier
    rule: below_loop.induct)
  case (1 f entities found seen frontier)
  show ?case
  proof (cases "frontier = []")
    case True
    then show ?thesis using 1 by (auto simp: below_loop.simps)
  next
    case False
    let ?p = "last frontier"
    let ?rows = "filter (sits_under f ?p) entities"
    obtain found' seen' frontier' where
      pass: "reach_rows ?rows (found, seen, butlast frontier) = (found', seen', frontier')"
      by (metis prod_cases3)
    have whole: "set frontier = insert ?p (set (butlast frontier))"
      using False by (metis append_butlast_last_id list.simps(15) rotate1.simps(2) set_rotate1)
    have "below_inv f entities anchor (found, seen, butlast frontier)" and "?p \<in> seen"
      using "1.prems"(1) whole by (auto simp: below_inv_def)
    from reach_rows_inv [OF this _ pass]
    have inv: "below_inv f entities anchor (found', seen', frontier')"
      and seen': "seen' = seen \<union> en_id ` set ?rows"
      and frontier': "set frontier' = set (butlast frontier) \<union> (en_id ` set ?rows - seen)"
      by auto
    have "below_done f entities (seen' - set frontier') seen'"
      unfolding below_done_def
    proof (intro ballI impI)
      fix e p assume e: "e \<in> set entities" "sits_under f p e" and p: "p \<in> seen' - set frontier'"
      then have p: "p \<in> seen" "p \<notin> set (butlast frontier)" unfolding seen' frontier' by auto
      show "en_id e \<in> seen'"
      proof (cases "p = ?p")
        case True
        then show ?thesis using e unfolding seen' by auto
      next
        case False
        then have "p \<in> seen - set frontier" using p whole by auto
        then show ?thesis using e "1.prems"(2) unfolding seen' below_done_def by blast
      qed
    qed
    from "1.hyps" [OF False pass inv this] show ?thesis
      using False by (subst below_loop.simps) (simp add: pass)
  qed
qed

lemma below_iff:
  assumes "distinct (map en_id entities)"
  shows "e \<in> set (below anchor entities f) \<longleftrightarrow> sits_below f entities anchor e \<and> en_id e \<noteq> anchor"
proof -
  let ?found = "below_loop f entities ([], {anchor}, [anchor])"
  obtain seen where inv: "below_inv f entities anchor (?found, seen, [])"
    and clean: "below_done f entities seen seen"
    using below_loop_sound [of f entities anchor "[]" "{anchor}" "[anchor]"]
    by (auto simp: below_inv_def below_done_def)
  have all_seen: "e \<in> set entities \<and> en_id e \<in> seen" if "sits_below f entities anchor e" for e
    using that clean inv
    by induction (auto simp: below_done_def below_inv_def)
  have "e \<in> set ?found" if "sits_below f entities anchor e" "en_id e \<noteq> anchor"
  proof -
    have "en_id e \<in> en_id ` set ?found" using all_seen [OF that(1)] that(2) inv
      by (auto simp: below_inv_def)
    then obtain d where "d \<in> set ?found" "en_id d = en_id e" by auto
    moreover have "d \<in> set entities" using calculation(1) inv by (auto simp: below_inv_def)
    ultimately show ?thesis using all_seen [OF that(1)] assms
      by (metis distinct_map inj_onD)
  qed
  moreover have "sits_below f entities anchor e \<and> en_id e \<noteq> anchor" if "e \<in> set ?found"
    using that inv by (auto simp: below_inv_def)
  ultimately show ?thesis by (auto simp: below_def)
qed

lemma below_distinct: "distinct (map en_id (below anchor entities f))"
  and below_sorted: "sorted (map en_id (below anchor entities f))"
proof -
  obtain seen where "below_inv f entities anchor (below_loop f entities ([], {anchor}, [anchor]), seen, [])"
    using below_loop_sound [of f entities anchor "[]" "{anchor}" "[anchor]"]
    by (auto simp: below_inv_def below_done_def)
  then show "distinct (map en_id (below anchor entities f))"
    by (auto simp: below_def below_inv_def distinct_map)
qed (simp add: below_def)


text \<open>
  The things below a thing are exactly the rows reached by the parent pointers from it through
  rows that were not merged away, each once and in the order of the handles, and never the thing
  itself, also where the pointers run in a cycle.
\<close>

theorem descendants_exact:
  assumes "distinct (map en_id entities)"
  shows "set (descendants anchor entities) = {e. sits_below False entities anchor e \<and> en_id e \<noteq> anchor} \<and>
    sorted_wrt (<) (map en_id (descendants anchor entities))"
  using below_iff [OF assms] below_distinct below_sorted
  by (auto simp: descendants_def strict_sorted_iff)

definition cycle_row :: "string \<Rightarrow> string \<Rightarrow> entity" where
  "cycle_row i parent = \<lparr>en_id = i, en_merged_into = None, en_kind = [], en_name = i, en_aliases = [],
     en_folded_names = [], en_source = [], en_crm = None, en_parent = Some parent, en_boot = OnDemand,
     en_badge = None, en_archived = None\<rparr>"

theorem descendants_exact_witness:
  "set (descendants ''a'' [cycle_row ''a'' ''b'', cycle_row ''b'' ''a'']) =
     {e. sits_below False [cycle_row ''a'' ''b'', cycle_row ''b'' ''a''] ''a'' e \<and> en_id e \<noteq> ''a''} \<and>
   sorted_wrt (<) (map en_id (descendants ''a'' [cycle_row ''a'' ''b'', cycle_row ''b'' ''a'']))"
  by (rule descendants_exact) (simp add: cycle_row_def)

end
