(* ===== verification/Numbering.thy ===== *)
theory Numbering
  imports Things "HOL-Library.Option_ord"
begin

text \<open>
  Numbered collections (\<open>memory/numbered.rs\<close>): a thing that carries \<open>numbers_by\<close> numbers every
  thing below it by that key. What was issued is read from the members and from the claims a
  retraction took back; a write is described as edits of the members and refused on the answer.
  A moment is a timestamp of whole units; the maximum of two optional moments is Rust's, where
  \<open>None\<close> is below every \<open>Some\<close>. A \<open>BTreeSet\<close> that is walked is the ascending list of its elements.
\<close>

section \<open>What a store reads\<close>

definition NUMBERS_BY :: string where "NUMBERS_BY = ''numbers_by''"

type_synonym taken_back = "nat \<times> int option"
type_synonym parent_version = "(entity_id option \<times> int option) option"
type_synonym all_fields = "(entity_id, fields) btree"

definition ascending :: "'a::linorder list \<Rightarrow> 'a list" where
  "ascending xs = remdups (sort xs)"

lemma ascending_set [simp]: "set (ascending xs) = set xs"
  by (simp add: ascending_def)

record member =
  mb_handle :: entity_id
  mb_value :: "string option"
  mb_retired :: "nat list"

record numbered =
  nb_collection :: entity_id
  nb_key :: string
  nb_members :: "member list"

record retired =
  rt_taken_back :: "(entity_id, (string, taken_back list) btree) btree"
  rt_founded :: "(entity_id, int option) btree"
  rt_joined :: "(entity_id, int option) btree"
  rt_versions :: "(entity_id, parent_version list) btree"
  rt_folded :: "(entity_id, entity_id list) btree"

definition no_retired :: retired where
  "no_retired = \<lparr>rt_taken_back = [], rt_founded = [], rt_joined = [], rt_versions = [], rt_folded = []\<rparr>"

section \<open>Since when a member sits in a collection\<close>

fun run_start :: "entity_id option \<Rightarrow> int option option \<Rightarrow> parent_version list \<Rightarrow> int option" where
  "run_start current start [] = Option.bind start (\<lambda>t. t)"
| "run_start current start (None # vs) = None"
| "run_start current start (Some (parent, t) # vs) =
     (if parent = current then run_start current (Some t) vs else Option.bind start (\<lambda>u. u))"

definition parent_run_start :: "parent_version list \<Rightarrow> int option" where
  "parent_run_start versions =
     (if versions = [] then None
      else case last versions of
             None \<Rightarrow> None
           | Some (current, _) \<Rightarrow> run_start current None (rev versions))"

definition last_parent :: "parent_version list \<Rightarrow> entity_id option" where
  "last_parent versions =
     (if versions = [] then None else case last versions of None \<Rightarrow> None | Some (p, _) \<Rightarrow> p)"

definition versions_of :: "(entity_id, parent_version list) btree \<Rightarrow> entity_id \<Rightarrow> parent_version list" where
  "versions_of versions node = (case bt_get versions node of None \<Rightarrow> [] | Some vs \<Rightarrow> vs)"

definition parent_of ::
  "entity list \<Rightarrow> (entity_id, parent_version list) btree \<Rightarrow> entity_id \<Rightarrow> entity_id option" where
  "parent_of entities versions node =
     (case Option.bind (find (\<lambda>x. en_id x = node) entities) en_parent of
        Some p \<Rightarrow> Some p
      | None \<Rightarrow> Option.bind (bt_get versions node) last_parent)"

text \<open>
  The climb ends: a node it climbs past has a version, and no node is climbed past twice.
\<close>

function joined_loop ::
  "(entity_id \<Rightarrow> entity_id option) \<Rightarrow> (entity_id, parent_version list) btree \<Rightarrow> entity_id
     \<Rightarrow> entity_id list \<Rightarrow> int option \<Rightarrow> entity_id \<Rightarrow> int option" where
  "joined_loop up versions collection seen since here =
     (if here = collection then since
      else if here \<in> set seen then None
      else case parent_run_start (versions_of versions here) of
             None \<Rightarrow> None
           | Some run \<Rightarrow>
               (case up here of
                  None \<Rightarrow> None
                | Some p \<Rightarrow>
                    joined_loop up versions collection (here # seen)
                      (Some (case since of None \<Rightarrow> run | Some t \<Rightarrow> max t run)) p))"
  by pat_completeness auto

lemma card_unseen_less:
  "finite A \<Longrightarrow> x \<in> A \<Longrightarrow> x \<notin> S \<Longrightarrow> card (A - insert x S) < card (A - S)"
  using card_take_out [of A x S] by linarith

lemma versions_of_keys: "parent_run_start (versions_of versions n) = Some t \<Longrightarrow> n \<in> fst ` set versions"
proof (rule ccontr)
  assume "parent_run_start (versions_of versions n) = Some t" and "n \<notin> fst ` set versions"
  then show False by (simp add: versions_of_def parent_run_start_def bt_get_def flip: map_of_eq_None_iff)
qed

termination joined_loop
  by (relation "measure (\<lambda>(up, versions, collection, seen, since, here).
        card (fst ` set versions - set seen))")
    (auto simp del: card_Diff_insert intro!: card_unseen_less versions_of_keys)

declare joined_loop.simps [simp del]

definition joined_at ::
  "entity_id \<Rightarrow> entity_id \<Rightarrow> (entity_id \<Rightarrow> entity_id option)
     \<Rightarrow> (entity_id, parent_version list) btree \<Rightarrow> int option" where
  "joined_at m collection up versions = joined_loop up versions collection [] None m"

section \<open>The numbers claims held that are no longer current\<close>

text \<open>A write as the claim that carried it, what it put there, whether the claim is current, when.\<close>

type_synonym claim_write = "string \<times> string option \<times> bool \<times> int option"

definition retired_numbers :: "claim_write list \<Rightarrow> taken_back list" where
  "retired_numbers ws =
     List.map_filter
       (\<lambda>(claim, v, current, t).
          map_option (\<lambda>n. (n, t)) (Option.bind v whole_number))
       (filter (\<lambda>(claim, v, current, t). \<not> current)
          (foldl (\<lambda>m (claim, v, current, t). bt_insert claim (v, current, t) m) [] ws))"

definition founded_at :: "(string option \<times> bool \<times> int option) list \<Rightarrow> int option" where
  "founded_at ws =
     Option.bind
       (foldl (\<lambda>run (v, current, t).
            if \<not> current then run
            else case map_option trim v of
                   None \<Rightarrow> None
                 | Some h \<Rightarrow>
                     if h = [] then None
                     else case run of
                            None \<Rightarrow> Some (h, t)
                          | Some (k, u) \<Rightarrow> if k \<noteq> h then Some (h, t) else run)
          None ws)
       snd"

definition retired_of_writes :: "entity_id \<Rightarrow> key_write list \<Rightarrow> retired" where
  "retired_of_writes i writes =
     foldl (\<lambda>out key.
        let ws = sort_key kw_ordinal (filter (\<lambda>w. kw_key w = key) writes);
            out1 = (if key = NUMBERS_BY
                    then out\<lparr>rt_founded := bt_insert i
                           (founded_at (map (\<lambda>w. (kw_value w, kw_status w = Active, kw_written_at w)) ws))
                           (rt_founded out)\<rparr>
                    else out);
            numbers = retired_numbers
              (map (\<lambda>w. (kw_fact w, kw_value w, kw_status w = Active, kw_written_at w)) ws)
        in if numbers = [] then out1
           else out1\<lparr>rt_taken_back := bt_insert i
                  (bt_insert key numbers (case bt_get (rt_taken_back out1) i of None \<Rightarrow> [] | Some m \<Rightarrow> m))
                  (rt_taken_back out1)\<rparr>)
       no_retired (ascending (map kw_key writes))"

definition issued_here :: "retired \<Rightarrow> entity_id \<Rightarrow> string \<Rightarrow> int option \<Rightarrow> nat list" where
  "issued_here r i k since =
     ascending (map fst (filter (\<lambda>(n, t).
        (case (since, t) of (Some start, Some u) \<Rightarrow> u \<ge> start | _ \<Rightarrow> True))
       (case Option.bind (bt_get (rt_taken_back r) i) (\<lambda>keys. bt_get keys k) of
          None \<Rightarrow> [] | Some held \<Rightarrow> held)))"

section \<open>A numbered collection\<close>

definition number_of :: "member \<Rightarrow> nat option" where
  "number_of m = Option.bind (mb_value m) whole_number"

definition held_numbers :: "numbered \<Rightarrow> nat list" where
  "held_numbers c = List.map_filter number_of (nb_members c)"

definition retired_all :: "numbered \<Rightarrow> nat list" where
  "retired_all c = ascending (concat (map mb_retired (nb_members c)))"

definition next_number :: "numbered \<Rightarrow> nat" where
  "next_number c = foldr max (held_numbers c @ retired_all c) 0 + 1"

definition holder_of :: "numbered \<Rightarrow> nat \<Rightarrow> member option" where
  "holder_of c n = find (\<lambda>m. number_of m = Some n) (nb_members c)"

definition handle_for :: "numbered \<Rightarrow> nat \<Rightarrow> entity_id" where
  "handle_for c n = nb_collection c @ ''/'' @ show_nat n"

definition handles :: "numbered \<Rightarrow> entity_id list" where
  "handles c = map (handle_for c) (ascending (held_numbers c))"

definition member_joined :: "retired \<Rightarrow> entity list \<Rightarrow> entity_id \<Rightarrow> entity_id \<Rightarrow> int option" where
  "member_joined r entities collection i =
     (case bt_get (rt_joined r) i of
        Some held \<Rightarrow> held
      | None \<Rightarrow>
          (let up = parent_of entities (rt_versions r)
           in foldl (\<lambda>since f.
                case (since, joined_at f collection up (rt_versions r)) of
                  (Some own, Some other) \<Rightarrow> Some (min own other) | _ \<Rightarrow> None)
               (joined_at i collection up (rt_versions r))
               (case bt_get (rt_folded r) i of None \<Rightarrow> [] | Some fs \<Rightarrow> fs)))"

definition numbered_by ::
  "entity_id \<Rightarrow> string \<Rightarrow> entity list \<Rightarrow> all_fields \<Rightarrow> retired \<Rightarrow> numbered" where
  "numbered_by collection k entities fs r =
     (let founded = Option.bind (bt_get (rt_founded r) collection) (\<lambda>t. t)
      in \<lparr>nb_collection = collection, nb_key = k,
          nb_members = map (\<lambda>e. \<lparr>mb_handle = en_id e,
             mb_value = Option.bind (bt_get fs (en_id e)) (\<lambda>f. bt_get f k),
             mb_retired = issued_here r (en_id e) k
               (max founded (member_joined r entities collection (en_id e)))\<rparr>)
            (descendants collection entities)\<rparr>)"

definition key_of_fields :: "fields \<Rightarrow> string option" where
  "key_of_fields f =
     (case bt_get f NUMBERS_BY of
        None \<Rightarrow> None | Some v \<Rightarrow> if trim v = [] then None else Some (trim v))"

definition collection_of ::
  "entity_id \<Rightarrow> entity list \<Rightarrow> all_fields \<Rightarrow> retired \<Rightarrow> numbered option" where
  "collection_of collection entities fs r =
     map_option (\<lambda>key. numbered_by collection key entities fs r)
       (Option.bind (bt_get fs collection) key_of_fields)"

datatype key_change = By string | Off

definition numbering_change :: "fields option \<Rightarrow> fields \<Rightarrow> key_change option" where
  "numbering_change before after =
     (case (Option.bind before key_of_fields, key_of_fields after) of
        (Some h, Some wanted) \<Rightarrow> if h = wanted then None else Some (By wanted)
      | (None, Some wanted) \<Rightarrow> Some (By wanted)
      | (Some _, None) \<Rightarrow> Some Off
      | (None, None) \<Rightarrow> None)"

text \<open>The collections above a thing, nearest first; the walk ends where the pointers run in a cycle.\<close>

definition parent_in :: "entity list \<Rightarrow> entity_id \<Rightarrow> entity_id option" where
  "parent_in entities i = Option.bind (find (\<lambda>e. en_id e = i) entities) en_parent"

function scopes_loop ::
  "entity list \<Rightarrow> all_fields \<Rightarrow> retired \<Rightarrow> entity_id list \<Rightarrow> entity_id option \<Rightarrow> numbered list" where
  "scopes_loop entities fs r seen None = []"
| "scopes_loop entities fs r seen (Some a) =
     (if a \<in> set seen then []
      else (case collection_of a entities fs r of None \<Rightarrow> [] | Some c \<Rightarrow> [c])
           @ scopes_loop entities fs r (a # seen) (parent_in entities a))"
  by pat_completeness auto

lemma parent_in_parents: "parent_in entities a = Some p \<Longrightarrow> Some p \<in> en_parent ` set entities"
  by (auto simp: parent_in_def find_Some_iff bind_eq_Some_conv) (metis image_eqI nth_mem)

termination scopes_loop
proof (relation "measure (\<lambda>(entities, fs, r, seen, here).
    case here of None \<Rightarrow> 0
    | Some a \<Rightarrow> if a \<in> set seen then 0
        else Suc (card (en_parent ` set entities - Some ` set (a # seen))))", goal_cases)
  case (2 entities fs r seen a)
  show ?case
  proof (cases "parent_in entities a")
    case (Some p)
    have "p \<notin> set (a # seen) \<Longrightarrow>
        card (en_parent ` set entities - insert (Some p) (Some ` set (a # seen)))
          < card (en_parent ` set entities - Some ` set (a # seen))"
      by (rule card_unseen_less) (auto intro: parent_in_parents [OF Some])
    then show ?thesis using 2 Some by (auto simp: insert_commute)
  qed (use 2 in simp)
qed simp

declare scopes_loop.simps [simp del]

definition scopes_of :: "entity_id \<Rightarrow> entity list \<Rightarrow> all_fields \<Rightarrow> retired \<Rightarrow> numbered list" where
  "scopes_of i entities fs r = scopes_loop entities fs r [i] (parent_in entities i)"

section \<open>What a write does to a collection\<close>

datatype edit =
    Set_to entity_id "string option"
  | Leave entity_id

primrec edit_handle :: "edit \<Rightarrow> entity_id" where
  "edit_handle (Set_to h v) = h"
| "edit_handle (Leave h) = h"

record change =
  ch_holds :: "(entity_id \<times> fields) list"
  ch_leaves :: "entity_id list"
  ch_moved :: "(entity_id \<times> fields) list"
  ch_blank :: "(entity_id \<times> string list) list"

definition change_of_capture :: "entity_id \<Rightarrow> fields \<Rightarrow> fields \<Rightarrow> change" where
  "change_of_capture i after written =
     \<lparr>ch_holds = [(i, after)], ch_leaves = [], ch_moved = [],
      ch_blank = [(i, map fst (filter (\<lambda>(k, v). \<not> holds_a_value v) written))]\<rparr>"

definition founds :: "change \<Rightarrow> (entity_id \<times> fields) list" where
  "founds c = filter (\<lambda>_. ch_leaves c = []) (ch_holds c)"

definition sets_numbering :: "change \<Rightarrow> bool" where
  "sets_numbering c \<longleftrightarrow>
     list_ex (\<lambda>(i, f). case bt_get f NUMBERS_BY of None \<Rightarrow> False | Some v \<Rightarrow> trim v \<noteq> []) (founds c)"

definition touched :: "change \<Rightarrow> entity_id list" where
  "touched c = map fst (ch_holds c @ ch_moved c) @ ch_leaves c"

definition is_member :: "numbered \<Rightarrow> entity_id \<Rightarrow> bool" where
  "is_member c h \<longleftrightarrow> h \<in> mb_handle ` set (nb_members c)"

definition edits_for :: "numbered \<Rightarrow> change \<Rightarrow> bool \<Rightarrow> edit list" where
  "edits_for c w joins =
     map Leave (filter (is_member c) (ch_leaves w)) @
     map (\<lambda>(h, f). Set_to h
            (case bt_get f (nb_key c) of
               Some v \<Rightarrow> Some v
             | None \<Rightarrow> if \<exists>(b, ks) \<in> set (ch_blank w). b = h \<and> nb_key c \<in> set ks then Some [] else None))
       (filter (\<lambda>(h, f). is_member c h) (ch_holds w)) @
     concat (map (\<lambda>(h, f).
            if joins then [Set_to h (bt_get f (nb_key c))]
            else if is_member c h then [Leave h] else [])
       (ch_moved w))"

datatype numbering_error =
    Number_Taken entity_id string nat entity_id nat
  | Number_Retired entity_id string nat nat
  | Number_Freed entity_id string nat entity_id bool
  | Members_Break_Numbering entity_id string "string list"
  | Not_A_Number entity_id string string

text \<open>The member of a handle, and the first member of a handle given another value.\<close>

definition member_at :: "member list \<Rightarrow> entity_id \<Rightarrow> member option" where
  "member_at ms h = find (\<lambda>m. mb_handle m = h) ms"

fun set_first :: "entity_id \<Rightarrow> string option \<Rightarrow> member list \<Rightarrow> member list" where
  "set_first h v [] = [\<lparr>mb_handle = h, mb_value = v, mb_retired = []\<rparr>]"
| "set_first h v (m # ms) = (if mb_handle m = h then m\<lparr>mb_value := v\<rparr> # ms else m # set_first h v ms)"

fun edited :: "edit list \<Rightarrow> member list \<Rightarrow> member list" where
  "edited [] ms = ms"
| "edited (Leave h # es) ms = edited es (filter (\<lambda>m. mb_handle m \<noteq> h) ms)"
| "edited (Set_to h v # es) ms = edited es (set_first h v ms)"

fun set_handles :: "edit list \<Rightarrow> entity_id list" where
  "set_handles [] = []"
| "set_handles (Leave h # es) = set_handles es"
| "set_handles (Set_to h v # es) = h # set_handles es"

definition bad_value :: "numbered \<Rightarrow> edit list \<Rightarrow> string option" where
  "bad_value before edits =
     map_option (\<lambda>e. case e of Set_to h (Some raw) \<Rightarrow> raw | _ \<Rightarrow> [])
       (find (\<lambda>e. case e of
            Set_to h (Some raw) \<Rightarrow>
              whole_number raw = None \<and>
              Option.bind (member_at (nb_members before) h) mb_value \<noteq> Some raw
          | _ \<Rightarrow> False) edits)"

definition number_at :: "numbered \<Rightarrow> entity_id \<Rightarrow> nat option" where
  "number_at c h = Option.bind (member_at (nb_members c) h) number_of"

text \<open>The rival of a touched member: one the write did not touch when there is one.\<close>

definition rival_of :: "numbered \<Rightarrow> entity_id list \<Rightarrow> entity_id \<Rightarrow> nat \<Rightarrow> member option" where
  "rival_of now ts h n =
     (let rivals = filter (\<lambda>m. mb_handle m \<noteq> h \<and> number_of m = Some n) (nb_members now)
      in case find (\<lambda>m. mb_handle m \<notin> set ts) rivals of
           Some m \<Rightarrow> Some m
         | None \<Rightarrow> (case rivals of [] \<Rightarrow> None | m # _ \<Rightarrow> Some m))"

definition taken_by :: "numbered \<Rightarrow> entity_id list \<Rightarrow> entity_id \<Rightarrow> numbering_error option" where
  "taken_by now ts h =
     (case number_at now h of
        None \<Rightarrow> None
      | Some n \<Rightarrow> map_option (\<lambda>m. Number_Taken (nb_collection now) (nb_key now) n (mb_handle m) (next_number now))
                   (rival_of now ts h n))"

definition retaken_by :: "numbered \<Rightarrow> numbered \<Rightarrow> entity_id \<Rightarrow> numbering_error option" where
  "retaken_by before now h =
     (case number_at now h of
        None \<Rightarrow> None
      | Some n \<Rightarrow>
          if n \<in> set (retired_all before) \<and> number_at before h \<noteq> Some n
          then Some (Number_Retired (nb_collection before) (nb_key before) n (next_number now)) else None)"

definition freed_by :: "numbered \<Rightarrow> numbered \<Rightarrow> member \<Rightarrow> numbering_error option" where
  "freed_by before now m =
     (case number_of m of
        None \<Rightarrow> None
      | Some n \<Rightarrow>
          if holder_of now n \<noteq> None then None
          else Some (Number_Freed (nb_collection before) (nb_key before) n (mb_handle m) False))"

definition record_lost_by :: "numbered \<Rightarrow> numbered \<Rightarrow> edit \<Rightarrow> numbering_error option" where
  "record_lost_by before now e =
     (case e of
        Set_to h v \<Rightarrow> None
      | Leave h \<Rightarrow>
          (case member_at (nb_members before) h of
             None \<Rightarrow> None
           | Some m \<Rightarrow>
               map_option (\<lambda>n. Number_Freed (nb_collection before) (nb_key before) n (mb_handle m) True)
                 (find (\<lambda>n. n \<notin> set (retired_all now)) (mb_retired m))))"

definition kept_by :: "numbered \<Rightarrow> edit list \<Rightarrow> bool" where
  "kept_by before edits \<longleftrightarrow> (\<exists>h \<in> set (set_handles edits). is_member before h)"

definition after_edits :: "numbered \<Rightarrow> edit list \<Rightarrow> numbered" where
  "after_edits before edits = before\<lparr>nb_members := edited edits (nb_members before)\<rparr>"

fun first_error :: "('a \<Rightarrow> 'e option) \<Rightarrow> 'a list \<Rightarrow> 'e option" where
  "first_error f [] = None"
| "first_error f (x # xs) = (case f x of Some e \<Rightarrow> Some e | None \<Rightarrow> first_error f xs)"

definition or_else :: "'a option \<Rightarrow> 'a option \<Rightarrow> 'a option" where
  "or_else a b = (case a of Some x \<Rightarrow> Some x | None \<Rightarrow> b)"

definition refuses_numbering :: "numbered \<Rightarrow> edit list \<Rightarrow> numbering_error option" where
  "refuses_numbering before edits =
     (let now = after_edits before edits;
          ts = ascending (set_handles edits)
      in case bad_value before edits of
           Some raw \<Rightarrow> Some (Not_A_Number (nb_collection before) (nb_key before) raw)
         | None \<Rightarrow>
             or_else (first_error (taken_by now ts) ts)
            (or_else (first_error (retaken_by before now) ts)
            (or_else (first_error (freed_by before now) (nb_members before))
                     (if kept_by before edits then None
                      else first_error (record_lost_by before now) edits))))"

section \<open>A thing that becomes a collection\<close>

record founding =
  fo_old :: "numbered option"
  fo_new :: "numbered option"

definition holds_twice :: "numbered \<Rightarrow> member \<Rightarrow> bool" where
  "holds_twice c m \<longleftrightarrow>
     (case number_of m of
        None \<Rightarrow> False
      | Some n \<Rightarrow> \<exists>other \<in> set (nb_members c). mb_handle other \<noteq> mb_handle m \<and> number_of other = Some n)"

definition unfit_members :: "numbered \<Rightarrow> string list" where
  "unfit_members c =
     sort (map (\<lambda>m. mb_handle m @ '' ('' @ the (mb_value m) @ '')'')
       (filter (\<lambda>m. mb_value m \<noteq> None \<and> (number_of m = None \<or> holds_twice c m)) (nb_members c)))"

definition founding_refuses :: "founding \<Rightarrow> numbering_error option" where
  "founding_refuses f =
     or_else
       (case fo_old f of
          None \<Rightarrow> None
        | Some old \<Rightarrow>
            (case sort_key mb_handle (filter (\<lambda>m. number_of m \<noteq> None) (nb_members old)) of
               [] \<Rightarrow> None
             | m # _ \<Rightarrow> Some (Number_Freed (nb_collection old) (nb_key old) (the (number_of m)) (mb_handle m) False)))
       (case fo_new f of
          None \<Rightarrow> None
        | Some c \<Rightarrow>
            if unfit_members c = [] then None
            else Some (Members_Break_Numbering (nb_collection c) (nb_key c) (unfit_members c)))"

section \<open>Every collection a write touches\<close>

record reach =
  re_scopes :: "numbered list"
  re_chain :: "entity_id list"
  re_founded :: "founding list"

definition reach_refuses :: "reach \<Rightarrow> change \<Rightarrow> numbering_error option" where
  "reach_refuses r w =
     or_else (first_error founding_refuses (re_founded r))
       (first_error (\<lambda>c. if nb_collection c \<in> fst ` set (ch_moved w) then None
            else refuses_numbering c (edits_for c w (nb_collection c \<in> set (re_chain r))))
          (re_scopes r))"

definition add_scope :: "numbered list \<Rightarrow> numbered \<Rightarrow> numbered list" where
  "add_scope cs c = (if nb_collection c \<in> nb_collection ` set cs then cs else cs @ [c])"

definition founding_of :: "entity list \<Rightarrow> all_fields \<Rightarrow> retired \<Rightarrow> entity_id \<times> fields \<Rightarrow> founding option" where
  "founding_of entities fs r = (\<lambda>(h, after).
     map_option (\<lambda>k. \<lparr>fo_old = collection_of h entities fs r,
                      fo_new = (case k of By kk \<Rightarrow> Some (numbered_by h kk entities fs r) | Off \<Rightarrow> None)\<rparr>)
       (numbering_change (bt_get fs h) after))"

definition reach_of ::
  "change \<Rightarrow> entity_id option \<Rightarrow> entity list \<Rightarrow> all_fields \<Rightarrow> retired \<Rightarrow> reach" where
  "reach_of w into entities fs r =
     (let touching = foldl add_scope [] (concat (map (\<lambda>h. scopes_of h entities fs r) (touched w)));
          above = (case into of
                     None \<Rightarrow> []
                   | Some p \<Rightarrow> (case collection_of p entities fs r of None \<Rightarrow> [] | Some c \<Rightarrow> [c])
                                @ scopes_of p entities fs r)
      in \<lparr>re_scopes = foldl add_scope touching above,
          re_chain = map nb_collection above,
          re_founded = List.map_filter (founding_of entities fs r) (founds w)\<rparr>)"

section \<open>Numbers as handles\<close>

definition NUMBERED_DAY :: int where "NUMBERED_DAY = 0"

definition derived_former :: "entity list \<Rightarrow> numbered \<Rightarrow> entity_id \<Rightarrow> former_handle option" where
  "derived_former entities c h =
     Option.bind (numbered_handle h) (\<lambda>(_, n).
     Option.bind (holder_of c n) (\<lambda>m.
     map_option (\<lambda>b. \<lparr>fh_former = h, fh_badge = b, fh_changed_at = NUMBERED_DAY\<rparr>)
       (Option.bind (find (\<lambda>e. en_id e = mb_handle m) entities) en_badge)))"

definition derived_formers :: "entity list \<Rightarrow> all_fields \<Rightarrow> former_handle list" where
  "derived_formers entities fs =
     concat (map (\<lambda>e. case collection_of (en_id e) entities fs no_retired of
                        None \<Rightarrow> []
                      | Some c \<Rightarrow> List.map_filter (derived_former entities c) (handles c))
       entities)"


section \<open>What an accepted write keeps\<close>

definition numbers_ok :: "numbered \<Rightarrow> bool" where
  "numbers_ok c \<longleftrightarrow>
     distinct (map mb_handle (nb_members c)) \<and>
     (\<forall>m \<in> set (nb_members c). mb_value m \<noteq> None \<longrightarrow> number_of m \<noteq> None) \<and>
     (\<forall>m \<in> set (nb_members c). \<forall>d \<in> set (nb_members c).
        number_of m \<noteq> None \<and> number_of m = number_of d \<longrightarrow> mb_handle m = mb_handle d)"

lemma after_edits_simps [simp]:
  "nb_members (after_edits c es) = edited es (nb_members c)"
  "nb_collection (after_edits c es) = nb_collection c" "nb_key (after_edits c es) = nb_key c"
  by (simp_all add: after_edits_def)

lemma numbers_ok_distinct: "numbers_ok c \<Longrightarrow> distinct (map mb_handle (nb_members c))"
  and numbers_ok_value:
    "numbers_ok c \<Longrightarrow> m \<in> set (nb_members c) \<Longrightarrow> mb_value m = Some raw \<Longrightarrow> whole_number raw \<noteq> None"
  and numbers_ok_unique:
    "numbers_ok c \<Longrightarrow> m \<in> set (nb_members c) \<Longrightarrow> d \<in> set (nb_members c) \<Longrightarrow>
       number_of m = Some n \<Longrightarrow> number_of d = Some n \<Longrightarrow> mb_handle m = mb_handle d"
  unfolding numbers_ok_def number_of_def by (blast, force, metis option.distinct(1))

named_theorems numbering_simps

lemma first_error_None [numbering_simps]: "first_error f xs = None \<longleftrightarrow> (\<forall>x \<in> set xs. f x = None)"
  by (induction xs) (auto split: option.splits)

lemma or_else_None [numbering_simps]: "or_else a b = None \<longleftrightarrow> a = None \<and> b = None"
  by (simp add: or_else_def split: option.splits)

lemma set_first_handles: "mb_handle ` set (set_first h v ms) = insert h (mb_handle ` set ms)"
  by (induction ms) auto

lemma distinct_set_first:
  "distinct (map mb_handle ms) \<Longrightarrow> distinct (map mb_handle (set_first h v ms))"
proof (induction ms)
  case (Cons m ms)
  then show ?case using set_first_handles [of h v ms] by auto
qed simp

lemma distinct_edited: "distinct (map mb_handle ms) \<Longrightarrow> distinct (map mb_handle (edited es ms))"
  by (induction es ms rule: edited.induct) (simp_all add: distinct_set_first distinct_map_filter)

lemma set_first_member: "m \<in> set (set_first h v ms) \<Longrightarrow> m \<in> set ms \<or> mb_handle m = h \<and> mb_value m = v"
  by (induction ms) (auto split: if_splits)

lemma edited_member:
  "m \<in> set (edited es ms) \<Longrightarrow> m \<in> set ms \<or> Set_to (mb_handle m) (mb_value m) \<in> set es"
proof (induction es ms rule: edited.induct)
  case (3 h v es ms)
  then show ?case using set_first_member [of m h v ms] by auto
qed auto

lemma set_handles_iff: "h \<in> set (set_handles es) \<longleftrightarrow> (\<exists>v. Set_to h v \<in> set es)"
  by (induction es rule: set_handles.induct) auto

lemma edited_untouched:
  "m \<in> set (edited es ms) \<Longrightarrow> mb_handle m \<notin> set (set_handles es) \<Longrightarrow> m \<in> set ms"
  using edited_member set_handles_iff by blast

lemma member_at_distinct:
  "distinct (map mb_handle ms) \<Longrightarrow> m \<in> set ms \<Longrightarrow> member_at ms (mb_handle m) = Some m"
  unfolding member_at_def by (induction ms) (auto simp: image_iff)

lemma number_at_distinct:
  "distinct (map mb_handle (nb_members c)) \<Longrightarrow> m \<in> set (nb_members c) \<Longrightarrow>
     number_at c (mb_handle m) = number_of m"
  by (simp add: number_at_def member_at_distinct)

lemma rival_of_None: "rival_of c ts h n = None \<longleftrightarrow>
    (\<forall>m \<in> set (nb_members c). mb_handle m \<noteq> h \<longrightarrow> number_of m \<noteq> Some n)"
proof -
  have "rival_of c ts h n = None \<longleftrightarrow>
      filter (\<lambda>m. mb_handle m \<noteq> h \<and> number_of m = Some n) (nb_members c) = []"
    unfolding rival_of_def Let_def
    by (cases "filter (\<lambda>m. mb_handle m \<noteq> h \<and> number_of m = Some n) (nb_members c)")
      (simp_all split: option.split)
  then show ?thesis by (auto simp: filter_empty_conv)
qed

lemma holder_of_None: "holder_of c n = None \<longleftrightarrow> n \<notin> set (held_numbers c)"
  by (auto simp: holder_of_def held_numbers_def find_None_iff map_filter_set)

lemma retired_all_set: "set (retired_all c) = (\<Union>m \<in> set (nb_members c). set (mb_retired m))"
  by (simp add: retired_all_def)

text \<open>What \<open>refuses_numbering\<close> has checked when it lets the edits through.\<close>

lemma bad_value_None:
  "bad_value before es = None \<Longrightarrow> Set_to h (Some raw) \<in> set es \<Longrightarrow>
     whole_number raw \<noteq> None \<or> Option.bind (member_at (nb_members before) h) mb_value = Some raw"
  by (auto simp: bad_value_def find_None_iff)

lemma accepted_edits:
  assumes "refuses_numbering before es = None"
  shows "bad_value before es = None"
    and "h \<in> set (set_handles es) \<Longrightarrow> taken_by (after_edits before es) (ascending (set_handles es)) h = None"
    and "h \<in> set (set_handles es) \<Longrightarrow> retaken_by before (after_edits before es) h = None"
    and "m \<in> set (nb_members before) \<Longrightarrow> freed_by before (after_edits before es) m = None"
    and "\<not> kept_by before es \<Longrightarrow> e \<in> set es \<Longrightarrow> record_lost_by before (after_edits before es) e = None"
  using assms
  by (auto simp: refuses_numbering_def Let_def numbering_simps split: option.splits if_splits)

lemma accepted_no_rival:
  assumes "refuses_numbering before es = None" and "numbers_ok before"
    and "m \<in> set (edited es (nb_members before))" and "mb_handle m \<in> set (set_handles es)"
    and "d \<in> set (edited es (nb_members before))" and "number_of m = Some n" "number_of d = Some n"
  shows "mb_handle d = mb_handle m"
proof -
  let ?now = "after_edits before es"
  have dist: "distinct (map mb_handle (nb_members ?now))"
    using numbers_ok_distinct [OF assms(2)] by (simp add: after_edits_def distinct_edited)
  have "number_at ?now (mb_handle m) = Some n"
    using number_at_distinct [OF dist, of m] assms(3,6) by (simp add: after_edits_def)
  then have "rival_of ?now (ascending (set_handles es)) (mb_handle m) n = None"
    using accepted_edits(2) [OF assms(1,4)] by (simp add: taken_by_def)
  then show ?thesis using assms(5,7) by (auto simp: rival_of_None after_edits_def)
qed

lemma accepted_value_is_number:
  assumes "refuses_numbering before es = None" and "numbers_ok before"
    and "m \<in> set (edited es (nb_members before))" and "mb_value m = Some raw"
  shows "whole_number raw \<noteq> None"
proof -
  from edited_member [OF assms(3)] consider "m \<in> set (nb_members before)"
    | "Set_to (mb_handle m) (Some raw) \<in> set es" using assms(4) by auto
  then show ?thesis
  proof cases
    case 1
    then show ?thesis using numbers_ok_value [OF assms(2)] assms(4) by blast
  next
    case 2
    from bad_value_None [OF accepted_edits(1) [OF assms(1)] this] show ?thesis
    proof
      assume "Option.bind (member_at (nb_members before) (mb_handle m)) mb_value = Some raw"
      then obtain d where "d \<in> set (nb_members before)" "mb_value d = Some raw"
        by (auto simp: member_at_def bind_eq_Some_conv dest!: find_SomeD)
      then show ?thesis using numbers_ok_value [OF assms(2)] by blast
    qed
  qed
qed

lemma accepted_numbers_ok:
  assumes "refuses_numbering before es = None" and "numbers_ok before"
  shows "numbers_ok (after_edits before es)"
proof -
  let ?ms = "edited es (nb_members before)"
  have "mb_handle m = mb_handle d"
    if "m \<in> set ?ms" "d \<in> set ?ms" "number_of m \<noteq> None" "number_of m = number_of d" for m d
  proof -
    note prem = that
    obtain n where n1: "number_of m = Some n" using prem(3) by blast
    then have n: "number_of m = Some n" "number_of d = Some n" using prem(4) by simp_all
    consider "mb_handle m \<in> set (set_handles es)" | "mb_handle d \<in> set (set_handles es)"
      | "mb_handle m \<notin> set (set_handles es)" "mb_handle d \<notin> set (set_handles es)" by blast
    then show ?thesis
    proof cases
      case 1
      then show ?thesis using accepted_no_rival [OF assms that(1) 1 that(2) n] by simp
    next
      case 2
      then show ?thesis using accepted_no_rival [OF assms that(2) 2 that(1) n(2,1)] by simp
    next
      case 3
      then have "m \<in> set (nb_members before)" "d \<in> set (nb_members before)"
        using edited_untouched [OF that(1)] edited_untouched [OF that(2)] by simp_all
      then show ?thesis using numbers_ok_unique [OF assms(2) _ _ n] by simp
    qed
  qed
  moreover have "number_of m \<noteq> None" if "m \<in> set ?ms" "mb_value m \<noteq> None" for m
    using accepted_value_is_number [OF assms that(1)] that(2) by (auto simp: number_of_def)
  moreover have "distinct (map mb_handle ?ms)"
    using numbers_ok_distinct [OF assms(2)] by (simp add: distinct_edited)
  ultimately show ?thesis unfolding numbers_ok_def after_edits_simps by blast
qed

lemma accepted_keeps_held:
  assumes "refuses_numbering before es = None"
  shows "set (held_numbers before) \<subseteq> set (held_numbers (after_edits before es))"
proof
  fix n assume "n \<in> set (held_numbers before)"
  then obtain m where m: "m \<in> set (nb_members before)" "number_of m = Some n"
    by (auto simp: held_numbers_def map_filter_set)
  have "holder_of (after_edits before es) n \<noteq> None"
    using accepted_edits(4) [OF assms m(1)] m(2) by (auto simp: freed_by_def split: if_splits)
  then show "n \<in> set (held_numbers (after_edits before es))" by (simp add: holder_of_None)
qed


lemma hd_show_nat: "0 < n \<Longrightarrow> hd (show_nat n) \<noteq> CHR ''0''"
proof (induction n rule: show_nat.induct)
  case (1 n)
  show ?case
  proof (cases "n < 10")
    case True
    have "digit_char n \<noteq> CHR ''0''"
    proof
      assume "digit_char n = CHR ''0''"
      then show False using digit_char(2) [OF True] "1.prems" by (simp add: digit_value_def)
    qed
    then show ?thesis using True by (subst show_nat.simps) simp
  next
    case False
    then have "hd (show_nat (n div 10)) \<noteq> CHR ''0''" using 1 by simp
    then show ?thesis using False show_nat_digits [of "n div 10"] by (subst show_nat.simps) simp
  qed
qed

lemma whole_number_show_nat:
  assumes "0 < n" "n < usize_max"
  shows "whole_number (show_nat n) = Some n"
proof -
  have "\<not> starts_with ''0'' (show_nat n)"
    using hd_show_nat [OF assms(1)] show_nat_digits [of n]
    by (cases "show_nat n") (auto simp: starts_with_def)
  then show ?thesis
    using assms show_nat_digits [of n] parse_unsigned_show_nat [of n usize_max]
    by (simp add: whole_number_def)
qed



definition two_rules :: numbered where
  "two_rules = \<lparr>nb_collection = ''topic:rules'', nb_key = ''rule'',
     nb_members = [\<lparr>mb_handle = ''note:a'', mb_value = Some ''1'', mb_retired = []\<rparr>,
                   \<lparr>mb_handle = ''note:b'', mb_value = None, mb_retired = [2]\<rparr>]\<rparr>"

lemma whole_number_digits: "whole_number ''1'' = Some 1" "whole_number ''3'' = Some 3"
proof -
  have "char_of (49 :: nat) = CHR ''1''" "char_of (51 :: nat) = CHR ''3''" by code_simp+
  then show "whole_number ''1'' = Some 1" "whole_number ''3'' = Some 3"
    using whole_number_show_nat [of 1] whole_number_show_nat [of 3]
    by (simp_all add: show_nat.simps digit_char_def usize_max_def)
qed

lemmas number_reads =
  two_rules_def number_of_def number_at_def member_at_def retired_all_def ascending_def
  held_numbers_def holder_of_def rival_of_def next_number_def map_filter_simps
  refuses_numbering_def bad_value_def taken_by_def retaken_by_def freed_by_def record_lost_by_def
  kept_by_def is_member_def or_else_def Let_def whole_number_digits

lemma two_rules_ok: "numbers_ok two_rules"
  by (simp add: numbers_ok_def number_reads)



section \<open>The next number\<close>

lemma foldr_max_ge: "x \<in> set xs \<Longrightarrow> x \<le> foldr max xs (0 :: nat)"
  by (induction xs) auto

lemma foldr_max_in: "foldr max xs (0 :: nat) \<in> insert 0 (set xs)"
  by (induction xs) (auto simp: max_def)

lemma next_number_above: "n \<in> set (held_numbers c) \<union> set (retired_all c) \<Longrightarrow> n < next_number c"
  unfolding next_number_def using foldr_max_ge [of n "held_numbers c @ retired_all c"] by auto

lemma next_number_mono:
  assumes "set (held_numbers c) \<union> set (retired_all c) \<subseteq> set (held_numbers d) \<union> set (retired_all d)"
  shows "next_number c \<le> next_number d"
proof -
  have "foldr max (held_numbers c @ retired_all c) 0 < next_number d"
    using foldr_max_in [of "held_numbers c @ retired_all c"] assms
      next_number_above [of "foldr max (held_numbers c @ retired_all c) 0" d]
    by (auto simp: next_number_def)
  then show ?thesis by (simp add: next_number_def)
qed

lemma set_first_other: "m \<in> set ms \<Longrightarrow> mb_handle m \<noteq> h \<Longrightarrow> m \<in> set (set_first h v ms)"
  by (induction ms) auto

lemma set_first_retired:
  "m \<in> set ms \<Longrightarrow> \<exists>d \<in> set (set_first h v ms). mb_handle d = mb_handle m \<and> mb_retired d = mb_retired m"
  by (induction ms) auto

lemma edited_keeps_retired:
  "m \<in> set ms \<Longrightarrow> Leave (mb_handle m) \<notin> set es \<Longrightarrow>
     \<exists>d \<in> set (edited es ms). mb_handle d = mb_handle m \<and> mb_retired d = mb_retired m"
proof (induction es ms arbitrary: m rule: edited.induct)
  case (3 h v es ms)
  obtain d where d: "d \<in> set (set_first h v ms)" "mb_handle d = mb_handle m" "mb_retired d = mb_retired m"
    using set_first_retired [OF "3.prems"(1)] by blast
  then show ?case using "3.IH" [of d] "3.prems"(2) by auto
qed auto

lemma accepted_keeps_retired:
  assumes "refuses_numbering before es = None" and "\<not> kept_by before es" and "numbers_ok before"
  shows "set (retired_all before) \<subseteq> set (retired_all (after_edits before es))"
proof
  fix n assume "n \<in> set (retired_all before)"
  then obtain m where m: "m \<in> set (nb_members before)" "n \<in> set (mb_retired m)"
    by (auto simp: retired_all_set)
  show "n \<in> set (retired_all (after_edits before es))"
  proof (cases "Leave (mb_handle m) \<in> set es")
    case False
    then obtain d where "d \<in> set (edited es (nb_members before))" "mb_retired d = mb_retired m"
      using edited_keeps_retired [OF m(1) False] by blast
    then have "n \<in> (\<Union>m \<in> set (edited es (nb_members before)). set (mb_retired m))"
      by (intro UN_I [of d]) (simp_all add: m(2))
    then show ?thesis by (simp only: retired_all_set after_edits_simps)
  next
    case True
    have "record_lost_by before (after_edits before es) (Leave (mb_handle m)) = None"
      by (rule accepted_edits(5) [OF assms(1,2) True])
    then show ?thesis
      using member_at_distinct [OF numbers_ok_distinct [OF assms(3)] m(1)] m(2)
      by (auto simp: record_lost_by_def find_None_iff)
  qed
qed

text \<open>
  C34: A number is never reused: edits that a collection lets through, and that set no value on a
  member of it, leave every number it issued, held or taken back, still issued after them, so the
  next number it offers never falls, and what it offers afterwards is none it ever issued.
\<close>

theorem issued_numbers_stay_issued:
  assumes "refuses_numbering before es = None" and "\<not> kept_by before es" and "numbers_ok before"
  shows "set (held_numbers before) \<union> set (retired_all before)
      \<subseteq> set (held_numbers (after_edits before es)) \<union> set (retired_all (after_edits before es)) \<and>
    next_number before \<le> next_number (after_edits before es) \<and>
    next_number (after_edits before es) \<notin> set (held_numbers before) \<union> set (retired_all before)"
proof -
  have issued: "set (held_numbers before) \<union> set (retired_all before)
      \<subseteq> set (held_numbers (after_edits before es)) \<union> set (retired_all (after_edits before es))"
    using accepted_keeps_held [OF assms(1)] accepted_keeps_retired [OF assms] by blast
  then show ?thesis using next_number_mono [OF issued] next_number_above by blast
qed

theorem issued_numbers_stay_issued_witness:
  "set (held_numbers two_rules) \<union> set (retired_all two_rules)
      \<subseteq> set (held_numbers (after_edits two_rules [Set_to ''note:c'' (Some ''3'')]))
        \<union> set (retired_all (after_edits two_rules [Set_to ''note:c'' (Some ''3'')])) \<and>
    next_number two_rules \<le> next_number (after_edits two_rules [Set_to ''note:c'' (Some ''3'')]) \<and>
    next_number (after_edits two_rules [Set_to ''note:c'' (Some ''3'')])
      \<notin> set (held_numbers two_rules) \<union> set (retired_all two_rules)"
  by (rule issued_numbers_stay_issued [OF _ _ two_rules_ok]) (simp_all add: number_reads)

text \<open>
  The number a collection offers as its next is a number it accepts: a member that holds none,
  or a thing that is no member yet, may take it, while it is below the largest number a machine
  holds.
\<close>

theorem next_number_is_accepted:
  assumes "numbers_ok c" and "number_at c h = None" and "next_number c < usize_max"
  shows "refuses_numbering c [Set_to h (Some (show_nat (next_number c)))] = None"
proof -
  let ?n = "next_number c"
  let ?es = "[Set_to h (Some (show_nat ?n))]"
  let ?now = "after_edits c ?es"
  have read: "whole_number (show_nat ?n) = Some ?n"
    using assms(3) by (intro whole_number_show_nat) (simp_all add: next_number_def)
  have dist: "distinct (map mb_handle (nb_members ?now))"
    using numbers_ok_distinct [OF assms(1)] by (simp add: distinct_set_first)
  have "h \<in> mb_handle ` set (nb_members ?now)" by (simp add: set_first_handles)
  then obtain m where m: "m \<in> set (nb_members ?now)" "mb_handle m = h" by auto
  have "rival_of ?now [h] h (the (number_at ?now h)) = None" if "number_at ?now h = Some ?n"
  proof -
    have "number_of d \<noteq> Some ?n" if "d \<in> set (nb_members c)" for d
      using that next_number_above [of ?n c] by (auto simp: held_numbers_def map_filter_set)
    then show ?thesis using that set_first_member
      by (fastforce simp: rival_of_None)
  qed
  moreover have "number_at ?now h = Some ?n"
  proof -
    have "member_at (set_first h v ms) h \<noteq> None \<and> (\<forall>d. member_at (set_first h v ms) h = Some d \<longrightarrow> mb_value d = v)"
      for v ms unfolding member_at_def by (induction ms) auto
    from this [of "Some (show_nat ?n)" "nb_members c"] show ?thesis
      using read by (auto simp: number_at_def number_of_def)
  qed
  ultimately have "taken_by ?now [h] h = None" by (simp add: taken_by_def)
  moreover have "retaken_by c ?now h = None"
    using \<open>number_at ?now h = Some ?n\<close> next_number_above [of ?n c] by (auto simp: retaken_by_def)
  moreover have "freed_by c ?now d = None" if "d \<in> set (nb_members c)" for d
  proof (cases "number_of d")
    case (Some n)
    then have "mb_handle d \<noteq> h"
      using number_at_distinct [OF numbers_ok_distinct [OF assms(1)] that] assms(2) by auto
    then have "d \<in> set (nb_members ?now)" using set_first_other [OF that] by simp
    then have "holder_of ?now n \<noteq> None"
      using Some unfolding holder_of_None by (auto simp: held_numbers_def map_filter_set simp del: after_edits_simps)
    then show ?thesis using Some by (simp add: freed_by_def)
  qed (simp add: freed_by_def)
  ultimately show ?thesis
    using read
    by (simp add: refuses_numbering_def Let_def bad_value_def numbering_simps ascending_def record_lost_by_def)
qed

theorem next_number_is_accepted_witness:
  "refuses_numbering two_rules [Set_to ''note:b'' (Some (show_nat (next_number two_rules)))] = None"
  by (rule next_number_is_accepted [OF two_rules_ok]) (simp_all add: number_reads usize_max_def)


section \<open>Collections made and collections reached\<close>

lemma founding_members:
  assumes "founding_refuses \<lparr>fo_old = old, fo_new = Some c\<rparr> = None" and "m \<in> set (nb_members c)"
  shows "mb_value m = None \<or> (number_of m \<noteq> None \<and> \<not> holds_twice c m)"
proof -
  have "unfit_members c = []"
    using assms(1) unfolding founding_refuses_def or_else_None founding.simps
    by (simp only: option.case option.distinct simp_thms split: if_split_asm)
  then have "set (unfit_members c) = {}" by simp
  then have "{m \<in> set (nb_members c). mb_value m \<noteq> None \<and> (number_of m = None \<or> holds_twice c m)} = {}"
    unfolding unfit_members_def set_sort set_map set_filter by (simp only: image_is_empty)
  then have "\<forall>m. \<not> (m \<in> set (nb_members c) \<and> mb_value m \<noteq> None \<and> (number_of m = None \<or> holds_twice c m))"
    by (simp only: Collect_empty_eq) simp
  from spec [OF this, of m] show ?thesis using assms(2) by (simp only: de_Morgan_conj de_Morgan_disj not_not simp_thms)
qed

lemma founding_numbers_ok:
  assumes "founding_refuses \<lparr>fo_old = old, fo_new = Some c\<rparr> = None"
    and "distinct (map mb_handle (nb_members c))"
  shows "numbers_ok c"
proof -
  have "mb_handle m = mb_handle d"
    if "m \<in> set (nb_members c)" "d \<in> set (nb_members c)" "number_of m = Some n" "number_of d = Some n"
    for m d n
  proof -
    have "\<not> holds_twice c m"
      using founding_members [OF assms(1) that(1)] that(3) by (auto simp: number_of_def)
    then show ?thesis using that by (auto simp: holds_twice_def)
  qed
  moreover have "number_of m \<noteq> None" if "m \<in> set (nb_members c)" "mb_value m \<noteq> None" for m
    using founding_members [OF assms(1) that(1)] that(2) by blast
  ultimately show ?thesis using assms(2) unfolding numbers_ok_def by (metis option.exhaust)
qed

lemma numbered_by_distinct: "distinct (map mb_handle (nb_members (numbered_by c k entities fs r)))"
  by (simp add: numbered_by_def Let_def o_def descendants_def below_distinct)

text \<open>
  A thing that a write makes a collection starts with the promise kept: when the founding is
  not refused, every member that holds a value under the key holds one whole number, no two the
  same, and no number was held under the key it numbered by before.
\<close>

theorem founded_collection_ok:
  assumes "founding_refuses \<lparr>fo_old = old, fo_new = Some (numbered_by c k entities fs r)\<rparr> = None"
  shows "numbers_ok (numbered_by c k entities fs r) \<and> set (case old of None \<Rightarrow> [] | Some d \<Rightarrow> held_numbers d) = {}"
proof -
  have "held_numbers d = []" if "old = Some d" for d
  proof -
    have "sort_key mb_handle (filter (\<lambda>m. number_of m \<noteq> None) (nb_members d)) = []"
      using assms that unfolding founding_refuses_def or_else_None founding.simps
      by (simp only: option.case list.case option.distinct simp_thms split: list.split_asm)
    then have "set (sort_key mb_handle (filter (\<lambda>m. number_of m \<noteq> None) (nb_members d))) = {}" by simp
    then have "set (held_numbers d) = {}"
      unfolding set_sort set_filter held_numbers_def map_filter_set by fastforce
    then show ?thesis by simp
  qed
  then show ?thesis
    using founding_numbers_ok [OF assms numbered_by_distinct] by (simp split: option.split)
qed

lemma add_scope_in: "c \<in> set cs \<Longrightarrow> c \<in> set (foldl add_scope cs ds)"
  by (induction ds arbitrary: cs) (auto simp: add_scope_def)

lemma add_scope_names:
  "nb_collection ` set (foldl add_scope cs ds) = nb_collection ` set cs \<union> nb_collection ` set ds"
  by (induction ds arbitrary: cs) (auto simp: add_scope_def image_iff)

lemma add_scope_from: "set (foldl add_scope cs ds) \<subseteq> set cs \<union> set ds"
proof (induction ds arbitrary: cs)
  case (Cons d ds)
  from Cons [of "add_scope cs d"] show ?case by (auto simp: add_scope_def split: if_splits)
qed simp

lemma collection_of_self: "collection_of i entities fs r = Some c \<Longrightarrow> nb_collection c = i"
  by (auto simp: collection_of_def numbered_by_def Let_def)

lemma collection_of_own:
  "c \<in> set (case collection_of i entities fs r of None \<Rightarrow> [] | Some d \<Rightarrow> [d]) \<Longrightarrow>
     collection_of (nb_collection c) entities fs r = Some c"
  by (cases "collection_of i entities fs r") (simp_all add: collection_of_self)

lemma scopes_loop_collection:
  "c \<in> set (scopes_loop entities fs r seen here) \<Longrightarrow> collection_of (nb_collection c) entities fs r = Some c"
proof (induction entities fs r seen here rule: scopes_loop.induct)
  case (2 entities fs r seen a)
  have "a \<notin> set seen" using "2.prems" by (auto simp: scopes_loop.simps)
  then have "c \<in> set (case collection_of a entities fs r of None \<Rightarrow> [] | Some d \<Rightarrow> [d]) \<or>
      c \<in> set (scopes_loop entities fs r (a # seen) (parent_in entities a))"
    using "2.prems" by (simp add: scopes_loop.simps(2) [of entities fs r seen a])
  then show ?case using "2.IH" [OF \<open>a \<notin> set seen\<close>] collection_of_own by blast
qed (simp add: scopes_loop.simps)

lemma reach_scope_collection:
  assumes "c \<in> set (re_scopes (reach_of w into entities fs r))"
  shows "collection_of (nb_collection c) entities fs r = Some c"
proof -
  let ?all = "concat (map (\<lambda>h. scopes_of h entities fs r) (touched w))"
  let ?above = "case into of None \<Rightarrow> []
    | Some p \<Rightarrow> (case collection_of p entities fs r of None \<Rightarrow> [] | Some c \<Rightarrow> [c]) @ scopes_of p entities fs r"
  have "set (re_scopes (reach_of w into entities fs r)) \<subseteq> set ?all \<union> set ?above"
    using add_scope_from [of "foldl add_scope [] ?all" ?above] add_scope_from [of "[]" ?all]
    by (auto simp: reach_of_def Let_def)
  then have "c \<in> set ?all \<union> set ?above" using assms by blast
  then consider (all) h where "c \<in> set (scopes_of h entities fs r)"
    | (own) p where "c \<in> set (case collection_of p entities fs r of None \<Rightarrow> [] | Some d \<Rightarrow> [d])"
  proof (cases into)
    case None
    then show ?thesis using \<open>c \<in> set ?all \<union> set ?above\<close> all by auto
  next
    case (Some p)
    then have "c \<in> set ?all \<or> c \<in> set (case collection_of p entities fs r of None \<Rightarrow> [] | Some d \<Rightarrow> [d])
        \<or> c \<in> set (scopes_of p entities fs r)"
      using \<open>c \<in> set ?all \<union> set ?above\<close> by (simp only: option.case set_append Un_iff)
    then show ?thesis using all own by (auto simp only: set_concat set_map)
  qed
  then show ?thesis
  proof cases
    case all
    then show ?thesis unfolding scopes_of_def by (rule scopes_loop_collection)
  qed (rule collection_of_own)
qed

lemma scopes_in_reach:
  assumes "h \<in> set (touched w)" and "c \<in> set (scopes_of h entities fs r)"
  shows "c \<in> set (re_scopes (reach_of w into entities fs r))"
proof -
  have "nb_collection c \<in> nb_collection ` set (re_scopes (reach_of w into entities fs r))"
    using assms by (auto simp: reach_of_def Let_def add_scope_names image_Un)
  then obtain d where d: "d \<in> set (re_scopes (reach_of w into entities fs r))" "nb_collection d = nb_collection c"
    by auto
  have "collection_of (nb_collection c) entities fs r = Some c"
    using assms(2) unfolding scopes_of_def by (rule scopes_loop_collection)
  then have "c = d" using reach_scope_collection [OF d(1)] d(2) by simp
  then show ?thesis using d(1) by simp
qed

text \<open>
  A write is judged on every collection above a thing it touches: when the whole reach of the
  write refuses nothing, each such collection whose members kept the promise keeps it through the
  edits the write makes to it, and still holds every number it held (a collection that the write
  itself moves is moved with its members and is not edited).
\<close>

theorem accepted_write_keeps_every_collection:
  assumes "reach_refuses (reach_of w into entities fs r) w = None"
    and "h \<in> set (touched w)" and "c \<in> set (scopes_of h entities fs r)"
    and "nb_collection c \<notin> fst ` set (ch_moved w)" and "numbers_ok c"
  shows "numbers_ok (after_edits c (edits_for c w (nb_collection c \<in> set (re_chain (reach_of w into entities fs r))))) \<and>
    set (held_numbers c) \<subseteq> set (held_numbers
      (after_edits c (edits_for c w (nb_collection c \<in> set (re_chain (reach_of w into entities fs r))))))"
proof -
  have "refuses_numbering c (edits_for c w (nb_collection c \<in> set (re_chain (reach_of w into entities fs r)))) = None"
    using assms(1,4) scopes_in_reach [OF assms(2,3), of into]
    by (auto simp: reach_refuses_def numbering_simps)
  then show ?thesis using accepted_numbers_ok accepted_keeps_held assms(5) by blast
qed

section \<open>A number names its holder\<close>

lemma digits_no_slash: "CHR ''/'' \<notin> set (show_nat n)"
  using show_nat_digits [of n] by (auto simp: list_all_iff is_digit_def)

lemma show_nat_inj: "show_nat m = show_nat n \<Longrightarrow> m = n"
  by (metis dec_value_show_nat)

lemma handle_for_inj:
  assumes "c @ ''/'' @ show_nat m = d @ ''/'' @ show_nat n"
  shows "c = d \<and> m = n"
proof -
  have "rsplit_once CHR ''/'' (c @ ''/'' @ show_nat m) = Some (c, show_nat m)" for c m
    using digits_no_slash [of m] by (simp add: rsplit_once_Some)
  then show ?thesis using assms show_nat_inj by (metis option.inject prod.inject)
qed

lemma numbered_handle_for:
  assumes "CHR '':'' \<in> set c" and "0 < n" "n < usize_max"
  shows "numbered_handle (c @ ''/'' @ show_nat n) = Some (c, n)"
proof -
  have "rsplit_once CHR ''/'' (c @ ''/'' @ show_nat n) = Some (c, show_nat n)"
    using digits_no_slash [of n] by (simp add: rsplit_once_Some)
  then show ?thesis using assms whole_number_show_nat by (simp add: numbered_handle_def)
qed

lemma whole_number_bounds: "whole_number raw = Some n \<Longrightarrow> 0 < n \<and> n < usize_max"
  by (auto simp: whole_number_def Let_def split: if_splits option.splits)

lemma holder_of_Some: "holder_of c n = Some m \<Longrightarrow> m \<in> set (nb_members c) \<and> number_of m = Some n"
  by (auto simp: holder_of_def dest: find_SomeD)


definition shelf_row :: "string \<Rightarrow> string option \<Rightarrow> string \<Rightarrow> entity" where
  "shelf_row i parent badge = \<lparr>en_id = i, en_merged_into = None, en_kind = [], en_name = i, en_aliases = [],
     en_folded_names = [], en_source = [], en_crm = None, en_parent = parent, en_boot = OnDemand,
     en_badge = Some badge, en_archived = None\<rparr>"

definition shelf :: "entity list" where
  "shelf = [shelf_row ''topic:r'' None ''q1'', shelf_row ''note:a'' (Some ''topic:r'') ''q2'']"

definition shelf_fields :: all_fields where
  "shelf_fields = [(''note:a'', [(''rule'', ''1'')]), (''topic:r'', [(''numbers_by'', ''rule'')])]"

lemma shelf_below: "descendants ''topic:r'' shelf = [shelf_row ''note:a'' (Some ''topic:r'') ''q2'']"
  by (simp add: descendants_def below_def below_loop.simps shelf_def shelf_row_def sits_under_def)

lemma trim_key: "trim ''rule'' = ''rule''"
  by (rule trim_printable) (auto simp: printable_def)

lemma shelf_collection:
  "collection_of ''topic:r'' shelf shelf_fields no_retired =
     Some \<lparr>nb_collection = ''topic:r'', nb_key = ''rule'',
           nb_members = [\<lparr>mb_handle = ''note:a'', mb_value = Some ''1'', mb_retired = []\<rparr>]\<rparr>"
  by (simp add: collection_of_def numbered_by_def shelf_below shelf_fields_def bt_get_def NUMBERS_BY_def
      key_of_fields_def trim_key issued_here_def no_retired_def ascending_def shelf_row_def)

lemma shelf_founding:
  "founding_refuses \<lparr>fo_old = None,
      fo_new = Some (numbered_by ''topic:r'' ''rule'' shelf shelf_fields no_retired)\<rparr> = None"
  by (simp add: founding_refuses_def or_else_def unfit_members_def numbered_by_def shelf_below shelf_fields_def
      bt_get_def issued_here_def no_retired_def ascending_def shelf_row_def holds_twice_def number_reads)

theorem founded_collection_ok_witness:
  "numbers_ok (numbered_by ''topic:r'' ''rule'' shelf shelf_fields no_retired) \<and>
   set (case None :: numbered option of None \<Rightarrow> [] | Some d \<Rightarrow> held_numbers d) = {}"
  by (rule founded_collection_ok [OF shelf_founding])

definition same_again :: change where
  "same_again = \<lparr>ch_holds = [(''note:a'', [(''rule'', ''1'')])], ch_leaves = [], ch_moved = [], ch_blank = []\<rparr>"

lemma shelf_scopes:
  "scopes_of ''note:a'' shelf shelf_fields no_retired =
     [\<lparr>nb_collection = ''topic:r'', nb_key = ''rule'',
       nb_members = [\<lparr>mb_handle = ''note:a'', mb_value = Some ''1'', mb_retired = []\<rparr>]\<rparr>]"
  by (simp add: scopes_of_def scopes_loop.simps shelf_collection)
    (simp add: parent_in_def shelf_def shelf_row_def scopes_loop.simps shelf_collection
      [unfolded shelf_def shelf_row_def])

lemma same_again_accepted:
  "reach_refuses (reach_of same_again None shelf shelf_fields no_retired) same_again = None"
  by (simp add: reach_refuses_def reach_of_def touched_def founds_def founding_of_def numbering_change_def
      key_of_fields_def NUMBERS_BY_def bt_get_def shelf_fields_def [symmetric] same_again_def shelf_scopes add_scope_def edits_for_def
      number_reads)
   (simp add: shelf_fields_def bt_get_def key_of_fields_def NUMBERS_BY_def or_else_def map_filter_simps)

theorem accepted_write_keeps_every_collection_witness:
  "numbers_ok (after_edits (hd (scopes_of ''note:a'' shelf shelf_fields no_retired))
     (edits_for (hd (scopes_of ''note:a'' shelf shelf_fields no_retired)) same_again
        (nb_collection (hd (scopes_of ''note:a'' shelf shelf_fields no_retired))
           \<in> set (re_chain (reach_of same_again None shelf shelf_fields no_retired))))) \<and>
   set (held_numbers (hd (scopes_of ''note:a'' shelf shelf_fields no_retired))) \<subseteq> set (held_numbers
     (after_edits (hd (scopes_of ''note:a'' shelf shelf_fields no_retired))
       (edits_for (hd (scopes_of ''note:a'' shelf shelf_fields no_retired)) same_again
          (nb_collection (hd (scopes_of ''note:a'' shelf shelf_fields no_retired))
             \<in> set (re_chain (reach_of same_again None shelf shelf_fields no_retired))))))"
  by (rule accepted_write_keeps_every_collection [OF same_again_accepted, of "''note:a''"])
    (simp_all add: touched_def same_again_def shelf_scopes numbers_ok_def number_of_def whole_number_digits)

section \<open>A handle that ends in a number\<close>

lemma derived_former_handle: "derived_former entities c h = Some f \<Longrightarrow> fh_former f = h"
  by (auto simp: derived_former_def bind_eq_Some_conv)

lemma held_numbers_bounds: "n \<in> set (held_numbers c) \<Longrightarrow> 0 < n \<and> n < usize_max"
  by (auto simp: held_numbers_def map_filter_set number_of_def bind_eq_Some_conv dest: whole_number_bounds)

lemma derived_formers_iff:
  "f \<in> set (derived_formers entities fs) \<longleftrightarrow>
     (\<exists>e \<in> set entities. \<exists>c. collection_of (en_id e) entities fs no_retired = Some c \<and>
        (\<exists>n \<in> set (held_numbers c). derived_former entities c (handle_for c n) = Some f))"
proof -
  have "f \<in> set (case X of None \<Rightarrow> [] | Some c \<Rightarrow> List.map_filter (derived_former entities c) (handles c)) \<longleftrightarrow>
      (\<exists>c. X = Some c \<and> (\<exists>n \<in> set (held_numbers c). derived_former entities c (handle_for c n) = Some f))"
    for X by (cases X) (auto simp: handles_def map_filter_set)
  then show ?thesis by (simp add: derived_formers_def)
qed

text \<open>The former handles of one numbered handle all lead to the badge of the number's holder.\<close>

lemma derived_former_badge:
  assumes "f \<in> set (derived_formers entities fs)" and "fh_former f = i @ ''/'' @ show_nat n"
    and "CHR '':'' \<in> set i" and "collection_of i entities fs no_retired = Some c"
    and "holder_of c n = Some m" and "find (\<lambda>e. en_id e = mb_handle m) entities = Some e"
  shows "Some (fh_badge f) = en_badge e"
proof -
  obtain e0 :: entity and d k where e0: "collection_of (en_id e0) entities fs no_retired = Some d"
    and "k \<in> set (held_numbers d)" "derived_former entities d (handle_for d k) = Some f"
    using assms(1) [unfolded derived_formers_iff] by blast
  then have d: "collection_of (nb_collection d) entities fs no_retired = Some d"
    "k \<in> set (held_numbers d)" "derived_former entities d (handle_for d k) = Some f"
    using collection_of_self [OF e0] by simp_all
  have "nb_collection d = i \<and> k = n"
    using derived_former_handle [OF d(3)] assms(2) by (intro handle_for_inj) (simp add: handle_for_def)
  then have "d = c" "k = n" "numbered_handle (handle_for d k) = Some (i, n)"
    using d assms(3,4) held_numbers_bounds [OF d(2)] numbered_handle_for [of i n]
    by (auto simp: handle_for_def)
  then show ?thesis using d(3) assms(5,6) by (auto simp: derived_former_def bind_eq_Some_conv)
qed

lemma derived_former_exists:
  assumes "CHR '':'' \<in> set i" and "collection_of i entities fs no_retired = Some c"
    and "i \<in> en_id ` set entities"
    and "holder_of c n = Some m" and "find (\<lambda>e. en_id e = mb_handle m) entities = Some e"
    and "en_badge e = Some b"
  shows "\<exists>f \<in> set (derived_formers entities fs). fh_former f = i @ ''/'' @ show_nat n"
proof -
  have n: "n \<in> set (held_numbers c)"
    using holder_of_Some [OF assms(4)] by (auto simp: held_numbers_def map_filter_set)
  have "derived_former entities c (handle_for c n) =
      Some \<lparr>fh_former = handle_for c n, fh_badge = b, fh_changed_at = NUMBERED_DAY\<rparr>"
    using numbered_handle_for [OF assms(1), of n] held_numbers_bounds [OF n]
      collection_of_self [OF assms(2)] assms(4-6) by (simp add: derived_former_def handle_for_def)
  moreover obtain e' where "e' \<in> set entities" "en_id e' = i" using assms(3) by auto
  ultimately have "\<lparr>fh_former = handle_for c n, fh_badge = b, fh_changed_at = NUMBERED_DAY\<rparr>
      \<in> set (derived_formers entities fs)"
    unfolding derived_formers_iff using n assms(2) by blast
  then show ?thesis using collection_of_self [OF assms(2)]
    by (intro bexI) (auto simp: handle_for_def)
qed

text \<open>
  A handle that ends in a number names the member that holds it: where a thing numbers its
  members and a member holds the number, and no thing bears the numbered handle itself, resolving
  the numbered handle through the handles the numbers make finds that member's row.
\<close>

theorem number_names_its_holder:
  assumes "CHR '':'' \<in> set i" and "collection_of i entities fs no_retired = Some c"
    and "i \<in> en_id ` set entities" and "i @ ''/'' @ show_nat n \<notin> en_id ` set entities"
    and "holder_of c n = Some m" and "find (\<lambda>e. en_id e = mb_handle m) entities = Some e"
    and "en_badge e = Some b" and "find (\<lambda>e. en_badge e = Some b) entities = Some e"
  shows "resolve_handle (i @ ''/'' @ show_nat n) entities (derived_formers entities fs) = Some e"
proof -
  let ?h = "i @ ''/'' @ show_nat n"
  let ?formers = "derived_formers entities fs"
  obtain f where f: "find (\<lambda>f. fh_former f = ?h) ?formers = Some f"
    using derived_former_exists [OF assms(1-3,5-7)]
    by (cases "find (\<lambda>f. fh_former f = ?h) ?formers") (auto simp: find_None_iff)
  then have "f \<in> set ?formers" "fh_former f = ?h" by (auto dest: find_SomeD)
  then have "fh_badge f = b" using derived_former_badge [OF _ _ assms(1,2,5,6)] assms(7) by fastforce
  moreover have "en_id x \<noteq> ?h" if "x \<in> set entities" for x
  proof
    assume "en_id x = ?h"
    then show False using assms(4) imageI [OF that, of en_id] by simp
  qed
  then have "find (\<lambda>e. en_id e = ?h) entities = None" unfolding find_None_iff by simp
  ultimately have "flat_lookup entities ?formers ?h = Some e"
    using f assms(8) by (simp add: flat_lookup_def)
  then show ?thesis by (simp add: resolve_handle_def resolve_walk.simps)
qed

theorem number_names_its_holder_witness:
  "resolve_handle (''topic:r'' @ ''/'' @ show_nat 1) shelf (derived_formers shelf shelf_fields) =
     Some (shelf_row ''note:a'' (Some ''topic:r'') ''q2'')"
  by (rule number_names_its_holder [OF _ shelf_collection,
        where m = "\<lparr>mb_handle = ''note:a'', mb_value = Some ''1'', mb_retired = []\<rparr>" and b = "''q2''"])
    (simp_all add: shelf_def shelf_row_def holder_of_def number_of_def whole_number_digits
      show_nat.simps digit_char_def)

end
