(* ===== verification/Merging.thy ===== *)
theory Merging
  imports Chart Rooms Numbering
begin

text \<open>
  Merges (\<open>memory/merge.rs\<close>): what the two sides of a fold earn, the guards in their one order over
  what a store reads, and the one rule by which the writes of a folded thing are placed among the
  survivor's. A store's read that fails refuses the fold before any of this decides; that path is
  not modelled.
\<close>

section \<open>The two sides\<close>

datatype side_refusal =
    Side_Missing entity_id
  | Side_Already_Merged entity_id entity_id
  | Side_Merge_Into_Descendant entity_id entity_id

fun first_side :: "entity list \<Rightarrow> entity_id list \<Rightarrow> side_refusal option" where
  "first_side rows [] = None"
| "first_side rows (s # sides) =
     (case find (\<lambda>r. en_id r = s) rows of
        None \<Rightarrow> Some (Side_Missing s)
      | Some held \<Rightarrow>
          (case en_merged_into held of
             Some i \<Rightarrow> Some (Side_Already_Merged s i)
           | None \<Rightarrow> first_side rows sides))"

definition refuses_merge_sides :: "entity_id \<Rightarrow> entity_id \<Rightarrow> entity list \<Rightarrow> side_refusal option" where
  "refuses_merge_sides gone survivor rows =
     or_else (first_side rows [gone, survivor])
       (if list_ex (\<lambda>r. en_id r = survivor) (descendants gone rows)
        then Some (Side_Merge_Into_Descendant gone survivor) else None)"

section \<open>The guards\<close>

record survivor_room =
  sr_claims :: "fact list"
  sr_held :: fields

record merge_reads =
  mr_carried :: fields
  mr_written_keys :: "string list"
  mr_lineage :: "entity_id option \<Rightarrow> lineage"
  mr_lineage_of :: "entity_id \<Rightarrow> lineage"
  mr_above_survivor :: "entity_id list"
  mr_incoming :: "fact list"
  mr_room :: survivor_room



definition judged_keys :: "merge_reads \<Rightarrow> fields" where
  "judged_keys r =
     foldl (\<lambda>m k. if has_key m k then m else bt_insert k ''-'' m) (mr_carried r) (mr_written_keys r)"





section \<open>Writes of a folded thing among the survivor's\<close>

text \<open>The interface of a write that a read can place (\<open>ServedWrite\<close>), as its operations.\<close>

record 'w served_write =
  sw_key :: "'w \<Rightarrow> string"
  sw_ordinal :: "'w \<Rightarrow> int"
  sw_moment :: "'w \<Rightarrow> int option"
  sw_fact :: "'w \<Rightarrow> string"
  sw_place :: "int \<Rightarrow> string option \<Rightarrow> 'w \<Rightarrow> 'w"

datatype side = OfFolded | OfSurvivor

fun interleave :: "('w \<Rightarrow> int option) \<Rightarrow> 'w list \<Rightarrow> 'w list \<Rightarrow> (side \<times> 'w) list" where
  "interleave mo (t # ts) (u # us) =
     (if mo t \<le> mo u then (OfFolded, t) # interleave mo ts (u # us)
      else (OfSurvivor, u) # interleave mo (t # ts) us)"
| "interleave mo [] (u # us) = (OfSurvivor, u) # interleave mo [] us"
| "interleave mo (t # ts) [] = (OfFolded, t) # interleave mo ts []"
| "interleave mo [] [] = []"

definition placed :: "'w served_write \<Rightarrow> (string \<rightharpoonup> string) \<Rightarrow> nat \<times> side \<times> 'w \<Rightarrow> 'w" where
  "placed S claims = (\<lambda>(n, s, w).
     sw_place S (int n + 1) (if s = OfFolded then claims (sw_fact S w) else None) w)"

definition of_key :: "'w served_write \<Rightarrow> string \<Rightarrow> 'w list \<Rightarrow> 'w list" where
  "of_key S k ws = sort_key (sw_ordinal S) (filter (\<lambda>w. sw_key S w = k) ws)"

definition merge_key :: "'w served_write \<Rightarrow> (string \<rightharpoonup> string) \<Rightarrow> 'w list \<Rightarrow> 'w list \<Rightarrow> 'w list" where
  "merge_key S claims ours theirs =
     (if theirs = [] then ours
      else map (placed S claims) (enumerate 0 (interleave (sw_moment S) theirs ours)))"

definition mapped_claims :: "'w served_write \<Rightarrow> (string \<rightharpoonup> string) \<Rightarrow> 'w list \<Rightarrow> 'w list" where
  "mapped_claims S claims theirs = filter (\<lambda>w. claims (sw_fact S w) \<noteq> None) theirs"

definition merge_in :: "'w served_write \<Rightarrow> 'w list \<Rightarrow> 'w list \<Rightarrow> (string \<rightharpoonup> string) \<Rightarrow> 'w list" where
  "merge_in S ours theirs claims =
     (let mapped = mapped_claims S claims theirs
      in concat (map (\<lambda>k. merge_key S claims (of_key S k ours) (of_key S k mapped))
           (ascending (map (sw_key S) (mapped @ ours)))))"

record merge_step =
  ms_merge_no :: int
  ms_folded :: string
  ms_survivor :: string
  ms_claims :: "string \<rightharpoonup> string"

definition apply_merge :: "'w served_write \<Rightarrow> (string \<rightharpoonup> 'w list) \<Rightarrow> merge_step \<Rightarrow> (string \<rightharpoonup> 'w list)" where
  "apply_merge S held step =
     (let theirs = (case held (ms_folded step) of None \<Rightarrow> [] | Some ws \<Rightarrow> ws);
          rest = held(ms_folded step := None);
          ours = (case rest (ms_survivor step) of None \<Rightarrow> [] | Some ws \<Rightarrow> ws)
      in rest(ms_survivor step \<mapsto> merge_in S ours theirs (ms_claims step)))"

definition apply_merges ::
  "'w served_write \<Rightarrow> (string \<rightharpoonup> 'w list) \<Rightarrow> merge_step list \<Rightarrow> (string \<rightharpoonup> 'w list)" where
  "apply_merges S held steps = foldl (apply_merge S) held steps"

definition key_write_served :: "key_write served_write" where
  "key_write_served =
     \<lparr>sw_key = kw_key, sw_ordinal = (\<lambda>w. int (kw_ordinal w)), sw_moment = kw_written_at, sw_fact = kw_fact,
      sw_place = (\<lambda>n f w. w\<lparr>kw_ordinal := nat n,
                             kw_fact := (case f of None \<Rightarrow> kw_fact w | Some i \<Rightarrow> i)\<rparr>)\<rparr>"


section \<open>The interleave\<close>

lemma interleave_sides:
  "map snd (filter (\<lambda>(s, w). s = OfFolded) (interleave mo ts us)) = ts"
  "map snd (filter (\<lambda>(s, w). s = OfSurvivor) (interleave mo ts us)) = us"
  by (induction mo ts us rule: interleave.induct) simp_all

lemma interleave_set: "set (map snd (interleave mo ts us)) = set ts \<union> set us"
  by (induction mo ts us rule: interleave.induct) auto

lemma interleave_sorted:
  "sorted (map mo ts) \<Longrightarrow> sorted (map mo us) \<Longrightarrow> sorted (map mo (map snd (interleave mo ts us)))"
proof (induction mo ts us rule: interleave.induct)
  case (1 mo t ts u us)
  have least: "\<And>x. x \<in> set ts \<Longrightarrow> mo t \<le> mo x" "\<And>x. x \<in> set us \<Longrightarrow> mo u \<le> mo x"
    using "1.prems" by auto
  show ?case
  proof (cases "mo t \<le> mo u")
    case True
    have "mo t \<le> mo x" if "x \<in> set (map snd (interleave mo ts (u # us)))" for x
      using that least True unfolding interleave_set by (auto dest: order_trans)
    then show ?thesis using 1 True by (simp del: map_map)
  next
    case False
    then have "mo u \<le> mo t" by simp
    then have "mo u \<le> mo x" if "x \<in> set (map snd (interleave mo (t # ts) us))" for x
      using that least unfolding interleave_set by (auto dest: order_trans)
    then show ?thesis using 1 False by (simp del: map_map)
  qed
next
  case (2 mo u us)
  have "map snd (interleave mo [] us) = us" for us by (induction us) simp_all
  then show ?case using 2 by (simp del: map_map)
next
  case (3 mo t ts)
  have "map snd (interleave mo ts []) = ts" for ts by (induction ts) simp_all
  then show ?case using 3 by (simp del: map_map)
qed simp

lemma interleave_stable:
  "sorted (map mo ts) \<Longrightarrow> sorted (map mo us) \<Longrightarrow>
   filter (\<lambda>x. k = mo x) (map snd (interleave mo ts us)) = filter (\<lambda>x. k = mo x) (ts @ us)"
proof (induction mo ts us rule: interleave.induct)
  case (1 mo t ts u us)
  show ?case
  proof (cases "mo t \<le> mo u")
    case True
    then show ?thesis using "1.IH"(1) [OF True] "1.prems" by (cases "k = mo t") simp_all
  next
    case False
    then have "filter (\<lambda>x. mo u = mo x) (t # ts) = []"
      using "1.prems"(1) by (auto simp: filter_empty_conv)
    then show ?thesis using 1 False by auto
  qed
qed auto

lemma interleave_is_sort:
  assumes "sorted (map mo ts)" and "sorted (map mo us)"
  shows "map snd (interleave mo ts us) = sort_key mo (ts @ us)"
proof (rule properties_for_sort_key [symmetric])
  show "mset (map snd (interleave mo ts us)) = mset (ts @ us)"
    by (induction mo ts us rule: interleave.induct) simp_all
  show "filter (\<lambda>x. mo k = mo x) (map snd (interleave mo ts us)) = filter (\<lambda>x. mo k = mo x) (ts @ us)"
    for k using assms by (rule interleave_stable)
  show "sorted (map mo (map snd (interleave mo ts us)))" using assms by (rule interleave_sorted)
qed

text \<open>
  The writes of a folded thing and of the survivor are placed with no write lost, made or
  reordered within its side, whatever the clocks say; and where each side's moments never step
  back, the placing is the stable sort by the moment with the folded thing's writes first, so
  that the survivor's write comes after on a tie.
\<close>

theorem interleave_keeps_and_sorts:
  "map snd (filter (\<lambda>(s, w). s = OfFolded) (interleave mo ts us)) = ts \<and>
   map snd (filter (\<lambda>(s, w). s = OfSurvivor) (interleave mo ts us)) = us \<and>
   (\<not> sorted (map mo ts) \<or> \<not> sorted (map mo us) \<or>
     map snd (interleave mo ts us) = sort_key mo (ts @ us))"
  using interleave_sides interleave_is_sort by blast

theorem interleave_keeps_and_sorts_witness:
  "map snd (interleave (\<lambda>w. w) [None, Some 3] [Some (3::int)]) = sort_key (\<lambda>w. w) [None, Some 3, Some 3]"
  using interleave_keeps_and_sorts [of "\<lambda>w. w" "[None, Some 3]" "[Some (3::int)]"] by simp

section \<open>One key of a merge\<close>

locale placeable =
  fixes S :: "'w served_write"
  assumes key_place: "sw_key S (sw_place S n f w) = sw_key S w"
    and ordinal_place: "0 \<le> n \<Longrightarrow> sw_ordinal S (sw_place S n f w) = n"
begin

lemma placed_key: "sw_key S (placed S claims p) = sw_key S (snd (snd p))"
  by (simp add: placed_def key_place split: prod.split)

lemma placed_ordinal: "sw_ordinal S (placed S claims p) = int (fst p) + 1"
  by (simp add: placed_def ordinal_place split: prod.split)

lemma merge_key_keys:
  assumes "\<And>w. w \<in> set us \<union> set ts \<Longrightarrow> sw_key S w = k" and "x \<in> set (merge_key S claims us ts)"
  shows "sw_key S x = k"
proof (cases "ts = []")
  case True
  then show ?thesis using assms by (simp add: merge_key_def)
next
  case False
  then obtain p where p: "p \<in> set (enumerate 0 (interleave (sw_moment S) ts us))" "x = placed S claims p"
    using assms(2) by (auto simp: merge_key_def)
  then have "snd p \<in> set (interleave (sw_moment S) ts us)"
    by (simp add: in_set_enumerate_eq) (metis nth_mem)
  then have "snd (snd p) \<in> set (map snd (interleave (sw_moment S) ts us))" by simp
  then have "snd (snd p) \<in> set us \<union> set ts" unfolding interleave_set by blast
  from assms(1) [OF this] show ?thesis using p(2) by (simp add: placed_key)
qed

lemma of_key_keys: "w \<in> set (of_key S k ws) \<Longrightarrow> sw_key S w = k"
  by (simp add: of_key_def)

lemma merge_in_key:
  "filter (\<lambda>w. sw_key S w = k) (merge_in S ours theirs claims) =
     merge_key S claims (of_key S k ours) (of_key S k (mapped_claims S claims theirs))"
proof -
  let ?mapped = "mapped_claims S claims theirs"
  let ?part = "\<lambda>k. merge_key S claims (of_key S k ours) (of_key S k ?mapped)"
  let ?ks = "ascending (map (sw_key S) (?mapped @ ours))"
  have part: "sw_key S w = j" if "w \<in> set (?part j)" for w j
    by (rule merge_key_keys [OF _ that]) (auto dest: of_key_keys)
  have own: "filter (\<lambda>w. sw_key S w = k) (?part j) = (if j = k then ?part k else [])" for j
  proof (cases "j = k")
    case True
    then show ?thesis using part [of _ k] by (simp add: filter_id_conv)
  next
    case False
    then show ?thesis using part [of _ j] by (simp add: filter_empty_conv)
  qed
  have "concat (map (\<lambda>j. if j = k then ?part k else []) js) = (if k \<in> set js then ?part k else [])"
    if "distinct js" for js
    using that by (induction js) auto
  moreover have "distinct ?ks" by (simp add: ascending_def)
  moreover have "?part k = []" if "k \<notin> set ?ks"
  proof -
    have "of_key S k ours = []" "of_key S k ?mapped = []"
      using that by (auto simp: of_key_def filter_empty_conv image_iff simp flip: set_empty)
    then show ?thesis by (simp add: merge_key_def)
  qed
  ultimately show ?thesis by (simp add: merge_in_def Let_def filter_concat o_def own)
qed

end

interpretation kw: placeable key_write_served
  by unfold_locales (simp_all add: key_write_served_def)

lemma placed_counts: "folds_at_all (placed key_write_served claims p) = folds_at_all (snd (snd p))"
  by (cases p rule: prod_cases3) (simp add: placed_def key_write_served_def folds_at_all_def)

lemma placed_value: "held_value (placed key_write_served claims p) declared = held_value (snd (snd p)) declared"
proof -
  let ?w = "placed key_write_served claims p"
  have "kw_key ?w = kw_key (snd (snd p))" "kw_value ?w = kw_value (snd (snd p))"
    by (simp_all add: placed_def key_write_served_def split: prod.split)
  then show ?thesis by (simp only: held_value_def)
qed

lemma last_counting:
  "filter P xs \<noteq> [] \<Longrightarrow>
   \<exists>i < length xs. xs ! i = last (filter P xs) \<and> P (xs ! i) \<and> (\<forall>j < length xs. P (xs ! j) \<longrightarrow> j \<le> i)"
proof (induction xs rule: rev_induct)
  case (snoc x xs)
  show ?case
  proof (cases "P x")
    case True
    then show ?thesis by (intro exI [of _ "length xs"]) auto
  next
    case False
    then obtain i where i: "i < length xs" "xs ! i = last (filter P xs)" "P (xs ! i)"
      "\<And>j. j < length xs \<Longrightarrow> P (xs ! j) \<Longrightarrow> j \<le> i"
      using snoc by auto
    show ?thesis
    proof (intro exI [of _ i] conjI allI impI)
      fix j assume "j < length (xs @ [x])" "P ((xs @ [x]) ! j)"
      then show "j \<le> i" using i(4) [of j] False by (auto simp: nth_append less_Suc_eq split: if_splits)
    qed (use i False in \<open>simp_all add: nth_append\<close>)
  qed
qed simp


section \<open>The fold of a merged thing\<close>

lemma kw_served [simp]:
  "sw_key key_write_served = kw_key" "sw_moment key_write_served = kw_written_at"
  "sw_ordinal key_write_served w = int (kw_ordinal w)" "sw_fact key_write_served = kw_fact"
  by (simp_all add: key_write_served_def)

lemma sort_key_int: "sort_key (\<lambda>w. int (f w)) xs = sort_key f xs"
proof -
  have "insort_key (\<lambda>w. int (f w)) x ys = insort_key f x ys" for x ys by (induction ys) auto
  then show ?thesis by (induction xs) auto
qed

lemma of_key_written: "of_key key_write_served k ws = sort_key kw_ordinal (filter (\<lambda>w. kw_key w = k) ws)"
  by (simp add: of_key_def key_write_served_def sort_key_int)

lemma interleave_alone: "map snd (interleave mo [] ws) = ws" "map snd (interleave mo ws []) = ws"
  by (induction ws) simp_all

lemma merge_key_sorted:
  "sorted (map kw_ordinal (merge_key key_write_served claims (of_key key_write_served k ours) ts))"
proof (cases "ts = []")
  case True
  then show ?thesis by (simp add: merge_key_def of_key_written)
next
  case False
  have "kw_ordinal (placed key_write_served claims p) = Suc (fst p)" for p
    using kw.placed_ordinal [of claims p] by simp
  then have "kw_ordinal \<circ> placed key_write_served claims = Suc \<circ> fst" by (simp add: fun_eq_iff)
  then have "map kw_ordinal (merge_key key_write_served claims us ts) =
      map Suc (map fst (enumerate 0 (interleave (sw_moment key_write_served) ts us)))" for us
    using False by (simp only: merge_key_def if_False map_map)
  then show ?thesis by (simp add: sorted_map del: map_map)
qed

text \<open>What a merged thing holds of a key, from the newest counting write of the interleave.\<close>

lemma folded_merged:
  assumes "fold_of k declared = FNewest"
  shows "bt_get (folded_fields (merge_in key_write_served ours theirs claims) declared) k =
    (case rev (filter folds_at_all (map snd (interleave kw_written_at
        (of_key key_write_served k (mapped_claims key_write_served claims theirs))
        (of_key key_write_served k ours)))) of
      [] \<Rightarrow> None | w # _ \<Rightarrow> held_value w declared)"
proof -
  let ?S = "key_write_served"
  let ?ts = "of_key ?S k (mapped_claims ?S claims theirs)" and ?us = "of_key ?S k ours"
  let ?zs = "interleave kw_written_at ?ts ?us"
  let ?M = "merge_key ?S claims ?us ?ts"
  have "filter (\<lambda>w. kw_key w = k) (merge_in ?S ours theirs claims) = ?M"
    using kw.merge_in_key [of k ours theirs claims] by simp
  then have "bt_get (folded_fields (merge_in ?S ours theirs claims) declared) k =
      (case rev (filter folds_at_all ?M) of [] \<Rightarrow> None | w # _ \<Rightarrow> held_value w declared)"
    using merge_key_sorted [of claims k ours ?ts]
    by (simp add: folded_newest_of_key [OF assms] sort_key_id_if_sorted)
  moreover have "(case rev (filter folds_at_all ?M) of [] \<Rightarrow> None | w # _ \<Rightarrow> held_value w declared) =
      (case rev (filter folds_at_all (map snd ?zs)) of [] \<Rightarrow> None | w # _ \<Rightarrow> held_value w declared)"
  proof (cases "?ts = []")
    case True
    then show ?thesis by (simp add: merge_key_def interleave_alone)
  next
    case False
    let ?E = "filter (\<lambda>p. folds_at_all (snd (snd p))) (enumerate 0 ?zs)"
    have "filter folds_at_all ?M = map (placed ?S claims) ?E"
      using False by (simp add: merge_key_def filter_map o_def placed_counts)
    moreover have "map snd ?zs = map (\<lambda>p. snd (snd p)) (enumerate 0 ?zs)"
      by (simp add: enumerate_eq_zip flip: map_map [unfolded o_def])
    then have "filter folds_at_all (map snd ?zs) = map (\<lambda>p. snd (snd p)) ?E"
      by (simp add: filter_map o_def)
    ultimately show ?thesis by (cases "rev ?E") (simp_all add: rev_map placed_value)
  qed
  ultimately show ?thesis by simp
qed

text \<open>
  The moment a side has come to with the last of its writes that count: the latest moment up to that write,
  which on a clock that never steps back is the write's own.
\<close>

primrec reached :: "('w \<Rightarrow> int option) \<Rightarrow> ('w \<Rightarrow> bool) \<Rightarrow> 'w list \<Rightarrow> int option" where
  "reached mo P [] = None"
| "reached mo P (w # ws) = (if list_ex P (w # ws) then max (mo w) (reached mo P ws) else None)"

lemma reached_none: "\<not> list_ex P ws \<Longrightarrow> reached mo P ws = None"
  by (cases ws) auto

lemma None_least [simp]: "(None :: int option) \<le> x" "max x None = x" "max None x = (x :: int option)"
  by (cases x; simp add: max_def less_eq_option_def)+

lemma filter_list_ex: "filter P ws \<noteq> [] \<longleftrightarrow> list_ex P ws"
  by (auto simp: filter_empty_conv list_ex_iff)

lemma filter_interleave_none:
  "\<not> list_ex P ts \<Longrightarrow> filter P (map snd (interleave mo ts us)) = filter P us"
  "\<not> list_ex P us \<Longrightarrow> filter P (map snd (interleave mo ts us)) = filter P ts"
  by (induction mo ts us rule: interleave.induct) (auto simp del: map_map)

lemma last_interleave:
  "list_ex P ts \<Longrightarrow> list_ex P us \<Longrightarrow>
   last (filter P (map snd (interleave mo ts us))) =
     (if reached mo P ts \<le> reached mo P us then last (filter P us) else last (filter P ts))"
proof (induction mo ts us rule: interleave.induct)
  case (1 mo t ts u us)
  have rest: "filter P (map snd (interleave mo xs ys)) \<noteq> []" if "list_ex P xs \<or> list_ex P ys" for xs ys
    using that interleave_set [of mo xs ys] by (auto simp: filter_empty_conv list_ex_iff simp del: map_map set_map)
  show ?case
  proof (cases "mo t \<le> mo u")
    case True
    have pass: "last (filter P (map snd (interleave mo (t # ts) (u # us)))) = last (filter P (map snd (interleave mo ts (u # us))))"
      using True rest [OF disjI2 [OF "1.prems"(2)], of ts] by (simp del: map_map)
    have later: "mo t \<le> reached mo P (u # us)" using True "1.prems"(2) by (auto simp: le_max_iff_disj)
    show ?thesis
    proof (cases "list_ex P ts")
      case ex: True
      then have "reached mo P (t # ts) = max (mo t) (reached mo P ts)" "last (filter P (t # ts)) = last (filter P ts)"
        using filter_list_ex [of P ts] by auto
      then show ?thesis
        unfolding pass "1.IH"(1) [OF True ex "1.prems"(2)] using later by (simp only: max.bounded_iff simp_thms)
    next
      case no: False
      then have "filter P ts = []" using filter_list_ex [of P ts] by blast
      then show ?thesis
        unfolding pass filter_interleave_none(1) [OF no] using later "1.prems"(1) no
        by (simp add: reached_none del: reached.simps(2) add: reached.simps(2) [of mo P t ts])
    qed
  next
    case False
    have pass: "last (filter P (map snd (interleave mo (t # ts) (u # us)))) = last (filter P (map snd (interleave mo (t # ts) us)))"
      using False rest [OF disjI1 [OF "1.prems"(1)], of us] by (simp del: map_map)
    have later: "mo u < reached mo P (t # ts)" using False "1.prems"(1) by (auto simp: less_max_iff_disj not_le)
    show ?thesis
    proof (cases "list_ex P us")
      case True
      then have "reached mo P (u # us) = max (mo u) (reached mo P us)" "last (filter P (u # us)) = last (filter P us)"
        using filter_list_ex [of P us] by auto
      then show ?thesis
        unfolding pass "1.IH"(2) [OF False "1.prems"(1) True] using later by (simp only: le_max_iff_disj not_le [symmetric] simp_thms)
    next
      case no: False
      then have "reached mo P (u # us) = mo u" using "1.prems"(2) by (simp add: reached_none)
      then have "\<not> reached mo P (t # ts) \<le> reached mo P (u # us)" using later by (simp only: not_le)
      then show ?thesis unfolding pass filter_interleave_none(2) [OF no] by (simp only: if_False)
    qed
  qed
qed simp_all

lemma reached_sorted:
  "sorted (map mo ws) \<Longrightarrow> list_ex P ws \<Longrightarrow> reached mo P ws = mo (last (filter P ws))"
proof (induction ws)
  case (Cons w ws)
  show ?case
  proof (cases "list_ex P ws")
    case True
    then have "last (filter P ws) \<in> set ws" using last_in_set filter_list_ex [of P ws] by fastforce
    then show ?thesis using Cons True filter_list_ex [of P ws] by (auto simp: max_absorb2)
  next
    case False
    then have "filter P ws = []" by (simp add: filter_empty_conv list_ex_iff)
    then show ?thesis using Cons.prems False by (simp add: reached_none)
  qed
qed simp

text \<open>The newest counting write of a key, and a side whose clock never stepped back on it.\<close>

definition newest_counting :: "string \<Rightarrow> key_write list \<Rightarrow> key_write option" where
  "newest_counting k ws =
     (case rev (filter folds_at_all (of_key key_write_served k ws)) of [] \<Rightarrow> None | w # _ \<Rightarrow> Some w)"

definition come_to :: "string \<Rightarrow> key_write list \<Rightarrow> int option" where
  "come_to k ws = reached kw_written_at folds_at_all (of_key key_write_served k ws)"

definition clock_kept :: "string \<Rightarrow> key_write list \<Rightarrow> bool" where
  "clock_kept k ws \<longleftrightarrow> sorted (map kw_written_at (of_key key_write_served k ws))"

lemma newest_counting_last:
  "newest_counting k ws = Some w \<longleftrightarrow>
     filter folds_at_all (of_key key_write_served k ws) \<noteq> [] \<and>
     last (filter folds_at_all (of_key key_write_served k ws)) = w"
  by (cases "filter folds_at_all (of_key key_write_served k ws)" rule: rev_cases)
    (auto simp: newest_counting_def)

text \<open>
  C20: A key of a merged thing under the default rule holds what one of the two newest writes gives it, the
  folded thing's or the survivor's: the survivor's, unless the folded thing's side had come to a later moment
  with its own (an unstamped write is older than every stamped one), a clock that stepped back reordering
  neither side; where a side's clock never stepped back on the key, that moment is the newest write's own.
\<close>

theorem merged_field_is_the_newer:
  assumes "fold_of k declared = FNewest"
    and "newest_counting k (mapped_claims key_write_served claims theirs) = Some t"
    and "newest_counting k ours = Some u"
  shows "bt_get (folded_fields (merge_in key_write_served ours theirs claims) declared) k =
      held_value (if come_to k (mapped_claims key_write_served claims theirs) \<le> come_to k ours then u else t) declared \<and>
    (clock_kept k (mapped_claims key_write_served claims theirs) \<longrightarrow>
      come_to k (mapped_claims key_write_served claims theirs) = kw_written_at t) \<and>
    (clock_kept k ours \<longrightarrow> come_to k ours = kw_written_at u)"
proof -
  let ?ts = "of_key key_write_served k (mapped_claims key_write_served claims theirs)"
  let ?us = "of_key key_write_served k ours"
  let ?zs = "interleave kw_written_at ?ts ?us"
  let ?P = "folds_at_all"
  have t: "list_ex ?P ?ts" "last (filter ?P ?ts) = t" and u: "list_ex ?P ?us" "last (filter ?P ?us) = u"
    using assms(2,3) by (simp_all add: newest_counting_last filter_list_ex)
  have zs: "last (filter ?P (map snd ?zs)) =
      (if come_to k (mapped_claims key_write_served claims theirs) \<le> come_to k ours then u else t)"
    using last_interleave [OF t(1) u(1), of kw_written_at] t(2) u(2) by (simp only: come_to_def)
  have "list_ex ?P (map snd ?zs)"
    using t(1) interleave_set [of kw_written_at ?ts ?us] by (auto simp: list_ex_iff simp del: map_map set_map)
  then have "filter ?P (map snd ?zs) \<noteq> []" by (simp only: filter_list_ex)
  then have "bt_get (folded_fields (merge_in key_write_served ours theirs claims) declared) k =
      held_value (if come_to k (mapped_claims key_write_served claims theirs) \<le> come_to k ours then u else t) declared"
    using zs folded_merged [OF assms(1), of ours theirs claims]
    by (cases "filter ?P (map snd ?zs)" rule: rev_cases) simp_all
  then show ?thesis
    using reached_sorted t u by (auto simp: come_to_def clock_kept_def)
qed

definition title_write :: "nat \<Rightarrow> string \<Rightarrow> string \<Rightarrow> int option \<Rightarrow> key_write" where
  "title_write n v f t = \<lparr>kw_key = ''title'', kw_ordinal = n, kw_value = Some v, kw_fact = f, kw_status = Active,
     kw_provenance = Inference, kw_standing = Settled, kw_note = None, kw_recorded_by = None,
     kw_writer = None, kw_run = None, kw_written_at = t\<rparr>"

theorem merged_field_is_the_newer_witness:
  "bt_get (folded_fields (merge_in key_write_served [title_write 1 ''ours'' ''f1'' (Some 5)]
       [title_write 1 ''theirs'' ''f7'' (Some 5)] [''f7'' \<mapsto> ''f2'']) []) ''title'' = Some ''ours''"
proof -
  let ?t = "title_write 1 ''theirs'' ''f7'' (Some 5)"
  let ?u = "title_write 1 ''ours'' ''f1'' (Some 5)"
  have reads: "mapped_claims key_write_served [''f7'' \<mapsto> ''f2''] [?t] = [?t]"
    "of_key key_write_served ''title'' [?t] = [?t]" "of_key key_write_served ''title'' [?u] = [?u]"
    by (simp_all add: mapped_claims_def of_key_def key_write_served_def title_write_def)
  have counts: "folds_at_all ?t" "folds_at_all ?u"
    by (simp_all add: folds_at_all_def title_write_def) code_simp+
  have "trim ''ours'' = ''ours''" by (rule trim_printable) (auto simp: printable_def)
  then have "held_value ?u [] = Some ''ours''" by (simp add: held_value_def title_write_def holds_a_value_def)
  moreover have "fold_of ''title'' [] = FNewest" by code_simp
  ultimately show ?thesis
    using merged_field_is_the_newer [of "''title''" "[]" "[''f7'' \<mapsto> ''f2'']" "[?t]" ?t "[?u]" ?u] reads counts
    by (simp add: come_to_def newest_counting_def title_write_def)
qed

section \<open>The guards together\<close>

lemma judged_keys_has:
  assumes "bt_ok (mr_carried r)"
  shows "has_key (judged_keys r) k \<longleftrightarrow> has_key (mr_carried r) k \<or> k \<in> set (mr_written_keys r)"
proof -
  have "bt_ok m \<Longrightarrow> bt_ok (foldl (\<lambda>m k. if has_key m k then m else bt_insert k ''-'' m) m ks) \<and>
      (has_key (foldl (\<lambda>m k. if has_key m k then m else bt_insert k ''-'' m) m ks) k
        \<longleftrightarrow> has_key m k \<or> k \<in> set ks)" for m ks
  proof (induction ks arbitrary: m)
    case (Cons j ks)
    let ?m = "if has_key m j then m else bt_insert j ''-'' m"
    have "bt_ok ?m" "has_key ?m k \<longleftrightarrow> has_key m k \<or> k = j" using Cons.prems by (auto simp: has_key_def)
    then show ?case using Cons.IH [of ?m] by auto
  qed simp
  then show ?thesis using assms by (simp add: judged_keys_def)
qed










end
