(* ===== verification/Bot_Requests.thy ===== *)
theory Bot_Requests
  imports Merging
begin

text \<open>
  Requests about a bot (\<open>memory/bot_request.rs\<close>): the spec a request holds, the spec an act leaves,
  and the generation number jojobot writes beside it. The history of a key is what the port's
  \<open>history\<close> answers, oldest first. A generation is a \<open>u64\<close>; the increment is written as a release
  build computes it, modulo \<open>2^64\<close>.
\<close>

record field_write =
  fw_written_at :: "int option"
  fw_value :: "string option"
  fw_fact :: fact_id                \<comment> \<open>the local part of the record's address\<close>
  fw_status :: fact_status

type_synonym key_history = "(string, field_write list) btree"

definition sets_only_the_generation :: "fields \<Rightarrow> bool" where
  "sets_only_the_generation fs =
     (case filter (\<lambda>k. k \<noteq> SETTINGS_RECORD) (map fst fs) of [k] \<Rightarrow> k = GENERATION | _ \<Rightarrow> False)"

definition refuses_withdrawing_the_generation :: "entity_id \<Rightarrow> fields \<Rightarrow> licence_error option" where
  "refuses_withdrawing_the_generation subject claim_fields =
     (if is_request subject \<and> sets_only_the_generation claim_fields
      then Some (KeyNotYours subject GENERATION RequestGeneration []) else None)"

definition same_value :: "string option \<Rightarrow> string \<Rightarrow> bool" where
  "same_value held written \<longleftrightarrow> map_option trim held = Some (trim written)"

definition read_u64 :: "string option \<Rightarrow> nat option" where
  "read_u64 v = Option.bind v (\<lambda>v. parse_unsigned usize_max (trim v))"

definition highest_generation_ever :: "field_write list \<Rightarrow> nat" where
  "highest_generation_ever writes = foldr max (List.map_filter (\<lambda>w. read_u64 (fw_value w)) writes) 0"

text \<open>The map a list of keys makes when each is given a value or left out.\<close>

definition collect_keys :: "(string \<Rightarrow> string option) \<Rightarrow> string list \<Rightarrow> fields" where
  "collect_keys f ks = foldl (\<lambda>m k. case f k of None \<Rightarrow> m | Some v \<Rightarrow> bt_insert k v m) [] ks"

definition not_blank :: "string \<Rightarrow> string option" where
  "not_blank v = (if trim v = [] then None else Some (trim v))"

definition spec_of :: "fields \<Rightarrow> fields" where
  "spec_of m = collect_keys (\<lambda>k. Option.bind (bt_get m k) not_blank) SPEC_KEYS"

definition spec_after :: "fields \<Rightarrow> fields \<Rightarrow> string list \<Rightarrow> fields" where
  "spec_after held written cleared =
     foldl (\<lambda>spec k.
        let spec1 = (if k \<in> set cleared then bt_remove k spec else spec)
        in case bt_get written k of
             None \<Rightarrow> spec1
           | Some v \<Rightarrow> if trim v = [] then bt_remove k spec1 else bt_insert k (trim v) spec1)
       (spec_of held) SPEC_KEYS"

definition next_past :: "nat \<Rightarrow> string" where
  "next_past highest_ever = show_nat ((highest_ever + 1) mod 2 ^ 64)"

definition next_generation :: "entity_id \<Rightarrow> fields \<Rightarrow> fields \<Rightarrow> nat \<Rightarrow> string option" where
  "next_generation subject before after highest_ever =
     (if is_request subject \<and> before \<noteq> after then Some (next_past highest_ever) else None)"

text \<open>\<open>rfind\<close> over a history: the newest active write other than the withdrawn claim's.\<close>

definition newest_standing :: "field_write list \<Rightarrow> fact_id option \<Rightarrow> field_write option" where
  "newest_standing writes withdrawn =
     find (\<lambda>w. fw_status w = Active \<and> withdrawn \<noteq> Some (fw_fact w)) (rev writes)"

definition generation_withdrawing :: "field_write list \<Rightarrow> fact_id option \<Rightarrow> nat" where
  "generation_withdrawing writes withdrawn =
     (case Option.bind (newest_standing writes withdrawn) (\<lambda>w. read_u64 (fw_value w)) of
        None \<Rightarrow> 0 | Some n \<Rightarrow> n)"

definition next_generation_withdrawing ::
  "entity_id \<Rightarrow> fields \<Rightarrow> fields \<Rightarrow> nat \<Rightarrow> nat \<Rightarrow> nat \<Rightarrow> string option" where
  "next_generation_withdrawing subject before after folded_before folded_after highest_ever =
     or_else (next_generation subject before after highest_ever)
       (if is_request subject \<and> folded_after < folded_before then Some (next_past highest_ever) else None)"

definition spec_withdrawing :: "key_history \<Rightarrow> fact_id option \<Rightarrow> fields" where
  "spec_withdrawing history withdrawn =
     collect_keys (\<lambda>k.
        Option.bind (bt_get history k) (\<lambda>ws.
        Option.bind (newest_standing ws withdrawn) (\<lambda>w.
        Option.bind (fw_value w) not_blank))) SPEC_KEYS"

record keyed_write =
  ky_key :: string
  ky_place :: int
  ky_write :: field_write

definition keyed_write_served :: "keyed_write served_write" where
  "keyed_write_served =
     \<lparr>sw_key = ky_key, sw_ordinal = ky_place, sw_moment = (\<lambda>w. fw_written_at (ky_write w)),
      sw_fact = (\<lambda>w. fw_fact (ky_write w)), sw_place = (\<lambda>n f w. w\<lparr>ky_place := n\<rparr>)\<rparr>"

definition keyed :: "key_history \<Rightarrow> string \<Rightarrow> keyed_write list" where
  "keyed history k =
     map (\<lambda>(n, w). \<lparr>ky_key = k, ky_place = int n, ky_write = w\<rparr>)
       (enumerate 0 (case bt_get history k of None \<Rightarrow> [] | Some ws \<Rightarrow> ws))"

definition spec_merging :: "key_history \<Rightarrow> key_history \<Rightarrow> fields" where
  "spec_merging survivor gone =
     collect_keys (\<lambda>k.
        Option.bind (find (\<lambda>(s, w). fw_status (ky_write w) = Active)
             (rev (interleave (sw_moment keyed_write_served) (keyed gone k) (keyed survivor k))))
          (\<lambda>(s, w). Option.bind (fw_value (ky_write w)) not_blank)) SPEC_KEYS"

interpretation ky: placeable keyed_write_served
  by unfold_locales (simp_all add: keyed_write_served_def)


section \<open>The generation never falls and never repeats\<close>

lemma highest_generation_above:
  "w \<in> set writes \<Longrightarrow> read_u64 (fw_value w) = Some n \<Longrightarrow> n \<le> highest_generation_ever writes"
  unfolding highest_generation_ever_def by (rule foldr_max_ge) (auto simp: map_filter_set)

lemma read_next_past: "n < usize_max \<Longrightarrow> read_u64 (Some (next_past n)) = Some (Suc n)"
  by (simp add: read_u64_def next_past_def parse_unsigned_show_nat usize_max_def)

lemma generation_withdrawing_below: "generation_withdrawing writes x \<le> highest_generation_ever writes"
proof (cases "newest_standing writes x")
  case (Some w)
  then have "w \<in> set writes" by (auto simp: newest_standing_def dest: find_SomeD)
  then show ?thesis using Some highest_generation_above
    by (auto simp: generation_withdrawing_def split: option.split)
qed (simp add: generation_withdrawing_def)

text \<open>What the request's generation folds to once a claim is withdrawn and the number made is written.\<close>

definition generation_after :: "field_write list \<Rightarrow> fact_id option \<Rightarrow> string option \<Rightarrow> nat" where
  "generation_after writes withdrawn made =
     (case read_u64 made of Some n \<Rightarrow> n | None \<Rightarrow> generation_withdrawing writes withdrawn)"

text \<open>
  The generation of a request never falls and never names two specs: when a claim is taken
  back, the generation the request folds to afterwards, with the number the act makes, is at least
  what it was; and an act that changes the spec gives it a number above every number ever written
  on the request, whatever became of the claims that carried them.
\<close>

theorem generation_never_repeats:
  assumes "is_request subject" and "highest_generation_ever writes < usize_max"
    and "made = next_generation_withdrawing subject before after
       (generation_withdrawing writes None) (generation_withdrawing writes (Some withdrawn))
       (highest_generation_ever writes)"
  shows "generation_withdrawing writes None \<le> generation_after writes (Some withdrawn) made \<and>
    (before = after \<or>
      {n. \<exists>w \<in> set writes. read_u64 (fw_value w) = Some n} \<subseteq> {..< generation_after writes (Some withdrawn) made})"
proof (cases made)
  case None
  then have "before = after" "generation_withdrawing writes None \<le> generation_withdrawing writes (Some withdrawn)"
    using assms by (auto simp: next_generation_withdrawing_def next_generation_def or_else_def split: if_splits)
  then show ?thesis using None by (simp add: generation_after_def read_u64_def)
next
  case (Some s)
  then have "s = next_past (highest_generation_ever writes)"
    using assms by (auto simp: next_generation_withdrawing_def next_generation_def or_else_def split: if_splits)
  then have after: "generation_after writes (Some withdrawn) made = Suc (highest_generation_ever writes)"
    using Some read_next_past [OF assms(2)] by (simp add: generation_after_def)
  then show ?thesis
    using generation_withdrawing_below [of writes None] highest_generation_above
    by (auto intro: le_imp_less_Suc)
qed

definition generation_write :: "string \<Rightarrow> string \<Rightarrow> fact_status \<Rightarrow> field_write" where
  "generation_write f v s = \<lparr>fw_written_at = None, fw_value = Some v, fw_fact = f, fw_status = s\<rparr>"

theorem generation_never_repeats_witness:
  "generation_withdrawing [generation_write ''f1'' ''1'' Active, generation_write ''f2'' ''2'' Active] None
     \<le> generation_after [generation_write ''f1'' ''1'' Active, generation_write ''f2'' ''2'' Active] (Some ''f2'')
       (next_generation_withdrawing ''bot-request:r'' [] [(DESIRED, ''running'')]
          (generation_withdrawing [generation_write ''f1'' ''1'' Active, generation_write ''f2'' ''2'' Active] None)
          (generation_withdrawing [generation_write ''f1'' ''1'' Active, generation_write ''f2'' ''2'' Active] (Some ''f2''))
          (highest_generation_ever [generation_write ''f1'' ''1'' Active, generation_write ''f2'' ''2'' Active]))"
proof -
  let ?ws = "[generation_write ''f1'' ''1'' Active, generation_write ''f2'' ''2'' Active]"
  have "is_request ''bot-request:r''" by code_simp
  moreover have "highest_generation_ever ?ws < usize_max"
  proof -
    have "show_nat 1 = ''1''" "show_nat 2 = ''2''" by code_simp+
    then have "read_u64 (Some ''1'') = Some 1" "read_u64 (Some ''2'') = Some 2"
      using parse_unsigned_show_nat [of 1 usize_max] parse_unsigned_show_nat [of 2 usize_max]
        trim_show_nat [of 1] trim_show_nat [of 2] by (simp_all add: read_u64_def usize_max_def)
    then show ?thesis
      by (simp add: highest_generation_ever_def generation_write_def map_filter_simps usize_max_def)
  qed
  ultimately show ?thesis
    using generation_never_repeats [OF _ _ refl, where subject = "''bot-request:r''" and writes = ?ws and before = "[]"
        and after = "[(DESIRED, ''running'')]" and withdrawn = "''f2''"]
    by simp
qed

section \<open>The spec a merge leaves, read before the merge\<close>

definition field_write_of :: "key_write \<Rightarrow> field_write" where
  "field_write_of w = \<lparr>fw_written_at = kw_written_at w, fw_value = kw_value w, fw_fact = kw_fact w, fw_status = kw_status w\<rparr>"

lemma field_write_of_simps [simp]:
  "fw_status (field_write_of w) = kw_status w" "fw_value (field_write_of w) = kw_value w"
  by (simp_all add: field_write_of_def)

text \<open>What the port's \<open>history\<close> answers for each key a thing's writes name, oldest first.\<close>

definition history_of :: "key_write list \<Rightarrow> key_history" where
  "history_of ws =
     map (\<lambda>k. (k, map field_write_of (of_key key_write_served k ws))) (ascending (map kw_key ws))"

lemma interleave_map:
  "map (map_prod id g) (interleave (\<lambda>w. mo (g w)) xs ys) = interleave mo (map g xs) (map g ys)"
  by (induction "\<lambda>w. mo (g w)" xs ys rule: interleave.induct) simp_all

lemma map_of_keys: "map_of (map (\<lambda>k. (k, f k)) ks) k = (if k \<in> set ks then Some (f k) else None)"
  by (induction ks) auto

lemma keyed_history: "map ky_write (keyed (history_of ws) k) = map field_write_of (of_key key_write_served k ws)"
proof -
  have "(case bt_get (history_of ws) k of None \<Rightarrow> [] | Some h \<Rightarrow> h) = map field_write_of (of_key key_write_served k ws)"
  proof (cases "k \<in> set (map kw_key ws)")
    case False
    then have "filter (\<lambda>w. kw_key w = k) ws = []" by (auto simp: filter_empty_conv)
    then show ?thesis using False by (simp add: history_of_def bt_get_def map_of_keys of_key_written del: set_map)
  qed (simp add: history_of_def bt_get_def map_of_keys del: set_map)
  moreover have "map ky_write (map (\<lambda>(n, w). \<lparr>ky_key = k, ky_place = int n, ky_write = w\<rparr>) (enumerate i hs)) = hs" for i hs
    by (induction hs arbitrary: i) simp_all
  ultimately show ?thesis by (simp only: keyed_def)
qed

lemma find_rev: "find P (rev xs) = (case rev (filter P xs) of [] \<Rightarrow> None | x # _ \<Rightarrow> Some x)"
  by (induction xs rule: rev_induct) simp_all

lemma find_map_rev: "find P (rev (map f xs)) = map_option f (find (\<lambda>x. P (f x)) (rev xs))"
  by (induction xs rule: rev_induct) simp_all

lemma held_not_blank: "Option.bind (held_value w declared) not_blank = Option.bind (kw_value w) not_blank"
  by (simp add: held_value_def not_blank_def holds_a_value_def split: option.split)

lemma collect_keys_cong: "(\<And>k. k \<in> set ks \<Longrightarrow> f k = g k) \<Longrightarrow> collect_keys f ks = collect_keys g ks"
  unfolding collect_keys_def by (rule foldl_cong) auto

lemma spec_keys_plain: "k \<in> set SPEC_KEYS \<Longrightarrow> \<not> reserved_key k"
  by (auto simp: SPEC_KEYS_def) (code_simp+)


text \<open>
  The spec a merge is said to leave before it is made is the spec the merged thing folds to:
  over the histories of the two sides, \<open>spec_merging\<close> answers, for every key, what the spec read
  from the fold of the interleaved writes holds.
\<close>

theorem spec_merging_is_the_merged_spec:
  assumes "\<forall>k \<in> set SPEC_KEYS. fold_of k declared = FNewest"
    and "\<forall>w \<in> set theirs. claims (kw_fact w) \<noteq> None"
  shows "spec_merging (history_of ours) (history_of theirs) =
    spec_of (folded_fields (merge_in key_write_served ours theirs claims) declared)"
  unfolding spec_merging_def spec_of_def
proof (rule collect_keys_cong)
  fix k assume k: "k \<in> set SPEC_KEYS"
  let ?zs = "interleave kw_written_at (of_key key_write_served k theirs) (of_key key_write_served k ours)"
  let ?ks = "interleave (sw_moment keyed_write_served) (keyed (history_of theirs) k) (keyed (history_of ours) k)"
  let ?read = "\<lambda>w. Option.bind (fw_value w) not_blank"
  have mapped: "mapped_claims key_write_served claims theirs = theirs"
    using assms(2) by (simp add: mapped_claims_def)
  have counts: "folds_at_all w \<longleftrightarrow> kw_status w = Active" if "w \<in> set (map snd ?zs)" for w
  proof -
    have "kw_key w = k" using that unfolding interleave_set by (auto simp: of_key_written)
    then show ?thesis using spec_keys_plain [OF k] by (simp add: folds_at_all_def)
  qed
  have moment: "(\<lambda>w. fw_written_at (field_write_of w)) = kw_written_at" by (simp add: field_write_of_def fun_eq_iff)
  have "map (map_prod id ky_write) ?ks =
      interleave fw_written_at (map field_write_of (of_key key_write_served k theirs))
        (map field_write_of (of_key key_write_served k ours))"
    using interleave_map [of ky_write fw_written_at "keyed (history_of theirs) k" "keyed (history_of ours) k"]
    unfolding keyed_history by (simp add: keyed_write_served_def)
  also have "\<dots> = map (map_prod id field_write_of) ?zs"
    using interleave_map [of field_write_of fw_written_at] unfolding moment by simp
  finally have "map (map_prod id ky_write) ?ks = map (map_prod id field_write_of) ?zs" .
  then have zs: "map (ky_write \<circ> snd) ?ks = map (field_write_of \<circ> snd) ?zs"
    by (metis (no_types, lifting) map_map snd_comp_map_prod)
  have "Option.bind (find (\<lambda>(s, w). fw_status (ky_write w) = Active) (rev ?ks))
        (\<lambda>(s, w). Option.bind (fw_value (ky_write w)) not_blank) =
      Option.bind (find (\<lambda>w. fw_status w = Active) (rev (map (ky_write \<circ> snd) ?ks))) ?read"
    unfolding find_map_rev case_prod_beta
    by (cases "find (\<lambda>x. fw_status (ky_write (snd x)) = Active) (rev ?ks)") simp_all
  also have "\<dots> = Option.bind (find (\<lambda>w. kw_status w = Active) (rev (map snd ?zs))) (\<lambda>w. Option.bind (kw_value w) not_blank)"
  proof -
    have "find (\<lambda>w. fw_status w = Active) (rev (map (ky_write \<circ> snd) ?ks)) =
        map_option (field_write_of \<circ> snd) (find (\<lambda>x. kw_status (snd x) = Active) (rev ?zs))"
      unfolding zs find_map_rev by simp
    then show ?thesis unfolding find_map_rev [of "\<lambda>w. kw_status w = Active" snd]
      by (cases "find (\<lambda>x. kw_status (snd x) = Active) (rev ?zs)") (simp_all add: field_write_of_def)
  qed
  also have "find (\<lambda>w. kw_status w = Active) (rev (map snd ?zs)) = find folds_at_all (rev (map snd ?zs))"
    using counts by (intro find_cong) auto
  also have "Option.bind \<dots> (\<lambda>w. Option.bind (kw_value w) not_blank) =
      Option.bind (case rev (filter folds_at_all (map snd ?zs)) of [] \<Rightarrow> None | w # _ \<Rightarrow> held_value w declared) not_blank"
    unfolding find_rev by (simp add: held_not_blank split: list.split)
  also have "\<dots> = Option.bind (bt_get (folded_fields (merge_in key_write_served ours theirs claims) declared) k) not_blank"
    using folded_merged [of k declared ours theirs claims] assms(1) k mapped by simp
  finally show "Option.bind (find (\<lambda>(s, w). fw_status (ky_write w) = Active) (rev ?ks))
      (\<lambda>(s, w). Option.bind (fw_value (ky_write w)) not_blank) =
    Option.bind (bt_get (folded_fields (merge_in key_write_served ours theirs claims) declared) k) not_blank" .
qed

theorem spec_merging_is_the_merged_spec_witness:
  "spec_merging (history_of [(title_write 1 ''ours'' ''f1'' (Some 5))\<lparr>kw_key := DESIRED\<rparr>])
     (history_of [(title_write 1 ''theirs'' ''f7'' (Some 5))\<lparr>kw_key := DESIRED\<rparr>]) =
   spec_of (folded_fields (merge_in key_write_served [(title_write 1 ''ours'' ''f1'' (Some 5))\<lparr>kw_key := DESIRED\<rparr>]
      [(title_write 1 ''theirs'' ''f7'' (Some 5))\<lparr>kw_key := DESIRED\<rparr>] [''f7'' \<mapsto> ''f2'']) [])"
  by (rule spec_merging_is_the_merged_spec) (simp_all add: fold_of_def title_write_def)

end
