(* ===== verification/Likeness.thy ===== *)
theory Likeness
  imports Things Stable_Sort "HOL-Library.Option_ord" "HOL-Library.Product_Lexorder"
begin

text \<open>
  Ways two names can mean one thing: the bounded edit distance (\<open>memory/guard.rs\<close>), the words two
  names share and how rare they are (\<open>memory/words.rs\<close>), and known short forms
  (\<open>memory/likeness.rs\<close>). What Rust's \<open>char\<close> tables answer (case folding and the letter classes) and
  the vendored table of short forms are parameters; a character is its UTF-8 encoding.
\<close>

section \<open>Edit distance\<close>

definition same_or_one :: "'c \<Rightarrow> 'c \<Rightarrow> nat" where
  "same_or_one a b = (if a = b then 0 else 1)"

text \<open>The cells of one row after its first, from the row above and the cell to the left.\<close>

fun next_cells :: "'c \<Rightarrow> 'c list \<Rightarrow> nat list \<Rightarrow> nat \<Rightarrow> nat list" where
  "next_cells ca (cb # bs) (d # u # prev) left =
     (let c = min (min (d + same_or_one ca cb) (u + 1)) (left + 1)
      in c # next_cells ca bs (u # prev) c)"
| "next_cells ca bs prev left = []"

fun distance_rows :: "nat \<Rightarrow> 'c list \<Rightarrow> nat list \<Rightarrow> nat \<Rightarrow> 'c list \<Rightarrow> nat list option" where
  "distance_rows m b prev i [] = Some prev"
| "distance_rows m b prev i (ca # as) =
     (let cur = (i + 1) # next_cells ca b prev (i + 1)
      in if foldl min (hd cur) (tl cur) > m then None else distance_rows m b cur (i + 1) as)"

definition distance_within :: "'c list \<Rightarrow> 'c list \<Rightarrow> nat \<Rightarrow> nat option" where
  "distance_within a b m =
     (if (if length a \<le> length b then length b - length a else length a - length b) > m then None
      else if a = [] then Some (length b)
      else case distance_rows m b [0..<length b + 1] 0 a of
             None \<Rightarrow> None
           | Some prev \<Rightarrow> if prev ! length b \<le> m then Some (prev ! length b) else None)"

definition edit_distance_within :: "string \<Rightarrow> string \<Rightarrow> nat \<Rightarrow> nat option" where
  "edit_distance_within a b m = distance_within (utf8_chars a) (utf8_chars b) m"

text \<open>\<open>expect\<close> panics on \<open>None\<close>: the answer is an option here.\<close>

definition edit_distance :: "string \<Rightarrow> string \<Rightarrow> nat option" where
  "edit_distance a b = edit_distance_within a b usize_max"

section \<open>The specification of a distance\<close>

text \<open>One text made another by keeping, replacing, inserting and deleting characters, and the changes it took.\<close>

inductive edits :: "'c list \<Rightarrow> 'c list \<Rightarrow> nat \<Rightarrow> bool" where
  edits_done: "edits [] [] 0"
| edits_keep: "edits a b n \<Longrightarrow> edits (x # a) (x # b) n"
| edits_replace: "edits a b n \<Longrightarrow> edits (x # a) (y # b) (Suc n)"
| edits_insert: "edits a b n \<Longrightarrow> edits a (y # b) (Suc n)"
| edits_delete: "edits a b n \<Longrightarrow> edits (x # a) b (Suc n)"

fun lev :: "'c list \<Rightarrow> 'c list \<Rightarrow> nat" where
  "lev [] b = length b"
| "lev a [] = length a"
| "lev (x # a) (y # b) = min (min (lev a b + same_or_one x y) (lev a (y # b) + 1)) (lev (x # a) b + 1)"

lemma lev_Nil2 [simp]: "lev a [] = length a"
  by (cases a) simp_all

lemma edits_lev: "edits a b (lev a b)"
proof (induction a b rule: lev.induct)
  case (1 b)
  then show ?case by (induction b) (auto intro: edits.intros)
next
  case (2 x a)
  have "edits a [] (length a)" for a :: "'a list" by (induction a) (auto intro: edits.intros)
  from this [of "x # a"] show ?case by simp
next
  case (3 x a y b)
  then show ?case
    by (auto simp: min_def same_or_one_def intro: edits.intros)
qed

lemma lev_insert: "lev a (y # b) \<le> lev a b + 1"
  by (cases a) simp_all

lemma lev_delete: "lev (x # a) b \<le> lev a b + 1"
  by (cases b) simp_all

lemma lev_replace: "lev (x # a) (y # b) \<le> lev a b + same_or_one x y"
  by simp

lemma edits_lower: "edits a b n \<Longrightarrow> lev a b \<le> n"
proof (induction rule: edits.induct)
  case (edits_keep a b n x)
  then show ?case using lev_replace [of x a x b] by (simp del: lev.simps add: same_or_one_def)
next
  case (edits_replace a b n x y)
  then show ?case using lev_replace [of x a y b]
    by (simp del: lev.simps add: same_or_one_def split: if_splits)
next
  case (edits_insert a b n y)
  then show ?case using lev_insert [of a y b] by (simp del: lev.simps)
next
  case (edits_delete a b n x)
  then show ?case using lev_delete [of x a b] by (simp del: lev.simps)
qed simp

lemma edits_append: "edits a b m \<Longrightarrow> edits c d n \<Longrightarrow> edits (a @ c) (b @ d) (m + n)"
  by (induction rule: edits.induct) (auto intro: edits.intros)

lemma edits_rev: "edits a b n \<Longrightarrow> edits (rev a) (rev b) n"
proof (induction rule: edits.induct)
  case (edits_keep a b n x)
  from edits_append [OF this(2), of "[x]" "[x]" 0] show ?case by (simp add: edits.intros)
next
  case (edits_replace a b n x y)
  from edits_append [OF this(2), of "[x]" "[y]" 1] show ?case by (simp add: edits.intros)
next
  case (edits_insert a b n y)
  from edits_append [OF this(2), of "[]" "[y]" 1] show ?case by (simp add: edits.intros)
next
  case (edits_delete a b n x)
  from edits_append [OF this(2), of "[x]" "[]" 1] show ?case by (simp add: edits.intros)
qed (simp add: edits_done)

lemma lev_rev: "lev (rev a) (rev b) = lev a b"
proof (rule antisym)
  show "lev (rev a) (rev b) \<le> lev a b" using edits_lower [OF edits_rev [OF edits_lev]] .
  show "lev a b \<le> lev (rev a) (rev b)"
    using edits_lower [OF edits_rev [OF edits_lev [of "rev a" "rev b"]]] by simp
qed

lemma edits_length: "edits a b n \<Longrightarrow> length a \<le> length b + n \<and> length b \<le> length a + n"
  by (induction rule: edits.induct) auto

lemma edits_split:
  "edits (a @ c) b n \<Longrightarrow> \<exists>b1 b2 m k. b = b1 @ b2 \<and> edits a b1 m \<and> edits c b2 k \<and> n = m + k"
proof (induction "a @ c" b n arbitrary: a rule: edits.induct)
  case edits_done
  then show ?case by (intro exI [of _ "[]"] exI [of _ 0]) (auto intro: edits.intros)
next
  case (edits_keep r b n x)
  show ?case
  proof (cases a)
    case Nil
    then show ?thesis using edits_keep.hyps
      by (intro exI [of _ "[]"] exI [of _ "x # b"] exI [of _ 0] exI [of _ n]) (auto intro: edits.intros)
  next
    case (Cons z zs)
    then obtain b1 b2 m k where "b = b1 @ b2" "edits zs b1 m" "edits c b2 k" "n = m + k" "z = x"
      using edits_keep.hyps by (metis append_Cons list.inject)
    then show ?thesis using Cons
      by (intro exI [of _ "x # b1"] exI [of _ b2] exI [of _ m] exI [of _ k]) (auto intro: edits.intros)
  qed
next
  case (edits_replace r b n x y)
  show ?case
  proof (cases a)
    case Nil
    then show ?thesis using edits_replace.hyps
      by (intro exI [of _ "[]"] exI [of _ "y # b"] exI [of _ 0] exI [of _ "Suc n"]) (auto intro: edits.intros)
  next
    case (Cons z zs)
    then obtain b1 b2 m k where "b = b1 @ b2" "edits zs b1 m" "edits c b2 k" "n = m + k"
      using edits_replace.hyps by (metis append_Cons list.inject)
    then show ?thesis using Cons
      by (intro exI [of _ "y # b1"] exI [of _ b2] exI [of _ "Suc m"] exI [of _ k]) (auto intro: edits.intros)
  qed
next
  case (edits_insert b n y)
  then obtain b1 b2 m k where "b = b1 @ b2" "edits a b1 m" "edits c b2 k" "n = m + k" by blast
  then show ?case
    by (intro exI [of _ "y # b1"] exI [of _ b2] exI [of _ "Suc m"] exI [of _ k]) (auto intro: edits.intros)
next
  case (edits_delete r b n x)
  show ?case
  proof (cases a)
    case Nil
    then show ?thesis using edits_delete.hyps
      by (intro exI [of _ "[]"] exI [of _ b] exI [of _ 0] exI [of _ "Suc n"]) (auto intro: edits.intros)
  next
    case (Cons z zs)
    then obtain b1 b2 m k where "b = b1 @ b2" "edits zs b1 m" "edits c b2 k" "n = m + k"
      using edits_delete.hyps by (metis append_Cons list.inject)
    then show ?thesis using Cons
      by (intro exI [of _ b1] exI [of _ b2] exI [of _ "Suc m"] exI [of _ k]) (auto intro: edits.intros)
  qed
qed

section \<open>The rows compute the distance\<close>

text \<open>The row the code holds after a prefix: the distance of the prefix to each prefix of the other text, reversed.\<close>

fun lev_row :: "'c list \<Rightarrow> 'c list \<Rightarrow> 'c list \<Rightarrow> nat list" where
  "lev_row rp rb [] = [lev rp rb]"
| "lev_row rp rb (c # b) = lev rp rb # lev_row rp (c # rb) b"

lemma lev_row_first: "lev_row rp rb b = lev rp rb # tl (lev_row rp rb b)"
  by (cases b) simp_all

lemma next_cells_row:
  "lev (ca # rp) rb # next_cells ca b (lev_row rp rb b) (lev (ca # rp) rb) = lev_row (ca # rp) rb b"
proof (induction b arbitrary: rb)
  case (Cons c b)
  obtain u prev where row: "lev_row rp (c # rb) b = u # prev" and u: "u = lev rp (c # rb)"
    using lev_row_first by blast
  have cell: "min (min (lev rp rb + same_or_one ca c) (u + 1)) (lev (ca # rp) rb + 1) = lev (ca # rp) (c # rb)"
    by (simp add: u)
  show ?case using Cons [of "c # rb"] cell unfolding lev_row.simps row
    by (simp only: next_cells.simps Let_def)
qed simp

lemma lev_row_start: "lev_row [] rb b = [length rb..<length rb + length b + 1]"
  by (induction b arbitrary: rb) (simp_all add: upt_rec)

lemma lev_row_nth: "lev_row rp rb b ! length b = lev rp (rev b @ rb)"
  by (induction b arbitrary: rb) simp_all

lemma lev_row_set: "set (lev_row rp rb b) = {lev rp (rev (take j b) @ rb) | j. j \<le> length b}"
proof (induction b arbitrary: rb)
  case (Cons c b)
  have "{lev rp (rev (take j (c # b)) @ rb) | j. j \<le> length (c # b)} =
      insert (lev rp rb) {lev rp (rev (take j b) @ c # rb) | j. j \<le> length b}" (is "?A = ?B")
  proof (intro set_eqI iffI)
    fix x assume "x \<in> ?A"
    then obtain j where "x = lev rp (rev (take j (c # b)) @ rb)" "j \<le> length (c # b)" by blast
    then show "x \<in> ?B" by (cases j) auto
  next
    fix x assume "x \<in> ?B"
    then show "x \<in> ?A"
      by (auto intro: exI [of _ 0]) (metis Suc_le_mono append.assoc append_Cons append_Nil rev.simps(2) take_Suc_Cons)
  qed
  then show ?case using Cons [of "c # rb"] by simp
qed simp

lemma foldl_min_below: "foldl min (x :: nat) xs \<le> m \<longleftrightarrow> (\<exists>y \<in> insert x (set xs). y \<le> m)"
  by (induction xs arbitrary: x) (auto simp: min_le_iff_disj)

text \<open>A row with no cell inside the bound stays outside it: a later row never holds a smaller cell.\<close>

lemma row_below_some:
  assumes "lev (ra @ rp) (rev b) \<le> m"
  shows "\<exists>y \<in> set (lev_row rp [] b). y \<le> m"
proof -
  obtain b1 b2 m' k where split: "rev b = b1 @ b2" "edits rp b2 k" "lev (ra @ rp) (rev b) = m' + k"
    using edits_split [OF edits_lev] by blast
  from split(1) have b2: "b = rev b2 @ rev b1" by (metis rev_append rev_rev_ident)
  then have "b2 = rev (take (length b2) b)" "length b2 \<le> length b" by simp_all
  then have "lev rp b2 \<in> set (lev_row rp [] b)" unfolding lev_row_set by (auto simp del: rev_take) (metis append_Nil2)
  moreover have "lev rp b2 \<le> m" using edits_lower [OF split(2)] split(3) assms by simp
  ultimately show ?thesis by blast
qed

lemma distance_rows_lev:
  "distance_rows m b (lev_row rp [] b) (length rp) as = Some (lev_row (rev as @ rp) [] b) \<or>
   distance_rows m b (lev_row rp [] b) (length rp) as = None \<and> m < lev (rev as @ rp) (rev b)"
proof (induction as arbitrary: rp)
  case (Cons ca as)
  define cur where "cur = lev_row (ca # rp) [] b"
  have cur: "(length rp + 1) # next_cells ca b (lev_row rp [] b) (length rp + 1) = cur"
    using next_cells_row [of ca rp "[]" b] by (simp add: cur_def)
  have "cur = hd cur # tl cur" unfolding cur_def by (cases b) simp_all
  then have small: "foldl min (hd cur) (tl cur) \<le> m \<longleftrightarrow> (\<exists>y \<in> set cur. y \<le> m)"
    unfolding foldl_min_below by (metis list.set(2))
  show ?case
  proof (cases "foldl min (hd cur) (tl cur) \<le> m")
    case True
    then show ?thesis using Cons [of "ca # rp"] cur by (simp add: Let_def cur_def)
  next
    case False
    then have "\<not> lev (rev as @ (ca # rp)) (rev b) \<le> m"
      using row_below_some small unfolding cur_def by blast
    then show ?thesis using False cur by (simp add: Let_def)
  qed
qed simp

lemma lev_lengths: "length a \<le> length b + lev a b" "length b \<le> length a + lev a b"
  using edits_length [OF edits_lev] by auto

lemma distance_within_lev: "distance_within a b m = (if lev a b \<le> m then Some (lev a b) else None)"
proof -
  have rows: "distance_rows m b [0..<length b + 1] 0 a = Some (lev_row (rev a) [] b) \<or>
      distance_rows m b [0..<length b + 1] 0 a = None \<and> m < lev a b"
    using distance_rows_lev [of m b "[]" a] lev_rev [of a b] by (simp add: lev_row_start)
  have last: "lev_row (rev a) [] b ! length b = lev a b" by (simp add: lev_row_nth lev_rev)
  show ?thesis
  proof (cases "(if length a \<le> length b then length b - length a else length a - length b) > m")
    case True
    have one: "length a \<le> length b + lev a b" and two: "length b \<le> length a + lev a b"
      by (rule lev_lengths)+
    have "m < lev a b"
    proof (cases "length a \<le> length b")
      case le: True
      then have "m < length b - length a" using True by simp
      then show ?thesis using two le by linarith
    next
      case False
      then have "m < length a - length b" using True by simp
      then show ?thesis using one False by linarith
    qed
    then show ?thesis using True unfolding distance_within_def by simp
  next
    case False
    show ?thesis
    proof (cases "a = []")
      case True
      then show ?thesis using False by (auto simp: distance_within_def)
    next
      case nonempty: False
      show ?thesis using rows last False nonempty unfolding distance_within_def by auto
    qed
  qed
qed


lemma lev_least: "d = lev a b \<longleftrightarrow> edits a b d \<and> (\<forall>n. edits a b n \<longrightarrow> d \<le> n)"
proof
  assume "d = lev a b"
  then show "edits a b d \<and> (\<forall>n. edits a b n \<longrightarrow> d \<le> n)" using edits_lev edits_lower by blast
next
  assume least: "edits a b d \<and> (\<forall>n. edits a b n \<longrightarrow> d \<le> n)"
  then have "d \<le> lev a b" using edits_lev by blast
  moreover have "lev a b \<le> d" using least edits_lower by blast
  ultimately show "d = lev a b" by (rule order_antisym)
qed

text \<open>
  C36: The bounded edit distance is the least number of characters replaced, inserted and deleted that
  makes one text the other, when it is inside the bound, and nothing otherwise: neither the exit on the
  two lengths nor the exit on a row with no cell inside the bound loses an answer.
\<close>

theorem distance_is_the_least_edits:
  "edit_distance_within a b m = Some d \<longleftrightarrow>
     d \<le> m \<and> edits (utf8_chars a) (utf8_chars b) d \<and>
     (\<forall>n. edits (utf8_chars a) (utf8_chars b) n \<longrightarrow> d \<le> n)"
proof -
  let ?l = "lev (utf8_chars a) (utf8_chars b)"
  have "edit_distance_within a b m = Some d \<longleftrightarrow> d = ?l \<and> ?l \<le> m"
    unfolding edit_distance_within_def distance_within_lev
    by (cases "?l \<le> m") (simp_all only: if_True if_False option.inject option.distinct, blast+)
  also have "\<dots> \<longleftrightarrow> d \<le> m \<and> d = ?l" by auto
  also have "\<dots> \<longleftrightarrow> d \<le> m \<and> edits (utf8_chars a) (utf8_chars b) d \<and>
      (\<forall>n. edits (utf8_chars a) (utf8_chars b) n \<longrightarrow> d \<le> n)"
    by (simp only: lev_least)
  finally show ?thesis .
qed

theorem distance_is_the_least_edits_witness:
  "edits (utf8_chars ''moe'') (utf8_chars ''moes'') 1 \<and> \<not> edits (utf8_chars ''moe'') (utf8_chars ''moes'') 0"
proof -
  have "edit_distance_within ''moe'' ''moes'' 2 = Some 1" by code_simp
  from this [unfolded distance_is_the_least_edits] show ?thesis by force
qed

lemma distance_symmetric: "edits a b n \<Longrightarrow> edits b a n"
  by (induction rule: edits.induct) (auto intro: edits.intros)

section \<open>Rust's tables of characters\<close>

text \<open>
  What the standard library answers from the Unicode tables it is built with: \<open>str::to_lowercase\<close>, and
  the classes of a \<open>char\<close>, here a character's UTF-8 bytes.
\<close>

record unicode =
  lower_text :: "string \<Rightarrow> string"
  is_alphanumeric :: "string \<Rightarrow> bool"
  is_alphabetic :: "string \<Rightarrow> bool"
  is_lowercase :: "string \<Rightarrow> bool"
  is_uppercase :: "string \<Rightarrow> bool"
  is_numeric :: "string \<Rightarrow> bool"

definition ascii_upper_case :: "char \<Rightarrow> bool" where
  "ascii_upper_case c \<longleftrightarrow> ascii_lower c \<noteq> c"

definition ascii_lower_case :: "char \<Rightarrow> bool" where
  "ascii_lower_case c \<longleftrightarrow> 97 \<le> (of_char c :: nat) \<and> (of_char c :: nat) \<le> 122"

definition ascii_alphanumeric :: "char \<Rightarrow> bool" where
  "ascii_alphanumeric c \<longleftrightarrow> is_digit c \<or> ascii_upper_case c \<or> ascii_lower_case c"

text \<open>The tables cut down to ASCII, for concrete instances.\<close>

definition single :: "(char \<Rightarrow> bool) \<Rightarrow> string \<Rightarrow> bool" where
  "single p w = (case w of [c] \<Rightarrow> p c | _ \<Rightarrow> False)"

definition ascii_tables :: unicode where
  "ascii_tables =
     \<lparr>lower_text = map ascii_lower, is_alphanumeric = single ascii_alphanumeric,
      is_alphabetic = single (\<lambda>c. ascii_upper_case c \<or> ascii_lower_case c),
      is_lowercase = single ascii_lower_case, is_uppercase = single ascii_upper_case,
      is_numeric = single is_digit\<rparr>"

text \<open>\<open>str::split\<close> by a test on characters, and \<open>split_whitespace\<close>.\<close>

fun split_chars :: "('c \<Rightarrow> bool) \<Rightarrow> 'c list \<Rightarrow> 'c list list" where
  "split_chars p [] = [[]]"
| "split_chars p (c # cs) =
     (if p c then [] # split_chars p cs
      else case split_chars p cs of [] \<Rightarrow> [[c]] | w # ws \<Rightarrow> (c # w) # ws)"

definition pieces :: "(string \<Rightarrow> bool) \<Rightarrow> string \<Rightarrow> string list" where
  "pieces p s = map concat (split_chars p (utf8_chars s))"

definition split_whitespace :: "string \<Rightarrow> string list" where
  "split_whitespace s = filter (\<lambda>w. w \<noteq> []) (pieces is_ws_char s)"

section \<open>Words\<close>

definition MIN_WORD :: nat where "MIN_WORD = 4"
definition COMMON_AT :: nat where "COMMON_AT = 3"
definition SHARED_WORDS_NEEDED :: nat where "SHARED_WORDS_NEEDED = 2"

definition STOP_WORDS :: "string list" where
  "STOP_WORDS =
     [''about'', ''above'', ''after'', ''again'', ''also'', ''among'', ''around'', ''because'', ''been'', ''before'',
      ''being'', ''below'', ''between'', ''both'', ''cannot'', ''could'', ''does'', ''doing'', ''down'', ''during'',
      ''each'', ''either'', ''else'', ''from'', ''further'', ''have'', ''having'', ''here'', ''hers'', ''into'',
      ''itself'', ''just'', ''might'', ''more'', ''most'', ''must'', ''never'', ''only'', ''other'', ''over'', ''same'',
      ''shall'', ''should'', ''since'', ''some'', ''such'', ''than'', ''that'', ''their'', ''them'', ''then'', ''there'',
      ''these'', ''they'', ''this'', ''those'', ''through'', ''thus'', ''under'', ''until'', ''upon'', ''very'', ''were'',
      ''what'', ''when'', ''where'', ''whether'', ''which'', ''while'', ''whom'', ''whose'', ''will'', ''with'',
      ''within'', ''without'', ''would'', ''your'', ''yours'']"

text \<open>
  \<open>slice::binary_search\<close> on a slice in order answers membership, and the list is in order
  (\<open>stop_words_sorted\<close>).
\<close>

definition is_stop_word :: "unicode \<Rightarrow> string \<Rightarrow> bool" where
  "is_stop_word U word \<longleftrightarrow> lower_text U word \<in> set STOP_WORDS"

lemma stop_words_sorted: "sorted_wrt (<) STOP_WORDS"
  unfolding STOP_WORDS_def by code_simp

definition ordered_set :: "'a::linorder list \<Rightarrow> 'a list" where
  "ordered_set xs = remdups (sort xs)"

lemma ordered_set_set [simp]: "set (ordered_set xs) = set xs"
  by (simp add: ordered_set_def)

lemma ordered_set_sorted [simp]: "sorted (ordered_set xs)" "distinct (ordered_set xs)"
  by (simp_all add: ordered_set_def sorted_remdups)

definition words :: "unicode \<Rightarrow> string \<Rightarrow> string list" where
  "words U t =
     ordered_set (filter (\<lambda>w. list_ex (is_alphabetic U) (utf8_chars w))
       (filter (\<lambda>w. MIN_WORD \<le> char_count w)
         (pieces (\<lambda>c. \<not> is_alphanumeric U c) (lower_text U t))))"

text \<open>
  The parts a capital starts: one pass over a segment's characters with the one before, the part so
  far, and the one after.
\<close>

definition starts_part :: "unicode \<Rightarrow> string option \<Rightarrow> string \<Rightarrow> string \<Rightarrow> string list \<Rightarrow> bool" where
  "starts_part U before part c cs \<longleftrightarrow>
     (let after_lower = (case before of None \<Rightarrow> False | Some b \<Rightarrow> is_lowercase U b \<or> is_numeric U b);
          before_lower = (case cs of [] \<Rightarrow> False | n # _ \<Rightarrow> is_lowercase U n)
      in is_uppercase U c \<and> part \<noteq> [] \<and>
         (after_lower \<or> (case before of None \<Rightarrow> False | Some b \<Rightarrow> is_uppercase U b) \<and> before_lower))"

fun camel_parts :: "unicode \<Rightarrow> string option \<Rightarrow> string \<Rightarrow> string list \<Rightarrow> string list" where
  "camel_parts U before part [] = [part]"
| "camel_parts U before part (c # cs) =
     (if starts_part U before part c cs then part # camel_parts U (Some c) c cs
      else camel_parts U (Some c) (part @ c) cs)"

definition camel_words :: "unicode \<Rightarrow> string \<Rightarrow> string list" where
  "camel_words U t =
     ordered_set (words U t @
       concat (map (\<lambda>segment. concat (map (words U) (camel_parts U None [] (utf8_chars segment))))
         (pieces (\<lambda>c. \<not> is_alphanumeric U c) t)))"

definition counted_for :: "unicode \<Rightarrow> entity \<Rightarrow> string list" where
  "counted_for U e = ordered_set (concat (map (camel_words U) (labels e @ [slug (en_id e)])))"

definition carried_by :: "unicode \<Rightarrow> entity \<Rightarrow> string list" where
  "carried_by U e = ordered_set (concat (map (words U) (labels e @ [slug (en_id e)])))"

section \<open>How rare a word is\<close>

type_synonym rarity = "(string \<times> string, nat) btree"

definition count_word :: "kind \<Rightarrow> string \<Rightarrow> rarity \<Rightarrow> rarity" where
  "count_word k w r = bt_insert (k, w) ((case bt_get r (k, w) of None \<Rightarrow> 0 | Some n \<Rightarrow> n) + 1) r"

definition rarity_of :: "world \<Rightarrow> unicode \<Rightarrow> entity list \<Rightarrow> rarity" where
  "rarity_of W U entities =
     fold (\<lambda>e r. case entity_kind W (en_id e) of
                   None \<Rightarrow> r
                 | Some k \<Rightarrow> fold (count_word k) (counted_for U e) r)
       (filter browsable entities) []"

definition carriers :: "rarity \<Rightarrow> kind \<Rightarrow> string \<Rightarrow> nat" where
  "carriers r k w = (case bt_get r (k, w) of None \<Rightarrow> 0 | Some n \<Rightarrow> n)"

definition is_rare :: "rarity \<Rightarrow> kind \<Rightarrow> string \<Rightarrow> bool" where
  "is_rare r k w \<longleftrightarrow> 1 \<le> carriers r k w \<and> carriers r k w < COMMON_AT"

lemma count_word_ok: "bt_ok r \<Longrightarrow> bt_ok (count_word k w r)"
  by (simp add: count_word_def)

lemma carriers_count_word:
  "bt_ok r \<Longrightarrow> carriers (count_word k w r) k' w' = carriers r k' w' + (if k = k' \<and> w = w' then 1 else 0)"
  by (auto simp: carriers_def count_word_def)

lemma count_words:
  "bt_ok r \<Longrightarrow> distinct ws \<Longrightarrow> bt_ok (fold (count_word k) ws r) \<and>
     carriers (fold (count_word k) ws r) k' w' = carriers r k' w' + (if k = k' \<and> w' \<in> set ws then 1 else 0)"
proof (induction ws arbitrary: r)
  case (Cons w ws)
  have ok: "bt_ok (count_word k w r)" using Cons.prems(1) by (rule count_word_ok)
  have "distinct ws" using Cons.prems(2) by simp
  note rest_counts = Cons.IH [OF ok this]
  show ?case using rest_counts carriers_count_word [OF Cons.prems(1), of k w k' w'] Cons.prems(2) by auto
qed simp

lemma counted_for_distinct [simp]: "distinct (counted_for U e)"
  by (simp add: counted_for_def)

definition carries :: "world \<Rightarrow> unicode \<Rightarrow> kind \<Rightarrow> string \<Rightarrow> entity \<Rightarrow> bool" where
  "carries W U k w e \<longleftrightarrow> browsable e \<and> entity_kind W (en_id e) = Some k \<and> w \<in> set (counted_for U e)"

lemma rarity_fold:
  "bt_ok r \<Longrightarrow>
   carriers (fold (\<lambda>e r. case entity_kind W (en_id e) of None \<Rightarrow> r
                    | Some k \<Rightarrow> fold (count_word k) (counted_for U e) r) (filter browsable es) r) k w =
     carriers r k w + length (filter (carries W U k w) es)"
proof (induction es arbitrary: r)
  case (Cons e es)
  show ?case
  proof (cases "browsable e \<and> (\<exists>j. entity_kind W (en_id e) = Some j)")
    case True
    then obtain j where j: "entity_kind W (en_id e) = Some j" by blast
    have ok: "bt_ok (fold (count_word j) (counted_for U e) r)"
      and step: "carriers (fold (count_word j) (counted_for U e) r) k w =
        carriers r k w + (if j = k \<and> w \<in> set (counted_for U e) then 1 else 0)"
      using count_words [OF Cons.prems counted_for_distinct] by blast+
    show ?thesis using Cons.IH [OF ok] step True j by (auto simp: carries_def)
  next
    case False
    then show ?thesis using Cons.IH [OF Cons.prems] by (auto simp: carries_def split: option.splits)
  qed
qed simp

text \<open>
  A word's count is the number of browsable things of the kind whose names, aliases or slug hold
  it, a thing counted once however often it says the word; so a word is evidence exactly when one or two
  such things carry it, and a count over nothing makes no word rare.
\<close>

theorem rarity_counts_the_carriers:
  "carriers (rarity_of W U es) k w = length (filter (carries W U k w) es) \<and>
   (is_rare (rarity_of W U es) k w \<longleftrightarrow> length (filter (carries W U k w) es) \<in> {1, 2})"
proof -
  have count: "carriers (rarity_of W U es) k w = length (filter (carries W U k w) es)"
    using rarity_fold [where r = "[]" and W = W and U = U and es = es and k = k and w = w] by (simp add: rarity_of_def carriers_def bt_get_def)
  have "is_rare (rarity_of W U es) k w \<longleftrightarrow> length (filter (carries W U k w) es) \<in> {1, 2}"
    unfolding is_rare_def count COMMON_AT_def by auto
  with count show ?thesis by blast
qed

section \<open>Things that share a word, and things a text names\<close>

definition shared_with :: "world \<Rightarrow> unicode \<Rightarrow> string list \<Rightarrow> rarity \<Rightarrow> entity \<Rightarrow> (entity \<times> string list) option" where
  "shared_with W U asked r e =
     (let given = (case en_parent e of None \<Rightarrow> [] | Some p \<Rightarrow> words U (slug p));
          theirs = filter (\<lambda>w. w \<notin> set given) (carried_by U e)
      in Option.bind (entity_kind W (en_id e)) (\<lambda>k.
           let shared = filter (is_rare r k) (filter (\<lambda>w. w \<in> set theirs) asked)
           in if shared = [] then None else Some (e, shared)))"

definition sharing_a_word :: "world \<Rightarrow> unicode \<Rightarrow> string \<Rightarrow> entity list \<Rightarrow> (entity \<times> string list) list" where
  "sharing_a_word W U t entities =
     (let asked = words U t
      in if asked = [] then []
         else sort_by (\<lambda>a b. then_with (cmp (length (snd b)) (length (snd a))) (cmp (en_id (fst a)) (en_id (fst b))))
                (List.map_filter (shared_with W U asked (rarity_of W U entities)) (filter browsable entities)))"

definition tokens :: "unicode \<Rightarrow> string \<Rightarrow> string list" where
  "tokens U t = filter (\<lambda>w. w \<noteq> []) (pieces (\<lambda>c. \<not> is_alphanumeric U c) (lower_text U t))"

text \<open>\<open>slice::windows\<close>: its panic on a width of 0 is not reached, a name of no tokens is worth nothing.\<close>

fun has_window :: "'a list \<Rightarrow> 'a list \<Rightarrow> bool" where
  "has_window name [] \<longleftrightarrow> name = []"
| "has_window name (x # xs) \<longleftrightarrow> take (length name) (x # xs) = name \<or> has_window name xs"

definition label_said :: "unicode \<Rightarrow> string list \<Rightarrow> string list \<Rightarrow> string \<Rightarrow> bool" where
  "label_said U said given label \<longleftrightarrow>
     (let name = tokens U label;
          worth = (1 < length name \<or> list_ex (\<lambda>t. MIN_WORD \<le> char_count t) name)
      in worth \<and> \<not> list_all (\<lambda>t. t \<in> set given) name \<and> has_window name said)"

definition named_in_full :: "unicode \<Rightarrow> string \<Rightarrow> entity list \<Rightarrow> entity list" where
  "named_in_full U t entities =
     (let said = tokens U t
      in if said = [] then []
         else sort_by (\<lambda>a b. cmp (en_id a) (en_id b))
                (filter (\<lambda>e. let given = (case en_parent e of None \<Rightarrow> [] | Some p \<Rightarrow> tokens U (slug p))
                              in list_ex (label_said U said given) (labels e))
                  (filter browsable entities)))"

lemma has_window_iff: "name \<noteq> [] \<Longrightarrow> has_window name xs \<longleftrightarrow> (\<exists>a b. xs = a @ name @ b)"
proof (induction xs)
  case (Cons x xs)
  show ?case
  proof
    assume "has_window name (x # xs)"
    then consider "take (length name) (x # xs) = name" | "has_window name xs" by auto
    then show "\<exists>a b. x # xs = a @ name @ b"
    proof cases
      case 1
      then have "x # xs = [] @ name @ drop (length name) (x # xs)" by (metis append_Nil append_take_drop_id)
      then show ?thesis by blast
    next
      case 2
      then show ?thesis using Cons by (metis append_Cons)
    qed
  next
    assume "\<exists>a b. x # xs = a @ name @ b"
    then obtain a b where split: "x # xs = a @ name @ b" by blast
    show "has_window name (x # xs)"
    proof (cases a)
      case Nil
      then have "take (length name) (x # xs) = name" using split by simp
      then show ?thesis by simp
    next
      case (Cons y ys)
      then have "\<exists>a b. xs = a @ name @ b" using split by auto
      then show ?thesis using Cons.IH Cons.prems by simp
    qed
  qed
qed auto

section \<open>Known short forms\<close>

text \<open>
  The table is a file beside the code, one family per line; \<open>table\<close> is its text. A line's end, with or
  without a carriage return, is trimmed away with the line's edges, so splitting at the newline reads it.
\<close>

type_synonym families = "(string, string list) btree"

definition family_of_line :: "unicode \<Rightarrow> string \<Rightarrow> (string \<times> string list) option" where
  "family_of_line U raw =
     (let line = trim raw
      in if line = [] \<or> starts_with ''#'' line then None
         else map_option (\<lambda>(full, shorts).
                (lower_text U (trim full), ordered_set (map (lower_text U) (split_whitespace shorts))))
              (split_once CHR '':'' line))"

definition families_of :: "unicode \<Rightarrow> string \<Rightarrow> families" where
  "families_of U table =
     fold (\<lambda>(full, shorts) t.
             bt_insert full (ordered_set ((case bt_get t full of None \<Rightarrow> [] | Some old \<Rightarrow> old) @ shorts)) t)
       (List.map_filter (family_of_line U) (split_on CHR 0x0A table)) []"

definition name_words :: "unicode \<Rightarrow> string \<Rightarrow> string list" where
  "name_words U name = map (lower_text U) (filter (\<lambda>w. w \<noteq> []) (pieces (\<lambda>c. \<not> is_alphanumeric U c) name))"

definition short_form_of :: "families \<Rightarrow> string \<Rightarrow> string \<Rightarrow> bool" where
  "short_form_of fam s full = (case bt_get fam full of None \<Rightarrow> False | Some shorts \<Rightarrow> s \<in> set shorts)"

fun linked_words :: "families \<Rightarrow> bool \<Rightarrow> string list \<Rightarrow> string list \<Rightarrow> bool" where
  "linked_words fam linked (x # xs) (y # ys) =
     (if x = y then linked_words fam linked xs ys
      else if short_form_of fam x y \<or> short_form_of fam y x then linked_words fam True xs ys
      else False)"
| "linked_words fam linked xs ys = linked"

definition same_through_nicknames :: "unicode \<Rightarrow> families \<Rightarrow> string \<Rightarrow> string \<Rightarrow> bool" where
  "same_through_nicknames U fam a b =
     (let a' = name_words U a; b' = name_words U b
      in if a' = [] \<or> length a' \<noteq> length b' then False else linked_words fam False a' b')"

definition shared_words :: "unicode \<Rightarrow> string \<Rightarrow> string \<Rightarrow> (string \<Rightarrow> bool) \<Rightarrow> string list" where
  "shared_words U a b rare =
     filter (\<lambda>w. \<not> is_stop_word U w \<and> rare w)
       (filter (\<lambda>w. w \<in> set (camel_words U b)) (camel_words U a))"

definition short_pair :: "families \<Rightarrow> string \<Rightarrow> string \<Rightarrow> bool" where
  "short_pair fam x y \<longleftrightarrow> x \<noteq> y \<and> (short_form_of fam x y \<or> short_form_of fam y x)"

lemma linked_words_iff:
  "length xs = length ys \<Longrightarrow>
   linked_words fam linked xs ys \<longleftrightarrow>
     (\<forall>(x, y) \<in> set (zip xs ys). x = y \<or> short_pair fam x y) \<and>
     (linked \<or> (\<exists>(x, y) \<in> set (zip xs ys). short_pair fam x y))"
  by (induction fam linked xs ys rule: linked_words.induct) (auto simp: short_pair_def)

lemma short_pair_sym: "short_pair fam x y \<longleftrightarrow> short_pair fam y x"
  by (auto simp: short_pair_def)

lemma same_through_nicknames_iff:
  "same_through_nicknames U fam a b \<longleftrightarrow>
     length (name_words U a) = length (name_words U b) \<and>
     (\<forall>(x, y) \<in> set (zip (name_words U a) (name_words U b)). x = y \<or> short_pair fam x y) \<and>
     (\<exists>(x, y) \<in> set (zip (name_words U a) (name_words U b)). short_pair fam x y)"
  by (auto simp: same_through_nicknames_def Let_def linked_words_iff)

lemma zip_swap_set: "(x, y) \<in> set (zip xs ys) \<longleftrightarrow> (y, x) \<in> set (zip ys xs)"
  by (auto simp: set_zip)

lemma nicknames_swap:
  assumes "same_through_nicknames U fam a b"
  shows "same_through_nicknames U fam b a"
proof -
  note read = iffD1 [OF same_through_nicknames_iff assms]
  note len = conjunct1 [OF read]
  note all = conjunct1 [OF conjunct2 [OF read]]
  note ex = conjunct2 [OF conjunct2 [OF read]]
  have "y = x \<or> short_pair fam y x" if "(y, x) \<in> set (zip (name_words U b) (name_words U a))" for x y
  proof -
    have "(x, y) \<in> set (zip (name_words U a) (name_words U b))"
      using that by (simp only: zip_swap_set [of x y])
    from bspec [OF all this] have "x = y \<or> short_pair fam x y" by simp
    then show ?thesis using short_pair_sym [of fam x y] by blast
  qed
  moreover have "\<exists>(y, x) \<in> set (zip (name_words U b) (name_words U a)). short_pair fam y x"
  proof -
    obtain x y where "(x, y) \<in> set (zip (name_words U a) (name_words U b))" and "short_pair fam x y"
      using ex by blast
    then have "(y, x) \<in> set (zip (name_words U b) (name_words U a))" and "short_pair fam y x"
      by (simp_all only: zip_swap_set [of y x] short_pair_sym [of fam y x])
    then show ?thesis by (intro bexI [of _ "(y, x)"]) simp_all
  qed
  ultimately show ?thesis unfolding same_through_nicknames_iff using len by auto
qed

text \<open>
  The nickname test reads the same whichever of the two names is given first, it never links a name
  with itself, and a pair it links differs in some word that the table lists as a short form.
\<close>

theorem nickname_test_is_symmetric:
  "(same_through_nicknames U fam a b \<longleftrightarrow> same_through_nicknames U fam b a) \<and>
   \<not> same_through_nicknames U fam a a"
proof
  show "same_through_nicknames U fam a b \<longleftrightarrow> same_through_nicknames U fam b a"
    using nicknames_swap by blast
  have "x = y" if "(x, y) \<in> set (zip w w)" for x y :: string and w using that by (auto simp: set_zip)
  then show "\<not> same_through_nicknames U fam a a"
    unfolding same_through_nicknames_iff short_pair_def by blast
qed

lemma shared_words_swap: "set (shared_words U a b rare) = set (shared_words U b a rare)"
  by (auto simp: shared_words_def)

end
