(* ===== verification/Write_Guard.thy ===== *)
theory Write_Guard
  imports Likeness Numbering
begin

text \<open>
  The write guard (\<open>memory/guard.rs\<close>, \<open>memory/guard/existence.rs\<close>): every write that names a thing is
  compared with the things there are, and the ones it might have meant are reported before anything is
  written. A refusal mints a token (\<open>override_token.rs\<close>), and that token with a reason lifts it. The
  hash the token is made from is the argument \<open>H\<close>; the table of short forms is \<open>fam\<close>.
\<close>

section \<open>Reasons\<close>

datatype match_reason =
    ExactHandle | CardNumber | SelfParent | SameName | SameNameOtherKind | NearSlug | Contains
  | NearName | HeldNumber | Nickname | SharedWord

fun reason_rank :: "match_reason \<Rightarrow> nat" where
  "reason_rank ExactHandle = 0"
| "reason_rank CardNumber = 1"
| "reason_rank SelfParent = 2"
| "reason_rank SameName = 3"
| "reason_rank SameNameOtherKind = 4"
| "reason_rank NearSlug = 5"
| "reason_rank Contains = 6"
| "reason_rank NearName = 7"
| "reason_rank HeldNumber = 8"
| "reason_rank Nickname = 9"
| "reason_rank SharedWord = 10"

lemma reason_rank_inj [simp]: "reason_rank a = reason_rank b \<longleftrightarrow> a = b"
  by (cases a; cases b) simp_all

instantiation match_reason :: linorder
begin

definition less_eq_match_reason :: "match_reason \<Rightarrow> match_reason \<Rightarrow> bool" where
  "less_eq_match_reason a b \<longleftrightarrow> reason_rank a \<le> reason_rank b"

definition less_match_reason :: "match_reason \<Rightarrow> match_reason \<Rightarrow> bool" where
  "less_match_reason a b \<longleftrightarrow> reason_rank a < reason_rank b"

instance
  by standard (auto simp: less_eq_match_reason_def less_match_reason_def)

end

fun needs_a_reason :: "match_reason \<Rightarrow> bool" where
  "needs_a_reason SameNameOtherKind = True"
| "needs_a_reason Contains = True"
| "needs_a_reason Nickname = True"
| "needs_a_reason SharedWord = True"
| "needs_a_reason ExactHandle = False"
| "needs_a_reason CardNumber = False"
| "needs_a_reason SelfParent = False"
| "needs_a_reason SameName = False"
| "needs_a_reason NearSlug = False"
| "needs_a_reason NearName = False"
| "needs_a_reason HeldNumber = False"

record entity_match =
  em_handle :: entity_id
  em_kind :: kind
  em_name :: string
  em_source :: string
  em_reason :: match_reason
  em_told_apart_by :: "string option"

datatype decision = Proceed | Block "entity_match list"

definition match_of :: "entity \<Rightarrow> match_reason \<Rightarrow> entity_match" where
  "match_of e r =
     \<lparr>em_handle = en_id e, em_kind = en_kind e, em_name = en_name e, em_source = en_source e,
      em_reason = r, em_told_apart_by = None\<rparr>"

section \<open>What tells two things apart\<close>

definition TOLD_APART_JOINER :: string where "TOLD_APART_JOINER = '' | ''"

text \<open>\<open>str::split\<close> by a text: the leftmost occurrence ends a piece.\<close>

function split_text :: "string \<Rightarrow> string \<Rightarrow> string \<Rightarrow> string list" where
  "split_text pat acc [] = [acc]"
| "split_text pat acc (c # cs) =
     (if pat \<noteq> [] \<and> starts_with pat (c # cs)
      then acc # split_text pat [] (drop (length pat) (c # cs))
      else split_text pat (acc @ [c]) cs)"
  by pat_completeness auto
termination split_text
  by (relation "measure (\<lambda>(pat, acc, s). length s)") auto

definition add_told_apart_by :: "string option \<Rightarrow> string \<Rightarrow> string" where
  "add_told_apart_by current why =
     (let why = trim why
      in case (case current of None \<Rightarrow> None | Some c \<Rightarrow> if trim c = [] then None else Some (trim c)) of
           None \<Rightarrow> why
         | Some held \<Rightarrow>
             if why \<in> set (split_text TOLD_APART_JOINER [] held) then held
             else held @ TOLD_APART_JOINER @ why)"

section \<open>Comparison forms\<close>

definition NEAR :: nat where "NEAR = 2"

definition normalize_name :: "unicode \<Rightarrow> string \<Rightarrow> string" where
  "normalize_name U name = join '' '' (map (lower_text U) (split_whitespace name))"

definition slug_step :: "string \<Rightarrow> string \<Rightarrow> string" where
  "slug_step out w =
     (if single ascii_alphanumeric w then out @ [ascii_lower (hd w)]
      else if out \<noteq> [] \<and> last out = CHR ''-'' then out
      else out @ ''-'')"

definition trim_dashes :: "string \<Rightarrow> string" where
  "trim_dashes s = rev (dropWhile (\<lambda>c. c = CHR ''-'') (rev (dropWhile (\<lambda>c. c = CHR ''-'') s)))"

definition slugify :: "string \<Rightarrow> string" where
  "slugify name = trim_dashes (foldl slug_step [] (utf8_chars name))"

definition folded_names :: "unicode \<Rightarrow> string list \<Rightarrow> string list" where
  "folded_names U ls = filter (\<lambda>l. l \<noteq> []) (map (normalize_name U) ls)"

section \<open>Numbered series\<close>

text \<open>
  A byte of a longer character is no digit, so the pass over characters is a pass over bytes. The run in
  hand is the third argument.
\<close>

fun digit_scan :: "string \<Rightarrow> string list \<Rightarrow> string option \<Rightarrow> string \<Rightarrow> string \<times> string list" where
  "digit_scan sk runs None [] = (sk, runs)"
| "digit_scan sk runs (Some r) [] = (sk @ ''#'', runs @ [r])"
| "digit_scan sk runs None (c # cs) =
     (if is_digit c then digit_scan sk runs (Some [c]) cs else digit_scan (sk @ [c]) runs None cs)"
| "digit_scan sk runs (Some r) (c # cs) =
     (if is_digit c then digit_scan sk runs (Some (r @ [c])) cs
      else digit_scan (sk @ ''#'' @ [c]) (runs @ [r]) None cs)"

definition digit_runs :: "string \<Rightarrow> string \<times> string list" where
  "digit_runs s = digit_scan [] [] None s"

text \<open>\<open>trim_end_matches("-#")\<close>, on the text reversed.\<close>

fun drop_added :: "string \<Rightarrow> string" where
  "drop_added (h # d # r) = (if h = CHR ''#'' \<and> d = CHR ''-'' then drop_added r else h # d # r)"
| "drop_added s = s"

definition strip_suffix :: "string \<Rightarrow> string \<Rightarrow> string option" where
  "strip_suffix suf s = map_option rev (strip_prefix (rev suf) (rev s))"

definition added_parts :: "string \<Rightarrow> string \<Rightarrow> bool" where
  "added_parts short long \<longleftrightarrow>
     list_ex (\<lambda>i. short ! i = CHR ''#'' \<and>
        (case Option.bind (strip_prefix (take (i + 1) short) long) (strip_suffix (drop (i + 1) short)) of
           None \<Rightarrow> False
         | Some extra \<Rightarrow> extra \<noteq> [] \<and> drop_added (rev extra) = []))
       [0..<length short]"

definition numbered_apart :: "string \<Rightarrow> string \<Rightarrow> bool" where
  "numbered_apart a b \<longleftrightarrow>
     (let (skeleton_a, runs_a) = digit_runs a; (skeleton_b, runs_b) = digit_runs b
      in runs_a \<noteq> [] \<and> runs_b \<noteq> [] \<and> runs_a \<noteq> runs_b \<and>
         (skeleton_a = skeleton_b \<or> added_parts skeleton_a skeleton_b \<or> added_parts skeleton_b skeleton_a))"

definition names_repeat_a_number :: "string list \<Rightarrow> string list \<Rightarrow> bool" where
  "names_repeat_a_number incoming existing \<longleftrightarrow>
     list_ex (\<lambda>a. snd (digit_runs a) \<noteq> [] \<and> list_ex (\<lambda>b. snd (digit_runs b) = snd (digit_runs a)) existing) incoming"

definition sibling_name_reason ::
  "unicode \<Rightarrow> match_reason option \<Rightarrow> string list \<Rightarrow> entity \<Rightarrow> match_reason option" where
  "sibling_name_reason U r incoming existing =
     (if names_repeat_a_number incoming (folded_names U (labels existing)) then r
      else Option.bind r (\<lambda>x. if x \<in> {SameName, SameNameOtherKind, Nickname} then Some x else None))"

definition slug_tokens :: "string \<Rightarrow> string list" where
  "slug_tokens s = filter (\<lambda>t. t \<noteq> []) (split_on CHR ''-'' s)"

definition token_subset :: "string list \<Rightarrow> string list \<Rightarrow> bool" where
  "token_subset small large \<longleftrightarrow> length small < length large \<and> list_all (\<lambda>t. t \<in> set large) small"

definition contained :: "string \<Rightarrow> string \<Rightarrow> bool" where
  "contained a b \<longleftrightarrow>
     a \<noteq> b \<and> (token_subset (slug_tokens a) (slug_tokens b) \<or> token_subset (slug_tokens b) (slug_tokens a))"

section \<open>The screen\<close>

record guard_words =
  gw_written :: "string list"
  gw_rarity :: rarity
  gw_likeness :: bool

definition name_reason ::
  "unicode \<Rightarrow> families \<Rightarrow> kind option \<Rightarrow> string list \<Rightarrow> string list \<Rightarrow> bool \<Rightarrow> entity \<Rightarrow> guard_words \<Rightarrow>
   match_reason option" where
  "name_reason U fam k incoming incoming_slugs siblings existing g =
     (let same_kind = (k = Some (en_kind existing));
          existing_names = folded_names U (labels existing);
          agree = (list_ex (\<lambda>a. a \<in> set existing_names) incoming \<or> slug (en_id existing) \<in> set incoming_slugs);
          near = list_ex (\<lambda>a. list_ex (\<lambda>b. edit_distance_within a b NEAR \<noteq> None \<and>
                    \<not> (siblings \<and> numbered_apart (slugify a) (slugify b))) existing_names) incoming;
          nicknamed = list_ex (\<lambda>a. list_ex (same_through_nicknames U fam a) existing_names) incoming;
          shares = list_ex (\<lambda>a. list_ex (\<lambda>b.
                    SHARED_WORDS_NEEDED \<le> length (shared_words U a b (is_rare (gw_rarity g) (en_kind existing))) \<and>
                    \<not> (siblings \<and> numbered_apart (slugify a) (slugify b))) (labels existing)) (gw_written g)
      in if agree then Some (if same_kind then SameName else SameNameOtherKind)
         else if \<not> same_kind then None
         else if near then Some NearName
         else if \<not> gw_likeness g then None
         else if nicknamed then Some Nickname
         else if shares then Some SharedWord
         else None)"

definition reason_for ::
  "world \<Rightarrow> unicode \<Rightarrow> families \<Rightarrow> entity_id \<Rightarrow> string list \<Rightarrow> string list \<Rightarrow> entity_id option \<Rightarrow> entity \<Rightarrow>
   guard_words \<Rightarrow> match_reason option" where
  "reason_for W U fam handle names name_slugs parent existing g =
     (let same_kind = (entity_kind W handle = Some (en_kind existing));
          siblings = (parent \<noteq> None \<and> parent = en_parent existing);
          numbered_siblings = (same_kind \<and> siblings \<and> numbered_apart (slug handle) (slug (en_id existing)));
          by_name = name_reason U fam (entity_kind W handle) names name_slugs siblings existing g
      in if en_id existing = handle then Some ExactHandle
         else if list_ex (\<lambda>n. slugify n = slug handle) (folded_names U (labels existing))
           then Some (if same_kind then SameName else SameNameOtherKind)
         else if by_name \<in> {Some SameName, Some SameNameOtherKind} then by_name
         else if \<not> same_kind then None
         else if numbered_siblings then sibling_name_reason U by_name names existing
         else if edit_distance_within (slug handle) (slug (en_id existing)) NEAR \<noteq> None then Some NearSlug
         else if by_name \<in> {None, Some Nickname, Some SharedWord} \<and> contained (slug handle) (slug (en_id existing))
           then Some Contains
         else by_name)"

definition by_reason_then_handle :: "entity_match \<Rightarrow> entity_match \<Rightarrow> ordering" where
  "by_reason_then_handle a b =
     then_with (cmp (em_reason a) (em_reason b)) (cmp (em_handle a) (em_handle b))"

definition screen_with ::
  "world \<Rightarrow> unicode \<Rightarrow> families \<Rightarrow> entity_id \<Rightarrow> string list \<Rightarrow> entity_id option \<Rightarrow> entity list \<Rightarrow> bool \<Rightarrow>
   entity_match list" where
  "screen_with W U fam handle ls parent rows likeness =
     (let names = folded_names U ls;
          name_slugs = map slugify names;
          g = \<lparr>gw_written = ls, gw_rarity = rarity_of W U rows, gw_likeness = likeness\<rparr>
      in sort_by by_reason_then_handle
           (List.map_filter (\<lambda>e. map_option (match_of e) (reason_for W U fam handle names name_slugs parent e g)) rows))"

definition screen_under where
  "screen_under W U fam handle ls parent rows = screen_with W U fam handle ls parent rows False"

definition screen where
  "screen W U fam handle ls rows = screen_under W U fam handle ls None rows"

definition screen_creating where
  "screen_creating W U fam handle ls parent rows = screen_with W U fam handle ls parent rows True"

definition screen_labels ::
  "world \<Rightarrow> unicode \<Rightarrow> families \<Rightarrow> kind option \<Rightarrow> string list \<Rightarrow> entity_id option \<Rightarrow> entity list \<Rightarrow> entity_match list" where
  "screen_labels W U fam k ls except rows =
     (let incoming = folded_names U ls;
          incoming_slugs = map slugify incoming;
          current = Option.bind except (\<lambda>i. find (\<lambda>e. en_id e = i) rows);
          g = \<lparr>gw_written = ls, gw_rarity = rarity_of W U rows, gw_likeness = False\<rparr>;
          reason_of = (\<lambda>e.
            let numbered_siblings = (case current of None \<Rightarrow> False | Some c \<Rightarrow>
                  k = Some (en_kind e) \<and> en_parent c \<noteq> None \<and> en_parent c = en_parent e \<and>
                  numbered_apart (slug (en_id c)) (slug (en_id e)));
                r = name_reason U fam k incoming incoming_slugs numbered_siblings e g
            in if numbered_siblings then sibling_name_reason U r incoming e else r)
      in sort_by by_reason_then_handle
           (List.map_filter (\<lambda>e. map_option (match_of e) (reason_of e))
             (filter (\<lambda>e. Some (en_id e) \<noteq> except) rows)))"

section \<open>Tokens\<close>

record collision =
  co_gate :: string
  co_attempted :: string
  co_candidates :: "string list"

definition hex_digit :: "nat \<Rightarrow> char" where
  "hex_digit d = (if d < 10 then char_of (48 + d) else char_of (87 + d))"

fun hex_digits :: "nat \<Rightarrow> nat \<Rightarrow> string" where
  "hex_digits 0 n = []"
| "hex_digits (Suc k) n = hex_digits k (n div 16) @ [hex_digit (n mod 16)]"

text \<open>\<open>format!("{:016x}", h)\<close> of a \<open>u64\<close>: sixteen digits, padded with zeros.\<close>

definition token_of :: "(collision \<Rightarrow> 64 word) \<Rightarrow> collision \<Rightarrow> string" where
  "token_of H c = hex_digits 16 (unat (H c))"

definition honours :: "(collision \<Rightarrow> 64 word) \<Rightarrow> collision \<Rightarrow> string option \<Rightarrow> bool" where
  "honours H c offered = (case offered of None \<Rightarrow> False | Some t \<Rightarrow> trim t = token_of H c)"

definition collision_of :: "entity_id \<Rightarrow> entity_match list \<Rightarrow> collision" where
  "collision_of handle ms = \<lparr>co_gate = ''entity'', co_attempted = handle, co_candidates = map em_handle ms\<rparr>"

definition override_token :: "(collision \<Rightarrow> 64 word) \<Rightarrow> entity_id \<Rightarrow> entity_match list \<Rightarrow> string" where
  "override_token H handle ms = token_of H (collision_of handle ms)"

definition lifted ::
  "(collision \<Rightarrow> 64 word) \<Rightarrow> entity_id \<Rightarrow> entity_match list \<Rightarrow> string option \<Rightarrow> string option \<Rightarrow> bool" where
  "lifted H handle ms offered why \<longleftrightarrow>
     (if list_ex (\<lambda>m. em_reason m = ExactHandle) ms then False
      else if \<not> honours H (collision_of handle ms) offered then False
      else \<not> list_ex (\<lambda>m. needs_a_reason (em_reason m)) ms \<or>
           (case why of None \<Rightarrow> False | Some w \<Rightarrow> trim w \<noteq> []))"

section \<open>Decisions\<close>

definition decide_under where
  "decide_under W U fam H handle ls parent rows offered why =
     (let ms = screen_under W U fam handle ls parent rows
      in if ms = [] \<or> lifted H handle ms offered why then Proceed else Block ms)"

definition decide where
  "decide W U fam H handle ls rows offered why = decide_under W U fam H handle ls None rows offered why"

definition decide_creating where
  "decide_creating W U fam H handle ls parent rows offered why =
     (let ms = screen_creating W U fam handle ls parent rows
      in if ms = [] \<or> lifted H handle ms offered why then Proceed else Block ms)"

definition decide_existing where
  "decide_existing W U fam handle rows =
     (if list_ex (\<lambda>e. en_id e = handle) rows then Proceed else Block (screen W U fam handle [] rows))"

definition decide_named where
  "decide_named W U fam handle resolved rows =
     (let by_number = numbered_handle handle \<noteq> None
      in case resolved of
           Some found \<Rightarrow> if found = handle \<or> by_number then Proceed else decide_existing W U fam handle rows
         | None \<Rightarrow> decide_existing W U fam handle rows)"

definition decide_parent where
  "decide_parent W U fam child parent rows =
     (if parent = en_id child then Block [match_of child SelfParent]
      else decide_existing W U fam parent rows)"

definition decide_relabel where
  "decide_relabel W U fam H handle incoming current rows offered why =
     (let worn = folded_names U current;
          added = filter (\<lambda>l. normalize_name U l \<notin> set worn) incoming
      in if added = [] then Proceed
         else let ms = screen_labels W U fam (entity_kind W handle) added (Some handle) rows
              in if ms = [] \<or> lifted H handle ms offered why then Proceed else Block ms)"

text \<open>What a miss on a numbered handle offers.\<close>

definition nearest_numbers ::
  "entity_id \<Rightarrow> entity list \<Rightarrow> all_fields \<Rightarrow> entity_match list option" where
  "nearest_numbers asked entities fs =
     Option.bind (numbered_handle asked) (\<lambda>(collection, _).
     Option.bind (collection_of collection entities fs no_retired) (\<lambda>c.
       Some (List.map_filter (\<lambda>h.
         Option.bind (numbered_handle h) (\<lambda>(_, n).
         Option.bind (holder_of c n) (\<lambda>m.
         map_option (\<lambda>e. \<lparr>em_handle = h, em_kind = en_kind e, em_name = en_name e, em_source = en_source e,
                           em_reason = HeldNumber, em_told_apart_by = None\<rparr>)
           (find (\<lambda>e. en_id e = mb_handle m) entities)))) (handles c))))"

section \<open>Tokens name one refusal\<close>

lemma hex_digit_inj: "a < 16 \<Longrightarrow> b < 16 \<Longrightarrow> hex_digit a = hex_digit b \<longleftrightarrow> a = b"
  by (auto simp: hex_digit_def split: if_splits)

lemma hex_digits_inj: "hex_digits k n = hex_digits k m \<Longrightarrow> n mod 16 ^ k = m mod 16 ^ k"
proof (induction k arbitrary: n m)
  case (Suc k)
  have init: "hex_digits k (n div 16) = hex_digits k (m div 16)"
    and digit: "hex_digit (n mod 16) = hex_digit (m mod 16)"
    using Suc.prems by simp_all
  from init have "n div 16 mod 16 ^ k = m div 16 mod 16 ^ k" by (rule Suc.IH)
  moreover from digit have "n mod 16 = m mod 16" by (subst (asm) hex_digit_inj) simp_all
  ultimately show ?case by (simp only: power_Suc mod_mult2_eq)
qed simp

lemma hex_digits_word_inj: "hex_digits 16 (unat (v :: 64 word)) = hex_digits 16 (unat w) \<longleftrightarrow> v = w"
proof
  assume "hex_digits 16 (unat v) = hex_digits 16 (unat w)"
  then have "unat v mod 16 ^ 16 = unat w mod 16 ^ 16" by (rule hex_digits_inj)
  moreover have "unat v < 16 ^ 16" "unat w < 16 ^ 16" using unsigned_less [of v] unsigned_less [of w] by simp_all
  ultimately have "unat v = unat w" by simp
  then show "v = w" by (rule unsigned_word_eqI)
qed simp

lemma length_hex_digits [simp]: "length (hex_digits k n) = k"
  by (induction k arbitrary: n) simp_all

lemma hex_digits_printable: "c \<in> set (hex_digits k n) \<Longrightarrow> printable c"
proof (induction k arbitrary: n)
  case (Suc k)
  have "printable (hex_digit d)" if "d < 16" for d
    using that by (auto simp: hex_digit_def printable_def)
  then show ?case using Suc by auto
qed simp

lemma token_trimmed: "trim (token_of H c) = token_of H c"
proof (rule trim_printable)
  have "length (token_of H c) = 16" unfolding token_of_def by (rule length_hex_digits)
  then have "token_of H c \<noteq> []" by force
  then have "hd (token_of H c) \<in> set (token_of H c)" "last (token_of H c) \<in> set (token_of H c)" by simp_all
  then show "printable (hd (token_of H c))" "printable (last (token_of H c))"
    unfolding token_of_def by (blast intro: hex_digits_printable)+
qed

lemma honours_token: "honours H c (Some (token_of H d)) \<longleftrightarrow> H d = H c"
  unfolding honours_def option.case token_trimmed by (simp add: token_of_def hex_digits_word_inj)

lemma lifted_exact: "m \<in> set ms \<Longrightarrow> em_reason m = ExactHandle \<Longrightarrow> \<not> lifted H h ms offered why"
  by (auto simp: lifted_def list_ex_iff)

section \<open>What the screen reports\<close>

interpretation reported: comparator by_reason_then_handle
  unfolding by_reason_then_handle_def [abs_def] by (intro comparator_then comparator_key)

lemma reported_order:
  "by_reason_then_handle a b \<noteq> OGreater \<longleftrightarrow>
     em_reason a < em_reason b \<or> em_reason a = em_reason b \<and> em_handle a \<le> em_handle b"
  by (auto simp: by_reason_then_handle_def then_with_def cmp_def)

definition reason_in ::
  "world \<Rightarrow> unicode \<Rightarrow> families \<Rightarrow> entity_id \<Rightarrow> string list \<Rightarrow> entity_id option \<Rightarrow> entity list \<Rightarrow> bool \<Rightarrow>
   entity \<Rightarrow> match_reason option" where
  "reason_in W U fam handle ls parent rows likeness e =
     reason_for W U fam handle (folded_names U ls) (map slugify (folded_names U ls)) parent e
       \<lparr>gw_written = ls, gw_rarity = rarity_of W U rows, gw_likeness = likeness\<rparr>"

lemma screen_with_reasons:
  "screen_with W U fam h ls parent rows likeness =
     sort_by by_reason_then_handle
       (List.map_filter (\<lambda>e. map_option (match_of e) (reason_in W U fam h ls parent rows likeness e)) rows)"
  unfolding screen_with_def reason_in_def Let_def ..

lemma map_filter_mem: "y \<in> set (List.map_filter f xs) \<longleftrightarrow> (\<exists>x \<in> set xs. f x = Some y)"
  by (induction xs) (auto simp: map_filter_simps split: option.splits)

lemma screen_with_mem:
  "m \<in> set (screen_with W U fam h ls parent rows likeness) \<longleftrightarrow>
     (\<exists>e \<in> set rows. \<exists>r. reason_in W U fam h ls parent rows likeness e = Some r \<and> m = match_of e r)"
  unfolding screen_with_reasons set_sort_by map_filter_mem map_option_eq_Some by auto

lemma reason_exact [simp]: "en_id e = h \<Longrightarrow> reason_in W U fam h ls parent rows likeness e = Some ExactHandle"
  by (simp add: reason_in_def reason_for_def)

lemma name_reason_range:
  "name_reason U fam k names ns sib e g \<in>
     {None, Some SameName, Some SameNameOtherKind, Some NearName, Some Nickname, Some SharedWord}"
  by (simp add: name_reason_def Let_def)

lemma reason_for_exact: "reason_for W U fam h names ns p e g = Some ExactHandle \<longleftrightarrow> en_id e = h"
  using name_reason_range [of U fam "entity_kind W h" names ns "p \<noteq> None \<and> p = en_parent e" e g]
  by (auto simp: reason_for_def Let_def sibling_name_reason_def)

lemma reason_in_exact: "reason_in W U fam h ls p rows likeness e = Some ExactHandle \<longleftrightarrow> en_id e = h"
  unfolding reason_in_def by (rule reason_for_exact)

lemma screen_exact:
  assumes "e \<in> set rows" and "en_id e = h"
  shows "\<exists>m \<in> set (screen_with W U fam h ls parent rows likeness). em_reason m = ExactHandle"
proof
  show "match_of e ExactHandle \<in> set (screen_with W U fam h ls parent rows likeness)"
    unfolding screen_with_mem using assms reason_exact by blast
qed (simp add: match_of_def)

section \<open>Refusals and what lifts them\<close>

lemma decided_cases:
  "(if ms = [] \<or> lifted H h ms offered why then Proceed else Block ms) = Proceed \<longleftrightarrow>
     ms = [] \<or> lifted H h ms offered why"
  by simp

text \<open>
  C17: A write that names a handle a thing already has is refused on both channels, the write under a
  parent and the creation, whatever token and reason come with it.
\<close>

theorem exact_handle_is_never_lifted:
  assumes "e \<in> set rows" and "en_id e = h"
  shows "(\<exists>ms. decide_under W U fam H h ls parent rows offered why = Block ms) \<and>
    (\<exists>ms. decide_creating W U fam H h ls parent rows offered why = Block ms)"
proof -
  have "\<exists>ms. (if s = [] \<or> lifted H h s offered why then Proceed else Block s) = Block ms"
    if "s = screen_with W U fam h ls parent rows likeness" for s likeness
    using screen_exact [OF assms, of W U fam ls parent likeness] lifted_exact [of _ s H h offered why]
    unfolding that by (metis empty_iff list.set(1))
  then show ?thesis
    unfolding decide_under_def decide_creating_def screen_under_def screen_creating_def Let_def by blast
qed

theorem exact_handle_is_never_lifted_witness:
  "\<exists>ms. decide_under sample_world ascii_tables [] (\<lambda>_. 0) ''pet:a'' [] None
      [cycle_row ''pet:a'' ''pet:b''] (Some ''0000000000000000'') (Some ''checked'') = Block ms"
  using exact_handle_is_never_lifted [of "cycle_row ''pet:a'' ''pet:b''" "[cycle_row ''pet:a'' ''pet:b'']" "''pet:a''"]
  by (simp add: cycle_row_def)

lemma lifted_by_token:
  "lifted H h ms (Some (override_token H h2 ms2)) why \<longleftrightarrow>
     \<not> list_ex (\<lambda>m. em_reason m = ExactHandle) ms \<and> H (collision_of h2 ms2) = H (collision_of h ms) \<and>
     (\<not> list_ex (\<lambda>m. needs_a_reason (em_reason m)) ms \<or> (case why of None \<Rightarrow> False | Some w \<Rightarrow> trim w \<noteq> []))"
  unfolding lifted_def override_token_def honours_token by simp

text \<open>
  C18: A refused creation goes through with the token its refusal minted and a reason in words, when no
  candidate has the very handle; with a token another refusal minted it stays refused, as long as the
  hash tells the two refusals apart.
\<close>

theorem token_lifts_its_own_refusal_only:
  assumes "decide_creating W U fam H h ls parent rows None None = Block ms"
    and "\<forall>m \<in> set ms. em_reason m \<noteq> ExactHandle" and "trim why \<noteq> []"
  shows "decide_creating W U fam H h ls parent rows (Some (override_token H h2 ms2)) (Some why) =
    (if H (collision_of h2 ms2) = H (collision_of h ms) then Proceed else Block ms)"
proof -
  have ms: "screen_creating W U fam h ls parent rows = ms" and some: "ms \<noteq> []"
    using assms(1) by (auto simp: decide_creating_def Let_def split: if_splits)
  have "\<not> list_ex (\<lambda>m. em_reason m = ExactHandle) ms" using assms(2) by (auto simp: list_ex_iff)
  then show ?thesis using some assms(3) unfolding decide_creating_def ms Let_def lifted_by_token by simp
qed

definition near_row :: entity where
  "near_row =
     \<lparr>en_id = ''pet:ab'', en_merged_into = None, en_kind = ''pet'', en_name = ''Ab'', en_aliases = [],
      en_folded_names = [], en_source = [], en_crm = None, en_parent = None, en_boot = OnDemand,
      en_badge = None, en_archived = None\<rparr>"

lemma near_row_screened:
  "decide_creating sample_world ascii_tables [] (\<lambda>c. of_nat (length (co_attempted c))) ''pet:abc'' [] None [near_row] None None
     = Block [match_of near_row NearSlug]"
  by code_simp

definition length_hash :: "collision \<Rightarrow> 64 word" where
  "length_hash c = of_nat (length (co_attempted c))"

theorem token_lifts_its_own_refusal_only_witness:
  "decide_creating sample_world ascii_tables [] length_hash ''pet:abc'' [] None [near_row]
      (Some (override_token length_hash ''pet:abc'' [match_of near_row NearSlug])) (Some ''two cats'') = Proceed \<and>
   decide_creating sample_world ascii_tables [] length_hash ''pet:abc'' [] None [near_row]
      (Some (override_token length_hash ''pet:a'' [])) (Some ''two cats'') = Block [match_of near_row NearSlug]"
proof -
  have "decide_creating sample_world ascii_tables [] length_hash ''pet:abc'' [] None [near_row] None None
      = Block [match_of near_row NearSlug]"
    using near_row_screened by (simp add: length_hash_def [abs_def])
  moreover have "trim ''two cats'' \<noteq> []" by code_simp
  ultimately show ?thesis
    using token_lifts_its_own_refusal_only
      [of sample_world ascii_tables "[]" length_hash "''pet:abc''" "[]" None "[near_row]"
          "[match_of near_row NearSlug]" "''two cats''"]
    by (simp add: match_of_def length_hash_def collision_of_def)
qed

text \<open>
  A write to a thing that must be there goes through exactly when the thing is there; otherwise what
  it is refused with holds no exact match, and a parent is asked the same after the write that names
  itself is refused.
\<close>

theorem existing_asked_for_the_handle:
  "(decide_existing W U fam h rows = Proceed \<longleftrightarrow> (\<exists>e \<in> set rows. en_id e = h)) \<and>
   (\<forall>ms m. decide_existing W U fam h rows = Block ms \<and> m \<in> set ms \<longrightarrow> em_reason m \<noteq> ExactHandle \<and> em_handle m \<noteq> h) \<and>
   (decide_parent W U fam child p rows = Proceed \<longleftrightarrow> p \<noteq> en_id child \<and> (\<exists>e \<in> set rows. en_id e = p))"
proof -
  have asked: "decide_existing W U fam h rows = Proceed \<longleftrightarrow> (\<exists>e \<in> set rows. en_id e = h)" for h
    by (auto simp: decide_existing_def list_ex_iff)
  moreover have "em_reason m \<noteq> ExactHandle \<and> em_handle m \<noteq> h"
    if block: "decide_existing W U fam h rows = Block ms" and m: "m \<in> set ms" for ms m
  proof -
    have "m \<in> set (screen_with W U fam h [] None rows False)" and absent: "\<not> list_ex (\<lambda>e. en_id e = h) rows"
      using block m by (auto simp: decide_existing_def screen_def screen_under_def split: if_splits)
    then obtain e r where e: "e \<in> set rows" "reason_in W U fam h [] None rows False e = Some r" "m = match_of e r"
      unfolding screen_with_mem by blast
    moreover have "en_id e \<noteq> h" using absent e(1) by (auto simp: list_ex_iff)
    ultimately show ?thesis using reason_in_exact by (fastforce simp: match_of_def)
  qed
  moreover have "decide_parent W U fam child p rows = Proceed \<longleftrightarrow> p \<noteq> en_id child \<and> (\<exists>e \<in> set rows. en_id e = p)"
    unfolding decide_parent_def by (simp add: asked)
  ultimately show ?thesis by blast
qed

theorem existing_asked_for_the_handle_witness:
  "decide_existing sample_world ascii_tables [] ''pet:ab'' [near_row] = Proceed"
  using existing_asked_for_the_handle [of sample_world ascii_tables "[]" "''pet:ab''" "[near_row]"]
  by (simp add: near_row_def)

section \<open>The reports of a screen\<close>

text \<open>
  A screen reports every thing it has a reason for, once for each row and with that reason, and
  nothing else; the report is ordered by the strength of the reason and then by handle.
\<close>

theorem screen_reports_each_reason_in_order:
  "mset (screen_with W U fam h ls parent rows likeness) =
     mset (map (\<lambda>e. match_of e (the (reason_in W U fam h ls parent rows likeness e)))
       (filter (\<lambda>e. reason_in W U fam h ls parent rows likeness e \<noteq> None) rows)) \<and>
   sorted_wrt (\<lambda>a b. em_reason a < em_reason b \<or> em_reason a = em_reason b \<and> em_handle a \<le> em_handle b)
     (screen_with W U fam h ls parent rows likeness)"
proof
  have "List.map_filter (\<lambda>e. map_option (match_of e) (f e)) rows =
      map (\<lambda>e. match_of e (the (f e))) (filter (\<lambda>e. f e \<noteq> None) rows)" for f
    by (induction rows) (auto simp: map_filter_simps)
  then show "mset (screen_with W U fam h ls parent rows likeness) =
     mset (map (\<lambda>e. match_of e (the (reason_in W U fam h ls parent rows likeness e)))
       (filter (\<lambda>e. reason_in W U fam h ls parent rows likeness e \<noteq> None) rows))"
    unfolding screen_with_reasons by simp
  show "sorted_wrt (\<lambda>a b. em_reason a < em_reason b \<or> em_reason a = em_reason b \<and> em_handle a \<le> em_handle b)
     (screen_with W U fam h ls parent rows likeness)"
    using reported.sorted_sort_by unfolding screen_with_reasons reported_order .
qed

lemma name_reason_likeness:
  "name_reason U fam k names ns sib e g = Some r \<Longrightarrow> \<not> gw_likeness g \<Longrightarrow>
   name_reason U fam k names ns sib e (g\<lparr>gw_likeness := True\<rparr>) = Some r"
  by (simp add: name_reason_def Let_def split: if_splits)

lemma name_reason_strong:
  "name_reason U fam k names ns sib e g = Some r \<Longrightarrow> \<not> gw_likeness g \<Longrightarrow>
   r \<in> {SameName, SameNameOtherKind, NearName}"
  by (simp add: name_reason_def Let_def split: if_splits)

lemma name_reason_weak:
  "name_reason U fam k names ns sib e g = None \<Longrightarrow> \<not> gw_likeness g \<Longrightarrow>
   name_reason U fam k names ns sib e (g\<lparr>gw_likeness := True\<rparr>) \<in> {None, Some Nickname, Some SharedWord}"
  by (simp add: name_reason_def Let_def split: if_splits)

lemma reason_for_creating:
  assumes "reason_for W U fam h names ns p e g = Some r" and "\<not> gw_likeness g"
  shows "reason_for W U fam h names ns p e (g\<lparr>gw_likeness := True\<rparr>) = Some r"
proof -
  let ?sib = "p \<noteq> None \<and> p = en_parent e"
  let ?name = "name_reason U fam (entity_kind W h) names ns ?sib e"
  show ?thesis
  proof (cases "?name g")
    case None
    define n where "n = ?name (g\<lparr>gw_likeness := True\<rparr>)"
    have weak: "n \<in> {None, Some Nickname, Some SharedWord}"
      unfolding n_def by (rule name_reason_weak [OF None assms(2)])
    define same_kind where "same_kind \<longleftrightarrow> entity_kind W h = Some (en_kind e)"
    define numbered where "numbered \<longleftrightarrow> same_kind \<and> ?sib \<and> numbered_apart (slug h) (slug (en_id e))"
    show ?thesis using assms(1) weak
      unfolding reason_for_def Let_def None n_def [symmetric] same_kind_def [symmetric] numbered_def [symmetric]
        sibling_name_reason_def bind_simps
      by (auto split: if_split_asm)
  next
    case (Some r')
    note same = name_reason_likeness [OF Some assms(2)]
    show ?thesis using assms(1) unfolding reason_for_def Let_def Some same .
  qed
qed

text \<open>
  A creation is screened by every reason an ordinary write is, and answers it: a thing the narrower
  screen reports, the screen of a creation reports for the same reason.
\<close>

theorem creation_keeps_every_report:
  assumes "m \<in> set (screen_under W U fam h ls p rows)"
  shows "m \<in> set (screen_creating W U fam h ls p rows)"
proof -
  obtain e r where e: "e \<in> set rows" "reason_in W U fam h ls p rows False e = Some r" "m = match_of e r"
    using assms unfolding screen_under_def screen_with_mem by blast
  have "reason_in W U fam h ls p rows True e = Some r"
    using reason_for_creating [OF e(2) [unfolded reason_in_def]] by (simp add: reason_in_def)
  then show ?thesis using e(1,3) unfolding screen_creating_def screen_with_mem by blast
qed

theorem creation_keeps_every_report_witness:
  "match_of near_row NearSlug \<in> set (screen_creating sample_world ascii_tables [] ''pet:abc'' [] None [near_row])"
proof (rule creation_keeps_every_report)
  have "screen_under sample_world ascii_tables [] ''pet:abc'' [] None [near_row] = [match_of near_row NearSlug]"
    by code_simp
  then show "match_of near_row NearSlug \<in> set (screen_under sample_world ascii_tables [] ''pet:abc'' [] None [near_row])"
    by simp
qed

section \<open>Numbered series and the spelling of a name\<close>

fun fill_runs :: "string \<Rightarrow> string list \<Rightarrow> string" where
  "fill_runs [] rs = []"
| "fill_runs (c # cs) rs =
     (if c = CHR ''#'' then (case rs of [] \<Rightarrow> c # fill_runs cs [] | r # rs' \<Rightarrow> r @ fill_runs cs rs')
      else c # fill_runs cs rs)"

lemma digit_scan_fill:
  assumes "CHR ''#'' \<notin> set cs"
  shows "\<exists>sk' runs'. digit_scan sk runs st cs = (sk @ sk', runs @ runs') \<and>
    fill_runs sk' runs' = (case st of None \<Rightarrow> [] | Some r \<Rightarrow> r) @ cs"
  using assms
proof (induction sk runs st cs rule: digit_scan.induct)
  case (3 sk runs c cs)
  then show ?case by (fastforce split: if_splits)
next
  case (4 sk runs r c cs)
  then show ?case by (fastforce split: if_splits)
qed auto

text \<open>
  Taking the runs of digits out of a slug loses nothing: putting them back into the skeleton, one for
  each mark, gives the slug again.
\<close>

theorem digit_runs_put_back:
  assumes "CHR ''#'' \<notin> set s"
  shows "fill_runs (fst (digit_runs s)) (snd (digit_runs s)) = s"
  using digit_scan_fill [OF assms, of "[]" "[]" None] by (auto simp: digit_runs_def)

theorem digit_runs_put_back_witness:
  "fill_runs (fst (digit_runs ''night-12-b3'')) (snd (digit_runs ''night-12-b3'')) = ''night-12-b3''"
  by (rule digit_runs_put_back) simp

text \<open>
  Two entries of one numbered series under one parent are never refused for the spelling of their
  slugs: a reason is left only when their names agree, or when they repeat a number.
\<close>

theorem series_is_not_its_spelling:
  assumes "entity_kind W h = Some (en_kind e)" and "en_parent e = Some p" and "en_id e \<noteq> h"
    and "numbered_apart (slug h) (slug (en_id e))"
  shows "reason_for W U fam h names ns (Some p) e g \<notin> {Some NearSlug, Some Contains} \<and>
    (\<not> names_repeat_a_number names (folded_names U (labels e)) \<longrightarrow>
       reason_for W U fam h names ns (Some p) e g \<in> {None, Some SameName, Some Nickname})"
proof -
  define n where "n = name_reason U fam (Some (en_kind e)) names ns (Some p \<noteq> None \<and> Some p = en_parent e) e g"
  have "n \<in> {None, Some SameName, Some SameNameOtherKind, Some NearName, Some Nickname, Some SharedWord}"
    unfolding n_def by (rule name_reason_range)
  moreover have "n \<noteq> Some SameNameOtherKind" by (simp add: n_def name_reason_def Let_def)
  ultimately show ?thesis using assms
    unfolding reason_for_def Let_def assms(1) n_def [symmetric] sibling_name_reason_def by auto
qed

theorem series_is_not_its_spelling_witness:
  "reason_for sample_world ascii_tables [] ''pet:ab-1'' [] [] (Some ''pet:ab'')
      (near_row\<lparr>en_id := ''pet:ab-2'', en_parent := Some ''pet:ab''\<rparr>)
      \<lparr>gw_written = [], gw_rarity = [], gw_likeness = True\<rparr> \<notin> {Some NearSlug, Some Contains}"
proof -
  let ?e = "near_row\<lparr>en_id := ''pet:ab-2'', en_parent := Some ''pet:ab''\<rparr>"
  have "entity_kind sample_world ''pet:ab-1'' = Some (en_kind ?e)" by code_simp
  moreover have "en_parent ?e = Some ''pet:ab''" "en_id ?e \<noteq> ''pet:ab-1''" by simp_all
  moreover have "numbered_apart (slug ''pet:ab-1'') (slug (en_id ?e))" by code_simp
  ultimately show ?thesis by (rule series_is_not_its_spelling [THEN conjunct1])
qed

definition slug_char :: "char \<Rightarrow> bool" where
  "slug_char c \<longleftrightarrow> is_digit c \<or> ascii_lower_case c \<or> c = CHR ''-''"

definition no_double_dash :: "string \<Rightarrow> bool" where
  "no_double_dash s \<longleftrightarrow> successively (\<lambda>a b. a \<noteq> CHR ''-'' \<or> b \<noteq> CHR ''-'') s"

lemma lowered_slug_char:
  assumes "ascii_alphanumeric c"
  shows "slug_char (ascii_lower c) \<and> ascii_lower c \<noteq> CHR ''-''"
proof -
  have "is_digit (ascii_lower c) \<or> ascii_lower_case (ascii_lower c)"
    using assms
    by (auto simp: ascii_alphanumeric_def ascii_upper_case_def ascii_lower_case_def ascii_lower_def is_digit_def
        of_char_of split: if_splits)
  moreover have "\<not> is_digit CHR ''-''" "\<not> ascii_lower_case CHR ''-''"
    by (simp_all add: is_digit_def ascii_lower_case_def)
  ultimately show ?thesis by (auto simp: slug_char_def)
qed

lemma slug_step_ok:
  assumes "list_all slug_char out" and "no_double_dash out"
  shows "list_all slug_char (slug_step out w) \<and> no_double_dash (slug_step out w)"
proof (cases "single ascii_alphanumeric w")
  case True
  then have "slug_char (ascii_lower (hd w)) \<and> ascii_lower (hd w) \<noteq> CHR ''-''"
    by (intro lowered_slug_char) (auto simp: single_def split: list.splits)
  then show ?thesis using True assms by (simp add: slug_step_def no_double_dash_def successively_append_iff)
next
  case False
  then show ?thesis using assms
    by (auto simp: slug_step_def no_double_dash_def successively_append_iff slug_char_def)
qed

lemma slug_steps_ok:
  "list_all slug_char out \<Longrightarrow> no_double_dash out \<Longrightarrow>
   list_all slug_char (foldl slug_step out ws) \<and> no_double_dash (foldl slug_step out ws)"
  by (induction ws arbitrary: out) (simp_all add: slug_step_ok)

lemma trim_dashes_split: "\<exists>a b. s = a @ trim_dashes s @ b"
proof -
  let ?t = "dropWhile (\<lambda>c. c = CHR ''-'') s"
  have "s = takeWhile (\<lambda>c. c = CHR ''-'') s @ ?t" by simp
  moreover have "?t = trim_dashes s @ rev (takeWhile (\<lambda>c. c = CHR ''-'') (rev ?t))"
    unfolding trim_dashes_def by (metis rev_append rev_rev_ident takeWhile_dropWhile_id)
  ultimately show ?thesis by metis
qed

lemma trim_dashes_ends:
  assumes "trim_dashes s \<noteq> []"
  shows "hd (trim_dashes s) \<noteq> CHR ''-'' \<and> last (trim_dashes s) \<noteq> CHR ''-''"
proof -
  let ?t = "dropWhile (\<lambda>c. c = CHR ''-'') s"
  let ?r = "dropWhile (\<lambda>c. c = CHR ''-'') (rev ?t)"
  have r: "?r \<noteq> []" "trim_dashes s = rev ?r" using assms by (auto simp: trim_dashes_def)
  then have "last (trim_dashes s) \<noteq> CHR ''-''" using hd_dropWhile [of "\<lambda>c. c = CHR ''-''" "rev ?t"] by (simp add: last_rev)
  moreover have "?t = trim_dashes s @ rev (takeWhile (\<lambda>c. c = CHR ''-'') (rev ?t))"
    unfolding trim_dashes_def by (metis rev_append rev_rev_ident takeWhile_dropWhile_id)
  then have "hd ?t = hd (trim_dashes s)" "?t \<noteq> []" using assms by (metis hd_append2, metis append_is_Nil_conv)
  moreover have "hd ?t \<noteq> CHR ''-''" using hd_dropWhile [of "\<lambda>c. c = CHR ''-''" s] calculation(3) by simp
  ultimately show ?thesis by simp
qed

text \<open>
  A name rendered as a slug is a slug: lower-case letters, digits and single hyphens, with no hyphen
  at either end.
\<close>

theorem slugify_makes_a_slug:
  "list_all slug_char (slugify name) \<and> no_double_dash (slugify name) \<and>
   (slugify name = [] \<or> hd (slugify name) \<noteq> CHR ''-'' \<and> last (slugify name) \<noteq> CHR ''-'')"
proof -
  let ?s = "foldl slug_step [] (utf8_chars name)"
  have ok: "list_all slug_char ?s" "no_double_dash ?s"
    using slug_steps_ok [of "[]"] by (simp_all add: no_double_dash_def)
  obtain a b where "?s = a @ slugify name @ b" using trim_dashes_split unfolding slugify_def by blast
  then have "list_all slug_char (slugify name)" "no_double_dash (slugify name)"
    using ok by (auto simp: no_double_dash_def successively_append_iff)
  then show ?thesis using trim_dashes_ends unfolding slugify_def by blast
qed

theorem slugify_makes_a_slug_witness: "no_double_dash (slugify ''  The  Furnace (2)'')"
  using slugify_makes_a_slug by blast

section \<open>Reasons kept side by side\<close>

text \<open>A reason as a caller gives one: words, and no pipe.\<close>

definition plain_reason :: "string \<Rightarrow> bool" where
  "plain_reason r \<longleftrightarrow> r \<noteq> [] \<and> trim r = r \<and> CHR ''|'' \<notin> set r"

lemma utf8_chars_space: "utf8_chars (s @ CHR '' '' # t) = utf8_chars s @ '' '' # utf8_chars t"
proof (induction s rule: utf8_chars.induct)
  case (2 c s)
  have stop: "\<not> is_cont CHR '' ''" by (simp add: is_cont_def)
  have "takeWhile is_cont (s @ CHR '' '' # t) = takeWhile is_cont s"
    using stop by (induction s) simp_all
  moreover have "dropWhile is_cont (s @ CHR '' '' # t) = dropWhile is_cont s @ CHR '' '' # t"
    using stop by (induction s) simp_all
  ultimately show ?case using 2 by simp
qed (simp add: is_ascii_def)

lemma trim_start_before_space:
  assumes "trim_start a = a" and "a \<noteq> []"
  shows "trim_start (a @ CHR '' '' # t) = a @ CHR '' '' # t"
proof -
  obtain w ws where w: "utf8_chars a = w # ws" using assms(2) by (metis list.exhaust utf8_chars_Nil_iff)
  have "dropWhile is_ws_char (w # ws) = w # ws" using utf8_chars_trim_start [of a] assms(1) w by simp
  then have "\<not> is_ws_char w"
    by (metis dropWhile.simps(2) length_Cons length_dropWhile_le not_less_eq_eq)
  moreover have "concat (w # ws) = a" using w concat_utf8_chars by metis
  ultimately show ?thesis by (simp add: trim_start_def utf8_chars_space w)
qed

lemma trim_end_after_space:
  assumes "trim_end b = b" and "b \<noteq> []"
  shows "trim_end (s @ CHR '' '' # b) = s @ CHR '' '' # b"
proof -
  obtain ws w where w: "utf8_chars b = ws @ [w]" using assms(2) by (metis rev_exhaust utf8_chars_Nil_iff)
  have "rev (dropWhile is_ws_char (w # rev ws)) = ws @ [w]"
    using utf8_chars_trim_end [of b] assms(1) w by simp
  then have "\<not> is_ws_char w"
    by (metis dropWhile.simps(2) length_Cons length_append_singleton length_dropWhile_le length_rev not_less_eq_eq)
  moreover have "concat (ws @ [w]) = b" using w concat_utf8_chars by metis
  ultimately show ?thesis by (simp add: trim_end_def utf8_chars_space w)
qed

lemma trim_last_space:
  assumes "trim r = r" and "r \<noteq> []"
  shows "last r \<noteq> CHR '' ''"
proof
  assume "last r = CHR '' ''"
  then obtain s where r: "r = s @ '' ''" using assms(2) by (metis append_butlast_last_id)
  have "is_ws_char '' ''" by (simp add: is_ws_char_def ws_encodings_def)
  then have "trim_end r = trim_end s" unfolding r trim_end_def by (simp add: utf8_chars_space)
  moreover have "trim_end r = r" using assms(1) trim_end_trim by metis
  ultimately show False using length_trim_end [of s] r by simp
qed

lemma split_text_run:
  assumes "CHR ''|'' \<notin> set r"
  shows "split_text TOLD_APART_JOINER acc r = [acc @ r]"
  using assms
proof (induction r arbitrary: acc)
  case (Cons c r)
  have "\<not> starts_with TOLD_APART_JOINER (c # r)"
    using Cons.prems by (cases r) (auto simp: starts_with_def TOLD_APART_JOINER_def)
  then show ?case using Cons by simp
qed simp

lemma split_text_joined:
  assumes "CHR ''|'' \<notin> set r" and "r = [] \<or> last r \<noteq> CHR '' ''"
  shows "split_text TOLD_APART_JOINER acc (r @ TOLD_APART_JOINER @ t) = (acc @ r) # split_text TOLD_APART_JOINER [] t"
  using assms
proof (induction r arbitrary: acc)
  case Nil
  then show ?case by (simp add: TOLD_APART_JOINER_def starts_with_def)
next
  case (Cons c r)
  have "\<not> starts_with TOLD_APART_JOINER (c # r @ TOLD_APART_JOINER @ t)"
    using Cons.prems by (cases r) (auto simp: starts_with_def TOLD_APART_JOINER_def)
  moreover have "r = [] \<or> last r \<noteq> CHR '' ''" using Cons.prems by (simp split: if_splits)
  ultimately show ?case using Cons.IH [of "acc @ [c]"] Cons.prems(1) by simp
qed

lemma split_text_join:
  "rs \<noteq> [] \<Longrightarrow> \<forall>r \<in> set rs. plain_reason r \<Longrightarrow>
   split_text TOLD_APART_JOINER [] (join TOLD_APART_JOINER rs) = rs"
proof (induction TOLD_APART_JOINER rs rule: join.induct)
  case (2 x)
  then show ?case by (simp add: split_text_run plain_reason_def)
next
  case (3 x y ys)
  then have "CHR ''|'' \<notin> set x" "last x \<noteq> CHR '' ''"
    using trim_last_space by (auto simp: plain_reason_def)
  then show ?case using 3 by (simp add: split_text_joined)
qed simp


lemma join_snoc: "rs \<noteq> [] \<Longrightarrow> join j (rs @ [x]) = join j rs @ j @ x"
  by (induction j rs rule: join.induct) simp_all

lemma joined_reasons_trimmed:
  assumes "rs \<noteq> []" and "\<forall>r \<in> set rs. plain_reason r"
  shows "join TOLD_APART_JOINER rs \<noteq> [] \<and> trim (join TOLD_APART_JOINER rs) = join TOLD_APART_JOINER rs"
proof -
  let ?j = "join TOLD_APART_JOINER rs"
  have plain: "r \<noteq> [] \<and> trim r = r \<and> trim_start r = r \<and> trim_end r = r" if "r \<in> set rs" for r
    using that assms(2) trim_start_trim trim_end_trim by (metis plain_reason_def)
  consider x where "rs = [x]" | x y ys where "rs = x # y # ys" using assms(1) by (metis list.exhaust)
  then show ?thesis
  proof cases
    case (1 x)
    then show ?thesis using plain by simp
  next
    case (2 x y ys)
    have start: "trim_start ?j = ?j"
      using trim_start_before_space [of x "''| '' @ join TOLD_APART_JOINER (y # ys)"] plain [of x] 2
      by (simp add: TOLD_APART_JOINER_def)
    obtain xs z where last: "rs = xs @ [z]" "xs \<noteq> []" using 2 by (metis append_butlast_last_id list.distinct(1) last_ConsR append_Nil list.inject)
    then have "?j = (join TOLD_APART_JOINER xs @ '' |'') @ CHR '' '' # z" by (simp add: join_snoc TOLD_APART_JOINER_def)
    moreover have "trim_end ((join TOLD_APART_JOINER xs @ '' |'') @ CHR '' '' # z)
        = (join TOLD_APART_JOINER xs @ '' |'') @ CHR '' '' # z"
      by (rule trim_end_after_space) (use plain [of z] last in simp_all)
    ultimately have "trim_end ?j = ?j" by (simp only:)
    then show ?thesis using start 2 by (simp add: trim_def plain)
  qed
qed

text \<open>
  The reasons a thing is told apart by are kept as they are given: one more reason given for a thing
  that holds some leaves every one of them, in their order, and adds the new one at the end when it is
  not held already.
\<close>

theorem reasons_are_kept_side_by_side:
  assumes "rs \<noteq> []" and "\<forall>r \<in> set rs. plain_reason r" and "plain_reason (trim r)"
  shows "add_told_apart_by (Some (join TOLD_APART_JOINER rs)) r = join TOLD_APART_JOINER (push_new rs (trim r)) \<and>
    split_text TOLD_APART_JOINER [] (add_told_apart_by (Some (join TOLD_APART_JOINER rs)) r) = push_new rs (trim r)"
proof -
  have held: "add_told_apart_by (Some (join TOLD_APART_JOINER rs)) r = join TOLD_APART_JOINER (push_new rs (trim r))"
    using joined_reasons_trimmed [OF assms(1,2)] assms(1) split_text_join [OF assms(1,2)]
    by (simp add: add_told_apart_by_def Let_def push_new_def join_snoc)
  moreover have "\<forall>x \<in> set (push_new rs (trim r)). plain_reason x" using assms(2,3) by (auto simp: push_new_def)
  moreover have "push_new rs (trim r) \<noteq> []" using assms(1) by (auto simp: push_new_def)
  ultimately show ?thesis using split_text_join by simp
qed

theorem reasons_are_kept_side_by_side_witness:
  "add_told_apart_by (Some ''two shops'') ''the other city'' = ''two shops | the other city''"
proof -
  have "plain_reason ''two shops''" "plain_reason (trim ''the other city'')" by code_simp+
  moreover have "trim ''the other city'' = ''the other city''" by code_simp
  ultimately show ?thesis
    using reasons_are_kept_side_by_side [of "[''two shops'']" "''the other city''"]
    by (simp add: push_new_def TOLD_APART_JOINER_def)
qed

text \<open>A reason that holds the joiner is not found among the held ones, and is added a second time.\<close>

lemma piped_reason_is_held_twice:
  "add_told_apart_by (Some (add_told_apart_by None ''a | b'')) ''a | b'' = ''a | b | a | b''"
  by code_simp

end
