(* ===== verification/List_Entries.thy ===== *)
theory List_Entries
  imports Document_Cuts
begin

text \<open>
  The entries of a list (\<open>memory/entries.rs\<close>): which claims are entries, the state each reads as from the
  ticks on it, the order the list reads in, where a new or a moved entry is placed, what a tick is refused
  for, and the entries of two lists that merge; and the gate that keeps a work item from being finished
  over open entries (\<open>memory/done_gate.rs\<close>). A list's claims are the argument \<open>facts\<close>; which text is a
  kind is the world's.
\<close>

section \<open>Words\<close>

definition OPEN :: string where "OPEN = ''open''"
definition DONE :: string where "DONE = ''done''"
definition DROPPED :: string where "DROPPED = ''dropped''"
definition FIRST :: string where "FIRST = ''first''"
definition LAST :: string where "LAST = ''last''"
definition HELD_TURN :: string where "HELD_TURN = ''held_turn''"
definition HELD_SINCE :: string where "HELD_SINCE = ''held_since''"
definition TICK_ENTRY :: string where "TICK_ENTRY = ''tick_entry''"
definition TICK_ACT :: string where "TICK_ACT = ''tick_act''"
definition TICK_SESSION :: string where "TICK_SESSION = ''tick_session''"

definition is_placement_key :: "string \<Rightarrow> bool" where
  "is_placement_key k \<longleftrightarrow> trim k \<in> {ORDER, HELD_TURN, HELD_SINCE}"

definition is_minted_key :: "string \<Rightarrow> bool" where
  "is_minted_key k \<longleftrightarrow> is_placement_key k \<or> trim k \<in> {TICK_ENTRY, TICK_ACT, TICK_SESSION}"

text \<open>The refusal of a section's edges, without its words.\<close>

definition refuses_a_callers_placement :: "kind option \<Rightarrow> bool \<Rightarrow> string list \<Rightarrow> bool" where
  "refuses_a_callers_placement k is_section named \<longleftrightarrow>
     k = Some ''document'' \<and> is_section \<and> list_ex (\<lambda>n. trim n = EDGES) named"

datatype placement = AtEnd | AtFirst | After address

datatype place_error =
    NotAPlace string
  | NotAnEntry string "string list"
  | NotMovable string string
  | FollowsItself string
  | NotAPlaceToFollow string string
  | NoRoomLeft order_error

section \<open>Which claims are entries\<close>

definition places_its_records :: "kind option \<Rightarrow> bool" where
  "places_its_records k \<longleftrightarrow> k = Some ''document'' \<or> k = Some ''list''"

definition is_placed :: "world \<Rightarrow> fact \<Rightarrow> bool" where
  "is_placed W f \<longleftrightarrow> places_its_records (entity_kind W (f_home f)) \<and> has_key (f_fields f) ORDER"

definition is_entry :: "world \<Rightarrow> fact \<Rightarrow> bool" where
  "is_entry W f \<longleftrightarrow> is_placed W f \<and> entity_kind W (f_home f) = Some ''list''"

definition is_new_entry :: "world \<Rightarrow> 'n new_fact \<Rightarrow> bool" where
  "is_new_entry W n \<longleftrightarrow> entity_kind W (n_subject n) = Some ''list'' \<and> has_key (n_fields n) ORDER"

datatype named_things = NamesNothing | NamesOne entity_id | NamesSeveral "entity_id list"

text \<open>What the words name is read by \<open>mention::named\<close>, the argument \<open>mentions\<close>.\<close>

definition named_in :: "(string \<Rightarrow> entity_id list) \<Rightarrow> string \<Rightarrow> entity_id \<Rightarrow> named_things" where
  "named_in mentions ws l =
     (let found = foldl (\<lambda>found h. if h \<noteq> l \<and> h \<notin> set found then found @ [h] else found) [] (mentions ws)
      in case found of [] \<Rightarrow> NamesNothing | [one] \<Rightarrow> NamesOne one | _ \<Rightarrow> NamesSeveral found)"

definition open_entries :: "world \<Rightarrow> fact list \<Rightarrow> fact list" where
  "open_entries W facts = filter (\<lambda>f. f_status f = Active \<and> is_entry W f) (placed_in_order facts)"

section \<open>Ticks\<close>

datatype setting = Sink | Leave | Back

definition setting_of :: "fields \<Rightarrow> setting" where
  "setting_of fs =
     (let word = map_option trim (bt_get fs ''tick'')
      in if word = Some ''leave'' then Leave else if word = Some ''back'' then Back else Sink)"

primrec setting_token :: "setting \<Rightarrow> string" where
  "setting_token Sink = ''sink''"
| "setting_token Leave = ''leave''"
| "setting_token Back = ''back''"

datatype act = Done | Undone | Rotated | Dropped

primrec act_token :: "act \<Rightarrow> string" where
  "act_token Done = ''done''"
| "act_token Undone = ''undone''"
| "act_token Rotated = ''rotated''"
| "act_token Dropped = ''dropped''"

definition act_all :: "act list" where "act_all = [Done, Undone, Rotated, Dropped]"

definition act_of :: "string \<Rightarrow> act option" where
  "act_of word = find (\<lambda>a. act_token a = trim word) act_all"

fun state_after :: "setting \<Rightarrow> act \<Rightarrow> string" where
  "state_after s a =
     (case a of
        Done \<Rightarrow> (if s = Back then OPEN else DONE)
      | Rotated \<Rightarrow> OPEN
      | Undone \<Rightarrow> OPEN
      | Dropped \<Rightarrow> DROPPED)"

definition is_tick :: "world \<Rightarrow> fact \<Rightarrow> bool" where
  "is_tick W f \<longleftrightarrow>
     entity_kind W (f_home f) = Some ''list'' \<and> has_key (f_fields f) TICK_ENTRY \<and>
     has_key (f_fields f) TICK_ACT \<and> \<not> has_key (f_fields f) ORDER"

definition field_at :: "fact \<Rightarrow> string \<Rightarrow> string" where
  "field_at f k = the (bt_get (f_fields f) k)"  \<comment> \<open>\<open>f.fields[k]\<close>, where the key is held\<close>

definition active_ticks :: "world \<Rightarrow> fact list \<Rightarrow> (fact \<times> act) list" where
  "active_ticks W facts =
     sort_by (\<lambda>a b. cmp (claim_sequence (fst a)) (claim_sequence (fst b)))
       (List.map_filter (\<lambda>f. map_option (Pair f) (act_of (field_at f TICK_ACT)))
         (filter (\<lambda>f. f_status f = Active \<and> is_tick W f) facts))"

section \<open>The view\<close>

record ticks_on =
  done_at :: "nat option"
  turn_at :: "nat option"
  last_tick :: "nat option"
  is_dropped :: bool

definition no_ticks :: ticks_on where
  "no_ticks = \<lparr>done_at = None, turn_at = None, last_tick = None, is_dropped = False\<rparr>"

definition ticked_by :: "setting \<Rightarrow> act \<Rightarrow> nat \<Rightarrow> ticks_on \<Rightarrow> ticks_on" where
  "ticked_by s a n now =
     (let now = now\<lparr>last_tick := Some n\<rparr>
      in case a of
           Done \<Rightarrow> if s = Back then now\<lparr>turn_at := Some n, done_at := None, is_dropped := False\<rparr>
                   else now\<lparr>done_at := Some n, is_dropped := False\<rparr>
         | Rotated \<Rightarrow> now\<lparr>turn_at := Some n, done_at := None, is_dropped := False\<rparr>
         | Undone \<Rightarrow> now\<lparr>done_at := None, is_dropped := False\<rparr>
         | Dropped \<Rightarrow> now\<lparr>is_dropped := True, done_at := None\<rparr>)"

definition tick_step :: "setting \<Rightarrow> fact \<times> act \<Rightarrow> (string \<rightharpoonup> ticks_on) \<Rightarrow> (string \<rightharpoonup> ticks_on)" where
  "tick_step s ta st =
     (let entry = trim (field_at (fst ta) TICK_ENTRY)
      in case st entry of
           None \<Rightarrow> st
         | Some now \<Rightarrow> st(entry \<mapsto> ticked_by s (snd ta) (claim_sequence (fst ta)) now))"

definition ticks_of :: "world \<Rightarrow> fact list \<Rightarrow> setting \<Rightarrow> (string \<rightharpoonup> ticks_on)" where
  "ticks_of W facts s =
     fold (tick_step s) (active_ticks W facts)
       (\<lambda>i. if i \<in> set (map f_id (open_entries W facts)) then Some no_ticks else None)"

definition claim_number :: "fact \<Rightarrow> nat option" where
  "claim_number f = parse_unsigned usize_max (dropWhile (\<lambda>c. c = CHR ''f'') (f_id f))"

definition held_bucket :: "fact \<Rightarrow> nat option \<Rightarrow> nat option" where
  "held_bucket entry lt =
     Option.bind (bt_get (f_fields entry) HELD_TURN) (\<lambda>t.
     Option.bind (parse_unsigned usize_max (trim t)) (\<lambda>turn.
     Option.bind (bt_get (f_fields entry) HELD_SINCE) (\<lambda>u.
     Option.bind (parse_unsigned usize_max (trim u)) (\<lambda>since.
       if (case lt of None \<Rightarrow> True | Some tick \<Rightarrow> tick \<le> since) then Some turn else None))))"

record slot =
  sl_id :: string
  sl_address :: string
  sl_bucket :: nat
  sl_order :: string

record list_view =
  lv_entries :: "(fact \<times> string) list"
  lv_done_left_out :: nat
  lv_dropped_left_out :: nat
  lv_states :: "(string, string) btree"
  lv_slots :: "slot list"

definition state_of :: "ticks_on \<Rightarrow> string" where
  "state_of now = (if is_dropped now then DROPPED else if done_at now \<noteq> None then DONE else OPEN)"

definition bucket_of :: "fact \<Rightarrow> ticks_on \<Rightarrow> nat" where
  "bucket_of entry now =
     (case held_bucket entry (last_tick now) of
        Some b \<Rightarrow> b
      | None \<Rightarrow> (case turn_at now of Some t \<Rightarrow> t | None \<Rightarrow> 0))"

definition by_place :: "fact \<times> nat \<Rightarrow> fact \<times> nat \<Rightarrow> ordering" where
  "by_place a b =
     then_with (cmp (snd a) (snd b))
       (then_with (cmp (field_at (fst a) ORDER) (field_at (fst b) ORDER))
         (then_with (cmp (claim_sequence (fst a)) (claim_sequence (fst b))) (cmp (f_id (fst a)) (f_id (fst b)))))"

definition slot_of :: "fact \<times> nat \<Rightarrow> slot" where
  "slot_of eb =
     \<lparr>sl_id = f_id (fst eb), sl_address = show_address (fact_address (fst eb)),
      sl_bucket = snd eb, sl_order = field_at (fst eb) ORDER\<rparr>"

text \<open>The one loop of the code, read for each of the lists it fills.\<close>

definition open_rows :: "(string \<rightharpoonup> ticks_on) \<Rightarrow> fact list \<Rightarrow> (fact \<times> nat) list" where
  "open_rows st entries =
     map (\<lambda>e. (e, bucket_of e (the (st (f_id e)))))
       (filter (\<lambda>e. state_of (the (st (f_id e))) = OPEN) entries)"

definition done_rows :: "(string \<rightharpoonup> ticks_on) \<Rightarrow> fact list \<Rightarrow> (fact \<times> nat) list" where
  "done_rows st entries =
     map (\<lambda>e. (e, the (done_at (the (st (f_id e))))))
       (filter (\<lambda>e. state_of (the (st (f_id e))) = DONE) entries)"

definition view :: "world \<Rightarrow> fact list \<Rightarrow> setting \<Rightarrow> list_view" where
  "view W facts s =
     (let entries = open_entries W facts;
          st = ticks_of W facts s;
          open_now = sort_by by_place (open_rows st entries);
          done_now = (if s = Sink then sort_by (\<lambda>a b. cmp (snd a) (snd b)) (done_rows st entries) else [])
      in \<lparr>lv_entries = map (\<lambda>e. (fst e, OPEN)) open_now @ map (\<lambda>e. (fst e, DONE)) done_now,
          lv_done_left_out = (if s = Sink then 0 else length (done_rows st entries)),
          lv_dropped_left_out = length (filter (\<lambda>e. state_of (the (st (f_id e))) = DROPPED) entries),
          lv_states = fold (\<lambda>e. bt_insert (f_id e) (state_of (the (st (f_id e))))) entries [],
          lv_slots = map slot_of open_now\<rparr>)"

section \<open>What the ticks come to\<close>

definition counted_links :: "world \<Rightarrow> fact list \<Rightarrow> setting \<Rightarrow> entity_id set" where
  "counted_links W facts s =
     (let seen = view W facts s
      in set (List.map_filter (\<lambda>e. map_option e_object (f_edge e))
           (filter (\<lambda>e. bt_get (lv_states seen) (f_id e) \<noteq> Some DROPPED) (open_entries W facts))))"

datatype tick_count = Checklist nat nat | Queue nat nat | Rotation nat

definition ticked :: "world \<Rightarrow> fact list \<Rightarrow> setting \<Rightarrow> tick_count option" where
  "ticked W facts s =
     (let seen = view W facts s;
          counting = (\<lambda>state. length (filter (\<lambda>held. held = state) (map snd (lv_states seen))));
          d = counting DONE; n = counting OPEN
      in if d + n = 0 then None
         else Some (case s of
                Sink \<Rightarrow> Checklist d (d + n)
              | Leave \<Rightarrow> Queue d n
              | Back \<Rightarrow> Rotation (length
                  (filter (\<lambda>ta. case bt_get (lv_states seen) (trim (field_at (fst ta) TICK_ENTRY)) of
                                  None \<Rightarrow> False | Some held \<Rightarrow> held \<noteq> DROPPED)
                    (filter (\<lambda>ta. snd ta = Done \<or> snd ta = Rotated) (active_ticks W facts))))))"

definition last_ticked :: "world \<Rightarrow> fact list \<Rightarrow> int option" where
  "last_ticked W facts =
     (case map (\<lambda>ta. f_recorded_at (fst ta)) (active_ticks W facts) of
        [] \<Rightarrow> None | d # ds \<Rightarrow> Some (foldl max d ds))"

section \<open>Placing\<close>

record moved =
  mv_order :: string
  mv_held_turn :: nat
  mv_held_since :: nat

definition open_addresses :: "list_view \<Rightarrow> string list" where
  "open_addresses seen = map sl_address (lv_slots seen)"

definition highest_number :: "fact list \<Rightarrow> nat" where
  "highest_number facts = foldr max (List.map_filter claim_number facts) 0"

definition place_between ::
  "fact list \<Rightarrow> nat \<Rightarrow> string option \<Rightarrow> string option \<Rightarrow> (place_error + moved) option" where
  "place_between facts bucket lower upper =
     (case between lower upper of
        None \<Rightarrow> None
      | Some (Inl e) \<Rightarrow> Some (Inl (NoRoomLeft e))
      | Some (Inr order) \<Rightarrow>
          Some (Inr \<lparr>mv_order = order, mv_held_turn = bucket, mv_held_since = highest_number facts\<rparr>))"

definition place ::
  "list_view \<Rightarrow> fact list \<Rightarrow> entity_id \<Rightarrow> string option \<Rightarrow> placement \<Rightarrow> (place_error + moved) option" where
  "place seen facts l moving p =
     (let others = filter (\<lambda>sl. Some (sl_id sl) \<noteq> moving) (lv_slots seen)
      in case p of
           AtFirst \<Rightarrow> (case others of
               [] \<Rightarrow> place_between facts 0 None None
             | sl # _ \<Rightarrow> place_between facts (sl_bucket sl) None (Some (sl_order sl)))
         | AtEnd \<Rightarrow> (if others = [] then place_between facts 0 None None
                    else place_between facts (sl_bucket (last others)) (Some (sl_order (last others))) None)
         | After t \<Rightarrow>
             if moving = Some (a_local t) \<and> a_home t = l then Some (Inl (FollowsItself (show_address t)))
             else case position (\<lambda>sl. sl_id sl = a_local t \<and> a_home t = l) others of
                    None \<Rightarrow>
                      Some (Inl (case bt_get (lv_states seen) (a_local t) of
                          Some state \<Rightarrow> if a_home t = l then NotAPlaceToFollow (show_address t) state
                                        else NotAnEntry (show_address t) (open_addresses seen)
                        | None \<Rightarrow> NotAnEntry (show_address t) (open_addresses seen)))
                  | Some i \<Rightarrow>
                      let behind = others ! i;
                          upper = (if i + 1 < length others \<and> sl_bucket (others ! (i + 1)) = sl_bucket behind
                                   then Some (sl_order (others ! (i + 1))) else None)
                      in place_between facts (sl_bucket behind) (Some (sl_order behind)) upper)"

definition move_entry ::
  "world \<Rightarrow> fact list \<Rightarrow> setting \<Rightarrow> address \<Rightarrow> placement \<Rightarrow> (place_error + moved) option" where
  "move_entry W facts s entry p =
     (let seen = view W facts s
      in case bt_get (lv_states seen) (a_local entry) of
           None \<Rightarrow> Some (Inl (NotAnEntry (show_address entry) (open_addresses seen)))
         | Some state \<Rightarrow>
             if state \<noteq> OPEN then Some (Inl (NotMovable (show_address entry) state))
             else place seen facts (a_home entry) (Some (a_local entry)) p)"

definition place_new ::
  "world \<Rightarrow> fact list \<Rightarrow> setting \<Rightarrow> entity_id \<Rightarrow> placement \<Rightarrow> (place_error + moved) option" where
  "place_new W facts s l p = place (view W facts s) facts l None p"

definition parse_placement :: "world \<Rightarrow> string option \<Rightarrow> place_error + placement" where
  "parse_placement W after =
     (case after of
        None \<Rightarrow> Inr AtEnd
      | Some raw \<Rightarrow>
          (let named = trim raw
           in if named = [] then Inr AtEnd
              else if named = FIRST then Inr AtFirst
              else if named = LAST then Inr AtEnd
              else case parse_address W named of Inl _ \<Rightarrow> Inl (NotAPlace named) | Inr a \<Rightarrow> Inr (After a)))"

datatype tick_refusal = OnlyBackRotates setting | EntryIsDropped | TurnNotUndone string | NothingToUndo | AlreadyDone

definition refuse_tick :: "setting \<Rightarrow> string \<Rightarrow> act \<Rightarrow> tick_refusal option" where
  "refuse_tick s state a =
     (if a = Rotated \<and> s \<noteq> Back then Some (OnlyBackRotates s)
      else if state = DROPPED then (if a \<noteq> Undone then Some EntryIsDropped else None)
      else if a = Undone \<and> s = Back then Some (TurnNotUndone state)
      else if a = Undone \<and> state = OPEN then Some NothingToUndo
      else if a = Done \<and> state = DONE then Some AlreadyDone
      else None)"

section \<open>Two lists that merge\<close>

definition entries_after :: "fact list \<Rightarrow> fact list \<Rightarrow> (order_error + relocated list) option" where
  "entries_after survivor folded =
     (let placed = placed_in_order survivor;
          last_key = (if placed = [] then None else bt_get (f_fields (last placed)) ORDER);
          standing = filter (\<lambda>f. f_status f = Active) (placed_in_order folded)
      in try_then (spread last_key None (length standing)) (\<lambda>orders.
           Some (Inr (map2 (\<lambda>f order. \<lparr>r_fact = f_id f, r_order = order, r_continues = None\<rparr>) standing orders))))"

definition ticks_following :: "fact list \<Rightarrow> (fact_id \<times> fact_id) list \<Rightarrow> (fact_id \<times> string) list" where
  "ticks_following folded claims =
     List.map_filter (\<lambda>tick. map_option (\<lambda>(was, now). (f_id tick, now))
         (find (\<lambda>(was, now). was = trim (field_at tick TICK_ENTRY)) claims))
       (filter (\<lambda>f. has_key (f_fields f) TICK_ENTRY \<and> has_key (f_fields f) TICK_ACT \<and>
          \<not> has_key (f_fields f) ORDER) folded)"

section \<open>The gate before done\<close>

definition moves_to_done :: "string \<Rightarrow> fields \<Rightarrow> fields \<Rightarrow> bool" where
  "moves_to_done k before after =
     (let says_done = (\<lambda>fs. case bt_get fs STATUS of None \<Rightarrow> False | Some word \<Rightarrow> trim word = FINISHED)
      in holds_columns k \<and> says_done after \<and> \<not> says_done before)"

definition open_entries_of :: "world \<Rightarrow> (fields \<times> fact list) list \<Rightarrow> string list" where
  "open_entries_of W hung =
     concat (map (\<lambda>(fs, facts). let s = setting_of fs in
         if s = Back then [] else map sl_address (lv_slots (view W facts s))) hung)"

section \<open>One more tick\<close>

lemmas word_defs = OPEN_def DONE_def DROPPED_def

lemma state_words [simp]:
  "OPEN \<noteq> DONE" "DONE \<noteq> OPEN" "OPEN \<noteq> DROPPED" "DROPPED \<noteq> OPEN" "DONE \<noteq> DROPPED" "DROPPED \<noteq> DONE"
  by (simp_all add: word_defs)

lemma state_of_ticked: "state_of (ticked_by s a n now) = state_after s a"
  by (cases a) (simp_all add: ticked_by_def state_of_def Let_def)

lemma insert_by_before: "c y x \<noteq> OGreater \<Longrightarrow> insert_by c y (ys @ [x]) = insert_by c y ys @ [x]"
  by (induction ys) auto

lemma sort_by_snoc:
  "\<forall>y \<in> set ys. c y x \<noteq> OGreater \<Longrightarrow> sort_by c (ys @ [x]) = sort_by c ys @ [x]"
proof (induction ys)
  case (Cons y ys)
  then show ?case by (simp add: sort_by_Cons insert_by_before)
qed (simp add: sort_by_def)

lemma map_filter_append: "List.map_filter f (xs @ ys) = List.map_filter f xs @ List.map_filter f ys"
  by (simp add: map_filter_def)

lemma active_ticks_mem:
  "(f, a) \<in> set (active_ticks W facts) \<longleftrightarrow>
     f \<in> set facts \<and> f_status f = Active \<and> is_tick W f \<and> act_of (field_at f TICK_ACT) = Some a"
  unfolding active_ticks_def set_sort_by by (force simp: map_filter_def split: option.splits)

lemma active_ticks_snoc:
  assumes "f_status t = Active" and "is_tick W t" and "act_of (field_at t TICK_ACT) = Some a"
    and "\<forall>f \<in> set facts. claim_sequence f \<le> claim_sequence t"
  shows "active_ticks W (facts @ [t]) = active_ticks W facts @ [(t, a)]"
proof -
  have "fst ta \<in> set facts" if "ta \<in> set (List.map_filter (\<lambda>f. map_option (Pair f) (act_of (field_at f TICK_ACT)))
      (filter (\<lambda>f. f_status f = Active \<and> is_tick W f) facts))" for ta
    using that by (auto simp: map_filter_def split: option.splits)
  then show ?thesis
    using assms unfolding active_ticks_def
    by (subst filter_append, subst map_filter_append) (simp add: map_filter_simps sort_by_snoc cmp_le)
qed

lemma tick_is_no_entry: "is_tick W t \<Longrightarrow> \<not> has_key (f_fields t) ORDER"
  by (simp add: is_tick_def)

lemma open_entries_snoc_tick: "is_tick W t \<Longrightarrow> open_entries W (facts @ [t]) = open_entries W facts"
  by (simp add: open_entries_def placed_in_order_def tick_is_no_entry)

lemma open_entries_mem:
  "f \<in> set (open_entries W facts) \<longleftrightarrow> f \<in> set facts \<and> f_status f = Active \<and> is_entry W f"
  by (auto simp: open_entries_def set_placed is_entry_def is_placed_def)

lemma dom_tick_step: "dom (tick_step s ta st) = dom st"
  by (auto simp: tick_step_def Let_def split: option.splits)

lemma dom_fold_tick_step: "dom (fold (tick_step s) tas st) = dom st"
  by (induction tas arbitrary: st) (simp_all add: dom_tick_step)

lemma dom_ticks_of: "dom (ticks_of W facts s) = f_id ` set (open_entries W facts)"
  unfolding ticks_of_def dom_fold_tick_step by (auto split: if_splits)

lemma ticks_of_entry: "f \<in> set (open_entries W facts) \<Longrightarrow> \<exists>now. ticks_of W facts s (f_id f) = Some now"
  using dom_ticks_of [of W facts s] by blast

lemma ticks_of_snoc:
  assumes "f_status t = Active" and "is_tick W t" and "act_of (field_at t TICK_ACT) = Some a"
    and "\<forall>f \<in> set facts. claim_sequence f \<le> claim_sequence t"
  shows "ticks_of W (facts @ [t]) s = tick_step s (t, a) (ticks_of W facts s)"
  unfolding ticks_of_def active_ticks_snoc [OF assms] open_entries_snoc_tick [OF assms(2)] by simp

lemma fold_states:
  assumes "bt_ok m"
  shows "bt_ok (fold (\<lambda>e. bt_insert (f_id e) (g (f_id e))) es m) \<and>
    bt_get (fold (\<lambda>e. bt_insert (f_id e) (g (f_id e))) es m) i =
      (if i \<in> f_id ` set es then Some (g i) else bt_get m i)"
  using assms
proof (induction es arbitrary: m)
  case (Cons e es)
  have "bt_ok (bt_insert (f_id e) (g (f_id e)) m)" using Cons.prems by simp
  from Cons.IH [OF this] show ?case using Cons.prems by auto
qed simp

lemma view_states:
  "bt_get (lv_states (view W facts s)) i = map_option state_of (ticks_of W facts s i)"
proof -
  let ?st = "ticks_of W facts s"
  have "bt_get (lv_states (view W facts s)) i =
      (if i \<in> f_id ` set (open_entries W facts) then Some (state_of (the (?st i))) else None)"
    using fold_states [of "[]" "\<lambda>i. state_of (the (?st i))" "open_entries W facts" i]
    by (simp add: view_def Let_def bt_get_def)
  then show ?thesis using dom_ticks_of [of W facts s] by (cases "?st i") auto
qed

text \<open>
  C37: The state a batch of ticks folds is the state the list reads: when a tick is written after every
  claim of the list, the entry it names reads as the act and the list's setting say, and every other
  entry reads as before.
\<close>

theorem one_more_tick:
  assumes "f_status t = Active" and "is_tick W t" and "act_of (field_at t TICK_ACT) = Some a"
    and "\<forall>f \<in> set facts. claim_sequence f \<le> claim_sequence t"
  shows "bt_get (lv_states (view W (facts @ [t]) s)) i =
    (if i = trim (field_at t TICK_ENTRY) \<and> bt_get (lv_states (view W facts s)) i \<noteq> None
     then Some (state_after s a) else bt_get (lv_states (view W facts s)) i)"
  unfolding view_states ticks_of_snoc [OF assms]
  by (auto simp: tick_step_def Let_def state_of_ticked simp del: state_after.simps split: option.splits)

text \<open>
  A tick that is let through does something: it changes the state its entry reads as, or the entry
  takes a turn on a list that rotates.
\<close>

theorem tick_let_through_does_something:
  assumes "refuse_tick s state a = None" and "state \<in> {OPEN, DONE, DROPPED}"
  shows "state_after s a \<noteq> state \<or> s = Back \<and> turn_at (ticked_by s a n now) = Some n"
  using assms by (cases a; cases s) (auto simp: refuse_tick_def ticked_by_def Let_def split: if_splits)

theorem tick_let_through_does_something_witness:
  "state_after Back Done \<noteq> OPEN \<or> Back = Back \<and> turn_at (ticked_by Back Done 7 no_ticks) = Some 7"
  by (rule tick_let_through_does_something) (simp_all add: refuse_tick_def)

section \<open>A placement lands where it was asked\<close>

definition slot_before :: "slot \<Rightarrow> nat \<times> string \<Rightarrow> bool" where
  "slot_before x pt \<longleftrightarrow> sl_bucket x < fst pt \<or> sl_bucket x = fst pt \<and> sl_order x < snd pt"

definition slot_after :: "slot \<Rightarrow> nat \<times> string \<Rightarrow> bool" where
  "slot_after x pt \<longleftrightarrow> fst pt < sl_bucket x \<or> sl_bucket x = fst pt \<and> snd pt < sl_order x"

definition slots_ascend :: "slot list \<Rightarrow> bool" where
  "slots_ascend = sorted_wrt (\<lambda>x y. sl_bucket x < sl_bucket y \<or> sl_bucket x = sl_bucket y \<and> sl_order x \<le> sl_order y)"

fun asked_for :: "placement \<Rightarrow> slot list \<Rightarrow> slot list \<Rightarrow> bool" where
  "asked_for AtFirst before after \<longleftrightarrow> before = []"
| "asked_for AtEnd before after \<longleftrightarrow> after = []"
| "asked_for (After t) before after \<longleftrightarrow> before \<noteq> [] \<and> sl_id (last before) = a_local t"

lemma between_lies:
  assumes "between lo up = Some (Inr k)"
  shows "lies_in lo k up"
proof -
  have "bounds is_a_key lo up"
    using assms unfolding between_def bounds_def
    by (auto split: option.splits if_splits simp: find_None_iff)
  then show ?thesis using between_mints assms by (metis option.inject sum.inject(2))
qed

lemma place_between_lies:
  "place_between facts b lo up = Some (Inr m) \<Longrightarrow>
   lies_in lo (mv_order m) up \<and> mv_held_turn m = b \<and> mv_held_since m = highest_number facts"
  by (auto simp: place_between_def dest: between_lies split: option.splits sum.splits)

lemma slots_ascend_append:
  "slots_ascend (xs @ ys) \<longleftrightarrow> slots_ascend xs \<and> slots_ascend ys \<and>
     (\<forall>x \<in> set xs. \<forall>y \<in> set ys. sl_bucket x < sl_bucket y \<or> sl_bucket x = sl_bucket y \<and> sl_order x \<le> sl_order y)"
  by (simp add: slots_ascend_def sorted_wrt_append)

lemma before_last:
  assumes "slots_ascend xs" and "xs \<noteq> []" and "slot_before (last xs) p" and "x \<in> set xs"
  shows "slot_before x p"
proof -
  obtain ys z where xs: "xs = ys @ [z]" using assms(2) by (metis rev_exhaust)
  then have "x = z \<or> sl_bucket x < sl_bucket z \<or> sl_bucket x = sl_bucket z \<and> sl_order x \<le> sl_order z"
    using assms(1,4) by (auto simp: slots_ascend_append)
  then show ?thesis using assms(3) xs by (auto simp: slot_before_def)
qed

lemma after_first:
  assumes "slots_ascend (x # xs)" and "slot_after x p" and "y \<in> set (x # xs)"
  shows "slot_after y p"
  using assms by (auto simp: slots_ascend_def slot_after_def)

lemma place_lands:
  assumes placed: "place seen facts l moving p = Some (Inr m)"
    and others: "others = filter (\<lambda>sl. Some (sl_id sl) \<noteq> moving) (lv_slots seen)"
    and asc: "slots_ascend others"
  shows "\<exists>before after. others = before @ after \<and> asked_for p before after \<and>
    (\<forall>x \<in> set before. slot_before x (mv_held_turn m, mv_order m)) \<and>
    (\<forall>y \<in> set after. slot_after y (mv_held_turn m, mv_order m)) \<and>
    mv_held_since m = highest_number facts \<and>
    (mv_held_turn m = 0 \<or> mv_held_turn m \<in> sl_bucket ` set others)"
proof (cases p)
  case AtEnd
  show ?thesis
  proof (cases "others = []")
    case True
    then show ?thesis using placed AtEnd others by (auto simp: place_def dest: place_between_lies)
  next
    case False
    have here: "place_between facts (sl_bucket (last others)) (Some (sl_order (last others))) None = Some (Inr m)"
      using placed AtEnd False unfolding place_def Let_def others [symmetric] by simp
    then have "slot_before (last others) (mv_held_turn m, mv_order m)"
      by (auto simp: slot_before_def lies_in_def dest: place_between_lies)
    then have "\<forall>x \<in> set others. slot_before x (mv_held_turn m, mv_order m)" using before_last [OF asc False] by blast
    then show ?thesis using place_between_lies [OF here] AtEnd False
      by (intro exI [of _ others] exI [of _ "[]"]) simp
  qed
next
  case AtFirst
  show ?thesis
  proof (cases others)
    case Nil
    then show ?thesis using placed AtFirst others by (auto simp: place_def dest: place_between_lies)
  next
    case (Cons sl sls)
    have here: "place_between facts (sl_bucket sl) None (Some (sl_order sl)) = Some (Inr m)"
      using placed AtFirst Cons unfolding place_def Let_def others [symmetric] by simp
    then have "slot_after sl (mv_held_turn m, mv_order m)"
      by (auto simp: slot_after_def lies_in_def dest: place_between_lies)
    then have "\<forall>y \<in> set others. slot_after y (mv_held_turn m, mv_order m)"
      using after_first asc unfolding Cons by blast
    then show ?thesis using place_between_lies [OF here] AtFirst Cons
      by (intro exI [of _ "[]"] exI [of _ others]) simp
  qed
next
  case (After t)
  let ?upper = "\<lambda>i. if i + 1 < length others \<and> sl_bucket (others ! (i + 1)) = sl_bucket (others ! i)
      then Some (sl_order (others ! (i + 1))) else None"
  obtain i where i: "position (\<lambda>sl. sl_id sl = a_local t \<and> a_home t = l) others = Some i"
    and here: "place_between facts (sl_bucket (others ! i)) (Some (sl_order (others ! i))) (?upper i) = Some (Inr m)"
    using placed After unfolding place_def Let_def others [symmetric]
    by (auto split: if_split_asm option.splits)
  from i have len: "i < length others" and at: "sl_id (others ! i) = a_local t"
    by (simp_all add: position_Some)
  note lies = place_between_lies [OF here]
  have split: "others = take (i + 1) others @ drop (i + 1) others" by simp
  have last: "last (take (i + 1) others) = others ! i" "take (i + 1) others \<noteq> []"
    using len by (simp_all add: take_Suc_conv_app_nth)
  have "slots_ascend (take (i + 1) others)" "slots_ascend (drop (i + 1) others)"
    using asc slots_ascend_append [of "take (i + 1) others" "drop (i + 1) others"] by simp_all
  note parts = this
  have "slot_before (others ! i) (mv_held_turn m, mv_order m)"
    using lies by (auto simp: slot_before_def lies_in_def)
  then have before: "\<forall>x \<in> set (take (i + 1) others). slot_before x (mv_held_turn m, mv_order m)"
    using before_last [OF parts(1) last(2)] last(1) by simp
  have after: "\<forall>y \<in> set (drop (i + 1) others). slot_after y (mv_held_turn m, mv_order m)"
  proof (cases "i + 1 < length others")
    case True
    have drop: "drop (i + 1) others = others ! (i + 1) # drop (i + 2) others" using True by (simp add: Cons_nth_drop_Suc)
    have "sl_bucket (others ! i) \<le> sl_bucket (others ! (i + 1))"
      using asc True unfolding slots_ascend_def sorted_wrt_iff_nth_less by (metis less_add_one less_imp_le order_refl)
    then have "slot_after (others ! (i + 1)) (mv_held_turn m, mv_order m)"
      using lies True by (auto simp: slot_after_def lies_in_def split: if_splits)
    then show ?thesis using after_first parts(2) unfolding drop by blast
  qed simp
  show ?thesis using split last at before after lies len After
    by (intro exI [of _ "take (i + 1) others"] exI [of _ "drop (i + 1) others"]) simp
qed

text \<open>What a store writes on the entry that moves.\<close>

definition moved_fact :: "moved \<Rightarrow> fact \<Rightarrow> fact" where
  "moved_fact m f =
     f\<lparr>f_fields := bt_insert HELD_SINCE (show_nat (mv_held_since m))
        (bt_insert HELD_TURN (show_nat (mv_held_turn m)) (bt_insert ORDER (mv_order m) (f_fields f)))\<rparr>"

definition write_move :: "fact_id \<Rightarrow> moved \<Rightarrow> fact list \<Rightarrow> fact list" where
  "write_move i m facts = map (\<lambda>f. if f_id f = i then moved_fact m f else f) facts"

lemma held_keys [simp]: "HELD_SINCE \<noteq> HELD_TURN" "HELD_TURN \<noteq> HELD_SINCE" "HELD_SINCE \<noteq> ORDER" "HELD_TURN \<noteq> ORDER"
  by (simp_all add: HELD_SINCE_def HELD_TURN_def ORDER_def)

lemma moved_fact_simps [simp]:
  "f_id (moved_fact m f) = f_id f" "f_home (moved_fact m f) = f_home f" "f_status (moved_fact m f) = f_status f"
  by (simp_all add: moved_fact_def)

lemma moved_fact_fields:
  "bt_get (f_fields (moved_fact m f)) ORDER = Some (mv_order m)"
  "bt_get (f_fields (moved_fact m f)) HELD_TURN = Some (show_nat (mv_held_turn m))"
  "bt_get (f_fields (moved_fact m f)) HELD_SINCE = Some (show_nat (mv_held_since m))"
  by (simp_all add: moved_fact_def bt_get_insert_other)

lemma moved_is_entry: "is_entry W (moved_fact m f) \<longleftrightarrow> entity_kind W (f_home f) = Some ''list''"
  by (auto simp: is_entry_def is_placed_def places_its_records_def has_key_def moved_fact_fields)

lemma claim_sequence_moved [simp]: "claim_sequence (moved_fact m f) = claim_sequence f"
  by (simp add: claim_sequence_def)

lemma claim_sequence_le: "claim_sequence f \<le> usize_max"
  by (auto simp: claim_sequence_def split: option.splits dest: parse_unsigned_bound)

lemma claim_number_sequence: "claim_number f = Some n \<Longrightarrow> claim_sequence f = n"
  by (simp add: claim_number_def claim_sequence_def)

lemma highest_number_ge: "f \<in> set facts \<Longrightarrow> claim_number f = Some n \<Longrightarrow> n \<le> highest_number facts"
  by (induction facts) (auto simp: highest_number_def map_filter_simps split: option.splits)

lemma highest_number_le: "highest_number facts \<le> usize_max"
  by (induction facts)
    (auto simp: highest_number_def map_filter_simps claim_number_def split: option.splits dest: parse_unsigned_bound)

lemma tick_step_last:
  assumes "\<forall>i now n. st i = Some now \<and> last_tick now = Some n \<longrightarrow> n \<le> b" and "claim_sequence (fst ta) \<le> b"
  shows "\<forall>i now n. tick_step s ta st i = Some now \<and> last_tick now = Some n \<longrightarrow> n \<le> b"
proof -
  have "last_tick (ticked_by s a n now) = Some n" for a n now
    by (cases a) (simp_all add: ticked_by_def Let_def)
  then show ?thesis using assms by (auto simp: tick_step_def Let_def split: option.splits if_splits)
qed

lemma fold_ticks_last:
  "\<forall>i now n. st i = Some now \<and> last_tick now = Some n \<longrightarrow> n \<le> b \<Longrightarrow>
   \<forall>ta \<in> set tas. claim_sequence (fst ta) \<le> b \<Longrightarrow>
   \<forall>i now n. fold (tick_step s) tas st i = Some now \<and> last_tick now = Some n \<longrightarrow> n \<le> b"
proof (induction tas arbitrary: st)
  case (Cons ta tas)
  have "\<forall>i now n. tick_step s ta st i = Some now \<and> last_tick now = Some n \<longrightarrow> n \<le> b"
    using Cons.prems by (intro tick_step_last) simp_all
  from Cons.IH [OF this] show ?case using Cons.prems(2) by simp
qed simp

lemma last_tick_bound:
  assumes "\<forall>f \<in> set facts. claim_number f \<noteq> None"
    and "ticks_of W facts s i = Some now" and "last_tick now = Some n"
  shows "n \<le> highest_number facts"
proof -
  have "\<forall>ta \<in> set (active_ticks W facts). claim_sequence (fst ta) \<le> highest_number facts"
  proof
    fix ta assume "ta \<in> set (active_ticks W facts)"
    then have "fst ta \<in> set facts" using active_ticks_mem [of "fst ta" "snd ta"] by simp
    then obtain k where "claim_number (fst ta) = Some k" using assms(1) by blast
    then show "claim_sequence (fst ta) \<le> highest_number facts"
      using highest_number_ge [OF \<open>fst ta \<in> set facts\<close>] claim_number_sequence by simp
  qed
  note bounded = this
  define st where "st = (\<lambda>i. if i \<in> set (map f_id (open_entries W facts)) then Some no_ticks else None)"
  have "\<forall>i now n. st i = Some now \<and> last_tick now = Some n \<longrightarrow> n \<le> highest_number facts"
    by (auto simp: st_def no_ticks_def split: if_splits)
  from fold_ticks_last [OF this bounded, of s]
  have "\<forall>i now n. ticks_of W facts s i = Some now \<and> last_tick now = Some n \<longrightarrow> n \<le> highest_number facts"
    unfolding ticks_of_def st_def .
  then show ?thesis using assms(2,3) by blast
qed

lemma held_bucket_moved:
  assumes "mv_held_turn m \<le> usize_max" and "mv_held_since m \<le> usize_max"
    and "\<forall>n. last_tick now = Some n \<longrightarrow> n \<le> mv_held_since m"
  shows "bucket_of (moved_fact m f) now = mv_held_turn m"
proof -
  have "held_bucket (moved_fact m f) (last_tick now) = Some (mv_held_turn m)"
    using assms unfolding held_bucket_def
    by (auto simp: moved_fact_fields trim_show_nat parse_unsigned_show_nat split: option.splits)
  then show ?thesis by (simp add: bucket_of_def)
qed

interpretation slots: comparator by_place
  unfolding by_place_def [abs_def] by (intro comparator_then comparator_key)

lemma by_place_slots:
  "by_place x y \<noteq> OGreater \<Longrightarrow>
   sl_bucket (slot_of x) < sl_bucket (slot_of y) \<or>
   sl_bucket (slot_of x) = sl_bucket (slot_of y) \<and> sl_order (slot_of x) \<le> sl_order (slot_of y)"
  by (auto simp: by_place_def slot_of_def then_with_def cmp_def split: if_splits)

lemma by_place_before:
  "slot_before (slot_of x) (snd y, field_at (fst y) ORDER) \<Longrightarrow> by_place x y \<noteq> OGreater"
  by (auto simp: by_place_def slot_before_def slot_of_def then_with_def cmp_def)

lemma by_place_after:
  "slot_after (slot_of y) (snd x, field_at (fst x) ORDER) \<Longrightarrow> by_place x y \<noteq> OGreater"
  by (auto simp: by_place_def slot_after_def slot_of_def then_with_def cmp_def)

lemma by_place_equal: "by_place x y = OEqual \<Longrightarrow> f_id (fst x) = f_id (fst y)"
  by (auto simp: by_place_def then_with_def cmp_def split: if_splits)

lemma sorted_slots_ascend:
  "sorted_wrt (\<lambda>x y. by_place x y \<noteq> OGreater) rows \<Longrightarrow> slots_ascend (map slot_of rows)"
  unfolding slots_ascend_def sorted_wrt_map by (erule sorted_wrt_mono_rel [rotated]) (rule by_place_slots)

lemma write_move_set:
  "set (write_move i m facts) = (\<lambda>f. if f_id f = i then moved_fact m f else f) ` set facts"
  by (simp add: write_move_def)

lemma distinct_open_entries: "distinct facts \<Longrightarrow> distinct (open_entries W facts)"
  by (simp add: open_entries_def placed_in_order_def)

lemma distinct_open_rows: "distinct es \<Longrightarrow> distinct (open_rows st es)"
  by (simp add: open_rows_def distinct_map inj_on_def)

lemma open_rows_mem:
  "(e, b) \<in> set (open_rows st es) \<longleftrightarrow>
     e \<in> set es \<and> state_of (the (st (f_id e))) = OPEN \<and> b = bucket_of e (the (st (f_id e)))"
  by (auto simp: open_rows_def)

lemma active_ticks_moved:
  assumes "\<forall>f \<in> set facts. f_id f = i \<longrightarrow> is_entry W f"
  shows "active_ticks W (write_move i m facts) = active_ticks W facts"
proof -
  have "\<not> is_tick W f \<and> \<not> is_tick W (moved_fact m f)" if "f \<in> set facts" "f_id f = i" for f
    using that assms by (auto simp: is_tick_def is_entry_def is_placed_def has_key_def moved_fact_fields)
  then have "filter (\<lambda>f. f_status f = Active \<and> is_tick W f) (write_move i m facts) =
      filter (\<lambda>f. f_status f = Active \<and> is_tick W f) facts"
    by (induction facts) (auto simp: write_move_def)
  then show ?thesis by (simp add: active_ticks_def)
qed

lemma open_entries_moved:
  assumes "\<forall>f \<in> set facts. f_id f = i \<longrightarrow> is_entry W f"
  shows "set (open_entries W (write_move i m facts)) =
    (\<lambda>f. if f_id f = i then moved_fact m f else f) ` set (open_entries W facts)" (is "?l = ?w ` ?r")
proof -
  have keep: "is_entry W (?w f) \<longleftrightarrow> is_entry W f" if "f \<in> set facts" for f
    using that assms by (auto simp: moved_is_entry) (simp add: is_entry_def)
  have "f' \<in> ?l \<longleftrightarrow> (\<exists>f \<in> set facts. f' = ?w f \<and> f_status f = Active \<and> is_entry W f)" for f'
  proof -
    have "f' \<in> ?l \<longleftrightarrow> (\<exists>f \<in> set facts. f' = ?w f) \<and> f_status f' = Active \<and> is_entry W f'"
      unfolding open_entries_mem write_move_set by blast
    also have "\<dots> \<longleftrightarrow> (\<exists>f \<in> set facts. f' = ?w f \<and> f_status (?w f) = Active \<and> is_entry W (?w f))" by blast
    also have "\<dots> \<longleftrightarrow> (\<exists>f \<in> set facts. f' = ?w f \<and> f_status f = Active \<and> is_entry W f)"
    proof (intro bex_cong refl conj_cong)
      fix f assume "f \<in> set facts"
      then show "is_entry W (?w f) \<longleftrightarrow> is_entry W f" by (rule keep)
    qed simp
    finally show "f' \<in> ?l \<longleftrightarrow> (\<exists>f \<in> set facts. f' = ?w f \<and> f_status f = Active \<and> is_entry W f)" .
  qed
  moreover have "f' \<in> ?w ` ?r \<longleftrightarrow> (\<exists>f \<in> set facts. f' = ?w f \<and> f_status f = Active \<and> is_entry W f)" for f'
    unfolding image_iff Bex_def open_entries_mem by blast
  ultimately show ?thesis by (intro set_eqI) (simp only:)
qed

lemma ticks_of_moved:
  assumes "\<forall>f \<in> set facts. f_id f = i \<longrightarrow> is_entry W f"
  shows "ticks_of W (write_move i m facts) s = ticks_of W facts s"
proof -
  have "f_id ` set (open_entries W (write_move i m facts)) = f_id ` set (open_entries W facts)"
    unfolding open_entries_moved [OF assms] image_image by (rule image_cong) simp_all
  then show ?thesis unfolding ticks_of_def active_ticks_moved [OF assms] set_map by simp
qed

definition moved_row :: "fact_id \<Rightarrow> moved \<Rightarrow> fact \<times> nat \<Rightarrow> fact \<times> nat" where
  "moved_row i m r = (if f_id (fst r) = i then (moved_fact m (fst r), mv_held_turn m) else r)"

lemma open_rows_moved:
  assumes entry: "\<forall>f \<in> set facts. f_id f = i \<longrightarrow> is_entry W f"
    and held: "\<And>now f. st i = Some now \<Longrightarrow> bucket_of (moved_fact m f) now = mv_held_turn m"
    and known: "\<forall>e \<in> set (open_entries W facts). \<exists>now. st (f_id e) = Some now"
  shows "set (open_rows st (open_entries W (write_move i m facts))) = moved_row i m ` set (open_rows st (open_entries W facts))"
proof -
  let ?w = "\<lambda>f. if f_id f = i then moved_fact m f else f"
  have id: "f_id (?w e) = f_id e" for e by simp
  have row: "moved_row i m (e, bucket_of e (the (st (f_id e)))) = (?w e, bucket_of (?w e) (the (st (f_id (?w e)))))"
    if "e \<in> set (open_entries W facts)" for e
    using known that held by (fastforce simp: moved_row_def)
  have "set (open_rows st (open_entries W (write_move i m facts))) =
      (\<lambda>e. (e, bucket_of e (the (st (f_id e))))) `
        {e \<in> ?w ` set (open_entries W facts). state_of (the (st (f_id e))) = OPEN}"
    unfolding open_rows_def set_map set_filter open_entries_moved [OF entry] by simp
  also have "{e \<in> ?w ` set (open_entries W facts). state_of (the (st (f_id e))) = OPEN} =
      ?w ` {e \<in> set (open_entries W facts). state_of (the (st (f_id e))) = OPEN}"
    unfolding Compr_image_eq id ..
  finally show ?thesis unfolding open_rows_def set_map set_filter image_image
    by (simp add: row cong: image_cong_simp)
qed

lemma view_slots: "lv_slots (view W facts s) = map slot_of (sort_by by_place (open_rows (ticks_of W facts s) (open_entries W facts)))"
  by (simp add: view_def Let_def)

lemma sorted_with_inserted:
  assumes sorted: "sorted_wrt (\<lambda>x y. by_place x y \<noteq> OGreater) (B @ A)"
    and before: "\<forall>x \<in> set B. slot_before (slot_of x) (snd n, field_at (fst n) ORDER)"
    and after: "\<forall>y \<in> set A. slot_after (slot_of y) (snd n, field_at (fst n) ORDER)"
  shows "sorted_wrt (\<lambda>x y. by_place x y \<noteq> OGreater) (B @ n # A)"
  using assms by_place_before by_place_after by (auto simp: sorted_wrt_append)

lemma unique_row_ids:
  assumes "distinct (map f_id facts)" and "x \<in> set (open_rows st (open_entries W facts))"
    and "y \<in> set (open_rows st (open_entries W facts))" and "f_id (fst x) = f_id (fst y)"
  shows "x = y"
proof -
  obtain e b e' b' where xy: "x = (e, b)" "y = (e', b')" by fastforce
  have e: "e \<in> set (open_entries W facts)" "b = bucket_of e (the (st (f_id e)))"
    using assms(2) unfolding xy open_rows_mem by simp_all
  have e': "e' \<in> set (open_entries W facts)" "b' = bucket_of e' (the (st (f_id e')))"
    using assms(3) unfolding xy open_rows_mem by simp_all
  have "e = e'" using e(1) e'(1) assms(1,4) unfolding xy open_entries_mem by (simp add: distinct_map inj_on_def)
  then show ?thesis using e(2) e'(2) xy by simp
qed

lemma write_move_ids [simp]: "map f_id (write_move i m facts) = map f_id facts"
  by (simp add: write_move_def)

lemma sort_moved_rows:
  assumes dist: "distinct (map f_id facts)"
    and rows: "set (open_rows st (open_entries W (write_move i m facts))) = moved_row i m ` set (open_rows st (open_entries W facts))"
    and row: "(e, b) \<in> set (open_rows st (open_entries W facts))" "f_id e = i"
    and split: "filter (\<lambda>r. f_id (fst r) \<noteq> i) (sort_by by_place (open_rows st (open_entries W facts))) = B @ A"
    and before: "\<forall>x \<in> set B. slot_before (slot_of x) (mv_held_turn m, mv_order m)"
    and after: "\<forall>y \<in> set A. slot_after (slot_of y) (mv_held_turn m, mv_order m)"
  shows "sort_by by_place (open_rows st (open_entries W (write_move i m facts))) =
    B @ (moved_fact m e, mv_held_turn m) # A"
proof (rule slots.sorted_unique)
  let ?n = "(moved_fact m e, mv_held_turn m)"
  let ?old = "open_rows st (open_entries W facts)" and ?new = "open_rows st (open_entries W (write_move i m facts))"
  show "sorted_wrt (\<lambda>x y. by_place x y \<noteq> OGreater) (sort_by by_place ?new)" by (rule slots.sorted_sort_by)
  have "sorted_wrt (\<lambda>x y. by_place x y \<noteq> OGreater) (B @ A)"
    unfolding split [symmetric] by (intro sorted_wrt_filter slots.sorted_sort_by)
  then show "sorted_wrt (\<lambda>x y. by_place x y \<noteq> OGreater) (B @ ?n # A)"
    by (rule sorted_with_inserted) (use before after in \<open>simp_all add: field_at_def moved_fact_fields\<close>)
  have d: "distinct facts" "distinct (write_move i m facts)"
    using dist write_move_ids [of i m facts] by (metis distinct_map)+
  have BA: "set (B @ A) = {r \<in> set ?old. f_id (fst r) \<noteq> i}" "distinct (B @ A)"
    unfolding split [symmetric] using d by (simp_all add: distinct_open_rows distinct_open_entries)
  have "set ?new = insert ?n (set (B @ A))"
  proof -
    have "{r \<in> set ?old. f_id (fst r) = i} = {(e, b)}"
      using row unique_row_ids [OF dist] by fastforce
    then have "set ?old = insert (e, b) (set (B @ A))" unfolding BA by blast
    then have "set ?new = insert (moved_row i m (e, b)) (moved_row i m ` set (B @ A))" unfolding rows by simp
    moreover have "moved_row i m ` set (B @ A) = set (B @ A)"
      unfolding BA by (rule trans [OF image_cong image_ident]) (auto simp: moved_row_def)
    ultimately show ?thesis using row(2) by (simp add: moved_row_def)
  qed
  moreover have "?n \<notin> set (B @ A)" unfolding BA using row(2) by simp
  ultimately have "set ?new = set (B @ ?n # A)" "distinct (B @ ?n # A)" using BA(2) by auto
  moreover have "distinct ?new" using d(2) by (simp add: distinct_open_rows distinct_open_entries)
  ultimately have "mset ?new = mset (B @ ?n # A)" using set_eq_iff_mset_eq_distinct by blast
  then show "mset (sort_by by_place ?new) = mset (B @ ?n # A)" by (simp only: mset_sort_by)
  show "\<forall>x \<in> set (sort_by by_place ?new). \<forall>y \<in> set (sort_by by_place ?new). by_place x y = OEqual \<longrightarrow> x = y"
    using unique_row_ids [of "write_move i m facts"] by_place_equal dist by simp
qed

lemma tick_step_turn:
  assumes "\<forall>i now n. st i = Some now \<and> turn_at now = Some n \<longrightarrow> n \<le> usize_max"
  shows "\<forall>i now n. tick_step s ta st i = Some now \<and> turn_at now = Some n \<longrightarrow> n \<le> usize_max"
proof -
  have stepped: "k \<le> usize_max"
    if "turn_at (ticked_by s a (claim_sequence f) now) = Some k" "turn_at now = Some k \<Longrightarrow> k \<le> usize_max" for a f now k
  proof -
    have "turn_at (ticked_by s a (claim_sequence f) now) = Some (claim_sequence f) \<or>
        turn_at (ticked_by s a (claim_sequence f) now) = turn_at now"
      by (cases a) (simp_all add: ticked_by_def Let_def)
    then show ?thesis
    proof
      assume "turn_at (ticked_by s a (claim_sequence f) now) = Some (claim_sequence f)"
      then show ?thesis using that(1) claim_sequence_le [of f] by simp
    qed (use that in simp)
  qed
  show ?thesis
  proof (intro allI impI)
    fix i now n assume step: "tick_step s ta st i = Some now \<and> turn_at now = Some n"
    let ?e = "trim (field_at (fst ta) TICK_ENTRY)"
    show "n \<le> usize_max"
    proof (cases "i = ?e \<and> st ?e \<noteq> None")
      case True
      then obtain old where "st i = Some old" by blast
      then have "now = ticked_by s (snd ta) (claim_sequence (fst ta)) old"
        using step True by (simp add: tick_step_def Let_def)
      then show ?thesis using stepped step assms \<open>st i = Some old\<close> by blast
    next
      case False
      then have "st i = Some now" using step by (auto simp: tick_step_def Let_def split: option.splits)
      then show ?thesis using assms step by blast
    qed
  qed
qed

lemma turn_at_bound:
  "\<forall>i now n. st i = Some now \<and> turn_at now = Some n \<longrightarrow> n \<le> usize_max \<Longrightarrow>
   \<forall>i now n. fold (tick_step s) tas st i = Some now \<and> turn_at now = Some n \<longrightarrow> n \<le> usize_max"
proof (induction tas arbitrary: st)
  case (Cons ta tas)
  have "\<forall>i now n. tick_step s ta st i = Some now \<and> turn_at now = Some n \<longrightarrow> n \<le> usize_max"
    using Cons.prems by (rule tick_step_turn)
  from Cons.IH [OF this] show ?case by simp
qed simp

lemma bucket_le:
  assumes "ticks_of W facts s i = Some now"
  shows "bucket_of e now \<le> usize_max"
proof -
  define st where "st = (\<lambda>i. if i \<in> set (map f_id (open_entries W facts)) then Some no_ticks else None)"
  have "\<forall>i now n. st i = Some now \<and> turn_at now = Some n \<longrightarrow> n \<le> usize_max"
    by (auto simp: st_def no_ticks_def split: if_splits)
  from turn_at_bound [OF this, of s "active_ticks W facts"]
  have "\<forall>i now n. ticks_of W facts s i = Some now \<and> turn_at now = Some n \<longrightarrow> n \<le> usize_max"
    unfolding ticks_of_def st_def .
  then have turn: "turn_at now = Some n \<Longrightarrow> n \<le> usize_max" for n using assms by blast
  have "held_bucket e lt = Some b \<Longrightarrow> b \<le> usize_max" for lt b
    by (auto simp: held_bucket_def bind_eq_Some_conv split: if_splits dest: parse_unsigned_bound)
  then show ?thesis using turn by (auto simp: bucket_of_def split: option.splits)
qed

text \<open>
  C21: A moved entry reads where the caller asked: once the store has written what the move says, the open
  entries of the list are the other ones in the order they were, with the moved one first, last, or
  straight after the entry named.
\<close>

theorem move_lands_where_asked:
  assumes moved: "move_entry W facts s a p = Some (Inr m)"
    and dist: "distinct (map f_id facts)" and numbered: "\<forall>f \<in> set facts. claim_number f \<noteq> None"
  shows "\<exists>before after sl. filter (\<lambda>x. sl_id x \<noteq> a_local a) (lv_slots (view W facts s)) = before @ after \<and>
    asked_for p before after \<and> sl_id sl = a_local a \<and>
    lv_slots (view W (write_move (a_local a) m facts) s) = before @ sl # after"
proof -
  let ?i = "a_local a"
  let ?st = "ticks_of W facts s"
  let ?rows = "open_rows ?st (open_entries W facts)"
  have state: "bt_get (lv_states (view W facts s)) ?i = Some OPEN"
    and placed: "place (view W facts s) facts (a_home a) (Some ?i) p = Some (Inr m)"
    using moved unfolding move_entry_def Let_def by (auto split: option.splits if_splits)
  obtain now where now: "?st ?i = Some now" "state_of now = OPEN"
    using state unfolding view_states map_option_eq_Some by blast
  have "?i \<in> f_id ` set (open_entries W facts)" unfolding dom_ticks_of [symmetric, of W facts s] by (rule domI) (rule now(1))
  then obtain e where e: "e \<in> set (open_entries W facts)" "f_id e = ?i" by (rule imageE) simp
  then have e_in: "e \<in> set facts" "is_entry W e" by (simp_all add: open_entries_mem)
  have entry: "\<forall>f \<in> set facts. f_id f = ?i \<longrightarrow> is_entry W f"
    using dist e_in e(2) by (metis distinct_map inj_onD)
  have row: "(e, bucket_of e now) \<in> set ?rows" using e now by (simp add: open_rows_mem)
  define others where "others = filter (\<lambda>sl. Some (sl_id sl) \<noteq> Some ?i) (lv_slots (view W facts s))"
  define rest_rows where "rest_rows = filter (\<lambda>r. f_id (fst r) \<noteq> ?i) (sort_by by_place ?rows)"
  have others: "others = map slot_of rest_rows"
    unfolding others_def rest_rows_def view_slots filter_map comp_def by (simp add: slot_of_def)
  have "slots_ascend others" unfolding others rest_rows_def
    by (intro sorted_slots_ascend sorted_wrt_filter slots.sorted_sort_by)
  from place_lands [OF placed others_def this] obtain before after where
    split: "others = before @ after" "asked_for p before after"
      "\<forall>x \<in> set before. slot_before x (mv_held_turn m, mv_order m)"
      "\<forall>y \<in> set after. slot_after y (mv_held_turn m, mv_order m)"
    and since: "mv_held_since m = highest_number facts"
    and turn: "mv_held_turn m = 0 \<or> mv_held_turn m \<in> sl_bucket ` set others"
    by blast
  obtain B A where BA: "rest_rows = B @ A" "before = map slot_of B" "after = map slot_of A"
    using split(1) unfolding others map_eq_append_conv by blast
  have "b \<le> usize_max" if "(x, b) \<in> set ?rows" for x b
  proof -
    have x: "x \<in> set (open_entries W facts)" "b = bucket_of x (the (?st (f_id x)))"
      using that unfolding open_rows_mem by simp_all
    then obtain n where "?st (f_id x) = Some n" using ticks_of_entry by blast
    then show ?thesis using bucket_le x(2) by simp
  qed
  then have "sl_bucket x \<le> usize_max" if "x \<in> set others" for x
    using that unfolding others rest_rows_def by (force simp: slot_of_def)
  then have turn_le: "mv_held_turn m \<le> usize_max" using turn by (metis image_iff zero_le)
  have held: "bucket_of (moved_fact m f) n = mv_held_turn m" if "?st j = Some n" for f j n
    using last_tick_bound [OF numbered that] since highest_number_le [of facts]
    by (intro held_bucket_moved [OF turn_le]) simp_all
  have known: "\<forall>x \<in> set (open_entries W facts). \<exists>n. ?st (f_id x) = Some n" using ticks_of_entry by blast
  have rows: "set (open_rows ?st (open_entries W (write_move ?i m facts))) = moved_row ?i m ` set ?rows"
    by (rule open_rows_moved [OF entry held known])
  have "lv_slots (view W (write_move ?i m facts) s) = map slot_of (B @ (moved_fact m e, mv_held_turn m) # A)"
    unfolding view_slots ticks_of_moved [OF entry]
    using sort_moved_rows [OF dist rows row e(2), of B A] BA split(3,4) unfolding rest_rows_def by simp
  then have "lv_slots (view W (write_move ?i m facts) s) = before @ slot_of (moved_fact m e, mv_held_turn m) # after"
    using BA by simp
  moreover have "sl_id (slot_of (moved_fact m e, mv_held_turn m)) = ?i" using e(2) by (simp add: slot_of_def)
  moreover have "filter (\<lambda>x. sl_id x \<noteq> ?i) (lv_slots (view W facts s)) = before @ after"
    using split(1) unfolding others_def by simp
  ultimately show ?thesis using split(2) by blast
qed

definition groceries :: "fact list" where
  "groceries = [plain_fact ''f1'' ''list:g'' [(ORDER, ''V'')], plain_fact ''f2'' ''list:g'' [(ORDER, ''k'')]]"

lemma groceries_entries: "open_entries sample_world groceries = groceries"
proof -
  have "entity_kind sample_world ''list:g'' = Some ''list''" by code_simp
  then show ?thesis
    by (simp add: open_entries_def groceries_def placed_in_order_def plain_fact_def has_key_def bt_get_def sort_by_def
        placed_order_def then_with_def cmp_def is_entry_def is_placed_def places_its_records_def)
qed

lemma groceries_view:
  "ticks_of sample_world groceries Sink = (\<lambda>i. if i = ''f1'' \<or> i = ''f2'' then Some no_ticks else None)"
  "map sl_id (lv_slots (view sample_world groceries Sink)) = [''f1'', ''f2'']"
  "map sl_order (lv_slots (view sample_world groceries Sink)) = [''V'', ''k'']"
proof -
  have "active_ticks sample_world groceries = []"
    by (simp add: active_ticks_def groceries_def is_tick_def plain_fact_def has_key_def bt_get_def ORDER_def TICK_ENTRY_def
        map_filter_simps)
  then show st: "ticks_of sample_world groceries Sink = (\<lambda>i. if i = ''f1'' \<or> i = ''f2'' then Some no_ticks else None)"
    by (auto simp: ticks_of_def groceries_entries) (auto simp: groceries_def plain_fact_def)
  show "map sl_id (lv_slots (view sample_world groceries Sink)) = [''f1'', ''f2'']"
    "map sl_order (lv_slots (view sample_world groceries Sink)) = [''V'', ''k'']"
    unfolding view_slots st groceries_entries
    by (simp_all add: groceries_def plain_fact_def open_rows_def state_of_def no_ticks_def sort_by_def by_place_def
        then_with_def cmp_def field_at_def bt_get_def bucket_of_def held_bucket_def HELD_TURN_def ORDER_def slot_of_def)
qed

theorem move_lands_where_asked_witness:
  "\<exists>m. move_entry sample_world groceries Sink \<lparr>a_home = ''list:g'', a_local = ''f1''\<rparr> AtEnd = Some (Inr m) \<and>
     map sl_id (lv_slots (view sample_world (write_move ''f1'' m groceries) Sink)) = [''f2'', ''f1'']"
proof -
  let ?a = "\<lparr>a_home = ''list:g'', a_local = ''f1''\<rparr>"
  obtain x y where slots: "lv_slots (view sample_world groceries Sink) = [x, y]" "sl_id x = ''f1''" "sl_id y = ''f2''"
    and "sl_order y = ''k''"
    using groceries_view(2,3) by (auto simp: map_eq_Cons_conv)
  have "bounds is_a_key (Some ''k'') None" by (simp add: bounds_def is_a_key_def DIGITS_def)
  from between_mints [OF this] obtain k where k: "between (Some ''k'') None = Some (Inr k)" by blast
  have "bt_get (lv_states (view sample_world groceries Sink)) ''f1'' = Some OPEN"
    by (simp add: view_states groceries_view(1) state_of_def no_ticks_def)
  then obtain m where m: "move_entry sample_world groceries Sink ?a AtEnd = Some (Inr m)"
    using k slots \<open>sl_order y = ''k''\<close> by (simp add: move_entry_def place_def place_between_def)
  have "distinct (map f_id groceries)" "\<forall>f \<in> set groceries. claim_number f \<noteq> None"
    by (simp_all add: groceries_def plain_fact_def claim_number_def parse_unsigned_def strip_prefix_def starts_with_def
        is_digit_def dec_value_def digit_value_def usize_max_def)
  from move_lands_where_asked [OF m this] obtain before after sl where
    "filter (\<lambda>z. sl_id z \<noteq> ''f1'') [x, y] = before @ after" "after = []" "sl_id sl = ''f1''"
    "lv_slots (view sample_world (write_move ''f1'' m groceries) Sink) = before @ sl # after"
    unfolding slots(1) by auto
  then show ?thesis using m slots by auto
qed

definition milk_tick :: fact where
  "milk_tick = plain_fact ''f3'' ''list:g'' [(TICK_ACT, ''done''), (TICK_ENTRY, ''f1'')]"

theorem one_more_tick_witness:
  "bt_get (lv_states (view sample_world (groceries @ [milk_tick]) Sink)) ''f1'' = Some DONE \<and>
   bt_get (lv_states (view sample_world (groceries @ [milk_tick]) Sink)) ''f2'' = Some OPEN"
proof -
  have list_kind: "entity_kind sample_world ''list:g'' = Some ''list''" by code_simp
  have named: "trim (field_at milk_tick TICK_ENTRY) = ''f1''" by code_simp
  have "f_status milk_tick = Active" "is_tick sample_world milk_tick" "act_of (field_at milk_tick TICK_ACT) = Some Done"
    using list_kind by (simp_all add: milk_tick_def plain_fact_def is_tick_def has_key_def bt_get_def TICK_ACT_def TICK_ENTRY_def
        ORDER_def field_at_def act_of_def act_all_def trim_printable printable_def)
  moreover have "\<forall>f \<in> set groceries. claim_sequence f \<le> claim_sequence milk_tick"
    by (simp add: groceries_def milk_tick_def plain_fact_def claim_sequence_def parse_unsigned_def strip_prefix_def
        starts_with_def is_digit_def dec_value_def digit_value_def usize_max_def)
  ultimately show ?thesis
    using one_more_tick [of milk_tick sample_world Done groceries Sink] named
    by (simp add: view_states groceries_view(1) state_of_def no_ticks_def)
qed

text \<open>
  A list read accounts for every entry that stands: it is shown, or counted as done and left out, or
  counted as dropped.
\<close>

theorem view_accounts_for_every_entry:
  "length (lv_entries (view W facts s)) + lv_done_left_out (view W facts s) + lv_dropped_left_out (view W facts s)
     = length (open_entries W facts)"
proof -
  let ?g = "\<lambda>e. state_of (the (ticks_of W facts s (f_id e)))"
  have states: "?g e \<in> {OPEN, DONE, DROPPED}" for e by (simp add: state_of_def)
  have "length (filter (\<lambda>e. ?g e = OPEN) es) + length (filter (\<lambda>e. ?g e = DONE) es)
      + length (filter (\<lambda>e. ?g e = DROPPED) es) = length es" for es
    using states by (induction es) auto
  from this [of "open_entries W facts"] show ?thesis
    by (cases "s = Sink") (simp_all add: view_def Let_def open_rows_def done_rows_def)
qed

end
