(* ===== verification/Readiness.thy ===== *)
theory Readiness
  imports Query_Filter
begin

text \<open>
  Whether a piece of work can be started, and what stops it if it cannot (\<open>memory/readiness.rs\<close>): the
  question as a filter tree, run by the evaluator of every other query, and the list of what stops the
  work.
\<close>

definition DEPENDS_ON :: string where "DEPENDS_ON = ''depends_on''"
definition WAITING_ON :: string where "WAITING_ON = ''waiting_on''"
definition ASK :: string where "ASK = ''ready''"
definition ASK_PLAN :: string where "ASK_PLAN = ''plan''"

datatype ask = AskReady | AskPlan

definition ask_all :: "ask list" where "ask_all = [AskReady, AskPlan]"

definition ask_named :: "string \<Rightarrow> ask option" where
  "ask_named word = (if word = ASK then Some AskReady else if word = ASK_PLAN then Some AskPlan else None)"

datatype why_blocked = Unfinished | WhyArchived | Dangling

datatype blocker =
    BlockedFinished
  | BlockedArchived
  | Dependency string why_blocked
  | WaitingOn string

fun ask_keeps :: "ask \<Rightarrow> bool \<Rightarrow> blocker list \<Rightarrow> bool" where
  "ask_keeps AskReady ready blockers = ready"
| "ask_keeps AskPlan ready blockers = (\<not> list_ex (\<lambda>b. b = BlockedFinished \<or> b = BlockedArchived) blockers)"

definition ready_tree :: query where
  "ready_tree = All [Not Finished, Refs DEPENDS_ON QAll Finished, Not (exists_key WAITING_ON)]"

definition why_not :: "world \<Rightarrow> lookup \<Rightarrow> string \<Rightarrow> why_blocked option" where
  "why_not W L handle =
     (case thing L handle of
        None \<Rightarrow> Some Dangling
      | Some named \<Rightarrow>
          if subject_archived named then Some WhyArchived
          else if \<not> holds_in W L named Finished then Some Unfinished
          else None)"

definition blocked_by :: "world \<Rightarrow> subject \<Rightarrow> lookup \<Rightarrow> blocker list" where
  "blocked_by W s L =
     (let held = (case bt_get (subject_fields s) DEPENDS_ON of None \<Rightarrow> [] | Some v \<Rightarrow> v)
      in (if subject_archived s then [BlockedArchived] else []) @
         (if holds_in W L s Finished then [BlockedFinished] else []) @
         List.map_filter (\<lambda>handle. map_option (Dependency handle) (why_not W L handle)) (list_items held) @
         (case bt_get (subject_fields s) WAITING_ON of None \<Rightarrow> [] | Some v \<Rightarrow> [WaitingOn v]))"

definition is_ready :: "world \<Rightarrow> subject \<Rightarrow> lookup \<Rightarrow> bool" where
  "is_ready W s L \<longleftrightarrow> \<not> subject_archived s \<and> holds_in W L s ready_tree"

lemma map_filter_Nil_iff: "List.map_filter f xs = [] \<longleftrightarrow> (\<forall>x \<in> set xs. f x = None)"
  by (induction xs) (auto simp: map_filter_simps split: option.splits)

lemma why_not_None: "why_not W L h = None \<longleftrightarrow> (\<exists>named. thing L h = Some named \<and> holds_in W L named Finished)"
  by (auto simp: why_not_def split: option.splits if_splits)

lemma waiting_key: "trim WAITING_ON = WAITING_ON"
  by (rule trim_printable) (simp_all add: WAITING_ON_def printable_def)

text \<open>
  C31: Work can be started exactly when nothing is named that stops it: the tree the query evaluator runs
  and the list of blockers are two readings of one rule.
\<close>

theorem ready_iff_nothing_blocks: "is_ready W s L \<longleftrightarrow> blocked_by W s L = []"
proof -
  have "holds_in W L s (Not (exists_key WAITING_ON)) \<longleftrightarrow> bt_get (subject_fields s) WAITING_ON = None"
    by (simp add: exists_key_def leaf_of_def leaf_holds_def has_key_def waiting_key)
  moreover have "holds_in W L s (Refs DEPENDS_ON QAll Finished) \<longleftrightarrow>
      (\<forall>h \<in> set (list_items (case bt_get (subject_fields s) DEPENDS_ON of None \<Rightarrow> [] | Some v \<Rightarrow> v)).
         why_not W L h = None)"
    by (auto simp: why_not_None Let_def split: option.splits)
  ultimately show ?thesis
    unfolding is_ready_def ready_tree_def blocked_by_def Let_def
    by (auto simp: map_filter_Nil_iff simp del: holds_in.simps(5,6) split: option.splits)
qed

lemma ready_is_not_finished: "is_ready W s L \<Longrightarrow> \<not> holds_in W L s Finished"
  by (auto simp: is_ready_def ready_tree_def)

text \<open>
  Work that is ready depends on finished work only, and finished work is never ready: two pieces of
  work that depend on each other are never both ready, and a piece that depends on itself never is.
\<close>

theorem dependency_is_never_ready_too:
  assumes "bt_get (subject_fields s) DEPENDS_ON = Some v" and "h \<in> set (list_items v)"
    and "thing L h = Some named" and "is_ready W s L"
  shows "holds_in W L named Finished \<and> \<not> is_ready W named L"
proof -
  have "holds_in W L s (Refs DEPENDS_ON QAll Finished)" using assms(4) by (simp add: is_ready_def ready_tree_def)
  then have "holds_in W L named Finished" using assms(1-3) by (auto split: option.splits)
  then show ?thesis using ready_is_not_finished by blast
qed

definition done_work :: subject where
  "done_work = \<lparr>subject_kind = ''work'', subject_fields = [(STATUS, ''done'')], subject_archived = False\<rparr>"

definition next_work :: subject where
  "next_work = \<lparr>subject_kind = ''work'', subject_fields = [(DEPENDS_ON, ''work:a'')], subject_archived = False\<rparr>"

definition two_works :: lookup where
  "two_works = \<lparr>thing = (\<lambda>h. if h = ''work:a'' then Some done_work else None), instance_record = []\<rparr>"

theorem dependency_is_never_ready_too_witness:
  "is_ready sample_world next_work two_works \<and> \<not> is_ready sample_world done_work two_works"
proof -
  have ready: "is_ready sample_world next_work two_works" by code_simp
  have "bt_get (subject_fields next_work) DEPENDS_ON = Some ''work:a''" by code_simp
  moreover have "''work:a'' \<in> set (list_items ''work:a'')" by code_simp
  moreover have "thing two_works ''work:a'' = Some done_work" by (simp add: two_works_def)
  ultimately show ?thesis using dependency_is_never_ready_too ready by blast
qed

end
