(* ===== verification/Must_Rules.thy ===== *)
theory Must_Rules
  imports Expression Write_Guard
begin

text \<open>
  A rule a type declares for the claims written about its things (\<open>memory/must.rs\<close>): reading the rule,
  judging a record's resulting fields against every rule, what a refusal says, and the token that lifts
  it. The hash of a token is the argument \<open>H\<close>.
\<close>

datatype must_error =
    InvalidType refusal
  | BreaksMust string string string "string list" "string list"

record must_verdict =
  mu_unreadable :: "string list"
  mu_overridden :: "string list"

definition must_reason :: "string list \<Rightarrow> string list \<Rightarrow> string" where
  "must_reason missing unmet =
     (if missing \<noteq> [] then ''It carries none of: '' @ join '', '' missing
      else if unmet \<noteq> [] then ''To meet it: '' @ join '' or '' unmet
      else ''It carries every key the rule names.'')"

text \<open>\<open>the_day\<close> is \<open>Date::constant(2000, 1, 1)\<close>.\<close>

definition validate_must :: "world \<Rightarrow> int \<Rightarrow> string \<Rightarrow> must_error + unit" where
  "validate_must W the_day rule = (case parse W rule the_day of Inl e \<Rightarrow> Inl (InvalidType e) | Inr _ \<Rightarrow> Inr ())"

definition must_token :: "(collision \<Rightarrow> 64 word) \<Rightarrow> string \<Rightarrow> string \<Rightarrow> string \<Rightarrow> string" where
  "must_token H subject ty rule =
     override_token H (''must:'' @ subject @ ''#'' @ ty @ ''#'' @ rule) []"

definition SWITCHED_OFF :: bool where "SWITCHED_OFF = True"

definition carried :: "fields \<Rightarrow> fields" where
  "carried fs = filter (\<lambda>(k, v). trim v \<noteq> []) fs"

definition touches :: "string list \<Rightarrow> fields \<Rightarrow> fields \<Rightarrow> query \<Rightarrow> bool" where
  "touches named before after q = list_ex (\<lambda>k. k \<in> set named \<or> bt_get before k \<noteq> bt_get after k) (keys q)"

definition breaks :: "world \<Rightarrow> fields option \<Rightarrow> fields \<Rightarrow> string list \<Rightarrow> query \<Rightarrow> bool" where
  "breaks W before after named q =
     (\<not> query_holds W q after \<and>
      (case before of
         None \<Rightarrow> True
       | Some b \<Rightarrow> \<not> (\<not> query_holds W q b \<and> \<not> touches named b after q)))"

definition failing_rules ::
  "world \<Rightarrow> int \<Rightarrow> declared_type list \<Rightarrow> fields option \<Rightarrow> fields \<Rightarrow> string list \<Rightarrow> (string \<times> string \<times> query) list" where
  "failing_rules W today declared before after named =
     List.map_filter (\<lambda>d. Option.bind (must d) (\<lambda>rule.
         case parse W rule today of
           Inl _ \<Rightarrow> None
         | Inr q \<Rightarrow> if breaks W before after named q then Some (type_name d, rule, q) else None)) declared"

definition unreadable_rules :: "world \<Rightarrow> int \<Rightarrow> declared_type list \<Rightarrow> string list" where
  "unreadable_rules W today declared =
     List.map_filter (\<lambda>d. Option.bind (must d) (\<lambda>rule.
         case parse W rule today of Inl _ \<Rightarrow> Some (type_name d) | Inr _ \<Rightarrow> None)) declared"

section \<open>What a refusal says\<close>

definition what_is_asked :: "test \<Rightarrow> bool \<Rightarrow> string" where
  "what_is_asked t positive =
     (let be = (if positive then ''be'' else ''not be''); not_be = (if positive then ''not be'' else ''be'')
      in case t of
           Exists \<Rightarrow> if positive then ''be carried'' else ''not be carried''
         | Equals v \<Rightarrow> be @ '' '' @ v
         | NotEquals v \<Rightarrow> not_be @ '' '' @ v
         | In vs \<Rightarrow> be @ '' one of '' @ join '', '' vs
         | NotIn vs \<Rightarrow> not_be @ '' one of '' @ join '', '' vs
         | test.Contains v \<Rightarrow> (if positive then ''contain '' else ''not contain '') @ v
         | Order p h v \<Rightarrow>
             ''be '' @
             (case p of
                Less \<Rightarrow> if positive then ''less than'' else ''at least''
              | LessOrEqual \<Rightarrow> if positive then ''at most'' else ''greater than''
              | Greater \<Rightarrow> if positive then ''greater than'' else ''at most''
              | GreaterOrEqual \<Rightarrow> if positive then ''at least'' else ''less than'') @ '' '' @ v)"

fun walk_unmet :: "world \<Rightarrow> query \<Rightarrow> bool \<Rightarrow> fields \<Rightarrow> string list" where
  "walk_unmet W (All qs) positive fs = concat (map (\<lambda>q. walk_unmet W q positive fs) qs)"
| "walk_unmet W (Any qs) positive fs = concat (map (\<lambda>q. walk_unmet W q positive fs) qs)"
| "walk_unmet W (Not q) positive fs = walk_unmet W q (\<not> positive) fs"
| "walk_unmet W (Leaf l) positive fs =
     (case leaf_key l of
        None \<Rightarrow> []
      | Some k \<Rightarrow>
          (case bt_get fs k of
             None \<Rightarrow> []
           | Some held \<Rightarrow>
               if query_holds W (Leaf l) fs = positive then []
               else [k @ '' must '' @ what_is_asked (leaf_test l) positive @ ''; it holds '' @ held]))"
| "walk_unmet W (Refs k quantifier q) positive fs = []"
| "walk_unmet W Finished positive fs = []"

text \<open>The first of each sentence is kept.\<close>

definition keep_first :: "'a list \<Rightarrow> 'a list" where
  "keep_first xs = rev (foldl (\<lambda>seen x. if x \<in> set seen then seen else x # seen) [] xs)"

definition unmet_by :: "world \<Rightarrow> query \<Rightarrow> fields \<Rightarrow> string list" where
  "unmet_by W q fs = keep_first (walk_unmet W q True fs)"

definition missing_keys :: "query \<Rightarrow> fields \<Rightarrow> string list" where
  "missing_keys q after = keep_first (filter (\<lambda>k. \<not> has_key after k) (keys q))"

definition guard_must ::
  "world \<Rightarrow> (collision \<Rightarrow> 64 word) \<Rightarrow> declared_type list \<Rightarrow> string \<Rightarrow> fields option \<Rightarrow> fields \<Rightarrow> string list \<Rightarrow>
   override option \<Rightarrow> int \<Rightarrow> must_error + must_verdict" where
  "guard_must W H declared subject before after named overriding today =
     (let after = carried after;
          before = map_option carried before;
          failing = failing_rules W today declared before after named;
          lifted_through = Option.bind overriding (\<lambda>ins.
            if trim (o_reason ins) = [] then None
            else position (\<lambda>(ty, rule, _). o_token ins = must_token H subject ty rule) failing);
          count = (case lifted_through of None \<Rightarrow> 0 | Some l \<Rightarrow> l + 1);
          verdict = \<lparr>mu_unreadable = unreadable_rules W today declared,
                     mu_overridden = map fst (take count failing)\<rparr>
      in if count < length failing
         then let (ty, rule, q) = failing ! count;
                  missing = missing_keys q after
              in Inl (BreaksMust subject ty rule missing (if missing = [] then unmet_by W q after else []))
         else Inr verdict)"

definition judge ::
  "world \<Rightarrow> (collision \<Rightarrow> 64 word) \<Rightarrow> declared_type list \<Rightarrow> string \<Rightarrow> fields option \<Rightarrow> fields \<Rightarrow> string list \<Rightarrow>
   override option \<Rightarrow> int \<Rightarrow> must_error + must_verdict" where
  "judge W H declared subject before after named overriding today =
     (if SWITCHED_OFF then Inr \<lparr>mu_unreadable = [], mu_overridden = []\<rparr>
      else guard_must W H declared subject before after named overriding today)"

datatype joined = JOne | JAll | JEither

text \<open>The parts of a group that name a missing key, joined by the group's word.\<close>

definition joined_parts :: "joined \<Rightarrow> (string \<times> joined) list \<Rightarrow> (string \<times> joined) option" where
  "joined_parts how parts =
     (case parts of
        [] \<Rightarrow> None
      | [part] \<Rightarrow> Some part
      | _ \<Rightarrow> Some (join (if how = JAll then '' and '' else '' or '')
               (map (\<lambda>(said, part). if part = JOne \<or> part = how then said else ''('' @ said @ '')'') parts), how))"

fun asked_for_keys :: "string list \<Rightarrow> query \<Rightarrow> (string \<times> joined) option" where
  "asked_for_keys missing (Leaf l) =
     (case leaf_key l of None \<Rightarrow> None | Some k \<Rightarrow> if k \<in> set missing then Some (k, JOne) else None)"
| "asked_for_keys missing (All qs) =
     joined_parts JAll (concat (map (\<lambda>q. list_of (asked_for_keys missing q)) qs))"
| "asked_for_keys missing (Any qs) =
     joined_parts JEither (concat (map (\<lambda>q. list_of (asked_for_keys missing q)) qs))"
| "asked_for_keys missing q = None"

definition needs :: "world \<Rightarrow> int \<Rightarrow> string \<Rightarrow> string list \<Rightarrow> string" where
  "needs W the_day rule missing =
     (case parse W rule the_day of
        Inl _ \<Rightarrow> join '' or '' missing
      | Inr q \<Rightarrow> (case asked_for_keys missing q of Some (said, _) \<Rightarrow> said | None \<Rightarrow> join '' or '' missing))"

section \<open>A refusal says something\<close>

lemma set_keep_first [simp]: "set (keep_first xs) = set xs"
proof -
  have "set (foldl (\<lambda>seen x. if x \<in> set seen then seen else x # seen) acc xs) = set acc \<union> set xs" for acc
    by (induction xs arbitrary: acc) auto
  from this [of "[]"] show ?thesis by (simp add: keep_first_def)
qed

text \<open>A rule of named keys: every group says something, and nothing asks about another thing.\<close>

fun about_keys :: "query \<Rightarrow> bool" where
  "about_keys (All qs) \<longleftrightarrow> qs \<noteq> [] \<and> (\<forall>q \<in> set qs. about_keys q)"
| "about_keys (Any qs) \<longleftrightarrow> qs \<noteq> [] \<and> (\<forall>q \<in> set qs. about_keys q)"
| "about_keys (Not q) \<longleftrightarrow> about_keys q"
| "about_keys (Leaf l) \<longleftrightarrow> leaf_key l \<noteq> None"
| "about_keys (Refs k quantifier q) \<longleftrightarrow> False"
| "about_keys Finished \<longleftrightarrow> False"

lemma walk_unmet_says:
  "about_keys q \<Longrightarrow> \<forall>k \<in> set (keys q). has_key fs k \<Longrightarrow> query_holds W q fs \<noteq> positive \<Longrightarrow>
   walk_unmet W q positive fs \<noteq> []"
proof (induction W q positive fs rule: walk_unmet.induct)
  case (1 W qs positive fs)
  have "\<exists>q \<in> set qs. query_holds W q fs \<noteq> positive"
    using 1(2,4) by (cases positive) (auto simp: query_holds_def neq_Nil_conv)
  then show ?case using 1 by (auto simp: query_holds_def)
next
  case (2 W qs positive fs)
  have "\<exists>q \<in> set qs. query_holds W q fs \<noteq> positive"
    using 2(2,4) by (cases positive) (auto simp: query_holds_def neq_Nil_conv)
  then show ?case using 2 by (auto simp: query_holds_def)
next
  case (3 W q positive fs)
  then show ?case by (auto simp: query_holds_def)
next
  case (4 W l positive fs)
  then show ?case by (auto simp: has_key_def)
qed simp_all

section \<open>What the guard answers\<close>

lemma map_filter_member: "y \<in> set (List.map_filter f xs) \<longleftrightarrow> (\<exists>x \<in> set xs. f x = Some y)"
  by (induction xs) (auto simp: map_filter_simps split: option.splits)

lemma failing_rules_mem:
  "(ty, rule, q) \<in> set (failing_rules W today declared before after named) \<longleftrightarrow>
     (\<exists>d \<in> set declared. type_name d = ty \<and> must d = Some rule \<and> parse W rule today = Inr q \<and>
        breaks W before after named q)"
proof -
  have "Option.bind (must d) (\<lambda>rule. case parse W rule today of Inl _ \<Rightarrow> None
         | Inr q \<Rightarrow> if breaks W before after named q then Some (type_name d, rule, q) else None) = Some (ty, rule, q) \<longleftrightarrow>
      type_name d = ty \<and> must d = Some rule \<and> parse W rule today = Inr q \<and> breaks W before after named q" for d :: declared_type
  proof (cases "must d")
    case (Some r)
    show ?thesis by (cases "parse W r today") (auto simp: Some)
  qed simp
  then show ?thesis unfolding failing_rules_def map_filter_member by (rule bex_cong [OF refl])
qed

definition lifted_rules ::
  "(collision \<Rightarrow> 64 word) \<Rightarrow> string \<Rightarrow> override option \<Rightarrow> (string \<times> string \<times> query) list \<Rightarrow> nat" where
  "lifted_rules H subject overriding failing =
     (case Option.bind overriding (\<lambda>ins.
        if trim (o_reason ins) = [] then None
        else position (\<lambda>(ty, rule, _). o_token ins = must_token H subject ty rule) failing) of
        None \<Rightarrow> 0 | Some l \<Rightarrow> l + 1)"

lemma guard_must_cases:
  fixes before after W today declared named H subject overriding
  defines "failing \<equiv> failing_rules W today declared (map_option carried before) (carried after) named"
  defines "n \<equiv> lifted_rules H subject overriding failing"
  shows "guard_must W H declared subject before after named overriding today =
    (if n < length failing
     then Inl (BreaksMust subject (fst (failing ! n)) (fst (snd (failing ! n)))
            (missing_keys (snd (snd (failing ! n))) (carried after))
            (if missing_keys (snd (snd (failing ! n))) (carried after) = []
             then unmet_by W (snd (snd (failing ! n))) (carried after) else []))
     else Inr \<lparr>mu_unreadable = unreadable_rules W today declared, mu_overridden = map fst (take n failing)\<rparr>)"
  unfolding guard_must_def Let_def failing_def n_def lifted_rules_def by (simp only: case_prod_beta)

text \<open>
  A write with no token goes through exactly when it meets every rule that reads, or breaks it no
  more than the record did: the record broke the rule already and the write neither names nor changes a
  key of it. A rule that does not read refuses nothing.
\<close>

theorem must_judges_the_result:
  "(\<exists>v. guard_must W H declared subject before after named None today = Inr v) \<longleftrightarrow>
   (\<forall>d \<in> set declared. \<forall>rule q. must d = Some rule \<and> parse W rule today = Inr q \<longrightarrow>
      query_holds W q (carried after) \<or>
      (\<exists>b. before = Some b \<and> \<not> query_holds W q (carried b) \<and> \<not> touches named (carried b) (carried after) q))"
proof -
  let ?f = "failing_rules W today declared (map_option carried before) (carried after) named"
  have "(\<exists>v. guard_must W H declared subject before after named None today = Inr v) \<longleftrightarrow> ?f = []"
    unfolding guard_must_cases lifted_rules_def by simp
  also have "\<dots> \<longleftrightarrow> (\<forall>d \<in> set declared. \<forall>rule q. must d = Some rule \<and> parse W rule today = Inr q \<longrightarrow>
      \<not> breaks W (map_option carried before) (carried after) named q)"
    using failing_rules_mem [of _ _ _ W today declared "map_option carried before" "carried after" named]
    by (metis ex_in_conv prod_cases3 set_empty2)
  finally show ?thesis by (cases before) (simp_all add: breaks_def)
qed

lemma position_of_distinct:
  "distinct (map g xs) \<Longrightarrow> n < length xs \<Longrightarrow> position (\<lambda>x. g (xs ! n) = g x) xs = Some n"
  unfolding position_Some by (auto simp: distinct_conv_nth)

text \<open>
  C22: The token of a refusal, sent back with a reason, lifts that refusal and the ones before it: the
  write goes through with the type named as overridden, or it is refused by a rule later in the order.
  So a caller who insists is asked at most once for each rule. The tokens of the rules have to differ.
\<close>

theorem token_moves_past_its_rule:
  assumes "guard_must W H declared subject before after named overriding today = Inl (BreaksMust subject ty rule mi un)"
    and "failing = failing_rules W today declared (map_option carried before) (carried after) named"
    and "distinct (map (\<lambda>(ty, rule, _). must_token H subject ty rule) failing)" and "trim w \<noteq> []"
  shows "\<exists>i < length failing. fst (failing ! i) = ty \<and> fst (snd (failing ! i)) = rule \<and>
    (case guard_must W H declared subject before after named
        (Some \<lparr>o_token = must_token H subject ty rule, o_reason = w\<rparr>) today of
       Inr v \<Rightarrow> i + 1 = length failing \<and> mu_overridden v = map fst failing
     | Inl e \<Rightarrow> i + 1 < length failing \<and> (\<exists>mi' un'. e = BreaksMust subject (fst (failing ! (i + 1)))
          (fst (snd (failing ! (i + 1)))) mi' un'))"
proof -
  let ?t = "\<lambda>(ty, rule, _). must_token H subject ty rule"
  define i where "i = lifted_rules H subject overriding failing"
  have i: "i < length failing" "fst (failing ! i) = ty" "fst (snd (failing ! i)) = rule"
    using assms(1) unfolding guard_must_cases assms(2) [symmetric] i_def [symmetric]
    by (simp_all split: if_splits)
  have token: "must_token H subject ty rule = ?t (failing ! i)" using i(2,3) by (simp add: case_prod_beta)
  have "position (\<lambda>(ty', rule', _). must_token H subject ty rule = must_token H subject ty' rule') failing = Some i"
  proof -
    have same: "(\<lambda>(ty', rule', _). ?t (failing ! i) = must_token H subject ty' rule') = (\<lambda>x. ?t (failing ! i) = ?t x)"
      by (rule ext) (simp only: case_prod_beta)
    show ?thesis unfolding token same by (rule position_of_distinct [OF assms(3) i(1)])
  qed
  then have "lifted_rules H subject (Some \<lparr>o_token = must_token H subject ty rule, o_reason = w\<rparr>) failing = i + 1"
    using assms(4) by (simp add: lifted_rules_def)
  then have "case guard_must W H declared subject before after named
        (Some \<lparr>o_token = must_token H subject ty rule, o_reason = w\<rparr>) today of
       Inr v \<Rightarrow> i + 1 = length failing \<and> mu_overridden v = map fst failing
     | Inl e \<Rightarrow> i + 1 < length failing \<and> (\<exists>mi' un'. e = BreaksMust subject (fst (failing ! (i + 1)))
          (fst (snd (failing ! (i + 1)))) mi' un')"
    using i(1) unfolding guard_must_cases assms(2) [symmetric] by simp
  then show ?thesis using i by blast
qed

text \<open>
  A refusal by a rule about the record's own keys always says what to send: it names a key the record
  lacks, or a comparison that failed.
\<close>

theorem must_refusal_says_something:
  assumes "guard_must W H declared subject before after named overriding today = Inl (BreaksMust s ty rule missing unmet)"
    and "parse W rule today = Inr q" and "about_keys q"
  shows "missing \<noteq> [] \<or> unmet \<noteq> []"
proof -
  let ?f = "failing_rules W today declared (map_option carried before) (carried after) named"
  let ?n = "lifted_rules H subject overriding ?f"
  obtain ty' rule' q' where at_n: "?f ! ?n = (ty', rule', q')" by (cases "?f ! ?n") auto
  have n: "?n < length ?f" and parts: "rule = rule'" "missing = missing_keys q' (carried after)"
      "missing = [] \<Longrightarrow> unmet = unmet_by W q' (carried after)"
    using assms(1) unfolding guard_must_cases at_n by (simp_all split: if_splits)
  have "(ty', rule', q') \<in> set ?f" using nth_mem [OF n] at_n by simp
  then have q: "q' = q" and fails: "\<not> query_holds W q (carried after)"
    using assms(2) parts(1) unfolding failing_rules_mem by (auto simp: breaks_def)
  show ?thesis
  proof (cases "missing = []")
    case True
    then have "\<forall>k \<in> set (keys q). has_key (carried after) k"
      using parts(2) set_keep_first [of "filter (\<lambda>k. \<not> has_key (carried after) k) (keys q)"]
      unfolding missing_keys_def q by auto
    then have "walk_unmet W q True (carried after) \<noteq> []" using walk_unmet_says [OF assms(3)] fails by simp
    then have "unmet_by W q (carried after) \<noteq> []" unfolding unmet_by_def by (metis set_empty2 set_keep_first)
    then show ?thesis using parts(3) True q by simp
  qed simp
qed

section \<open>One declared rule\<close>

definition pledge :: declared_type where
  "pledge = with_must (type_new ''pledge'' []) ''name=ada''"

lemma pledge_rule: "must pledge = Some ''name=ada''" "type_name pledge = ''pledge''"
  by code_simp+

lemma pledge_parse: "parse sample_world ''name=ada'' 0 = Inr (equals ''name'' ''ada'')"
  by code_simp

lemma pledge_holds:
  "query_holds sample_world (equals ''name'' ''ada'') (carried [(''name'', ''ada'')])"
  "\<not> query_holds sample_world (equals ''name'' ''ada'') (carried [])"
  by code_simp+

lemma pledge_fails:
  "failing_rules sample_world 0 [pledge] (map_option carried None) (carried []) [] =
     [(''pledge'', ''name=ada'', equals ''name'' ''ada'')]"
  by (simp add: failing_rules_def map_filter_simps pledge_rule pledge_parse breaks_def pledge_holds)

lemma pledge_refused:
  "guard_must sample_world H [pledge] ''thing:a'' None [] [] None 0 =
     Inl (BreaksMust ''thing:a'' ''pledge'' ''name=ada'' (missing_keys (equals ''name'' ''ada'') (carried []))
       (if missing_keys (equals ''name'' ''ada'') (carried []) = [] then unmet_by sample_world (equals ''name'' ''ada'') (carried []) else []))"
  unfolding guard_must_cases pledge_fails by (simp add: lifted_rules_def)

theorem must_judges_the_result_witness:
  "\<exists>v. guard_must sample_world length_hash [pledge] ''thing:a'' None [(''name'', ''ada'')] [] None 0 = Inr v"
  unfolding must_judges_the_result using pledge_rule pledge_parse pledge_holds(1) by auto

theorem token_moves_past_its_rule_witness:
  "\<exists>v. guard_must sample_world length_hash [pledge] ''thing:a'' None [] []
      (Some \<lparr>o_token = must_token length_hash ''thing:a'' ''pledge'' ''name=ada'', o_reason = ''agreed''\<rparr>) 0 = Inr v
      \<and> mu_overridden v = [''pledge'']"
proof -
  have "trim ''agreed'' \<noteq> []" by code_simp
  from token_moves_past_its_rule [OF pledge_refused [of length_hash] pledge_fails [symmetric] _ this]
  show ?thesis by (auto split: sum.splits)
qed

theorem must_refusal_says_something_witness:
  "\<not> (missing_keys (equals ''name'' ''ada'') (carried []) = [] \<and>
      unmet_by sample_world (equals ''name'' ''ada'') (carried []) = [])"
proof -
  have "about_keys (equals ''name'' ''ada'')" by (simp add: equals_def leaf_of_def)
  from must_refusal_says_something [OF pledge_refused [of length_hash] pledge_parse this]
  show ?thesis by (auto split: if_splits)
qed

end
