(* ===== verification/View_Inputs.thy ===== *)
theory View_Inputs
  imports Expression Write_Guard Document
begin

text \<open>
  The inputs of a saved view (\<open>memory/view_inputs.rs\<close>) and the saved expression they fill
  (\<open>memory/filter/expression.rs\<close>): reading the declarations, checking what a call sent against
  them, and writing the bound values into the expression.  The day a declared default is read
  against, \<open>2000-01-01\<close>, is an argument, as the calendar is.
\<close>

section \<open>What a view declares\<close>

datatype input_type =
    KindInput string
  | HandleInput
  | DateInput
  | NumberInput
  | TextInput

record input_decl =
  id_name :: string
  id_ty :: input_type
  id_optional :: bool
  id_default :: "string option"

record input_value =
  iv_text :: string
  iv_handle :: "entity_id option"

type_synonym bound = "(string, input_value option) btree"

definition KEY :: string where "KEY = ''inputs''"
definition AS_OF :: string where "AS_OF = ''as_of''"
definition RESERVED_NAMES :: "string list" where "RESERVED_NAMES = [''history'']"

definition is_ascii_lowercase :: "char \<Rightarrow> bool" where
  "is_ascii_lowercase c \<longleftrightarrow> CHR ''a'' \<le> c \<and> c \<le> CHR ''z''"

definition is_a_name :: "string \<Rightarrow> bool" where
  "is_a_name word =
     (case word of
        [] \<Rightarrow> False
      | c # cs \<Rightarrow> is_ascii_lowercase c \<and>
          list_all (\<lambda>c. is_ascii_lowercase c \<or> is_digit c \<or> c = CHR ''_'') cs)"

definition is_a_kind :: "string \<Rightarrow> bool" where
  "is_a_kind word =
     (case word of
        [] \<Rightarrow> False
      | c # cs \<Rightarrow> is_ascii_lowercase c \<and>
          list_all (\<lambda>c. is_ascii_lowercase c \<or> is_digit c \<or> c = CHR ''-'') cs)"

primrec spelling :: "input_type \<Rightarrow> string" where
  "spelling (KindInput k) = ''kind '' @ k"
| "spelling HandleInput = ''handle''"
| "spelling DateInput = ''date''"
| "spelling NumberInput = ''number''"
| "spelling TextInput = ''text''"

definition spelled_decl :: "input_decl \<Rightarrow> string" where
  "spelled_decl d =
     id_name d @ '': '' @ spelling (id_ty d) @ (if id_optional d then ''?'' else []) @
     (case id_default d of None \<Rightarrow> [] | Some v \<Rightarrow> '' = '' @ v)"

definition spelled_inputs :: "input_decl list \<Rightarrow> string" where
  "spelled_inputs ds = join '', '' (map spelled_decl ds)"

section \<open>Reading the declarations\<close>

datatype decl_refusal =
    NotNameAndType string
  | NotAnInputName string
  | KindOfWhat string
  | NotAType string string
  | DeclaredTwice string
  | EmptyDefault string
  | DefaultForAKind string string
  | DefaultNotANumber string string
  | DefaultNotADay string string refusal

definition check_default :: "world \<Rightarrow> int \<Rightarrow> string \<Rightarrow> input_type \<Rightarrow> string \<Rightarrow> decl_refusal + unit" where
  "check_default W declaring_day name ty v =
     (if v = [] then Inl (EmptyDefault name)
      else case ty of
        KindInput _ \<Rightarrow> Inl (DefaultForAKind name v)
      | NumberInput \<Rightarrow> if is_a_number v then Inr () else Inl (DefaultNotANumber name v)
      | DateInput \<Rightarrow>
          (case date_word W v declaring_day of
             Inl why \<Rightarrow> Inl (DefaultNotADay name v why) | Inr _ \<Rightarrow> Inr ())
      | HandleInput \<Rightarrow> Inr ()
      | TextInput \<Rightarrow> Inr ())"

definition strip_last :: "char \<Rightarrow> string \<Rightarrow> string option" where
  "strip_last c s = (if s \<noteq> [] \<and> last s = c then Some (butlast s) else None)"

definition read_type :: "string \<Rightarrow> string \<Rightarrow> decl_refusal + input_type" where
  "read_type name ty =
     (if ty = ''date'' then Inr DateInput
      else if ty = ''number'' then Inr NumberInput
      else if ty = ''text'' then Inr TextInput
      else if ty = ''handle'' then Inr HandleInput
      else case map_option trim (strip_prefix ''kind'' ty) of
             Some k \<Rightarrow> if is_a_kind k then Inr (KindInput k) else Inl (KindOfWhat name)
           | None \<Rightarrow> Inl (NotAType ty name))"

definition read_decl :: "world \<Rightarrow> int \<Rightarrow> input_decl list \<Rightarrow> string \<Rightarrow> decl_refusal + input_decl" where
  "read_decl W declaring_day earlier piece =
     (case split_once CHR '':'' piece of
        None \<Rightarrow> Inl (NotNameAndType piece)
      | Some (name, ty) \<Rightarrow>
          (let name = trim name in
           if \<not> is_a_name name then Inl (NotAnInputName name)
           else
             (let (ty, fallback) = (case split_once CHR ''='' ty of
                     Some (ty, fallback) \<Rightarrow> (trim ty, Some (trim fallback))
                   | None \<Rightarrow> (trim ty, None));
                  (ty, optional) = (case strip_last CHR ''?'' ty of
                     Some r \<Rightarrow> (trim r, True) | None \<Rightarrow> (ty, False))
              in ok_then (read_type name ty) (\<lambda>ty.
                   if list_ex (\<lambda>d. id_name d = name) earlier then Inl (DeclaredTwice name)
                   else ok_then (case fallback of None \<Rightarrow> Inr ()
                                 | Some v \<Rightarrow> check_default W declaring_day name ty v) (\<lambda>_.
                     Inr \<lparr>id_name = name, id_ty = ty, id_optional = optional, id_default = fallback\<rparr>)))))"

fun read_decls :: "world \<Rightarrow> int \<Rightarrow> input_decl list \<Rightarrow> string list \<Rightarrow> decl_refusal + input_decl list" where
  "read_decls W declaring_day earlier [] = Inr earlier"
| "read_decls W declaring_day earlier (p # ps) =
     ok_then (read_decl W declaring_day earlier p) (\<lambda>d. read_decls W declaring_day (earlier @ [d]) ps)"

definition parse_inputs :: "world \<Rightarrow> int \<Rightarrow> string \<Rightarrow> decl_refusal + input_decl list" where
  "parse_inputs W declaring_day l =
     read_decls W declaring_day [] (filter (\<lambda>p. p \<noteq> []) (map trim (split_on CHR '','' l)))"

section \<open>What a call sent\<close>

datatype value_wrong =
    SentEmpty
  | ValueNotANumber string
  | ValueNotADay refusal
  | ValueNotAHandle string
  | NamesNothing string "entity_match list"
  | NotAHandleOfKind string kind
  | NotAThingOfKind entity_id kind

datatype bind_refusal =
    NotAnInput string
  | NeedsAValue string
  | WrongValue string value_wrong

definition bind_handle ::
  "world \<Rightarrow> unicode \<Rightarrow> families \<Rightarrow> entity list \<Rightarrow> former_handle list \<Rightarrow> string \<Rightarrow> value_wrong + entity" where
  "bind_handle W U fam rows former sent =
     (case resolve_handle sent rows former of
        None \<Rightarrow> Inl (NamesNothing sent (screen W U fam sent [] rows))
      | Some e \<Rightarrow> Inr e)"

definition bind_value ::
  "world \<Rightarrow> unicode \<Rightarrow> families \<Rightarrow> entity list \<Rightarrow> former_handle list \<Rightarrow> int \<Rightarrow> input_type \<Rightarrow> string \<Rightarrow>
   value_wrong + input_value" where
  "bind_value W U fam rows former today ty sent =
     (let plain = (\<lambda>t. Inr \<lparr>iv_text = t, iv_handle = None\<rparr>);
          named = (\<lambda>e. Inr \<lparr>iv_text = en_id e, iv_handle = Some (en_id e)\<rparr>)
      in case ty of
           TextInput \<Rightarrow> if sent = [] then Inl SentEmpty else plain sent
         | NumberInput \<Rightarrow> if is_a_number sent then plain sent else Inl (ValueNotANumber sent)
         | DateInput \<Rightarrow>
             (case date_word W sent today of Inr day \<Rightarrow> plain day | Inl why \<Rightarrow> Inl (ValueNotADay why))
         | HandleInput \<Rightarrow>
             if entity_kind W sent = None then Inl (ValueNotAHandle sent)
             else ok_then (bind_handle W U fam rows former sent) named
         | KindInput k \<Rightarrow>
             if entity_kind W sent \<noteq> Some k \<and> numbered_handle sent = None then Inl (NotAHandleOfKind sent k)
             else ok_then (bind_handle W U fam rows former sent) (\<lambda>e.
               if entity_kind W (en_id e) \<noteq> Some k then Inl (NotAThingOfKind (en_id e) k) else named e))"

fun bind_all ::
  "world \<Rightarrow> unicode \<Rightarrow> families \<Rightarrow> entity list \<Rightarrow> former_handle list \<Rightarrow> int \<Rightarrow> fields \<Rightarrow> input_decl list \<Rightarrow>
   bound \<Rightarrow> bind_refusal + bound" where
  "bind_all W U fam rows former today given [] values = Inr values"
| "bind_all W U fam rows former today given (d # ds) values =
     (case (case bt_get given (id_name d) of Some v \<Rightarrow> Some (trim v) | None \<Rightarrow> id_default d) of
        None \<Rightarrow>
          if id_optional d
          then bind_all W U fam rows former today given ds (bt_insert (id_name d) None values)
          else Inl (NeedsAValue (id_name d))
      | Some sent \<Rightarrow>
          (case bind_value W U fam rows former today (id_ty d) sent of
             Inl why \<Rightarrow> Inl (WrongValue (id_name d) why)
           | Inr v \<Rightarrow> bind_all W U fam rows former today given ds (bt_insert (id_name d) (Some v) values)))"

definition bind_inputs ::
  "world \<Rightarrow> unicode \<Rightarrow> families \<Rightarrow> input_decl list \<Rightarrow> fields \<Rightarrow> entity list \<Rightarrow> former_handle list \<Rightarrow> int \<Rightarrow>
   bind_refusal + bound" where
  "bind_inputs W U fam decls given rows former today =
     (case find (\<lambda>name. \<not> list_ex (\<lambda>d. id_name d = name) decls) (map fst given) of
        Some name \<Rightarrow> Inl (NotAnInput name)
      | None \<Rightarrow> bind_all W U fam rows former today given decls [])"

section \<open>The shape of a saved expression\<close>

datatype node =
    NTerm "token list"
  | NNot node
  | NGroup node
  | NAll "node list"
  | NAny "node list"

definition one_node :: "node list \<Rightarrow> (node list \<Rightarrow> node) \<Rightarrow> node" where
  "one_node parts combine = (case parts of [n] \<Rightarrow> n | _ \<Rightarrow> combine parts)"

definition take_value :: "token list \<Rightarrow> (token \<times> token list) option" where
  "take_value ts =
     (case ts of
        [] \<Rightarrow> None
      | t # ts \<Rightarrow> (case token_kind t of TWord _ \<Rightarrow> Some (t, ts) | TQuoted _ \<Rightarrow> Some (t, ts) | _ \<Rightarrow> None))"

definition take_close :: "token list \<Rightarrow> (token \<times> token list) option" where
  "take_close ts = (case ts of [] \<Rightarrow> None | t # ts \<Rightarrow> if token_kind t = TClose then Some (t, ts) else None)"

fun take_items :: "token list \<Rightarrow> (token list \<times> token list) option" where
  "take_items (c # t # ts) =
     (if token_kind c = TComma
      then Option.bind (take_value (t # ts)) (\<lambda>(v, ts'). map_option (\<lambda>(vs, r). (c # v # vs, r)) (take_items ts))
      else Some ([], c # t # ts))"
| "take_items [c] = (if token_kind c = TComma then None else Some ([], [c]))"
| "take_items [] = Some ([], [])"

definition take_term :: "token \<Rightarrow> token list \<Rightarrow> (node \<times> token list) option" where
  "take_term k ts =
     (let one_value = (\<lambda>t ts. map_option (\<lambda>(v, r). (NTerm [k, t, v], r)) (take_value ts))
      in case ts of
           [] \<Rightarrow> Some (NTerm [k], [])
         | t # ts' \<Rightarrow>
             (let tk = token_kind t in
              if tk \<in> {TAnd, TOr, TClose} then Some (NTerm [k], ts)
              else if tk \<in> {TEquals, TNotEquals, TLess, TLessOrEqual, TGreater, TGreaterOrEqual}
                then one_value t ts'
              else if tk = TWord ''contains'' then one_value t ts'
              else if tk = TWord ''in'' then
                (case ts' of
                   [] \<Rightarrow> None
                 | p # ts'' \<Rightarrow>
                     if token_kind p \<noteq> TOpen then None
                     else Option.bind (take_value ts'') (\<lambda>(v, r).
                          Option.bind (take_items r) (\<lambda>(vs, r).
                          Option.bind (take_close r) (\<lambda>(q, r). Some (NTerm (k # t # p # v # vs @ [q]), r)))))
              else None))"

text \<open>
  Each call of \<open>unary\<close> goes one level down and comes up again when it has read a term, so the depth is an
  argument: a reading that fails is not looked at again.
\<close>

function (sequential)
    shape_any :: "nat \<Rightarrow> token list \<Rightarrow> (node \<times> token list) option"
and shape_more_any :: "nat \<Rightarrow> token list \<Rightarrow> (node list \<times> token list) option"
and shape_all :: "nat \<Rightarrow> token list \<Rightarrow> (node \<times> token list) option"
and shape_more_all :: "nat \<Rightarrow> token list \<Rightarrow> (node list \<times> token list) option"
and shape_unary :: "nat \<Rightarrow> token list \<Rightarrow> (node \<times> token list) option" where
  "shape_any d ts =
     Option.bind (shape_all d ts) (\<lambda>(n, r).
     Option.bind (shape_more_any d r) (\<lambda>(ns, r). Some (one_node (n # ns) NAny, r)))"
| "shape_more_any d ts =
     (case ts of
        [] \<Rightarrow> Some ([], [])
      | t # ts' \<Rightarrow>
          if token_kind t \<noteq> TOr then Some ([], ts)
          else Option.bind (shape_all d ts') (\<lambda>(n, r).
               Option.bind (shape_more_any d r) (\<lambda>(ns, r). Some (n # ns, r))))"
| "shape_all d ts =
     Option.bind (shape_unary d ts) (\<lambda>(n, r).
     Option.bind (shape_more_all d r) (\<lambda>(ns, r). Some (one_node (n # ns) NAll, r)))"
| "shape_more_all d ts =
     (case ts of
        [] \<Rightarrow> Some ([], [])
      | t # ts' \<Rightarrow>
          if token_kind t \<noteq> TAnd then Some ([], ts)
          else Option.bind (shape_unary d ts') (\<lambda>(n, r).
               Option.bind (shape_more_all d r) (\<lambda>(ns, r). Some (n # ns, r))))"
| "shape_unary d ts =
     (if d + 1 > MAX_DEPTH then None
      else case ts of
        [] \<Rightarrow> None
      | t # ts' \<Rightarrow>
          (case token_kind t of
             TNot \<Rightarrow> Option.bind (shape_unary (d + 1) ts') (\<lambda>(n, r). Some (NNot n, r))
           | TOpen \<Rightarrow>
               Option.bind (shape_any (d + 1) ts') (\<lambda>(n, r).
               Option.bind (take_close r) (\<lambda>(_, r). Some (NGroup n, r)))
           | TWord _ \<Rightarrow> take_term t ts'
           | _ \<Rightarrow> None))"
  by pat_completeness auto

lemma take_value_rest: "take_value ts = Some (v, r) \<Longrightarrow> length ts = Suc (length r)"
  by (auto simp: take_value_def split: list.splits token_kind.splits)

lemma take_close_rest: "take_close ts = Some (q, r) \<Longrightarrow> length ts = Suc (length r)"
  by (auto simp: take_close_def split: list.splits if_splits)

lemma take_items_rest: "take_items ts = Some (vs, r) \<Longrightarrow> length r \<le> length ts"
  by (induction ts arbitrary: vs r rule: take_items.induct) (fastforce simp: bind_eq_Some_conv split: if_splits)+

lemma take_term_rest: "take_term k ts = Some (n, r) \<Longrightarrow> length r \<le> length ts"
  by (auto simp: take_term_def Let_def bind_eq_Some_conv split: list.split_asm if_split_asm
      dest!: take_value_rest take_items_rest take_close_rest)

lemma shape_shrinks:
  "shape_any_shape_more_any_shape_all_shape_more_all_shape_unary_dom (Inl (Inl (d, ts))) \<Longrightarrow>
     shape_any d ts = Some (n, r) \<Longrightarrow> length r < length ts"
  "shape_any_shape_more_any_shape_all_shape_more_all_shape_unary_dom (Inl (Inr (d, ts))) \<Longrightarrow>
     shape_more_any d ts = Some (ns, r) \<Longrightarrow> length r \<le> length ts"
  "shape_any_shape_more_any_shape_all_shape_more_all_shape_unary_dom (Inr (Inl (d, ts))) \<Longrightarrow>
     shape_all d ts = Some (n, r) \<Longrightarrow> length r < length ts"
  "shape_any_shape_more_any_shape_all_shape_more_all_shape_unary_dom (Inr (Inr (Inl (d, ts)))) \<Longrightarrow>
     shape_more_all d ts = Some (ns, r) \<Longrightarrow> length r \<le> length ts"
  "shape_any_shape_more_any_shape_all_shape_more_all_shape_unary_dom (Inr (Inr (Inr (d, ts)))) \<Longrightarrow>
     shape_unary d ts = Some (n, r) \<Longrightarrow> length r < length ts"
proof (induction d ts and d ts and d ts and d ts and d ts
       arbitrary: n r and ns r and n r and ns r and n r
       rule: shape_any_shape_more_any_shape_all_shape_more_all_shape_unary.pinduct)
  case (1 d ts)
  then show ?case by (fastforce simp: shape_any.psimps bind_eq_Some_conv)
next
  case (2 d ts)
  then show ?case by (fastforce simp: shape_more_any.psimps bind_eq_Some_conv split: list.splits if_splits)
next
  case (3 d ts)
  then show ?case by (fastforce simp: shape_all.psimps bind_eq_Some_conv)
next
  case (4 d ts)
  then show ?case by (fastforce simp: shape_more_all.psimps bind_eq_Some_conv split: list.splits if_splits)
next
  case (5 d ts)
  obtain t ts' where ts: "ts = t # ts'" and d: "\<not> d + 1 > MAX_DEPTH"
    using 5 by (cases ts) (auto simp: shape_unary.psimps split: if_split_asm)
  show ?case
  proof (cases "token_kind t")
    case TOpen
    then obtain n1 r1 q where "shape_any (d + 1) ts' = Some (n1, r1)" "take_close r1 = Some (q, r)"
      using 5(1,4) ts d by (auto simp: shape_unary.psimps bind_eq_Some_conv)
    then have "length r1 < length ts'" "length r1 = Suc (length r)"
      using 5(2) TOpen ts d take_close_rest by blast+
    then show ?thesis using ts by simp
  next
    case TNot
    then obtain n1 where "shape_unary (d + 1) ts' = Some (n1, r)"
      using 5(1,4) ts d by (auto simp: shape_unary.psimps bind_eq_Some_conv)
    then have "length r < length ts'" using 5(3) TNot ts d by blast
    then show ?thesis using ts by simp
  next
    case (TWord w)
    then have "take_term t ts' = Some (n, r)" using 5(1,4) ts d by (simp add: shape_unary.psimps)
    then show ?thesis using take_term_rest [of t ts'] ts by fastforce
  qed (use 5 ts d in \<open>auto simp: shape_unary.psimps\<close>)
qed

termination shape_any
proof (relation "measure (\<lambda>x. case x of
          Inl (Inl (d, ts)) \<Rightarrow> 4 * length ts + 2
        | Inl (Inr (d, ts)) \<Rightarrow> 4 * length ts
        | Inr (Inl (d, ts)) \<Rightarrow> 4 * length ts + 1
        | Inr (Inr (Inl (d, ts))) \<Rightarrow> 4 * length ts
        | Inr (Inr (Inr (d, ts))) \<Rightarrow> 4 * length ts)", simp_all, goal_cases)
  case (1 d ts x n r)
  then show ?case using shape_shrinks(3) [of d ts n r] by simp
next
  case (2 d ts t ts' x n r)
  then show ?case using shape_shrinks(3) [of d ts' n r] by simp
next
  case (3 d ts x n r)
  then show ?case using shape_shrinks(5) [of d ts n r] by simp
next
  case (4 d ts t ts' x n r)
  then show ?case using shape_shrinks(5) [of d ts' n r] by simp
qed

declare shape_any.simps [simp del] shape_more_any.simps [simp del] shape_all.simps [simp del]
  shape_more_all.simps [simp del] shape_unary.simps [simp del]

section \<open>The inputs a saved expression names\<close>

definition input_name :: "string \<Rightarrow> string option" where
  "input_name word =
     (case strip_prefix ''$'' word of
        None \<Rightarrow> None
      | Some name \<Rightarrow> if is_a_name name then Some name else None)"

primrec kind_name :: "token_kind \<Rightarrow> string option" where
  "kind_name TOpen = None"
| "kind_name TClose = None"
| "kind_name TComma = None"
| "kind_name TNot = None"
| "kind_name TAnd = None"
| "kind_name TOr = None"
| "kind_name TEquals = None"
| "kind_name TNotEquals = None"
| "kind_name TLess = None"
| "kind_name TLessOrEqual = None"
| "kind_name TGreater = None"
| "kind_name TGreaterOrEqual = None"
| "kind_name (TQuoted w) = None"
| "kind_name (TWord w) = input_name w"

fun walk_keys :: "node \<Rightarrow> string list" where
  "walk_keys (NTerm ws) = (case ws of [] \<Rightarrow> [] | t # _ \<Rightarrow> list_of (kind_name (token_kind t)))"
| "walk_keys (NNot n) = walk_keys n"
| "walk_keys (NGroup n) = walk_keys n"
| "walk_keys (NAll parts) = concat (map walk_keys parts)"
| "walk_keys (NAny parts) = concat (map walk_keys parts)"

definition placeholders_in_key_position :: "string \<Rightarrow> string list" where
  "placeholders_in_key_position text =
     (case lex text of
        Inl _ \<Rightarrow> []
      | Inr toks \<Rightarrow>
          (case shape_any 0 toks of
             Some (tree, []) \<Rightarrow> walk_keys tree
           | _ \<Rightarrow> []))"

definition placeholders :: "string \<Rightarrow> string list" where
  "placeholders text =
     (case lex text of Inl _ \<Rightarrow> [] | Inr toks \<Rightarrow> List.map_filter (\<lambda>t. kind_name (token_kind t)) toks)"

text \<open>
  Each \<open>$name\<close> overwritten by as many zeros: \<open>copied\<close> is the number of characters already copied.
\<close>

fun overwritten :: "string list \<Rightarrow> nat \<Rightarrow> token list \<Rightarrow> string" where
  "overwritten cs copied [] = concat (drop copied cs)"
| "overwritten cs copied (t # ts) =
     (case token_kind t of
        TWord w \<Rightarrow>
          if input_name w \<noteq> None
          then concat (take (token_position t - 1 - copied) (drop copied cs)) @ replicate (char_count w) CHR ''0'' @
               overwritten cs (token_end t - 1) ts
          else overwritten cs copied ts
      | _ \<Rightarrow> overwritten cs copied ts)"

definition standing :: "string \<Rightarrow> string" where
  "standing text =
     (case lex text of Inl _ \<Rightarrow> text | Inr toks \<Rightarrow> overwritten (utf8_chars text) 0 toks)"

definition reads_saved :: "world \<Rightarrow> int \<Rightarrow> string \<Rightarrow> refusal + unit" where
  "reads_saved W y2k text = ok_then (read_expression W (standing text) y2k) (\<lambda>_. Inr ())"

definition saved_value_words :: "world \<Rightarrow> int \<Rightarrow> string \<Rightarrow> refusal + value_word list" where
  "saved_value_words W y2k text = value_words W y2k (standing text)"

section \<open>Filling them in\<close>

definition as_a_value :: "string \<Rightarrow> refusal + string" where
  "as_a_value text =
     (if DQ \<in> set text then Inl QuoteInInput
      else if text = [] \<or> list_ex ends_a_word (utf8_chars text) then Inr (DQ # text @ [DQ])
      else Inr text)"

definition filling :: "bound \<Rightarrow> nat \<Rightarrow> token_kind \<Rightarrow> input_value option option" where
  "filling b i k = (if i > 0 then Option.bind (kind_name k) (bt_get b) else None)"

definition tight :: "token_kind \<Rightarrow> token_kind option \<Rightarrow> bool" where
  "tight k previous \<longleftrightarrow> k = TComma \<or> k = TClose \<or> previous = Some TOpen \<or> previous = None"

fun filled_words :: "bound \<Rightarrow> nat \<Rightarrow> token_kind option \<Rightarrow> token list \<Rightarrow> refusal + string option" where
  "filled_words b i previous [] = Inr (Some [])"
| "filled_words b i previous (t # ts) =
     (let k = token_kind t;
          gap = (if tight k previous then [] else '' '')
      in case filling b i k of
           Some None \<Rightarrow> Inr None
         | Some (Some v) \<Rightarrow>
             ok_then (as_a_value (iv_text v)) (\<lambda>s.
             ok_then (filled_words b (i + 1) (Some k) ts) (\<lambda>r. Inr (map_option (\<lambda>r. gap @ s @ r) r)))
         | None \<Rightarrow>
             ok_then (filled_words b (i + 1) (Some k) ts) (\<lambda>r. Inr (map_option (\<lambda>r. gap @ spelled k @ r) r)))"

definition filled_term :: "bound \<Rightarrow> token list \<Rightarrow> refusal + string option" where
  "filled_term b ws = filled_words b 0 None ws"

fun filled :: "bound \<Rightarrow> node \<Rightarrow> refusal + string option"
and filled_parts :: "bound \<Rightarrow> node list \<Rightarrow> refusal + string list" where
  "filled b (NTerm ws) = filled_term b ws"
| "filled b (NNot n) = ok_then (filled b n) (\<lambda>l. Inr (map_option (\<lambda>l. ''!'' @ l) l))"
| "filled b (NGroup n) = ok_then (filled b n) (\<lambda>l. Inr (map_option (\<lambda>l. ''('' @ l @ '')'') l))"
| "filled b (NAll parts) =
     ok_then (filled_parts b parts) (\<lambda>kept. Inr (if kept = [] then None else Some (join '' && '' kept)))"
| "filled b (NAny parts) =
     ok_then (filled_parts b parts) (\<lambda>kept. Inr (if kept = [] then None else Some (join '' || '' kept)))"
| "filled_parts b [] = Inr []"
| "filled_parts b (n # ns) =
     ok_then (filled b n) (\<lambda>l. ok_then (filled_parts b ns) (\<lambda>ls. Inr (list_of l @ ls)))"

definition with_inputs :: "string \<Rightarrow> bound \<Rightarrow> refusal + string option" where
  "with_inputs text b =
     (if b = [] \<or> char_count text > MAX_LENGTH then Inr (Some text)
      else case lex text of
             Inl _ \<Rightarrow> Inr (Some text)
           | Inr toks \<Rightarrow>
               (case shape_any 0 toks of
                  Some (tree, []) \<Rightarrow> filled b tree
                | _ \<Rightarrow> Inr (Some text)))"

section \<open>What a write of a view breaks\<close>

datatype view_wrong =
    InputsUnread decl_refusal
  | ReservedName string
  | InputAsAKey string
  | DayWithoutOverdue
  | DayNotAnInput
  | Undeclared string
  | DayNotADate string
  | ParentNotAThing string
  | TypeNotText string

definition find_decl :: "input_decl list \<Rightarrow> string \<Rightarrow> input_decl option" where
  "find_decl ds name = find (\<lambda>d. id_name d = name) ds"

definition input_under :: "fields \<Rightarrow> string \<Rightarrow> string option" where
  "input_under after k = Option.bind (bt_get after k) (\<lambda>v. input_name (trim v))"

definition check_use :: "input_decl list \<Rightarrow> string \<times> string \<Rightarrow> (string \<times> view_wrong) option" where
  "check_use ds = (\<lambda>(k, name).
     (case find_decl ds name of
        None \<Rightarrow> Some (k, Undeclared name)
      | Some d \<Rightarrow>
          if k = ''parent'' \<and> \<not> (case id_ty d of KindInput _ \<Rightarrow> True | HandleInput \<Rightarrow> True | _ \<Rightarrow> False)
          then Some (k, ParentNotAThing name)
          else if k = ''answers_type'' \<and> id_ty d \<noteq> TextInput then Some (k, TypeNotText name)
          else None))"

definition check_day :: "input_decl list \<Rightarrow> fields \<Rightarrow> (string \<times> view_wrong) option" where
  "check_day ds after =
     (case bt_get after AS_OF of
        None \<Rightarrow> None
      | Some day \<Rightarrow>
          if bt_get after ''asks'' \<noteq> Some ''overdue'' then Some (AS_OF, DayWithoutOverdue)
          else case input_name (trim day) of
                 None \<Rightarrow> Some (AS_OF, DayNotAnInput)
               | Some name \<Rightarrow>
                   (case find_decl ds name of
                      None \<Rightarrow> Some (AS_OF, Undeclared name)
                    | Some d \<Rightarrow> if id_ty d \<noteq> DateInput then Some (AS_OF, DayNotADate name) else None))"

definition view_uses :: "fields \<Rightarrow> (string \<times> string) list" where
  "view_uses after =
     (case bt_get after ''where'' of None \<Rightarrow> [] | Some line \<Rightarrow> map (Pair ''where'') (placeholders line)) @
     map (Pair ''parent'') (list_of (input_under after ''parent'')) @
     map (Pair ''answers_type'') (list_of (input_under after ''answers_type''))"

definition breaks_a_view :: "world \<Rightarrow> int \<Rightarrow> fields \<Rightarrow> fields \<Rightarrow> (string \<times> view_wrong) option" where
  "breaks_a_view W declaring_day before after =
     (if list_all (\<lambda>k. bt_get before k = bt_get after k) [KEY, ''where'', ''parent'', ''answers_type'', AS_OF, ''asks'']
      then None
      else case parse_inputs W declaring_day (case bt_get after KEY of None \<Rightarrow> [] | Some l \<Rightarrow> l) of
        Inl why \<Rightarrow> Some (KEY, InputsUnread why)
      | Inr ds \<Rightarrow>
          (case find (\<lambda>d. id_name d \<in> set RESERVED_NAMES) ds of
             Some d \<Rightarrow> Some (KEY, ReservedName (id_name d))
           | None \<Rightarrow>
               (case Option.bind (bt_get after ''where'')
                       (\<lambda>line. case placeholders_in_key_position line of [] \<Rightarrow> None | n # _ \<Rightarrow> Some n) of
                  Some name \<Rightarrow> Some (''where'', InputAsAKey name)
                | None \<Rightarrow>
                    (case check_day ds after of
                       Some why \<Rightarrow> Some why
                     | None \<Rightarrow> first_error (check_use ds) (view_uses after)))))"

section \<open>Declarations as a reader is told them\<close>

lemma name_char_printable: "is_ascii_lowercase c \<Longrightarrow> printable c \<and> c \<notin> set '':,=?''"
  by (auto simp: is_ascii_lowercase_def printable_def less_eq_char_def)

lemma digit_printable: "is_digit c \<Longrightarrow> printable c \<and> c \<notin> set '':,=?''"
  by (auto simp: is_digit_def printable_def less_eq_char_def)

lemma is_a_name_chars: "is_a_name n \<Longrightarrow> n \<noteq> [] \<and> (\<forall>c \<in> set n. printable c \<and> c \<notin> set '':,=?'')"
  using name_char_printable digit_printable
  by (cases n) (auto simp: is_a_name_def list_all_iff, auto simp: printable_def)

lemma is_a_kind_chars: "is_a_kind n \<Longrightarrow> n \<noteq> [] \<and> (\<forall>c \<in> set n. printable c \<and> c \<notin> set '':,=?'')"
  using name_char_printable digit_printable
  by (cases n) (auto simp: is_a_kind_def list_all_iff, auto simp: printable_def)

lemma trim_printable_run: "\<forall>c \<in> set s. printable c \<Longrightarrow> trim s = s"
  by (cases "s = []") (simp_all add: trim_printable)

lemma trim_end_space: "trim_end (s @ '' '') = trim_end s"
proof -
  have "utf8_chars (s @ '' '') = utf8_chars s @ ['' '']"
    using utf8_chars_append [of "'' ''" s] by (simp add: is_cont_def is_ascii_def)
  then show ?thesis by (simp add: trim_end_def is_ws_char_def ws_encodings_def)
qed

lemma trim_end_kept:
  assumes "trim v = v" and "v \<noteq> []"
  shows "trim_end (s @ CHR '' '' # v) = s @ CHR '' '' # v"
proof -
  have "utf8_chars (s @ CHR '' '' # v) = utf8_chars s @ '' '' # utf8_chars v"
    using utf8_chars_append [of "CHR '' '' # v" s] by (simp add: is_cont_def is_ascii_def)
  moreover have "utf8_chars (s @ '' '') = utf8_chars s @ ['' '']"
    using utf8_chars_append [of "'' ''" s] by (simp add: is_cont_def is_ascii_def)
  ultimately have "trim_end ((s @ '' '') @ v) = (s @ '' '') @ trim_end v"
    using assms by (intro trim_end_append) simp_all
  then show ?thesis using assms(1) trim_end_trim [of v] by simp
qed

definition type_ok :: "input_type \<Rightarrow> bool" where
  "type_ok ty \<longleftrightarrow> (case ty of KindInput k \<Rightarrow> is_a_kind k | _ \<Rightarrow> True)"

definition decl_ok :: "world \<Rightarrow> int \<Rightarrow> input_decl \<Rightarrow> bool" where
  "decl_ok W declaring_day d \<longleftrightarrow>
     is_a_name (id_name d) \<and> type_ok (id_ty d) \<and>
     (case id_default d of None \<Rightarrow> True
      | Some v \<Rightarrow> trim v = v \<and> CHR '','' \<notin> set v \<and> check_default W declaring_day (id_name d) (id_ty d) v = Inr ())"

lemma default_nonempty: "check_default W dd n ty v = Inr u \<Longrightarrow> v \<noteq> []"
  by (auto simp: check_default_def)

lemma spelling_chars:
  assumes "type_ok ty"
  shows "spelling ty \<noteq> [] \<and> printable (hd (spelling ty)) \<and> printable (last (spelling ty)) \<and>
     last (spelling ty) \<noteq> CHR ''?'' \<and> CHR '','' \<notin> set (spelling ty) \<and> CHR ''='' \<notin> set (spelling ty)"
proof (cases ty)
  case (KindInput k)
  then have k: "k \<noteq> []" "\<forall>c \<in> set k. printable c \<and> c \<notin> set '':,=?''"
    using assms is_a_kind_chars by (auto simp: type_ok_def)
  then have "last k \<in> set k" by simp
  then show ?thesis using k KindInput by (auto simp: printable_def)
qed (simp_all add: printable_def)

lemma read_type_spelling: "type_ok ty \<Longrightarrow> read_type name (spelling ty) = Inr ty"
proof (cases ty)
  case (KindInput k)
  assume ok: "type_ok ty"
  have "trim (CHR '' '' # k) = k"
    using ok KindInput is_a_kind_chars [of k] trim_printable_run [of k] by (simp add: type_ok_def)
  then show ?thesis
    using ok KindInput strip_prefix_append [of "''kind''" "CHR '' '' # k"] by (simp add: read_type_def type_ok_def)
qed (simp_all add: read_type_def)

lemma read_type_ok: "read_type name s = Inr ty \<Longrightarrow> type_ok ty"
  by (auto simp: read_type_def type_ok_def split: if_splits option.splits)

lemma read_decl_ok:
  assumes "read_decl W dd earlier p = Inr d" and "CHR '','' \<notin> set p"
  shows "decl_ok W dd d \<and> \<not> list_ex (\<lambda>e. id_name e = id_name d) earlier"
proof -
  obtain n r where nr: "split_once CHR '':'' p = Some (n, r)" "is_a_name (trim n)"
    using assms(1) by (auto simp: read_decl_def Let_def split: option.splits if_splits)
  have r: "CHR '','' \<notin> set r" using nr(1) assms(2) by (auto simp: split_once_Some)
  have v: "CHR '','' \<notin> set (trim v)" if "split_once CHR ''='' r = Some (t, v)" for t v
    using that r set_trim [of v] by (auto simp: split_once_Some)
  show ?thesis
    using assms(1) nr v
    by (auto simp: read_decl_def decl_ok_def Let_def ok_then_Inr split: option.split_asm if_split_asm)
      (erule read_type_ok)+
qed

definition decl_rest :: "input_decl \<Rightarrow> string" where
  "decl_rest d = spelling (id_ty d) @ (if id_optional d then ''?'' else [])"

lemma spelled_decl_alt:
  "spelled_decl d = id_name d @ CHR '':'' # CHR '' '' # decl_rest d @
     (case id_default d of None \<Rightarrow> [] | Some v \<Rightarrow> CHR '' '' # CHR ''='' # CHR '' '' # v)"
  by (simp add: spelled_decl_def decl_rest_def split: option.splits)

lemma decl_rest_chars:
  assumes "decl_ok W dd d"
  shows "decl_rest d \<noteq> [] \<and> printable (hd (decl_rest d)) \<and> printable (last (decl_rest d)) \<and>
     CHR '','' \<notin> set (decl_rest d) \<and> CHR ''='' \<notin> set (decl_rest d)"
proof -
  have "type_ok (id_ty d)" using assms by (simp add: decl_ok_def)
  from spelling_chars [OF this] show ?thesis by (auto simp: decl_rest_def printable_def)
qed

lemma spelled_decl_kept:
  assumes "decl_ok W dd d"
  shows "trim (spelled_decl d) = spelled_decl d \<and> spelled_decl d \<noteq> [] \<and> CHR '','' \<notin> set (spelled_decl d)"
proof -
  note r = decl_rest_chars [OF assms]
  have n: "id_name d \<noteq> []" "\<forall>c \<in> set (id_name d). printable c \<and> c \<notin> set '':,=?''"
    using assms is_a_name_chars by (auto simp: decl_ok_def)
  have "printable (hd (spelled_decl d))" using n by (simp add: spelled_decl_alt)
  then have start: "trim_start (spelled_decl d) = spelled_decl d" by (rule trim_start_printable)
  have "trim_end (spelled_decl d) = spelled_decl d"
  proof (cases "id_default d")
    case None
    then have "last (spelled_decl d) = last (decl_rest d)" using r by (simp add: spelled_decl_alt)
    then show ?thesis using r by (intro trim_end_printable) simp
  next
    case (Some v)
    then have "trim v = v" "v \<noteq> []"
      using assms default_nonempty [of W dd "id_name d" "id_ty d" v] by (simp_all add: decl_ok_def)
    from trim_end_kept [OF this, of "id_name d @ CHR '':'' # CHR '' '' # decl_rest d @ '' =''"]
    show ?thesis using Some by (simp add: spelled_decl_alt)
  qed
  then show ?thesis
    using start n r assms by (auto simp: trim_def spelled_decl_alt decl_ok_def split: option.splits)
qed

lemma read_decl_spelled:
  assumes "decl_ok W dd d" and "\<not> list_ex (\<lambda>e. id_name e = id_name d) earlier"
  shows "read_decl W dd earlier (spelled_decl d) = Inr d"
proof -
  note r = decl_rest_chars [OF assms(1)]
  have n: "\<forall>c \<in> set (id_name d). printable c \<and> c \<notin> set '':,=?''" "is_a_name (id_name d)" "type_ok (id_ty d)"
    using assms(1) is_a_name_chars by (auto simp: decl_ok_def)
  have name: "trim (id_name d) = id_name d" using n(1) trim_printable_run by blast
  define r' where "r' = CHR '' '' # decl_rest d @
     (case id_default d of None \<Rightarrow> [] | Some v \<Rightarrow> CHR '' '' # CHR ''='' # CHR '' '' # v)"
  have colon: "split_once CHR '':'' (spelled_decl d) = Some (id_name d, r')"
    using n(1) by (auto simp: split_once_Some spelled_decl_alt r'_def)
  have tr: "trim (decl_rest d) = decl_rest d" using r trim_printable by blast
  have "(case split_once CHR ''='' r' of Some (ty, v) \<Rightarrow> (trim ty, Some (trim v)) | None \<Rightarrow> (trim r', None))
          = (decl_rest d, id_default d)"
  proof (cases "id_default d")
    case None
    then have "split_once CHR ''='' r' = None" using r by (simp add: split_once_None r'_def)
    then show ?thesis using None tr by (simp add: r'_def)
  next
    case (Some v)
    then have "split_once CHR ''='' r' = Some (CHR '' '' # decl_rest d @ '' '', CHR '' '' # v)"
      using r by (simp add: split_once_Some r'_def)
    moreover have "trim (decl_rest d @ '' '') = decl_rest d"
    proof -
      have "trim_start (decl_rest d @ '' '') = decl_rest d @ '' ''" using r by (intro trim_start_printable) simp
      then show ?thesis using tr trim_end_trim [of "decl_rest d"] by (simp add: trim_def trim_end_space)
    qed
    moreover have "trim v = v" using assms(1) Some by (simp add: decl_ok_def)
    ultimately show ?thesis using Some by simp
  qed
  moreover have "(case strip_last CHR ''?'' (decl_rest d) of Some t \<Rightarrow> (trim t, True) | None \<Rightarrow> (decl_rest d, False))
          = (spelling (id_ty d), id_optional d)"
    using spelling_chars [OF n(3)] trim_printable [of "spelling (id_ty d)"] by (simp add: strip_last_def decl_rest_def)
  moreover have "(case id_default d of None \<Rightarrow> Inr () | Some v \<Rightarrow> check_default W dd (id_name d) (id_ty d) v) = Inr ()"
    using assms(1) by (auto simp: decl_ok_def split: option.splits)
  ultimately show ?thesis
    unfolding read_decl_def colon
    using n(2) assms(2) read_type_spelling [OF n(3)] by (cases "id_default d") (simp_all add: Let_def name)
qed

lemma read_decls_spelled:
  "read_decls W dd earlier ps = Inr ds \<Longrightarrow> \<forall>p \<in> set ps. CHR '','' \<notin> set p \<Longrightarrow>
     \<exists>new. ds = earlier @ new \<and> (\<forall>d \<in> set new. decl_ok W dd d) \<and> read_decls W dd earlier (map spelled_decl new) = Inr ds"
proof (induction W dd earlier ps rule: read_decls.induct)
  case (1 W dd earlier)
  then show ?case by simp
next
  case (2 W dd earlier p ps)
  then obtain d where d: "read_decl W dd earlier p = Inr d" "read_decls W dd (earlier @ [d]) ps = Inr ds"
    by (auto simp: ok_then_Inr)
  then obtain new where new: "ds = (earlier @ [d]) @ new" "\<forall>d \<in> set new. decl_ok W dd d"
      "read_decls W dd (earlier @ [d]) (map spelled_decl new) = Inr ds"
    using 2 by auto
  have "decl_ok W dd d" "read_decl W dd earlier (spelled_decl d) = Inr d"
    using read_decl_ok [OF d(1)] read_decl_spelled 2(3) by simp_all
  then show ?case using new by (intro exI [of _ "d # new"]) simp
qed

lemma split_spelled:
  "\<forall>p \<in> set ps. CHR '','' \<notin> set p \<Longrightarrow> ps \<noteq> [] \<Longrightarrow>
     split_on CHR '','' (join '', '' ps) = hd ps # map ((#) CHR '' '') (tl ps)"
proof (induction "'', ''" ps rule: join.induct)
  case (3 x y ys)
  then have "split_on CHR '','' (CHR '' '' # join '', '' (y # ys)) = (CHR '' '' # y) # map ((#) CHR '' '') ys"
    by simp
  then show ?case using 3 by (simp add: split_on_append)
qed (simp_all add: split_on_no_sep)

text \<open>
  What a reader is told of a view's inputs declares them: the words that spell out the inputs read back
  as the same inputs, each with its name, its type, whether it may be left out, and its default.
\<close>

theorem spelled_inputs_read_back:
  assumes "parse_inputs W declaring_day l = Inr ds"
  shows "parse_inputs W declaring_day (spelled_inputs ds) = Inr ds"
proof -
  have "\<forall>p \<in> set (filter (\<lambda>p. p \<noteq> []) (map trim (split_on CHR '','' l))). CHR '','' \<notin> set p"
    using split_on_pieces [of _ "CHR '',''" l] set_trim by fastforce
  from read_decls_spelled [OF assms [unfolded parse_inputs_def] this]
  have ds: "\<forall>d \<in> set ds. decl_ok W declaring_day d" "read_decls W declaring_day [] (map spelled_decl ds) = Inr ds"
    by auto
  have kept: "\<forall>p \<in> set (map spelled_decl ds). trim p = p \<and> p \<noteq> [] \<and> CHR '','' \<notin> set p"
    using ds(1) spelled_decl_kept by auto
  have "filter (\<lambda>p. p \<noteq> []) (map trim (split_on CHR '','' (spelled_inputs ds))) = map spelled_decl ds"
  proof (cases ds)
    case Nil
    then show ?thesis by (simp add: spelled_inputs_def)
  next
    case (Cons d es)
    have "split_on CHR '','' (spelled_inputs ds) = spelled_decl d # map ((#) CHR '' '') (map spelled_decl es)"
      using split_spelled [of "map spelled_decl ds"] kept Cons by (simp add: spelled_inputs_def)
    moreover have "map trim (map ((#) CHR '' '') (map spelled_decl es)) = map spelled_decl es"
      using kept Cons by (auto simp: o_def)
    moreover have "filter (\<lambda>p. p \<noteq> []) (map spelled_decl es) = map spelled_decl es"
      using kept Cons by (auto simp: filter_id_conv)
    ultimately show ?thesis using kept Cons by (simp del: map_map)
  qed
  then show ?thesis using ds(2) by (simp add: parse_inputs_def)
qed

theorem spelled_inputs_read_back_witness:
  "\<exists>ds. length ds = 2 \<and> parse_inputs sample_world 0 (spelled_inputs ds) = Inr ds"
proof -
  have "parse_inputs sample_world 0 ''who: kind person?,, note :text = a=b '' =
     Inr [\<lparr>id_name = ''who'', id_ty = KindInput ''person'', id_optional = True, id_default = None\<rparr>,
          \<lparr>id_name = ''note'', id_ty = TextInput, id_optional = False, id_default = Some ''a=b''\<rparr>]"
    by code_simp
  from spelled_inputs_read_back [OF this] show ?thesis by (intro exI conjI) simp_all
qed

section \<open>What binding gives\<close>

lemma find_mem: "find p xs = Some x \<Longrightarrow> x \<in> set xs"
  by (simp add: find_SomeD)

lemma flat_lookup_mem: "flat_lookup rows former i = Some e \<Longrightarrow> e \<in> set rows"
  by (auto simp: flat_lookup_def split: option.splits dest: find_mem)

lemma resolve_handle_mem: "resolve_handle i rows former = Some e \<Longrightarrow> e \<in> set rows"
  unfolding resolve_handle_def
  by (subst (asm) resolve_walk.simps) (auto split: option.split_asm prod.split_asm dest: flat_lookup_mem)

lemma date_word_is_a_day:
  assumes "date_word W word today = Inr s" and "\<forall>d. date_of_text W (text_of_date W d) \<noteq> None"
  shows "date_of_text W s \<noteq> None"
  using assms
  by (auto simp: date_word_def read_word_def Let_def ok_then_Inr
      split: option.split_asm list.split_asm if_split_asm operand.split_asm)

text \<open>A value of the type the input declares, over the things that are known.\<close>

definition value_fits :: "world \<Rightarrow> entity list \<Rightarrow> input_type \<Rightarrow> input_value \<Rightarrow> bool" where
  "value_fits W rows ty v =
     (case ty of
        TextInput \<Rightarrow> iv_text v \<noteq> []
      | NumberInput \<Rightarrow> is_a_number (iv_text v)
      | DateInput \<Rightarrow> date_of_text W (iv_text v) \<noteq> None
      | HandleInput \<Rightarrow> list_ex (\<lambda>e. iv_text v = en_id e \<and> iv_handle v = Some (en_id e)) rows
      | KindInput k \<Rightarrow> list_ex (\<lambda>e. iv_text v = en_id e \<and> iv_handle v = Some (en_id e) \<and> entity_kind W (en_id e) = Some k) rows)"

lemma bind_value_fits:
  assumes "bind_value W U fam rows former today ty sent = Inr v"
    and "\<forall>d. date_of_text W (text_of_date W d) \<noteq> None"
  shows "value_fits W rows ty v"
proof (cases ty)
  case DateInput
  then show ?thesis
    using assms date_word_is_a_day [OF _ assms(2), of sent today]
    by (auto simp: bind_value_def value_fits_def split: sum.splits)
next
  case HandleInput
  then obtain e where "resolve_handle sent rows former = Some e" "v = \<lparr>iv_text = en_id e, iv_handle = Some (en_id e)\<rparr>"
    using assms(1) by (auto simp: bind_value_def bind_handle_def ok_then_Inr split: if_split_asm option.split_asm)
  then show ?thesis using HandleInput resolve_handle_mem by (auto simp: value_fits_def list_ex_iff)
next
  case (KindInput k)
  then obtain e where "resolve_handle sent rows former = Some e" "entity_kind W (en_id e) = Some k"
      "v = \<lparr>iv_text = en_id e, iv_handle = Some (en_id e)\<rparr>"
    using assms(1) by (auto simp: bind_value_def bind_handle_def ok_then_Inr split: if_split_asm option.split_asm)
  then show ?thesis using KindInput resolve_handle_mem by (auto simp: value_fits_def list_ex_iff)
qed (use assms(1) in \<open>auto simp: bind_value_def value_fits_def split: if_splits\<close>)

text \<open>What the call gives an input, before it is read as a value.\<close>

definition sent_for :: "fields \<Rightarrow> input_decl \<Rightarrow> string option" where
  "sent_for given d = (case bt_get given (id_name d) of Some v \<Rightarrow> Some (trim v) | None \<Rightarrow> id_default d)"

lemma bind_all_other:
  "bind_all W U fam rows former today given ds values = Inr b \<Longrightarrow> n \<notin> id_name ` set ds \<Longrightarrow> bt_get b n = bt_get values n"
  by (induction ds arbitrary: "values") (auto simp: bt_get_insert_other split: option.split_asm sum.split_asm if_split_asm)

lemma bind_all_binds:
  assumes "bind_all W U fam rows former today given ds values = Inr b" and "d \<in> set ds" and "distinct (map id_name ds)"
  shows "case sent_for given d of
           None \<Rightarrow> id_optional d \<and> bt_get b (id_name d) = Some None
         | Some s \<Rightarrow> \<exists>v. bind_value W U fam rows former today (id_ty d) s = Inr v \<and> bt_get b (id_name d) = Some (Some v)"
  using assms
proof (induction ds arbitrary: "values")
  case (Cons e ds)
  show ?case
  proof (cases "d = e")
    case True
    then have "id_name d \<notin> id_name ` set ds" using Cons.prems(3) by simp
    then show ?thesis
      using Cons.prems(1) True bind_all_other [of W U fam rows former today given ds _ b "id_name d"]
      unfolding bind_all.simps sent_for_def [symmetric]
      by (auto split: option.split_asm sum.split_asm if_split_asm)
  next
    case False
    then have "d \<in> set ds" "distinct (map id_name ds)" using Cons.prems(2,3) by auto
    moreover obtain values' where "bind_all W U fam rows former today given ds values' = Inr b"
      using Cons.prems(1) unfolding bind_all.simps sent_for_def [symmetric]
      by (auto split: option.split_asm sum.split_asm if_split_asm)
    ultimately show ?thesis using Cons.IH by blast
  qed
qed simp

lemma parse_inputs_distinct: "read_decls W dd earlier ps = Inr ds \<Longrightarrow> distinct (map id_name earlier) \<Longrightarrow> distinct (map id_name ds)"
proof (induction W dd earlier ps rule: read_decls.induct)
  case (2 W dd earlier p ps)
  then obtain d where d: "read_decl W dd earlier p = Inr d" "read_decls W dd (earlier @ [d]) ps = Inr ds"
    by (auto simp: ok_then_Inr)
  have "\<not> list_ex (\<lambda>e. id_name e = id_name d) earlier"
    using d(1) by (auto simp: read_decl_def Let_def ok_then_Inr split: option.split_asm if_split_asm)
  then have "\<forall>e \<in> set earlier. id_name d \<noteq> id_name e" by (auto simp: list_ex_iff)
  then show ?case using 2 d by (auto simp: image_iff)
qed simp

text \<open>
  C33: What a call bound fits what the view declares: when the call is accepted, every declared input is bound
  to a value of its own type (a handle names a thing that exists, of the declared kind), or is left out,
  which only an optional input with no default may be. The calendar reads back the days it writes.
\<close>

theorem bound_values_have_their_type:
  assumes "parse_inputs W declaring_day l = Inr decls"
    and "bind_inputs W U fam decls given rows former today = Inr b"
    and "\<forall>d. date_of_text W (text_of_date W d) \<noteq> None"
    and "d \<in> set decls"
  shows "case bt_get b (id_name d) of
           None \<Rightarrow> False
         | Some None \<Rightarrow> id_optional d \<and> id_default d = None \<and> bt_get given (id_name d) = None
         | Some (Some v) \<Rightarrow> value_fits W rows (id_ty d) v"
proof -
  have "distinct (map id_name decls)" using assms(1) parse_inputs_distinct by (fastforce simp: parse_inputs_def)
  moreover have "bind_all W U fam rows former today given decls [] = Inr b"
    using assms(2) by (simp add: bind_inputs_def split: option.splits)
  ultimately have "case sent_for given d of
           None \<Rightarrow> id_optional d \<and> bt_get b (id_name d) = Some None
         | Some s \<Rightarrow> \<exists>v. bind_value W U fam rows former today (id_ty d) s = Inr v \<and> bt_get b (id_name d) = Some (Some v)"
    using bind_all_binds assms(4) by blast
  then show ?thesis
    using bind_value_fits [OF _ assms(3)] by (cases "sent_for given d") (auto simp: sent_for_def split: option.split_asm)
qed

text \<open>A changed view that is accepted declares every input its question names.\<close>

lemma first_error_None_iff: "first_error f xs = None \<longleftrightarrow> (\<forall>x \<in> set xs. f x = None)"
  by (induction xs) (auto split: option.splits)

lemma none_case: "(case a of None \<Rightarrow> b | Some x \<Rightarrow> Some (f x)) = None \<longleftrightarrow> a = None \<and> b = None"
  by (cases a) simp_all

lemma accepted_view_declares:
  assumes "breaks_a_view W dd before after = None" and "bt_get before ''where'' \<noteq> bt_get after ''where''"
    and "bt_get after ''where'' = Some line" and "name \<in> set (placeholders line)"
  obtains ds d where "parse_inputs W dd (case bt_get after KEY of None \<Rightarrow> [] | Some l \<Rightarrow> l) = Inr ds"
    and "d \<in> set ds" and "id_name d = name"
proof -
  obtain ds where ds: "parse_inputs W dd (case bt_get after KEY of None \<Rightarrow> [] | Some l \<Rightarrow> l) = Inr ds"
      "first_error (check_use ds) (view_uses after) = None"
  proof -
    have moved: "\<not> list_all (\<lambda>k. bt_get before k = bt_get after k) [KEY, ''where'', ''parent'', ''answers_type'', AS_OF, ''asks'']"
      using assms(2) by simp
    note open_up = assms(1) [unfolded breaks_a_view_def if_not_P [OF moved]]
    obtain ds where ds: "parse_inputs W dd (case bt_get after KEY of None \<Rightarrow> [] | Some l \<Rightarrow> l) = Inr ds"
      using open_up by (cases "parse_inputs W dd (case bt_get after KEY of None \<Rightarrow> [] | Some l \<Rightarrow> l)") simp_all
    note open_up = open_up [unfolded ds sum.case]
    have "first_error (check_use ds) (view_uses after) = None"
      using open_up unfolding none_case by simp
    then show thesis using ds that by blast
  qed
  have "(''where'', name) \<in> set (view_uses after)" using assms(3,4) by (simp add: view_uses_def)
  then have "check_use ds (''where'', name) = None" using ds(2) by (simp add: first_error_None_iff)
  then obtain d where "find_decl ds name = Some d" by (auto simp: check_use_def split: option.splits)
  then have "d \<in> set ds" "id_name d = name" by (auto simp: find_decl_def dest: find_SomeD)
  then show ?thesis using that [OF ds(1)] by blast
qed

text \<open>
  A view that was accepted never asks with a hole in it: after a write of its question, and a call whose
  values were accepted, every \<open>$name\<close> of the question is bound, to a value or to being left out.
\<close>

theorem accepted_view_has_no_holes:
  assumes "breaks_a_view W declaring_day before after = None"
    and "bt_get before ''where'' \<noteq> bt_get after ''where''" and "bt_get after ''where'' = Some line"
    and "parse_inputs W declaring_day (case bt_get after KEY of None \<Rightarrow> [] | Some l \<Rightarrow> l) = Inr decls"
    and "bind_inputs W U fam decls given rows former today = Inr b"
    and "name \<in> set (placeholders line)"
  shows "bt_get b name \<noteq> None"
proof -
  obtain d where d: "d \<in> set decls" "id_name d = name"
    using accepted_view_declares [OF assms(1,2,3,6)] assms(4) by auto
  have "distinct (map id_name decls)" using assms(4) parse_inputs_distinct by (fastforce simp: parse_inputs_def)
  moreover have "bind_all W U fam rows former today given decls [] = Inr b"
    using assms(5) by (simp add: bind_inputs_def split: option.splits)
  ultimately show ?thesis using bind_all_binds [of W U fam rows former today given decls "[]" b d] d by (fastforce split: option.split_asm)
qed

definition sample_view :: fields where
  "sample_view = [(''inputs'', ''t: text?, day: text = 3''), (''where'', ''tag = $t'')]"

definition sample_inputs :: "input_decl list" where
  "sample_inputs =
     [\<lparr>id_name = ''t'', id_ty = TextInput, id_optional = True, id_default = None\<rparr>,
      \<lparr>id_name = ''day'', id_ty = TextInput, id_optional = False, id_default = Some ''3''\<rparr>]"

lemma sample_inputs_read:
  "parse_inputs W dd ''t: text?, day: text = 3'' = Inr sample_inputs"
  by code_simp

lemma sample_bound:
  "bind_inputs W U fam sample_inputs [(''t'', '' red '')] rows former today =
     Inr [(''day'', Some \<lparr>iv_text = ''3'', iv_handle = None\<rparr>), (''t'', Some \<lparr>iv_text = ''red'', iv_handle = None\<rparr>)]"
  by code_simp

lemma sample_calendar: "\<forall>d. date_of_text sample_world (text_of_date sample_world d) \<noteq> None"
  by (simp add: sample_world_def)

definition plain_unicode :: unicode where
  "plain_unicode = \<lparr>lower_text = (\<lambda>s. s), is_alphanumeric = (\<lambda>_. True), is_alphabetic = (\<lambda>_. True),
     is_lowercase = (\<lambda>_. True), is_uppercase = (\<lambda>_. False), is_numeric = (\<lambda>_. False)\<rparr>"

theorem bound_values_have_their_type_witness:
  "value_fits sample_world [] TextInput \<lparr>iv_text = ''3'', iv_handle = None\<rparr>"
proof -
  have "sample_inputs ! 1 \<in> set sample_inputs" by (simp add: sample_inputs_def)
  from bound_values_have_their_type [OF sample_inputs_read [of sample_world 0]
      sample_bound [of sample_world plain_unicode "[]" "[]" "[]" 0] sample_calendar this]
  show ?thesis by (simp add: sample_inputs_def bt_get_def)
qed

theorem accepted_view_has_no_holes_witness:
  "bt_get [(''day'', Some \<lparr>iv_text = ''3'', iv_handle = None\<rparr>), (''t'', Some \<lparr>iv_text = ''red'', iv_handle = None\<rparr>)] ''t''
     \<noteq> None"
proof -
  have 1: "breaks_a_view sample_world 0 [] sample_view = None" by code_simp
  have 2: "bt_get [] ''where'' \<noteq> bt_get sample_view ''where''" "bt_get sample_view ''where'' = Some ''tag = $t''"
    by (simp_all add: sample_view_def bt_get_def)
  have 3: "parse_inputs sample_world 0 (case bt_get sample_view KEY of None \<Rightarrow> [] | Some l \<Rightarrow> l) = Inr sample_inputs"
    using sample_inputs_read [of sample_world 0] by (simp add: sample_view_def bt_get_def KEY_def)
  have 4: "''t'' \<in> set (placeholders ''tag = $t'')" by code_simp
  from accepted_view_has_no_holes [OF 1 2 3 sample_bound [of sample_world plain_unicode "[]" "[]" "[]" 0] 4] show ?thesis .
qed

end
