(* ===== verification/View_Filling.thy ===== *)
theory View_Filling
  imports View_Inputs
begin

text \<open>
  What filling a saved question with a call's values leaves (\<open>with_inputs\<close> of
  \<open>memory/filter/expression.rs\<close>): the line it writes reads back, token for token, as the question with
  each bound input one value.  The lexer is followed through the writing, a token at a time.
\<close>

section \<open>What a filled line reads as\<close>

text \<open>
  A Rust \<open>str\<close> never starts inside a character; \<open>str_ok\<close> says so of its bytes.  A token is \<open>token_ok\<close> when
  writing it out and reading it again gives it back.
\<close>

definition str_ok :: "string \<Rightarrow> bool" where
  "str_ok s \<longleftrightarrow> s = [] \<or> \<not> is_cont (hd s)"

primrec token_ok :: "token_kind \<Rightarrow> bool" where
  "token_ok (TWord w) \<longleftrightarrow> w \<noteq> [] \<and> str_ok w \<and> (\<forall>c \<in> set (utf8_chars w). \<not> ends_a_word c)"
| "token_ok (TQuoted q) \<longleftrightarrow> [DQ] \<notin> set (utf8_chars q)"
| "token_ok TOpen \<longleftrightarrow> True"
| "token_ok TClose \<longleftrightarrow> True"
| "token_ok TComma \<longleftrightarrow> True"
| "token_ok TNot \<longleftrightarrow> True"
| "token_ok TAnd \<longleftrightarrow> True"
| "token_ok TOr \<longleftrightarrow> True"
| "token_ok TEquals \<longleftrightarrow> True"
| "token_ok TNotEquals \<longleftrightarrow> True"
| "token_ok TLess \<longleftrightarrow> True"
| "token_ok TLessOrEqual \<longleftrightarrow> True"
| "token_ok TGreater \<longleftrightarrow> True"
| "token_ok TGreaterOrEqual \<longleftrightarrow> True"

text \<open>The text lexes, wherever it starts, to tokens of these kinds.\<close>

definition reads_as :: "string \<Rightarrow> token_kind list \<Rightarrow> bool" where
  "reads_as s ks \<longleftrightarrow> (\<forall>i. \<exists>ts. lex_from i (utf8_chars s) = Inr ts \<and> map token_kind ts = ks)"

lemma reads_as_Nil: "reads_as [] []"
  by (simp add: reads_as_def)

lemma chars_ascii: "is_ascii c \<Longrightarrow> utf8_chars (c # s) = [c] # utf8_chars s"
  by simp

lemma space_chars: "utf8_chars (CHR '' '' # s) = '' '' # utf8_chars s"
  by (rule chars_ascii) (simp add: is_ascii_def)

lemma reads_as_space: "reads_as s ks \<Longrightarrow> reads_as (CHR '' '' # s) ks"
  unfolding reads_as_def space_chars by (simp add: is_ws_char_def ws_encodings_def del: utf8_chars.simps)

text \<open>What may follow a token so that it ends where it was written to end.\<close>

definition ends_before :: "string \<Rightarrow> bool" where
  "ends_before s \<longleftrightarrow> s = [] \<or> hd s \<in> {CHR '' '', CHR '','', CHR '')''}"

lemma ends_before_chars: "ends_before s \<Longrightarrow> s = [] \<or> (\<exists>c cs. utf8_chars s = [c] # cs \<and> c \<in> {CHR '' '', CHR '','', CHR '')''})"
  by (cases s) (auto simp: ends_before_def is_ascii_def)

lemma position_append_hit: "\<forall>x \<in> set xs. \<not> p x \<Longrightarrow> p y \<Longrightarrow> position p (xs @ y # ys) = Some (length xs)"
  by (induction xs) auto

lemma word_width:
  assumes "\<forall>c \<in> set cs. \<not> ends_a_word c" and "r = [] \<or> ends_a_word (hd r)"
  shows "(case position ends_a_word (cs @ r) of None \<Rightarrow> length (cs @ r) | Some w \<Rightarrow> w) = length cs"
proof (cases r)
  case Nil
  have "position ends_a_word cs = None" using assms(1) by (simp add: position_None)
  then show ?thesis using Nil by simp
next
  case (Cons c cs')
  then show ?thesis using assms by (simp add: position_append_hit)
qed

lemma lex_word:
  assumes "w \<noteq> []" and "\<forall>c \<in> set (utf8_chars w). \<not> ends_a_word c" and "r = [] \<or> ends_a_word (hd r)"
  shows "lex_from i (utf8_chars w @ r) =
     ok_then (lex_from (i + length (utf8_chars w)) r) (\<lambda>ts.
       Inr (\<lparr>token_kind = TWord w, token_position = i + 1, token_end = i + 1 + length (utf8_chars w)\<rparr> # ts))"
proof -
  obtain c cs where w: "utf8_chars w = c # cs" using assms(1) by (cases "utf8_chars w") auto
  have c: "\<not> ends_a_word c" using assms(2) w by simp
  have one: "lex_one (i + 1) c (cs @ r) = Inr (TWord w, length (utf8_chars w))"
  proof -
    have "(case position ends_a_word (c # cs @ r) of None \<Rightarrow> length (c # cs @ r) | Some v \<Rightarrow> v) = length (c # cs)"
      using word_width [OF assms(2,3), unfolded w append_Cons] by simp
    moreover have "concat (take (length (c # cs)) (c # cs @ r)) = w"
      using concat_utf8_chars [of w] w by simp
    moreover have "c \<noteq> ''(''" "c \<noteq> '')''" "c \<noteq> '',''" "c \<noteq> ''&''" "c \<noteq> ''|''" "c \<noteq> ''!''" "c \<noteq> ''<''" "c \<noteq> ''>''"
        "c \<noteq> ''=''" "c \<noteq> [DQ]"
      using c by (auto simp: ends_a_word_def word_enders_def)
    ultimately show ?thesis unfolding lex_one_def Let_def w by (simp only: if_False HOL.simp_thms append_Cons)
  qed
  have "\<not> is_ws_char c" using c by (simp add: ends_a_word_def)
  then show ?thesis using one by (simp add: w)
qed


lemma DQ_ascii: "is_ascii DQ"
  by (simp add: DQ_def is_ascii_def)

lemma lex_quoted:
  assumes "[DQ] \<notin> set (utf8_chars q)"
  shows "lex_from i ([DQ] # utf8_chars q @ [DQ] # r) =
     ok_then (lex_from (i + (length (utf8_chars q) + 2)) r) (\<lambda>ts.
       Inr (\<lparr>token_kind = TQuoted q, token_position = i + 1, token_end = i + 1 + (length (utf8_chars q) + 2)\<rparr> # ts))"
proof -
  have hit: "position (\<lambda>d. d = [DQ]) (utf8_chars q @ [DQ] # r) = Some (length (utf8_chars q))"
    using assms by (intro position_append_hit) auto
  have "lex_one (i + 1) [DQ] (utf8_chars q @ [DQ] # r) = Inr (TQuoted q, length (utf8_chars q) + 2)"
    unfolding lex_one_def Let_def hit by (simp add: DQ_def)
  moreover have "\<not> is_ws_char [DQ]" by (simp add: DQ_def is_ws_char_def ws_encodings_def)
  ultimately show ?thesis by simp
qed

lemma quoted_chars: "str_ok r \<Longrightarrow> utf8_chars (DQ # q @ DQ # r) = [DQ] # utf8_chars q @ [DQ] # utf8_chars r"
  using utf8_chars_append [of "DQ # r" q] DQ_ascii by (simp add: DQ_def is_cont_def)

lemma reads_as_quoted:
  assumes "[DQ] \<notin> set (utf8_chars q)" and "str_ok r" and "reads_as r ks"
  shows "reads_as (DQ # q @ DQ # r) (TQuoted q # ks)"
  unfolding reads_as_def quoted_chars [OF assms(2)] lex_quoted [OF assms(1)]
proof
  fix i
  obtain ts where "lex_from (i + (length (utf8_chars q) + 2)) (utf8_chars r) = Inr ts" "map token_kind ts = ks"
    using assms(3) unfolding reads_as_def by blast
  then show "\<exists>ts. ok_then (lex_from (i + (length (utf8_chars q) + 2)) (utf8_chars r)) (\<lambda>ts.
       Inr (\<lparr>token_kind = TQuoted q, token_position = i + 1, token_end = i + 1 + (length (utf8_chars q) + 2)\<rparr> # ts)) = Inr ts
       \<and> map token_kind ts = TQuoted q # ks"
    by simp
qed

lemma reads_as_word:
  assumes "token_ok (TWord w)" and "ends_before r" and "reads_as r ks"
  shows "reads_as (w @ r) (TWord w # ks)"
  unfolding reads_as_def
proof
  fix i
  have chars: "utf8_chars (w @ r) = utf8_chars w @ utf8_chars r"
    using assms(2) by (intro utf8_chars_append) (auto simp: ends_before_def is_cont_def)
  have after: "utf8_chars r = [] \<or> ends_a_word (hd (utf8_chars r))"
    using ends_before_chars [OF assms(2)]
    by (auto simp: ends_a_word_def word_enders_def is_ws_char_def ws_encodings_def)
  have w: "w \<noteq> []" "\<forall>c \<in> set (utf8_chars w). \<not> ends_a_word c" using assms(1) by auto
  obtain ts where "lex_from (i + length (utf8_chars w)) (utf8_chars r) = Inr ts" "map token_kind ts = ks"
    using assms(3) unfolding reads_as_def by blast
  then show "\<exists>ts. lex_from i (utf8_chars (w @ r)) = Inr ts \<and> map token_kind ts = TWord w # ks"
    unfolding chars lex_word [OF w after] by simp
qed

lemma plain_token_chars:
  "utf8_chars (''('' @ r) = ''('' # utf8_chars r" "utf8_chars ('')'' @ r) = '')'' # utf8_chars r"
  "utf8_chars ('','' @ r) = '','' # utf8_chars r" "utf8_chars (''!'' @ r) = ''!'' # utf8_chars r"
  "utf8_chars (''<'' @ r) = ''<'' # utf8_chars r" "utf8_chars (''>'' @ r) = ''>'' # utf8_chars r"
  "utf8_chars (''='' @ r) = ''='' # utf8_chars r"
  "utf8_chars (''&&'' @ r) = ''&'' # ''&'' # utf8_chars r" "utf8_chars (''||'' @ r) = ''|'' # ''|'' # utf8_chars r"
  "utf8_chars (''!='' @ r) = ''!'' # ''='' # utf8_chars r" "utf8_chars (''<='' @ r) = ''<'' # ''='' # utf8_chars r"
  "utf8_chars (''>='' @ r) = ''>'' # ''='' # utf8_chars r"
  by (simp_all add: is_ascii_def)

lemma plain_not_ws:
  "is_ws_char ''('' = False" "is_ws_char '')'' = False" "is_ws_char '','' = False" "is_ws_char ''!'' = False"
  "is_ws_char ''<'' = False" "is_ws_char ''>'' = False" "is_ws_char ''='' = False" "is_ws_char ''&'' = False"
  "is_ws_char ''|'' = False"
  by (simp_all add: is_ws_char_def ws_encodings_def)

lemma lex_one_plain:
  assumes "r = [] \<or> hd r \<noteq> ''=''"
  shows "lex_one p ''('' r = Inr (TOpen, 1)" "lex_one p '')'' r = Inr (TClose, 1)" "lex_one p '','' r = Inr (TComma, 1)"
    "lex_one p ''!'' r = Inr (TNot, 1)" "lex_one p ''<'' r = Inr (TLess, 1)" "lex_one p ''>'' r = Inr (TGreater, 1)"
    "lex_one p ''='' r = Inr (TEquals, 1)"
    "lex_one p ''&'' (''&'' # r) = Inr (TAnd, 2)" "lex_one p ''|'' (''|'' # r) = Inr (TOr, 2)"
    "lex_one p ''!'' (''='' # r) = Inr (TNotEquals, 2)" "lex_one p ''<'' (''='' # r) = Inr (TLessOrEqual, 2)"
    "lex_one p ''>'' (''='' # r) = Inr (TGreaterOrEqual, 2)"
  using assms by (cases r; simp add: lex_one_def Let_def)+

lemma two_minus: "drop (2 - 1) (c # r) = r" and drop_one: "drop (1 - 1) r = r"
  by simp_all

text \<open>Any token but a word or a quoted one, before anything but an \<open>=\<close>.\<close>

lemma reads_as_plain:
  assumes "\<forall>w. k \<noteq> TWord w" and "\<forall>q. k \<noteq> TQuoted q" and "r = [] \<or> hd r \<noteq> CHR ''=''" and "reads_as r ks"
  shows "reads_as (spelled k @ r) (k # ks)"
  unfolding reads_as_def
proof
  fix i
  have "utf8_chars r = [] \<or> hd (utf8_chars r) \<noteq> ''=''"
    using assms(3) by (cases r) auto
  note one = lex_one_plain [OF this]
  have 1: "\<exists>ts. lex_from (i + 1) (utf8_chars r) = Inr ts \<and> map token_kind ts = ks"
    and 2: "\<exists>ts. lex_from (i + 2) (utf8_chars r) = Inr ts \<and> map token_kind ts = ks"
    using assms(4) unfolding reads_as_def by blast+
  show "\<exists>ts. lex_from i (utf8_chars (spelled k @ r)) = Inr ts \<and> map token_kind ts = k # ks"
  proof (cases k)
    case (TWord w)
    then show ?thesis using assms(1) by simp
  next
    case (TQuoted q)
    then show ?thesis using assms(2) by simp
  qed (use 1 2 in \<open>simp_all only: spelled.simps plain_token_chars lex_from.simps one plain_not_ws ok_then_simps prod.case if_False
        diff_self_eq_0 drop_0 one_less_numeral_iff two_minus drop_one\<close>, auto)
qed

text \<open>
  The tokens of the question with its inputs in place: a bound input is one value, a term that uses an input
  left out is gone, and what is left is joined as it was.
\<close>

definition value_kind :: "string \<Rightarrow> token_kind" where
  "value_kind s = (if s = [] \<or> list_ex ends_a_word (utf8_chars s) then TQuoted s else TWord s)"

fun term_kinds :: "bound \<Rightarrow> nat \<Rightarrow> token list \<Rightarrow> token_kind list option" where
  "term_kinds b i [] = Some []"
| "term_kinds b i (t # ts) =
     (case filling b i (token_kind t) of
        Some None \<Rightarrow> None
      | Some (Some v) \<Rightarrow> map_option ((#) (value_kind (iv_text v))) (term_kinds b (i + 1) ts)
      | None \<Rightarrow> map_option ((#) (token_kind t)) (term_kinds b (i + 1) ts))"

fun glued :: "token_kind \<Rightarrow> token_kind list list \<Rightarrow> token_kind list" where
  "glued k [] = []"
| "glued k [ks] = ks"
| "glued k (ks # ls # r) = ks @ k # glued k (ls # r)"

fun node_kinds :: "bound \<Rightarrow> node \<Rightarrow> token_kind list option"
and parts_kinds :: "bound \<Rightarrow> node list \<Rightarrow> token_kind list list" where
  "node_kinds b (NTerm ws) = term_kinds b 0 ws"
| "node_kinds b (NNot n) = map_option ((#) TNot) (node_kinds b n)"
| "node_kinds b (NGroup n) = map_option (\<lambda>ks. TOpen # ks @ [TClose]) (node_kinds b n)"
| "node_kinds b (NAll parts) =
     (if parts_kinds b parts = [] then None else Some (glued TAnd (parts_kinds b parts)))"
| "node_kinds b (NAny parts) =
     (if parts_kinds b parts = [] then None else Some (glued TOr (parts_kinds b parts)))"
| "parts_kinds b [] = []"
| "parts_kinds b (n # ns) = list_of (node_kinds b n) @ parts_kinds b ns"

fun node_ok :: "node \<Rightarrow> bool"
and parts_ok :: "node list \<Rightarrow> bool" where
  "node_ok (NTerm ws) \<longleftrightarrow>
     (case ws of [] \<Rightarrow> False | t # _ \<Rightarrow> (\<exists>w. token_kind t = TWord w)) \<and> (\<forall>t \<in> set ws. token_ok (token_kind t))"
| "node_ok (NNot n) \<longleftrightarrow> node_ok n"
| "node_ok (NGroup n) \<longleftrightarrow> node_ok n"
| "node_ok (NAll parts) \<longleftrightarrow> parts_ok parts"
| "node_ok (NAny parts) \<longleftrightarrow> parts_ok parts"
| "parts_ok [] \<longleftrightarrow> True"
| "parts_ok (n # ns) \<longleftrightarrow> node_ok n \<and> parts_ok ns"

definition bound_ok :: "bound \<Rightarrow> bool" where
  "bound_ok b \<longleftrightarrow> (\<forall>(n, v) \<in> set b. \<forall>w. v = Some w \<longrightarrow> str_ok (iv_text w))"

lemma bound_ok_get: "bound_ok b \<Longrightarrow> bt_get b n = Some (Some v) \<Longrightarrow> str_ok (iv_text v)"
  by (auto simp: bound_ok_def bt_get_def dest: map_of_SomeD)

lemma DQ_in_chars: "[DQ] \<in> set (utf8_chars s) \<Longrightarrow> DQ \<in> set s"
  by (metis concat_utf8_chars UN_I list.set_intros(1) set_concat)

lemma as_a_value_kind:
  assumes "as_a_value s = Inr u" and "str_ok s"
  shows "u = spelled (value_kind s) \<and> token_ok (value_kind s) \<and> str_ok u"
  using assms DQ_in_chars [of s]
  by (auto simp: as_a_value_def value_kind_def list_ex_iff str_ok_def DQ_def is_cont_def split: if_splits)

lemma ends_before_str_ok: "ends_before s \<Longrightarrow> str_ok s"
  by (auto simp: ends_before_def str_ok_def is_cont_def)

lemma reads_as_any_token:
  assumes "token_ok k" and "ends_before r" and "reads_as r ks"
  shows "reads_as (spelled k @ r) (k # ks)"
proof -
  have eq: "r = [] \<or> hd r \<noteq> CHR ''=''" using assms(2) by (auto simp: ends_before_def)
  show ?thesis
  proof (cases k)
    case (TWord w)
    then show ?thesis using reads_as_word [of w r ks] assms by simp
  next
    case (TQuoted q)
    then show ?thesis using reads_as_quoted [of q r ks] assms ends_before_str_ok by simp
  qed (use reads_as_plain [OF _ _ eq assms(3), of k] in simp_all)
qed

text \<open>After an opening parenthesis a word may follow at once.\<close>

definition follows :: "token_kind option \<Rightarrow> string \<Rightarrow> bool" where
  "follows previous s \<longleftrightarrow>
     ends_before s \<or> previous = None \<or> previous = Some TOpen \<and> str_ok s"
lemma reads_as_open: "reads_as r ks \<Longrightarrow> reads_as (CHR ''('' # r) (TOpen # ks)"
  unfolding reads_as_def
proof
  fix i
  assume "\<forall>i. \<exists>ts. lex_from i (utf8_chars r) = Inr ts \<and> map token_kind ts = ks"
  then obtain ts where "lex_from (i + 1) (utf8_chars r) = Inr ts" "map token_kind ts = ks" by blast
  then show "\<exists>ts. lex_from i (utf8_chars (CHR ''('' # r)) = Inr ts \<and> map token_kind ts = TOpen # ks"
    using plain_token_chars(1) [of r] plain_not_ws(1) by (simp add: lex_one_def del: utf8_chars.simps)
qed

lemma reads_as_followed:
  assumes "token_ok k" and "follows (Some k) r" and "reads_as r ks"
  shows "reads_as (spelled k @ r) (k # ks)"
proof (cases "ends_before r")
  case True
  from assms(1) True assms(3) show ?thesis by (rule reads_as_any_token)
next
  case False
  then have "k = TOpen" using assms(2) by (auto simp: follows_def)
  then show ?thesis using reads_as_open assms(3) by simp
qed

lemma word_start: "token_ok (TWord w) \<Longrightarrow> hd w \<noteq> CHR ''=''"
proof
  assume w: "token_ok (TWord w)" "hd w = CHR ''=''"
  then obtain v where "w = CHR ''='' # v" by (cases w) auto
  then have "''='' \<in> set (utf8_chars w)" by (simp add: is_ascii_def)
  moreover have "ends_a_word ''=''" by (simp add: ends_a_word_def word_enders_def)
  ultimately show False using w by auto
qed

lemma spelled_str_ok: "token_ok k \<Longrightarrow> str_ok (spelled k)"
  by (cases k) (auto simp: str_ok_def is_cont_def DQ_def)

lemma spelled_nonempty: "token_ok k \<Longrightarrow> spelled k \<noteq> []"
  by (cases k) simp_all

lemma str_ok_append: "s \<noteq> [] \<Longrightarrow> str_ok (s @ t) \<longleftrightarrow> str_ok s"
  by (simp add: str_ok_def)

text \<open>What stands in the line for one token, and the kind it reads as.\<close>

lemma filled_words_step:
  assumes "filled_words b i previous (t # ts) = Inr (Some l)" and "token_ok (token_kind t)" and "bound_ok b"
  obtains k r where "token_ok k" and "l = (if tight (token_kind t) previous then [] else '' '') @ spelled k @ r"
    and "filled_words b (i + 1) (Some (token_kind t)) ts = Inr (Some r)"
    and "term_kinds b i (t # ts) = map_option ((#) k) (term_kinds b (i + 1) ts)"
    and "k = token_kind t \<or> (\<exists>w. token_kind t = TWord w) \<and> i > 0"
proof (cases "filling b i (token_kind t)")
  case None
  then obtain r where "filled_words b (i + 1) (Some (token_kind t)) ts = Inr (Some r)"
      "l = (if tight (token_kind t) previous then [] else '' '') @ spelled (token_kind t) @ r"
    using assms(1) by (auto simp: Let_def ok_then_Inr)
  then show ?thesis using None assms(2) by (intro that [of "token_kind t" r]) simp_all
next
  case (Some v)
  have w: "\<exists>w. token_kind t = TWord w" "i > 0"
    using Some by (cases "token_kind t"; simp add: filling_def split: if_splits)+
  obtain v' where v: "v = Some v'" using assms(1) Some by (cases v) (auto simp: Let_def)
  then obtain s where s: "as_a_value (iv_text v') = Inr s"
    using assms(1) Some by (auto simp: Let_def ok_then_Inr)
  have "str_ok (iv_text v')"
    using Some v assms(3) by (auto simp: filling_def bind_eq_Some_conv split: if_splits dest: bound_ok_get)
  note kind = as_a_value_kind [OF s this]
  obtain r where "filled_words b (i + 1) (Some (token_kind t)) ts = Inr (Some r)"
      "l = (if tight (token_kind t) previous then [] else '' '') @ s @ r"
    using assms(1) Some v s by (auto simp: Let_def ok_then_Inr)
  then show ?thesis using Some v kind w by (intro that [of "value_kind (iv_text v')" r]) simp_all
qed

lemma filled_words_follow:
  assumes "filled_words b i previous ws = Inr (Some l)" and "\<forall>t \<in> set ws. token_ok (token_kind t)"
    and "bound_ok b" and "ends_before u"
  shows "follows previous (l @ u)"
proof (cases ws)
  case Nil
  then show ?thesis using assms by (simp add: follows_def)
next
  case (Cons t ts)
  have ok: "token_ok (token_kind t)" using assms(2) Cons by simp
  from filled_words_step [OF assms(1) [unfolded Cons] ok assms(3)] obtain k r where
    k: "token_ok k" "l = (if tight (token_kind t) previous then [] else '' '') @ spelled k @ r"
      "k = token_kind t \<or> (\<exists>w. token_kind t = TWord w) \<and> i > 0" .
  show ?thesis
  proof (cases "tight (token_kind t) previous")
    case False
    then show ?thesis using k by (simp add: follows_def ends_before_def)
  next
    case True
    then consider "previous = None" | "previous = Some TOpen" | "token_kind t = TComma" | "token_kind t = TClose"
      by (auto simp: tight_def)
    then show ?thesis
    proof cases
      case 2
      then show ?thesis
        using k True spelled_str_ok spelled_nonempty by (simp add: follows_def str_ok_append)
    qed (use k True in \<open>auto simp: follows_def ends_before_def\<close>)
  qed
qed

lemma filled_words_reads:
  assumes "filled_words b i previous ws = Inr (Some l)" and "\<forall>t \<in> set ws. token_ok (token_kind t)"
    and "bound_ok b" and "ends_before u" and "reads_as u ks"
  shows "\<exists>ms. term_kinds b i ws = Some ms \<and> reads_as (l @ u) (ms @ ks)"
  using assms
proof (induction ws arbitrary: i previous l)
  case Nil
  then show ?case by simp
next
  case (Cons t ts)
  have ok: "token_ok (token_kind t)" using Cons.prems(2) by simp
  from filled_words_step [OF Cons.prems(1) ok assms(3)] obtain k r where
    k: "token_ok k" "l = (if tight (token_kind t) previous then [] else '' '') @ spelled k @ r"
      "filled_words b (i + 1) (Some (token_kind t)) ts = Inr (Some r)"
      "term_kinds b i (t # ts) = map_option ((#) k) (term_kinds b (i + 1) ts)"
      "k = token_kind t \<or> (\<exists>w. token_kind t = TWord w) \<and> i > 0" .
  obtain ms where ms: "term_kinds b (i + 1) ts = Some ms" "reads_as (r @ u) (ms @ ks)"
    using Cons.IH [OF k(3)] Cons.prems by auto
  have "follows (Some (token_kind t)) (r @ u)"
    using filled_words_follow [OF k(3)] Cons.prems by simp
  then have "follows (Some k) (r @ u)" using k(5) by (auto simp: follows_def)
  then have "reads_as (spelled k @ r @ u) (k # ms @ ks)" using reads_as_followed k(1) ms(2) by blast
  then show ?case using k(2,4) ms(1) reads_as_space by auto
qed

lemma filled_words_dropped:
  "filled_words b i previous ws = Inr None \<Longrightarrow> term_kinds b i ws = None"
  by (induction ws arbitrary: i previous) (auto simp: Let_def ok_then_Inr split: option.splits)

text \<open>A line that stands for something starts like a term.\<close>

definition starts_a_term :: "string \<Rightarrow> bool" where
  "starts_a_term l \<longleftrightarrow> l \<noteq> [] \<and> str_ok l \<and> hd l \<noteq> CHR ''=''"

lemma filled_term_starts:
  assumes "filled_term b ws = Inr (Some l)" and "node_ok (NTerm ws)" and "bound_ok b"
  shows "starts_a_term l"
proof -
  obtain t ts w where ws: "ws = t # ts" "token_kind t = TWord w" using assms(2) by (auto split: list.splits)
  have ok: "token_ok (token_kind t)" using assms(2) ws(1) by simp
  obtain k r where k: "token_ok k" "l = (if tight (token_kind t) None then [] else '' '') @ spelled k @ r"
      "k = token_kind t \<or> (\<exists>w. token_kind t = TWord w) \<and> (0::nat) > 0"
    using filled_words_step [OF assms(1) [unfolded filled_term_def ws(1)] ok assms(3)] by metis
  then have "l = w @ r" "w \<noteq> []" "str_ok w" using ws(2) by (auto simp: tight_def)
  moreover have "hd w \<noteq> CHR ''=''" using word_start ok ws(2) by simp
  ultimately show ?thesis by (simp add: starts_a_term_def str_ok_def)
qed

text \<open>A line that reads as these tokens, whatever ends it.\<close>

definition line_reads :: "string \<Rightarrow> token_kind list \<Rightarrow> bool" where
  "line_reads l ms \<longleftrightarrow> starts_a_term l \<and> (\<forall>u ks. ends_before u \<longrightarrow> reads_as u ks \<longrightarrow> reads_as (l @ u) (ms @ ks))"

lemma line_readsD: "line_reads l ms \<Longrightarrow> ends_before u \<Longrightarrow> reads_as u ks \<Longrightarrow> reads_as (l @ u) (ms @ ks)"
  by (simp add: line_reads_def)

lemma line_reads_not: "line_reads l ms \<Longrightarrow> line_reads (''!'' @ l) (TNot # ms)"
  using reads_as_plain [of TNot] by (auto simp: line_reads_def starts_a_term_def str_ok_def is_cont_def)

lemma line_reads_group:
  assumes "line_reads l ms"
  shows "line_reads (''('' @ l @ '')'') (TOpen # ms @ [TClose])"
  unfolding line_reads_def
proof (intro conjI allI impI)
  show "starts_a_term (''('' @ l @ '')'')" by (simp add: starts_a_term_def str_ok_def is_cont_def)
next
  fix u ks
  assume u: "ends_before u" "reads_as u ks"
  have "reads_as ('')'' @ u) (TClose # ks)" using reads_as_any_token [of TClose u ks] u by simp
  then have "reads_as (l @ '')'' @ u) (ms @ TClose # ks)"
    by (intro line_readsD [OF assms]) (simp_all add: ends_before_def)
  from reads_as_open [OF this] show "reads_as ((''('' @ l @ '')'') @ u) ((TOpen # ms @ [TClose]) @ ks)" by simp
qed

lemma line_reads_join:
  assumes "list_all2 line_reads ls mss" and "ls \<noteq> []" and "k = TAnd \<or> k = TOr"
  shows "line_reads (join (CHR '' '' # spelled k @ '' '') ls) (glued k mss)"
  using assms
proof (induction k mss arbitrary: ls rule: glued.induct)
  case (1 k)
  then show ?case by simp
next
  case (2 k ms)
  then obtain l where "ls = [l]" "line_reads l ms" by (cases ls) (auto simp: list_all2_Cons2)
  then show ?case by simp
next
  case (3 k ms ms' r)
  then obtain l l' ls' where ls: "ls = l # l' # ls'" "line_reads l ms" "list_all2 line_reads (l' # ls') (ms' # r)"
    by (auto simp: list_all2_Cons2)
  define tl where "tl = join (CHR '' '' # spelled k @ '' '') (l' # ls')"
  have tail: "line_reads tl (glued k (ms' # r))"
    unfolding tl_def by (rule "3.IH") (use ls "3.prems" in simp_all)
  have line: "join (CHR '' '' # spelled k @ '' '') ls = l @ CHR '' '' # spelled k @ CHR '' '' # tl"
    unfolding ls(1) tl_def by simp
  show ?case
    unfolding line_reads_def line
  proof (intro conjI allI impI)
    show "starts_a_term (l @ CHR '' '' # spelled k @ CHR '' '' # tl)"
      using ls(2) by (auto simp: line_reads_def starts_a_term_def str_ok_def)
  next
    fix u ks
    assume u: "ends_before u" "reads_as u ks"
    have "reads_as (CHR '' '' # tl @ u) (glued k (ms' # r) @ ks)"
      by (rule reads_as_space) (rule line_readsD [OF tail u])
    then have "reads_as (spelled k @ CHR '' '' # tl @ u) (k # glued k (ms' # r) @ ks)"
      by (intro reads_as_plain) (use "3.prems"(3) in auto)
    from reads_as_space [OF this]
    have "reads_as (l @ CHR '' '' # spelled k @ CHR '' '' # tl @ u) (ms @ k # glued k (ms' # r) @ ks)"
      by (intro line_readsD [OF ls(2)]) (simp_all add: ends_before_def)
    then show "reads_as ((l @ CHR '' '' # spelled k @ CHR '' '' # tl) @ u) (glued k (ms # ms' # r) @ ks)" by simp
  qed
qed

lemma filled_reads:
  assumes "bound_ok b"
  shows "node_ok n \<Longrightarrow> filled b n = Inr v \<Longrightarrow>
      (case v of None \<Rightarrow> node_kinds b n = None | Some l \<Rightarrow> \<exists>ms. node_kinds b n = Some ms \<and> line_reads l ms)"
    and "parts_ok ns \<Longrightarrow> filled_parts b ns = Inr ls \<Longrightarrow> list_all2 line_reads ls (parts_kinds b ns)"
proof (induction n and ns arbitrary: v and ls rule: node_ok_parts_ok.induct)
  case (1 ws)
  show ?case
  proof (cases v)
    case None
    then show ?thesis using 1 filled_words_dropped by (simp add: filled_term_def)
  next
    case (Some l)
    have l: "filled_term b ws = Inr (Some l)" using 1 Some by simp
    have ws: "\<forall>t \<in> set ws. token_ok (token_kind t)" using 1 by simp
    obtain ms where ms: "term_kinds b 0 ws = Some ms"
      using filled_words_reads [OF l [unfolded filled_term_def] ws assms _ reads_as_Nil]
      by (auto simp: ends_before_def)
    have "reads_as (l @ u) (ms @ ks)" if "ends_before u" "reads_as u ks" for u ks
      using filled_words_reads [OF l [unfolded filled_term_def] ws assms that] ms by auto
    then show ?thesis using Some ms filled_term_starts [OF l 1(1) assms] by (simp add: line_reads_def)
  qed
next
  case (2 n)
  then obtain w where "filled b n = Inr w" "v = map_option ((@) ''!'') w" by (auto simp: ok_then_Inr)
  then show ?case using 2 line_reads_not by (cases w) fastforce+
next
  case (3 n)
  then obtain w where "filled b n = Inr w" "v = map_option (\<lambda>l. ''('' @ l @ '')'') w" by (auto simp: ok_then_Inr)
  then show ?case using 3 line_reads_group by (cases w) fastforce+
next
  case (4 parts)
  then obtain ls where ls: "filled_parts b parts = Inr ls" "v = (if ls = [] then None else Some (join '' && '' ls))"
    by (auto simp: ok_then_Inr)
  then have "list_all2 line_reads ls (parts_kinds b parts)" using 4 by simp
  then show ?case using line_reads_join [of ls "parts_kinds b parts" TAnd] ls(2) by auto
next
  case (5 parts)
  then obtain ls where ls: "filled_parts b parts = Inr ls" "v = (if ls = [] then None else Some (join '' || '' ls))"
    by (auto simp: ok_then_Inr)
  then have "list_all2 line_reads ls (parts_kinds b parts)" using 5 by simp
  then show ?case using line_reads_join [of ls "parts_kinds b parts" TOr] ls(2) by auto
next
  case 6
  then show ?case by simp
next
  case (7 n ns)
  then obtain v vs where v: "filled b n = Inr v" "filled_parts b ns = Inr vs" "ls = list_of v @ vs"
    by (auto simp: ok_then_Inr)
  then show ?case using 7 by (cases v) fastforce+
qed

section \<open>What the lexer and the shape give\<close>

text \<open>Every character of the text starts with a leading byte, as UTF-8 has it.\<close>

definition is_str :: "string \<Rightarrow> bool" where
  "is_str s \<longleftrightarrow> (\<forall>c \<in> set (utf8_chars s). \<not> is_cont (hd c))"

lemma hd_chars: "s \<noteq> [] \<Longrightarrow> hd (hd (utf8_chars s)) = hd s"
  by (cases s) auto

lemma is_str_ok: "is_str s \<Longrightarrow> str_ok s"
  using hd_chars [of s] by (cases "utf8_chars s") (auto simp: is_str_def str_ok_def)

lemma is_str_run: "is_str s \<Longrightarrow> is_str (concat (take n (utf8_chars s))) \<and> is_str (concat (drop n (utf8_chars s)))"
  by (auto simp: is_str_def utf8_chars_take utf8_chars_drop dest: in_set_takeD in_set_dropD)

lemma take_position: "position p xs = Some w \<Longrightarrow> \<forall>x \<in> set (take w xs). \<not> p x"
  by (induction xs arbitrary: w) (auto split: if_splits)

lemma lex_one_ok:
  assumes "lex_one p c cs = Inr (k, w)" and "utf8_chars s = c # cs" and "is_str s" and "\<not> is_ws_char c"
  shows "token_ok k"
proof -
  consider (plain) "\<forall>w. k \<noteq> TWord w" "\<forall>q. k \<noteq> TQuoted q"
    | (quoted) close where "position (\<lambda>d. d = [DQ]) cs = Some close" "k = TQuoted (concat (take close cs))"
    | (word) "\<not> ends_a_word c" "k = TWord (concat (take w (c # cs)))"
        "w = (case position ends_a_word (c # cs) of None \<Rightarrow> length (c # cs) | Some w \<Rightarrow> w)"
  proof (cases "ends_a_word c")
    case False
    then have "c \<noteq> ''(''" "c \<noteq> '')''" "c \<noteq> '',''" "c \<noteq> ''&''" "c \<noteq> ''|''" "c \<noteq> ''!''" "c \<noteq> ''<''" "c \<noteq> ''>''"
        "c \<noteq> ''=''" "c \<noteq> [DQ]"
      by (auto simp: ends_a_word_def word_enders_def)
    then have "k = TWord (concat (take w (c # cs)))"
        "w = (case position ends_a_word (c # cs) of None \<Rightarrow> length (c # cs) | Some w \<Rightarrow> w)"
      using assms(1) unfolding lex_one_def Let_def
      by (simp_all only: if_False HOL.simp_thms sum.inject prod.inject) (elim conjE, hypsubst, rule refl)
    then show ?thesis using False that(3) by blast
  next
    case True
    then have "c \<in> set word_enders" using assms(4) by (simp add: ends_a_word_def)
    then consider "c = [DQ]" | "c \<in> {''('', '')'', '','', ''&'', ''|'', ''!'', ''<'', ''>'', ''=''}"
      by (auto simp: word_enders_def)
    then show ?thesis
    proof cases
      case 1
      then show ?thesis
        using assms(1) that(2) by (auto simp: lex_one_def Let_def DQ_def split: option.split_asm)
    next
      case 2
      then show ?thesis
        using assms(1) that(1) by (auto simp: lex_one_def Let_def DQ_def split: if_split_asm)
    qed
  qed
  then show ?thesis
  proof cases
    case plain
    then show ?thesis by (cases k) auto
  next
    case quoted
    have "cs = drop 1 (utf8_chars s)" using assms(2) by simp
    then have "utf8_chars (concat (take close cs)) = take close cs" by (metis utf8_chars_drop utf8_chars_take)
    moreover have "[DQ] \<notin> set (take close cs)"
      using quoted(1) by (auto simp: position_Some in_set_conv_nth)
    ultimately show ?thesis using quoted(2) by simp
  next
    case word
    have chars: "utf8_chars (concat (take w (c # cs))) = take w (c # cs)" using utf8_chars_take [of w s] assms(2) by simp
    have "w \<noteq> 0" using word(1,3) by (auto split: option.splits)
    moreover have "\<forall>d \<in> set (take w (c # cs)). \<not> ends_a_word d"
      using word(3) position_None [of ends_a_word "c # cs"] take_position [of ends_a_word "c # cs"]
      by (cases "position ends_a_word (c # cs)") (simp_all del: position.simps)
    moreover have "str_ok (concat (take w (c # cs)))" using is_str_ok is_str_run assms(2,3) by metis
    moreover have "c \<noteq> []" using utf8_chars_nonempty [of c s] assms(2) by simp
    ultimately show ?thesis using chars by (cases w) (simp_all add: word(2))
  qed
qed

lemma lex_from_ok:
  "lex_from i cs = Inr ts \<Longrightarrow> cs = utf8_chars s \<Longrightarrow> is_str s \<Longrightarrow> \<forall>t \<in> set ts. token_ok (token_kind t)"
proof (induction i cs arbitrary: ts s rule: lex_from.induct)
  case (1 i)
  then show ?case by simp
next
  case (2 i c cs)
  have tail: "drop n cs = utf8_chars (concat (drop (Suc n) (utf8_chars s)))" "is_str (concat (drop (Suc n) (utf8_chars s)))" for n
    using 2(4,5) utf8_chars_drop [of "Suc n" s] is_str_run [of s "Suc n"] by (simp_all flip: 2(4))
  show ?case
  proof (cases "is_ws_char c")
    case True
    then show ?thesis using 2(1) [OF True, of ts] 2(3) tail [of 0] by simp
  next
    case False
    then obtain k w ts' where k: "lex_one (i + 1) c cs = Inr (k, w)"
        "lex_from (i + w) (drop (w - 1) cs) = Inr ts'" "ts = \<lparr>token_kind = k, token_position = i + 1, token_end = i + 1 + w\<rparr> # ts'"
      using 2(3) by (auto simp: ok_then_Inr)
    have "token_ok k" using lex_one_ok [OF k(1)] 2(4,5) False by metis
    then show ?thesis using 2(2) [OF False k(1) refl k(2) tail] k(3) by simp
  qed
qed

definition all_ok :: "token list \<Rightarrow> bool" where
  "all_ok ts \<longleftrightarrow> (\<forall>t \<in> set ts. token_ok (token_kind t))"

lemma all_ok_simps [simp]: "all_ok []" "all_ok (t # ts) \<longleftrightarrow> token_ok (token_kind t) \<and> all_ok ts"
    "all_ok (ts @ us) \<longleftrightarrow> all_ok ts \<and> all_ok us"
  by (auto simp: all_ok_def)

lemma take_value_ok: "take_value ts = Some (v, r) \<Longrightarrow> all_ok ts \<Longrightarrow> token_ok (token_kind v) \<and> all_ok r"
  by (auto simp: take_value_def split: list.splits token_kind.splits)

lemma take_close_ok: "take_close ts = Some (v, r) \<Longrightarrow> all_ok ts \<Longrightarrow> token_ok (token_kind v) \<and> all_ok r"
  by (auto simp: take_close_def split: list.splits if_splits)

lemma take_value_tail: "take_value (t # ts) = Some (v, r) \<Longrightarrow> v = t \<and> r = ts"
  by (auto simp: take_value_def split: token_kind.splits)

lemma take_items_ok: "take_items ts = Some (vs, r) \<Longrightarrow> all_ok ts \<Longrightarrow> all_ok vs \<and> all_ok r"
proof (induction ts arbitrary: vs r rule: take_items.induct)
  case (1 c t ts)
  show ?case
  proof (cases "token_kind c = TComma")
    case True
    then obtain v ts' vs' where v: "take_value (t # ts) = Some (v, ts')" "take_items ts = Some (vs', r)" "vs = c # v # vs'"
      using 1(2) by (auto simp: bind_eq_Some_conv)
    have "all_ok vs' \<and> all_ok r" using 1(1) [OF True v(1) refl v(2)] 1(3) by simp
    then show ?thesis using v(3) 1(3) take_value_tail [OF v(1)] by simp
  next
    case False
    then show ?thesis using 1(2,3) by simp
  qed
qed (auto split: if_splits)

lemma node_ok_term:
  "node_ok (NTerm (k # ts)) \<longleftrightarrow> (\<exists>w. token_kind k = TWord w) \<and> token_ok (token_kind k) \<and> all_ok ts"
  by (auto simp: all_ok_def)

lemma take_term_ok:
  assumes "take_term k ts = Some (n, r)" and "\<exists>w. token_kind k = TWord w" and "token_ok (token_kind k)" and "all_ok ts"
  shows "node_ok n \<and> all_ok r"
proof -
  have one: "node_ok n \<and> all_ok r"
    if a: "map_option (\<lambda>(v, r). (NTerm [k, t, v], r)) (take_value us) = Some (n, r)" "all_ok us" "token_ok (token_kind t)" for t us
  proof -
    obtain v where v: "take_value us = Some (v, r)" "n = NTerm [k, t, v]" using a(1) by auto
    show ?thesis using take_value_ok [OF v(1) a(2)] assms(2,3) a(3) unfolding v(2) node_ok_term by simp
  qed
  show ?thesis
  proof (cases ts)
    case Nil
    then show ?thesis using assms by (auto simp: take_term_def node_ok_term simp del: node_ok.simps)
  next
    case (Cons t us)
    have ok: "all_ok us" "token_ok (token_kind t)" using assms(4) Cons by simp_all
    consider (bare) "n = NTerm [k]" "r = ts"
      | (single) "map_option (\<lambda>(v, r). (NTerm [k, t, v], r)) (take_value us) = Some (n, r)"
      | (items) p us' where "us = p # us'" "Option.bind (take_value us') (\<lambda>(v, r).
             Option.bind (take_items r) (\<lambda>(vs, r).
             Option.bind (take_close r) (\<lambda>(q, r). Some (NTerm (k # t # p # v # vs @ [q]), r)))) = Some (n, r)"
      using assms(1) unfolding take_term_def Let_def Cons list.case by (auto split: if_split_asm list.split_asm)
    then show ?thesis
    proof cases
      case bare
      then show ?thesis using assms by (simp add: node_ok_term del: node_ok.simps)
    next
      case single
      then show ?thesis using one ok by blast
    next
      case (items p us')
      then obtain v r1 vs r2 q where v: "take_value us' = Some (v, r1)" "take_items r1 = Some (vs, r2)"
          "take_close r2 = Some (q, r)" "n = NTerm (k # t # p # v # vs @ [q])"
        by (auto simp: bind_eq_Some_conv)
      have p: "token_ok (token_kind p)" "all_ok us'" using ok(1) items(1) by simp_all
      note 1 = take_value_ok [OF v(1) p(2)]
      note 2 = take_items_ok [OF v(2) conjunct2 [OF 1]]
      note 3 = take_close_ok [OF v(3) conjunct2 [OF 2]]
      show ?thesis using 1 2 3 p(1) ok(2) assms(2,3) unfolding v(4) node_ok_term by simp
    qed
  qed
qed

lemma one_node_ok: "parts_ok (n # ns) \<Longrightarrow> node_ok (one_node (n # ns) NAll) \<and> node_ok (one_node (n # ns) NAny)"
  by (cases ns) (simp_all add: one_node_def)

lemma shape_ok:
  "shape_any d ts = Some (n, r) \<Longrightarrow> all_ok ts \<Longrightarrow> node_ok n \<and> all_ok r"
  "shape_more_any d ts = Some (ns, r) \<Longrightarrow> all_ok ts \<Longrightarrow> parts_ok ns \<and> all_ok r"
  "shape_all d ts = Some (n, r) \<Longrightarrow> all_ok ts \<Longrightarrow> node_ok n \<and> all_ok r"
  "shape_more_all d ts = Some (ns, r) \<Longrightarrow> all_ok ts \<Longrightarrow> parts_ok ns \<and> all_ok r"
  "shape_unary d ts = Some (n, r) \<Longrightarrow> all_ok ts \<Longrightarrow> node_ok n \<and> all_ok r"
proof (induction d ts and d ts and d ts and d ts and d ts
       arbitrary: n r and ns r and n r and ns r and n r
       rule: shape_any_shape_more_any_shape_all_shape_more_all_shape_unary.induct)
  case (1 d ts)
  from 1(3) obtain m r' ns where h: "shape_all d ts = Some (m, r')" "shape_more_any d r' = Some (ns, r)"
      "n = one_node (m # ns) NAny"
    by (auto simp: shape_any.simps bind_eq_Some_conv)
  note m = 1(1) [OF h(1) 1(4)]
  have "parts_ok ns \<and> all_ok r" by (rule 1(2) [OF h(1) refl h(2) conjunct2 [OF m]])
  then show ?case using m one_node_ok [of m ns] unfolding h(3) by simp
next
  case (3 d ts)
  from 3(3) obtain m r' ns where h: "shape_unary d ts = Some (m, r')" "shape_more_all d r' = Some (ns, r)"
      "n = one_node (m # ns) NAll"
    by (auto simp: shape_all.simps bind_eq_Some_conv)
  note m = 3(1) [OF h(1) 3(4)]
  have "parts_ok ns \<and> all_ok r" by (rule 3(2) [OF h(1) refl h(2) conjunct2 [OF m]])
  then show ?case using m one_node_ok [of m ns] unfolding h(3) by simp
next
  case (2 d ts)
  show ?case
  proof (cases "\<exists>t ts'. ts = t # ts' \<and> token_kind t = TOr")
    case True
    then obtain t ts' where ts: "ts = t # ts'" "token_kind t = TOr" by blast
    with 2(3) obtain m r' ns' where h: "shape_all d ts' = Some (m, r')" "shape_more_any d r' = Some (ns', r)" "ns = m # ns'"
      by (auto simp: shape_more_any.simps [of d "t # ts'"] bind_eq_Some_conv)
    have t: "\<not> token_kind t \<noteq> TOr" and ok: "all_ok ts'" using ts 2(4) by simp_all
    note m = 2(1) [OF ts(1) t h(1) ok]
    have "parts_ok ns' \<and> all_ok r" by (rule 2(2) [OF ts(1) t h(1) refl h(2) conjunct2 [OF m]])
    then show ?thesis using m unfolding h(3) by simp
  next
    case False
    then show ?thesis using 2(3,4) by (cases ts) (auto simp: shape_more_any.simps)
  qed
next
  case (4 d ts)
  show ?case
  proof (cases "\<exists>t ts'. ts = t # ts' \<and> token_kind t = TAnd")
    case True
    then obtain t ts' where ts: "ts = t # ts'" "token_kind t = TAnd" by blast
    with 4(3) obtain m r' ns' where h: "shape_unary d ts' = Some (m, r')" "shape_more_all d r' = Some (ns', r)" "ns = m # ns'"
      by (auto simp: shape_more_all.simps [of d "t # ts'"] bind_eq_Some_conv)
    have t: "\<not> token_kind t \<noteq> TAnd" and ok: "all_ok ts'" using ts 4(4) by simp_all
    note m = 4(1) [OF ts(1) t h(1) ok]
    have "parts_ok ns' \<and> all_ok r" by (rule 4(2) [OF ts(1) t h(1) refl h(2) conjunct2 [OF m]])
    then show ?thesis using m unfolding h(3) by simp
  next
    case False
    then show ?thesis using 4(3,4) by (cases ts) (auto simp: shape_more_all.simps)
  qed
next
  case (5 d ts)
  obtain t ts' where ts: "ts = t # ts'" and d: "\<not> d + 1 > MAX_DEPTH"
    using 5(3) by (cases ts) (auto simp: shape_unary.simps split: if_split_asm)
  then have d': "\<not> MAX_DEPTH < d + 1" by simp
  have ok: "all_ok ts'" "token_ok (token_kind t)" using 5(4) ts by simp_all
  show ?case
  proof (cases "token_kind t")
    case TOpen
    then obtain n1 r1 q where h: "shape_any (d + 1) ts' = Some (n1, r1)" "take_close r1 = Some (q, r)" "n = NGroup n1"
      using 5(3) ts d by (auto simp: shape_unary.simps bind_eq_Some_conv)
    note m = 5(1) [OF d' ts TOpen h(1) ok(1)]
    show ?thesis using m take_close_ok [OF h(2) conjunct2 [OF m]] unfolding h(3) by simp
  next
    case TNot
    then obtain n1 where h: "shape_unary (d + 1) ts' = Some (n1, r)" "n = NNot n1"
      using 5(3) ts d by (auto simp: shape_unary.simps bind_eq_Some_conv)
    show ?thesis using 5(2) [OF d' ts TNot h(1) ok(1)] unfolding h(2) by simp
  next
    case (TWord w)
    then have "take_term t ts' = Some (n, r)" using 5(3) ts d by (simp add: shape_unary.simps)
    then show ?thesis using take_term_ok TWord ok by blast
  qed (use 5(3) ts d in \<open>simp_all add: shape_unary.simps\<close>)
qed

text \<open>
  C23: Filling a saved question cannot change its shape: the line that comes out reads back as the question's
  own tokens, with each bound input one value whatever characters it holds, and the terms whose input
  was left out gone. No value a call sends becomes a connective, a parenthesis or a second term.
\<close>

theorem filling_cannot_change_the_question:
  assumes "is_str text" and "\<forall>n v. (n, Some v) \<in> set b \<longrightarrow> is_str (iv_text v)" and "b \<noteq> []"
    and "char_count text \<le> MAX_LENGTH" and "lex text = Inr toks" and "shape_any 0 toks = Some (tree, [])"
    and "with_inputs text b = Inr line"
  shows "map_option (\<lambda>l. map_sum id (map token_kind) (lex l)) line = map_option Inr (node_kinds b tree)"
proof -
  have "all_ok toks"
    using lex_from_ok [of 0 "utf8_chars text" toks "text"] assms(1,5) by (simp add: lex_def all_ok_def)
  then have tree: "node_ok tree" using shape_ok(1) [OF assms(6)] by simp
  have b: "bound_ok b" using assms(2) is_str_ok by (auto simp: bound_ok_def)
  have "filled b tree = Inr line" using assms(3-7) by (simp add: with_inputs_def)
  note reads = filled_reads(1) [OF b tree this]
  show ?thesis
  proof (cases line)
    case None
    then show ?thesis using reads by simp
  next
    case (Some l)
    then obtain ms where ms: "node_kinds b tree = Some ms" "line_reads l ms" using reads by auto
    have "reads_as (l @ []) (ms @ [])"
      using line_readsD [OF ms(2) _ reads_as_Nil] by (simp add: ends_before_def)
    then obtain ts where "lex l = Inr ts" "map token_kind ts = ms" unfolding reads_as_def lex_def by auto
    then show ?thesis using Some ms(1) by simp
  qed
qed

definition asked :: string where "asked = ''tag = $t && owner = $o''"

definition answered :: bound where
  "answered = [(''o'', None), (''t'', Some \<lparr>iv_text = ''a) || (b'', iv_handle = None\<rparr>)]"

definition asked_tokens :: "token list" where
  "asked_tokens = (case lex asked of Inr ts \<Rightarrow> ts | Inl _ \<Rightarrow> [])"

definition asked_tree :: node where
  "asked_tree = (case shape_any 0 asked_tokens of Some (n, _) \<Rightarrow> n | None \<Rightarrow> NTerm [])"

theorem filling_cannot_change_the_question_witness:
  "map_option (\<lambda>l. map_sum id (map token_kind) (lex l)) (Some (''tag = '' @ [DQ] @ ''a) || (b'' @ [DQ])) =
     map_option Inr (node_kinds answered asked_tree) \<and>
   node_kinds answered asked_tree = Some [TWord ''tag'', TEquals, TQuoted ''a) || (b'']"
proof -
  have 1: "is_str asked" by code_simp
  have 2: "\<forall>n v. (n, Some v) \<in> set answered \<longrightarrow> is_str (iv_text v)"
  proof -
    have "is_str ''a) || (b''" by code_simp
    then show ?thesis by (auto simp: answered_def)
  qed
  have 3: "answered \<noteq> []" by (simp add: answered_def)
  have 4: "char_count asked \<le> MAX_LENGTH" by code_simp
  have 5: "lex asked = Inr asked_tokens" by code_simp
  have 6: "shape_any 0 asked_tokens = Some (asked_tree, [])" by code_simp
  have 7: "with_inputs asked answered = Inr (Some (''tag = '' @ [DQ] @ ''a) || (b'' @ [DQ]))" by code_simp
  have "node_kinds answered asked_tree = Some [TWord ''tag'', TEquals, TQuoted ''a) || (b'']" by code_simp
  then show ?thesis using filling_cannot_change_the_question [OF 1 2 3 4 5 6 7] by blast
qed

end
