(* ===== verification/Type_Match.thy ===== *)
theory Type_Match
  imports Must_Rules View_Inputs
begin

text \<open>
  Declared types over records (\<open>memory/types.rs\<close>, \<open>memory/types/field_checks.rs\<close>): what a value type
  holds, what a field accepts, how a record answers a type, which declarations a store keeps, and the
  plan of the keys of a kind, whose two owners are the software and the caller.
\<close>

section \<open>What a value holds\<close>

fun split_once_on :: "string \<Rightarrow> string \<Rightarrow> (string \<times> string) option" where
  "split_once_on p [] = (if p = [] then Some ([], []) else None)"
| "split_once_on p (c # s) =
     (case strip_prefix p (c # s) of
        Some r \<Rightarrow> Some ([], r)
      | None \<Rightarrow> map_option (\<lambda>(a, b). (c # a, b)) (split_once_on p s))"

definition period_span :: "world \<Rightarrow> string \<Rightarrow> (int \<times> int) option" where
  "period_span W value =
     (case date_of_text W value of
        Some day \<Rightarrow> Some (day, day)
      | None \<Rightarrow>
          (case split_once_on ''-W'' value of
             None \<Rightarrow> None
           | Some (year, week) \<Rightarrow>
               if length year \<noteq> 4 \<or> length week \<noteq> 2 \<or> \<not> list_all is_digit year \<or> \<not> list_all is_digit week
               then None
               else Option.bind (iso_week_monday W (dec_value year) (dec_value week)) (\<lambda>monday.
                    map_option (Pair monday) (add_days W monday 6))))"

definition value_holds :: "world \<Rightarrow> int \<Rightarrow> value_type \<Rightarrow> string \<Rightarrow> bool" where
  "value_holds W y2k ty value =
     (let value = trim value in
      case ty of
        VText \<Rightarrow> True
      | VNumber \<Rightarrow> parse_f64 value \<noteq> None
      | VBoolean \<Rightarrow> value = ''true'' \<or> value = ''false''
      | VDate \<Rightarrow> date_of_text W value \<noteq> None
      | VDateRange \<Rightarrow>
          (case split_once CHR ''/'' value of
             None \<Rightarrow> False
           | Some (from, to) \<Rightarrow>
               (case (date_of_text W (trim from), date_of_text W (trim to)) of
                  (Some f, Some t) \<Rightarrow> f \<le> t | _ \<Rightarrow> False))
      | VPeriod \<Rightarrow> period_span W value \<noteq> None
      | VReference \<Rightarrow> entity_kind W value \<noteq> None
      | VExpression \<Rightarrow> (case reads_saved W y2k value of Inl _ \<Rightarrow> False | Inr _ \<Rightarrow> True))"

definition can_ask_for :: "world \<Rightarrow> int \<Rightarrow> compare \<Rightarrow> string \<Rightarrow> bool" where
  "can_ask_for W y2k c wanted =
     (case licensed_by c of None \<Rightarrow> True | Some h \<Rightarrow> value_holds W y2k h wanted)"

section \<open>What a field accepts\<close>

definition accepts_one :: "world \<Rightarrow> int \<Rightarrow> field \<Rightarrow> (string \<Rightarrow> kind option) \<Rightarrow> string \<Rightarrow> bool" where
  "accepts_one W y2k f kind_of value =
     (if \<not> value_holds W y2k (holds f) value then False
      else if (case one_of f of None \<Rightarrow> False | Some vs \<Rightarrow> trim value \<notin> set vs) then False
      else case points_at f of
             None \<Rightarrow> True
           | Some ks \<Rightarrow> (case kind_of value of None \<Rightarrow> False | Some k \<Rightarrow> k \<in> set ks))"

definition accepts_with_kind :: "world \<Rightarrow> int \<Rightarrow> field \<Rightarrow> (string \<Rightarrow> kind option) \<Rightarrow> string \<Rightarrow> bool" where
  "accepts_with_kind W y2k f kind_of value = list_all (accepts_one W y2k f kind_of) (field_items f value)"

definition field_accepts :: "world \<Rightarrow> int \<Rightarrow> field \<Rightarrow> string \<Rightarrow> bool" where
  "field_accepts W y2k f value = accepts_with_kind W y2k f (\<lambda>item. entity_kind W (trim item)) value"

definition field_needed :: "field \<Rightarrow> field" where
  "field_needed f = f\<lparr>required := True\<rparr>"

section \<open>How a record answers a type\<close>

record mistyped =
  mt_key :: string
  mt_declared :: value_type
  mt_points_at :: "kinds option"
  mt_one_of :: "string list option"
  mt_value :: string
  mt_required :: bool

definition wanted :: "mistyped \<Rightarrow> string" where
  "wanted m =
     (case mt_one_of m of
        Some vs \<Rightarrow> ''one of '' @ join '', '' vs
      | None \<Rightarrow>
          if mt_declared m = VPeriod then ''a day (YYYY-MM-DD) or an ISO week (YYYY-Www)''
          else case mt_points_at m of
                 Some ks \<Rightarrow> value_token (mt_declared m) @ '':'' @ kinds_token ks
               | None \<Rightarrow> value_token (mt_declared m))"

record type_match =
  tm_held :: "string list"
  tm_lacking :: "string list"
  tm_lacking_required :: "string list"
  tm_mistyped :: "mistyped list"

definition mistyped_of :: "field \<Rightarrow> string \<Rightarrow> mistyped" where
  "mistyped_of f value =
     \<lparr>mt_key = key f, mt_declared = holds f, mt_points_at = points_at f, mt_one_of = one_of f,
      mt_value = value, mt_required = required f\<rparr>"

definition match_step :: "world \<Rightarrow> int \<Rightarrow> fields \<Rightarrow> type_match \<Rightarrow> field \<Rightarrow> type_match" where
  "match_step W y2k rec m f =
     (case bt_get rec (key f) of
        Some value \<Rightarrow>
          m\<lparr>tm_held := tm_held m @ [key f],
            tm_mistyped := tm_mistyped m @ (if field_accepts W y2k f value then [] else [mistyped_of f value])\<rparr>
      | None \<Rightarrow>
          m\<lparr>tm_lacking := tm_lacking m @ [key f],
            tm_lacking_required := tm_lacking_required m @ (if required f then [key f] else [])\<rparr>)"

definition matched_by :: "world \<Rightarrow> int \<Rightarrow> declared_type \<Rightarrow> fields \<Rightarrow> type_match option" where
  "matched_by W y2k d rec =
     (let m = foldl (match_step W y2k rec)
                \<lparr>tm_held = [], tm_lacking = [], tm_lacking_required = [], tm_mistyped = []\<rparr> (type_fields d)
      in if tm_held m = [] then None else Some m)"

definition complete :: "type_match \<Rightarrow> bool" where
  "complete m \<longleftrightarrow> tm_lacking m = [] \<and> tm_mistyped m = []"

definition meets_the_floor :: "type_match \<Rightarrow> bool" where
  "meets_the_floor m \<longleftrightarrow> tm_lacking_required m = [] \<and> \<not> list_ex mt_required (tm_mistyped m)"

section \<open>Which declarations a store keeps\<close>

datatype label_error = EmptyLabel | LongLabel nat | NotOneLine

datatype unsatisfied = NoValues | NoValueOfItsType | CounterWithASet | CounterOfAnother

datatype type_error =
    BadTypeName label_error
  | BadMust must_error
  | NoKeys
  | BadKey string label_error
  | LongKey string nat
  | KeyTwice string
  | DescribingKeyFolds string
  | DescribesByCaller string
  | DescribesRequired string
  | BadSetValue string label_error
  | CommaInSet string string
  | ValueTwice string string
  | Unsatisfiable string unsatisfied
  | ShippedType string

definition label :: "string \<Rightarrow> label_error + unit" where
  "label value =
     (let value = trim value in
      if value = [] then Inl EmptyLabel
      else if char_count value > 190 then Inl (LongLabel (char_count value))
      else if list_ex (\<lambda>c. c = ''`'' \<or> is_control_char c) (utf8_chars value) then Inl NotOneLine
      else Inr ())"

definition unsatisfiable :: "world \<Rightarrow> int \<Rightarrow> field \<Rightarrow> unsatisfied option" where
  "unsatisfiable W y2k f =
     (if one_of f = Some [] then Some NoValues
      else if (case one_of f of None \<Rightarrow> False | Some vs \<Rightarrow> \<not> list_ex (value_holds W y2k (holds f)) vs)
        then Some NoValueOfItsType
      else if folds f = FSum then
        (if one_of f \<noteq> None then Some CounterWithASet
         else if holds f \<noteq> VNumber then Some CounterOfAnother
         else None)
      else None)"

definition at_label :: "(label_error \<Rightarrow> type_error) \<Rightarrow> string \<Rightarrow> type_error + unit" where
  "at_label e value = (case label value of Inl why \<Rightarrow> Inl (e why) | Inr _ \<Rightarrow> Inr ())"

fun check_set :: "string \<Rightarrow> string list \<Rightarrow> string list \<Rightarrow> type_error + unit" where
  "check_set k named [] = Inr ()"
| "check_set k named (v # vs) =
     ok_then (at_label (BadSetValue k) v) (\<lambda>_.
       if CHR '','' \<in> set v then Inl (CommaInSet k v)
       else if v \<in> set named then Inl (ValueTwice k v)
       else check_set k (named @ [v]) vs)"

definition check_field :: "world \<Rightarrow> int \<Rightarrow> origin \<Rightarrow> string list \<Rightarrow> field \<Rightarrow> type_error + unit" where
  "check_field W y2k by seen f =
     ok_then (at_label (BadKey (key f)) (key f)) (\<lambda>_.
     if char_count (key f) > MAX_KEY_CHARS then Inl (LongKey (key f) (char_count (key f)))
     else if key f \<in> set seen then Inl (KeyTwice (key f))
     else if key f \<in> set DESCRIBING_KEYS \<and> folds f \<noteq> FDescribes then Inl (DescribingKeyFolds (key f))
     else if folds f = FDescribes \<and> by \<noteq> Shipped then Inl (DescribesByCaller (key f))
     else if folds f = FDescribes \<and> required f then Inl (DescribesRequired (key f))
     else ok_then (case one_of f of None \<Rightarrow> Inr () | Some vs \<Rightarrow> check_set (key f) [] vs) (\<lambda>_.
       case unsatisfiable W y2k f of
         Some why \<Rightarrow> Inl (Unsatisfiable (key f) why)
       | None \<Rightarrow> Inr ()))"

fun check_fields :: "world \<Rightarrow> int \<Rightarrow> origin \<Rightarrow> string list \<Rightarrow> field list \<Rightarrow> type_error + unit" where
  "check_fields W y2k by seen [] = Inr ()"
| "check_fields W y2k by seen (f # fs) =
     ok_then (check_field W y2k by seen f) (\<lambda>_. check_fields W y2k by (seen @ [key f]) fs)"

definition validate_type :: "world \<Rightarrow> int \<Rightarrow> declared_type \<Rightarrow> type_error + unit" where
  "validate_type W y2k d =
     ok_then (at_label BadTypeName (type_name d)) (\<lambda>_.
     ok_then (case must d of
                None \<Rightarrow> Inr ()
              | Some rule \<Rightarrow> (case validate_must W y2k rule of Inl e \<Rightarrow> Inl (BadMust e) | Inr _ \<Rightarrow> Inr ())) (\<lambda>_.
       if type_fields d = [] then Inl NoKeys
       else check_fields W y2k (type_origin d) [] (type_fields d)))"

definition guard_replacement :: "declared_type \<Rightarrow> origin option \<Rightarrow> type_error + unit" where
  "guard_replacement incoming held =
     (if type_origin incoming = Declared \<and> held = Some Shipped then Inl (ShippedType (trim (type_name incoming)))
      else Inr ())"

section \<open>The keys of a kind\<close>

datatype kind_error = KindIsShipped string | KeyIsShipped string string

definition guard_kind_replacement :: "string \<Rightarrow> origin \<Rightarrow> origin option \<Rightarrow> bool \<Rightarrow> kind_error + unit" where
  "guard_kind_replacement token incoming held names_keys =
     (if incoming = Declared \<and> held = Some Shipped \<and> \<not> names_keys then Inl (KindIsShipped token) else Inr ())"

record held_kind_key =
  hk_key :: string
  hk_origin :: origin

record planned_kind_key =
  pk_key :: string
  pk_origin :: origin
  pk_written :: "field option"

record kind_keys_plan =
  kp_rows :: "planned_kind_key list"
  kp_replaced :: "string list"

definition written_by :: "origin \<Rightarrow> field list \<Rightarrow> planned_kind_key list" where
  "written_by by fs = map (\<lambda>f. \<lparr>pk_key = key f, pk_origin = by, pk_written = Some f\<rparr>) fs"

definition kept :: "held_kind_key \<Rightarrow> planned_kind_key" where
  "kept row = \<lparr>pk_key = hk_key row, pk_origin = hk_origin row, pk_written = None\<rparr>"

definition plan_kind_keys ::
  "string \<Rightarrow> origin \<Rightarrow> field list \<Rightarrow> held_kind_key list \<Rightarrow> kind_error + kind_keys_plan" where
  "plan_kind_keys token incoming fs held =
     (let named = (\<lambda>k. list_ex (\<lambda>f. key f = k) fs) in
      case incoming of
        Shipped \<Rightarrow>
          (let added = filter (\<lambda>row. hk_origin row = Declared) held in
           Inr \<lparr>kp_rows = written_by Shipped fs @ map kept (filter (\<lambda>row. \<not> named (hk_key row)) added),
                kp_replaced = map hk_key (filter (\<lambda>row. named (hk_key row)) added)\<rparr>)
      | Declared \<Rightarrow>
          (let shipped = filter (\<lambda>row. hk_origin row = Shipped) held in
           case find (\<lambda>f. list_ex (\<lambda>row. hk_key row = key f) shipped) fs of
             Some clash \<Rightarrow> Inl (KeyIsShipped token (key clash))
           | None \<Rightarrow> Inr \<lparr>kp_rows = map kept shipped @ written_by Declared fs, kp_replaced = []\<rparr>))"

section \<open>How a record answers, in one reading\<close>

definition wrong_in :: "world \<Rightarrow> int \<Rightarrow> fields \<Rightarrow> field \<Rightarrow> mistyped option" where
  "wrong_in W y2k rec f =
     (case bt_get rec (key f) of
        None \<Rightarrow> None
      | Some v \<Rightarrow> if field_accepts W y2k f v then None else Some (mistyped_of f v))"

lemma match_fold:
  "foldl (match_step W y2k rec) m fs =
     \<lparr>tm_held = tm_held m @ map key (filter (\<lambda>f. has_key rec (key f)) fs),
      tm_lacking = tm_lacking m @ map key (filter (\<lambda>f. \<not> has_key rec (key f)) fs),
      tm_lacking_required = tm_lacking_required m @ map key (filter (\<lambda>f. required f \<and> \<not> has_key rec (key f)) fs),
      tm_mistyped = tm_mistyped m @ List.map_filter (wrong_in W y2k rec) fs\<rparr>"
  by (induction fs arbitrary: m)
    (auto simp: match_step_def has_key_def wrong_in_def map_filter_simps split: option.splits)

lemma matched_by_eq:
  "matched_by W y2k d rec =
     (if \<forall>f \<in> set (type_fields d). \<not> has_key rec (key f) then None
      else Some
        \<lparr>tm_held = map key (filter (\<lambda>f. has_key rec (key f)) (type_fields d)),
         tm_lacking = map key (filter (\<lambda>f. \<not> has_key rec (key f)) (type_fields d)),
         tm_lacking_required = map key (filter (\<lambda>f. required f \<and> \<not> has_key rec (key f)) (type_fields d)),
         tm_mistyped = List.map_filter (wrong_in W y2k rec) (type_fields d)\<rparr>)"
  by (simp add: matched_by_def match_fold Let_def filter_empty_conv)

definition answers_well :: "world \<Rightarrow> int \<Rightarrow> fields \<Rightarrow> field \<Rightarrow> bool" where
  "answers_well W y2k rec f = (case bt_get rec (key f) of None \<Rightarrow> False | Some v \<Rightarrow> field_accepts W y2k f v)"

lemma wrong_in_required:
  "(\<exists>m \<in> set (List.map_filter (wrong_in W y2k rec) fs). mt_required m) \<longleftrightarrow>
     (\<exists>f \<in> set fs. required f \<and> has_key rec (key f) \<and> \<not> answers_well W y2k rec f)"
  by (fastforce simp: map_filter_set wrong_in_def answers_well_def has_key_def mistyped_of_def split: option.splits if_splits)

lemma wrong_in_none:
  "List.map_filter (wrong_in W y2k rec) fs = [] \<longleftrightarrow> (\<forall>f \<in> set fs. has_key rec (key f) \<longrightarrow> answers_well W y2k rec f)"
  by (induction fs) (auto simp: map_filter_simps wrong_in_def answers_well_def has_key_def split: option.splits)

text \<open>The two questions a match answers, over the fields the type names.\<close>

lemma complete_iff:
  "(case matched_by W y2k d rec of None \<Rightarrow> False | Some m \<Rightarrow> complete m) \<longleftrightarrow>
     type_fields d \<noteq> [] \<and> (\<forall>f \<in> set (type_fields d). answers_well W y2k rec f)"
  by (auto simp: matched_by_eq complete_def wrong_in_none filter_empty_conv answers_well_def has_key_def
      split: option.splits)

lemma meets_the_floor_iff:
  "(case matched_by W y2k d rec of None \<Rightarrow> False | Some m \<Rightarrow> meets_the_floor m) \<longleftrightarrow>
     (\<exists>f \<in> set (type_fields d). has_key rec (key f)) \<and>
     (\<forall>f \<in> set (type_fields d). required f \<longrightarrow> answers_well W y2k rec f)"
proof (cases "\<exists>f \<in> set (type_fields d). has_key rec (key f)")
  case True
  have "\<not> list_ex mt_required (List.map_filter (wrong_in W y2k rec) (type_fields d)) \<longleftrightarrow>
      (\<forall>f \<in> set (type_fields d). required f \<longrightarrow> has_key rec (key f) \<longrightarrow> answers_well W y2k rec f)"
    unfolding list_ex_iff wrong_in_required by blast
  moreover have "answers_well W y2k rec f \<Longrightarrow> has_key rec (key f)" for f
    by (auto simp: answers_well_def has_key_def split: option.splits)
  ultimately show ?thesis
    using True by (auto simp: matched_by_eq meets_the_floor_def filter_empty_conv)
next
  case False
  then show ?thesis by (auto simp: matched_by_eq)
qed

text \<open>
  The strict reader and the floor a write is held to are the two readings the code means: a record
  is complete in a type exactly when it holds every key the type names, well; it meets the floor when it
  holds one of them and holds every required one well.
\<close>

theorem match_is_every_key_held_well:
  "(case matched_by W y2k d rec of None \<Rightarrow> False | Some m \<Rightarrow> complete m) =
     (type_fields d \<noteq> [] \<and> list_all (answers_well W y2k rec) (type_fields d)) \<and>
   (case matched_by W y2k d rec of None \<Rightarrow> False | Some m \<Rightarrow> meets_the_floor m) =
     (list_ex (\<lambda>f. has_key rec (key f)) (type_fields d) \<and>
      list_all (answers_well W y2k rec) (filter required (type_fields d)))"
  unfolding complete_iff meets_the_floor_iff by (auto simp: list_all_iff list_ex_iff)

section \<open>Two owners of a kind's keys\<close>

text \<open>
  A declaration of a kind's keys touches its own owner's keys only: every key is planned once, the
  incoming keys are all there, each key of the other owner is kept as it is, and the only ones that are
  not are a caller's keys the software now ships, which are named.
\<close>

theorem plan_keeps_each_owner:
  assumes "plan_kind_keys token incoming fs held = Inr p"
    and "distinct (map key fs)" and "distinct (map hk_key held)"
  shows "distinct (map pk_key (kp_rows p)) \<and>
     filter (\<lambda>row. pk_origin row = incoming) (kp_rows p) = written_by incoming fs \<and>
     filter (\<lambda>row. pk_origin row \<noteq> incoming) (kp_rows p) =
       map kept (filter (\<lambda>row. hk_origin row \<noteq> incoming \<and> hk_key row \<notin> set (kp_replaced p)) held) \<and>
     set (kp_replaced p) \<subseteq> key ` set fs"
proof (cases incoming)
  case Shipped
  have keys: "map pk_key (written_by b fs) = map key fs" "map pk_key (map kept rs) = map hk_key rs" for b rs
    by (simp_all add: written_by_def kept_def)
  have p: "kp_rows p = written_by Shipped fs @ map kept (filter (\<lambda>row. \<not> list_ex (\<lambda>f. key f = hk_key row) fs)
            (filter (\<lambda>row. hk_origin row = Declared) held))"
    "kp_replaced p = map hk_key (filter (\<lambda>row. list_ex (\<lambda>f. key f = hk_key row) fs)
            (filter (\<lambda>row. hk_origin row = Declared) held))"
    using assms(1) Shipped by (auto simp: plan_kind_keys_def Let_def)
  have 1: "distinct (map pk_key (kp_rows p))"
    unfolding p(1) map_append keys using assms(2,3)
    by (auto simp: distinct_map inj_on_def list_ex_iff)
  have named: "hk_key row \<in> set (kp_replaced p) \<longleftrightarrow> list_ex (\<lambda>f. key f = hk_key row) fs"
    if "row \<in> set held" "hk_origin row = Declared" for row
    using that unfolding p(2) by (auto simp: image_iff)
  have 2: "filter (\<lambda>row. pk_origin row = Shipped) (kp_rows p) = written_by Shipped fs"
    unfolding p(1) by (auto simp: written_by_def kept_def filter_empty_conv o_def filter_map)
  have 3: "filter (\<lambda>row. pk_origin row \<noteq> Shipped) (kp_rows p) =
       map kept (filter (\<lambda>row. hk_origin row = Declared \<and> hk_key row \<notin> set (kp_replaced p)) held)"
    unfolding p(1) using named
    by (auto simp: written_by_def filter_map o_def kept_def filter_empty_conv intro!: map_cong filter_cong)
  have other: "hk_origin row \<noteq> Shipped \<longleftrightarrow> hk_origin row = Declared" for row by (cases "hk_origin row") auto
  have 4: "set (kp_replaced p) \<subseteq> key ` set fs" unfolding p(2) by (auto simp: list_ex_iff image_iff) metis
  show ?thesis using 1 2 3 4 unfolding Shipped other by blast
next
  case Declared
  have keys: "map pk_key (written_by b fs) = map key fs" "map pk_key (map kept rs) = map hk_key rs" for b rs
    by (simp_all add: written_by_def kept_def)
  have none: "find (\<lambda>f. list_ex (\<lambda>row. hk_key row = key f) (filter (\<lambda>row. hk_origin row = Shipped) held)) fs = None"
    and p: "kp_rows p = map kept (filter (\<lambda>row. hk_origin row = Shipped) held) @ written_by Declared fs"
      "kp_replaced p = []"
    using assms(1) Declared by (auto simp: plan_kind_keys_def Let_def split: option.splits)
  have free: "\<forall>f \<in> set fs. \<forall>row \<in> set held. hk_origin row = Shipped \<longrightarrow> hk_key row \<noteq> key f"
    using none by (auto simp: find_None_iff list_ex_iff)
  have other: "hk_origin row \<noteq> Declared \<longleftrightarrow> hk_origin row = Shipped" for row by (cases "hk_origin row") auto
  have 1: "distinct (map pk_key (kp_rows p))"
    unfolding p(1) map_append keys using assms(2,3) free
    by (fastforce simp: distinct_map inj_on_def)
  have 2: "filter (\<lambda>row. pk_origin row = Declared) (kp_rows p) = written_by Declared fs"
    unfolding p(1) by (auto simp: written_by_def kept_def filter_empty_conv filter_map o_def)
  have 3: "filter (\<lambda>row. pk_origin row \<noteq> Declared) (kp_rows p) =
       map kept (filter (\<lambda>row. hk_origin row = Shipped) held)"
    unfolding p(1)
    by (auto simp: written_by_def filter_map o_def kept_def filter_empty_conv intro!: arg_cong [of _ _ "map kept"] filter_cong)
  show ?thesis using 1 2 3 p(2) unfolding Declared other by simp
qed

definition held_keys_now :: "held_kind_key list" where
  "held_keys_now =
     [\<lparr>hk_key = ''old'', hk_origin = Shipped\<rparr>, \<lparr>hk_key = ''mine'', hk_origin = Declared\<rparr>,
      \<lparr>hk_key = ''size'', hk_origin = Declared\<rparr>]"

theorem plan_keeps_each_owner_witness:
  "map kept [\<lparr>hk_key = ''mine'', hk_origin = Declared\<rparr>] =
     map kept (filter (\<lambda>row. hk_origin row \<noteq> Shipped \<and> hk_key row \<notin> {''size''}) held_keys_now)"
proof -
  define fs where "fs = [field_new ''name'' VText, field_new ''size'' VNumber]"
  define p where "p = \<lparr>kp_rows = written_by Shipped fs @ [kept \<lparr>hk_key = ''mine'', hk_origin = Declared\<rparr>], kp_replaced = [''size'']\<rparr>"
  have keys: "map key fs = [''name'', ''size'']" unfolding fs_def by code_simp
  have 1: "plan_kind_keys ''rhythm'' Shipped fs held_keys_now = Inr p"
    unfolding fs_def p_def by code_simp
  have 2: "distinct (map key fs)" "distinct (map hk_key held_keys_now)"
    unfolding keys by (simp_all add: held_keys_now_def)
  from plan_keeps_each_owner [OF 1 2] show ?thesis
    by (simp add: p_def written_by_def kept_def filter_empty_conv)
qed

section \<open>A key nothing could satisfy\<close>

lemma check_fields_each:
  "check_fields W y2k by seen fs = Inr u \<Longrightarrow> f \<in> set fs \<Longrightarrow> \<exists>seen'. check_field W y2k by seen' f = Inr ()"
  by (induction fs arbitrary: seen) (auto simp: ok_then_Inr)

lemma check_set_values:
  "check_set k named vs = Inr u \<Longrightarrow> v \<in> set vs \<Longrightarrow> trim v \<noteq> [] \<and> CHR '','' \<notin> set v"
  by (induction vs arbitrary: named)
    (auto simp: ok_then_Inr at_label_def label_def Let_def split: if_split_asm sum.split_asm)

lemma accepts_nothing_listed: "is_list f \<Longrightarrow> field_accepts W y2k f []"
  by (simp add: field_accepts_def accepts_with_kind_def field_items_def list_items_def)

text \<open>
  A key narrowed to a set of values can be written, when the declaration was accepted and the key is
  not also narrowed to a kind: some value is one the key accepts. The declaration is normalized first, as
  it is wherever one is stored, so the values of a set carry no outer white space.
\<close>

theorem accepted_set_can_be_written:
  assumes "validate_type W y2k (normalized d) = Inr u" and "f \<in> set (type_fields (normalized d))"
    and "one_of f = Some vs" and "points_at f = None"
  shows "\<exists>v \<in> set ([] # vs). field_accepts W y2k f v"
proof (cases "is_list f")
  case True
  then show ?thesis using accepts_nothing_listed by simp
next
  case False
  have "check_fields W y2k (type_origin d) [] (type_fields (normalized d)) = Inr u"
    using assms(1) by (auto simp: validate_type_def normalized_def ok_then_Inr split: if_split_asm)
  then obtain seen where f: "check_field W y2k (type_origin d) seen f = Inr ()"
    using check_fields_each assms(2) by blast
  then have "unsatisfiable W y2k f = None"
    by (auto simp: check_field_def ok_then_Inr split: if_split_asm option.split_asm)
  then obtain v where v: "v \<in> set vs" "value_holds W y2k (holds f) v"
    using assms(3) by (auto simp: unsatisfiable_def list_ex_iff split: if_split_asm)
  have "\<forall>w \<in> set vs. trim w = w"
    using assms(2,3) by (auto simp: normalized_def type_new_def)
  then have "trim v = v" using v(1) by blast
  then have "field_accepts W y2k f v"
    using v assms(3,4) False by (simp add: field_accepts_def accepts_with_kind_def accepts_one_def field_items_def)
  then show ?thesis using v(1) by auto
qed

definition door_type :: declared_type where
  "door_type = type_new ''door'' [field_one_of ''state'' [''open'', '' shut '']]"

theorem accepted_set_can_be_written_witness:
  "\<exists>v \<in> set [[], ''open'', ''shut'']. field_accepts sample_world 0 (field_one_of ''state'' [''open'', ''shut'']) v"
proof -
  have 1: "validate_type sample_world 0 (normalized door_type) = Inr ()" by code_simp
  have 2: "field_one_of ''state'' [''open'', ''shut''] \<in> set (type_fields (normalized door_type))"
  proof -
    have "type_fields (normalized door_type) = [field_one_of ''state'' [''open'', ''shut'']]" by code_simp
    then show ?thesis by simp
  qed
  have 3: "one_of (field_one_of ''state'' [''open'', ''shut'']) = Some [''open'', ''shut'']" by code_simp
  have 4: "points_at (field_one_of ''state'' [''open'', ''shut'']) = None" by (simp add: field_one_of_def field_new_def)
  from accepted_set_can_be_written [OF 1 2 3 4] show ?thesis .
qed

lemma unsatisfiable_any_kind: "unsatisfiable W y2k (f\<lparr>points_at := p\<rparr>) = unsatisfiable W y2k f"
  by (cases "one_of f") (simp_all add: unsatisfiable_def)

lemma check_fields_any_kind:
  "check_fields W y2k by_whom seen (map (\<lambda>f. f\<lparr>points_at := None\<rparr>) fs) = check_fields W y2k by_whom seen fs"
proof (induction fs arbitrary: seen)
  case (Cons f fs)
  have "check_field W y2k by_whom seen (f\<lparr>points_at := None\<rparr>) = check_field W y2k by_whom seen f"
    by (cases "one_of f"; cases "unsatisfiable W y2k f") (simp_all add: check_field_def unsatisfiable_any_kind)
  then show ?case using Cons by simp
qed simp

text \<open>
  C40: The check that a key can be satisfied does not ask the kind a reference points at: a single reference
  narrowed to kinds and to a set that names no thing of them takes no value at all, and still the type that
  declares it is accepted exactly when it would be with no kind asked of any of its keys.
\<close>

theorem narrowed_reference_takes_nothing:
  assumes "f \<in> set (type_fields d)" and "\<not> is_list f" and "points_at f = Some ks" and "one_of f = Some vs"
    and "\<forall>v \<in> set vs. \<forall>k \<in> set ks. entity_kind W v \<noteq> Some k"
  shows "(\<forall>v. \<not> field_accepts W y2k f v) \<and>
    validate_type W y2k d = validate_type W y2k (d\<lparr>type_fields := map (\<lambda>f. f\<lparr>points_at := None\<rparr>) (type_fields d)\<rparr>)"
proof
  show "\<forall>v. \<not> field_accepts W y2k f v"
    using assms(2-5)
    by (auto simp: field_accepts_def accepts_with_kind_def accepts_one_def field_items_def split: option.split)
  show "validate_type W y2k d = validate_type W y2k (d\<lparr>type_fields := map (\<lambda>f. f\<lparr>points_at := None\<rparr>) (type_fields d)\<rparr>)"
    by (simp add: validate_type_def check_fields_any_kind)
qed

theorem narrowed_reference_takes_nothing_witness:
  "validate_type sample_world 0 (type_new ''visit'' [(field_pointing_at ''host'' ''person'')\<lparr>one_of := Some [''place:home'']\<rparr>]) = Inr () \<and>
   (\<forall>v. \<not> field_accepts sample_world 0 ((field_pointing_at ''host'' ''person'')\<lparr>one_of := Some [''place:home'']\<rparr>) v)"
proof -
  let ?f = "(field_pointing_at ''host'' ''person'')\<lparr>one_of := Some [''place:home'']\<rparr>"
  have "?f \<in> set (type_fields (type_new ''visit'' [?f]))" "\<not> is_list ?f" "points_at ?f = Some [''person'']"
    by (simp_all add: type_new_def field_pointing_at_def field_new_def)
  moreover have "entity_kind sample_world ''place:home'' = Some ''place''" by code_simp
  moreover have "validate_type sample_world 0 (type_new ''visit'' [?f\<lparr>points_at := None\<rparr>]) = Inr ()" by code_simp
  moreover have "(type_new ''visit'' [?f])\<lparr>type_fields := map (\<lambda>f. f\<lparr>points_at := None\<rparr>) (type_fields (type_new ''visit'' [?f]))\<rparr> =
      type_new ''visit'' [?f\<lparr>points_at := None\<rparr>]" by (simp add: type_new_def)
  ultimately show ?thesis
    using narrowed_reference_takes_nothing [of ?f "type_new ''visit'' [?f]" "[''person'']" "[''place:home'']" sample_world 0]
    by simp
qed

end
