(* ===== verification/Recurrence.thy ===== *)
theory Recurrence
  imports Vocabulary
begin

text \<open>
  Calendar rules of a rhythm (\<open>recurrence.rs\<close>): what is refused of an RFC 5545 rule before the rule
  engine sees it, the first day after another, and the words a rule is shown as.  The engine is the crate
  \<open>rrule\<close>: whether it reads a rule anchored on a day, and the first day on or after another that the rule
  occurs on, are arguments.
\<close>

record rule_engine =
  rule_error :: "string \<Rightarrow> int \<Rightarrow> string option"         \<comment> \<open>why the rule, anchored on a day, does not parse\<close>
  first_from :: "string \<Rightarrow> int \<Rightarrow> int \<Rightarrow> int option"     \<comment> \<open>the first occurrence on or after a day\<close>
  unanchored :: int                                     \<comment> \<open>\<open>Date::constant(2000, 1, 3)\<close>\<close>
  date_max :: int                                       \<comment> \<open>\<open>Date::MAX\<close>\<close>
  date_min :: int                                       \<comment> \<open>\<open>Date::MIN\<close>\<close>

datatype rule_refused =
    Unparseable string
  | FinerThanADay string
  | EndsTheRule string
  | NotADateRule string
  | NeverOccurs "int option"

record recurrence =
  rc_rule :: string
  rc_anchor :: int

definition upper :: "char \<Rightarrow> char" where
  "upper c = (if CHR ''a'' \<le> c \<and> c \<le> CHR ''z'' then char_of (of_char c - (32 :: nat)) else c)"

definition to_ascii_uppercase :: "string \<Rightarrow> string" where
  "to_ascii_uppercase s = map upper s"

fun contains_text :: "string \<Rightarrow> string \<Rightarrow> bool" where
  "contains_text p [] \<longleftrightarrow> p = []"
| "contains_text p (c # s) \<longleftrightarrow> starts_with p (c # s) \<or> contains_text p s"

definition bare_rule :: "string \<Rightarrow> string" where
  "bare_rule rule =
     (let rule = trim rule in
      trim (case strip_prefix ''RRULE:'' rule of
              Some r \<Rightarrow> r
            | None \<Rightarrow> (case strip_prefix ''rrule:'' rule of Some r \<Rightarrow> r | None \<Rightarrow> rule)))"

fun check_parts :: "string list \<Rightarrow> rule_refused option" where
  "check_parts [] = None"
| "check_parts (part # parts) =
     (let (name, value) = (case split_once CHR ''='' part of Some nv \<Rightarrow> nv | None \<Rightarrow> (part, []));
          name = trim name; value = trim value
      in if name = ''COUNT'' then Some (EndsTheRule ''COUNT'')
         else if name = ''UNTIL'' then Some (EndsTheRule ''UNTIL'')
         else if name \<in> {''BYHOUR'', ''BYMINUTE'', ''BYSECOND''} then Some (NotADateRule name)
         else if name = ''FREQ'' \<and> value \<in> {''HOURLY'', ''MINUTELY'', ''SECONDLY''} then Some (FinerThanADay value)
         else check_parts parts)"

definition SECOND_LINE :: string where "SECOND_LINE = ''DTSTART, RDATE, EXDATE or a second line''"

definition recurrence_new :: "rule_engine \<Rightarrow> string \<Rightarrow> int \<Rightarrow> rule_refused + recurrence" where
  "recurrence_new E rule anchor =
     (let rule = bare_rule rule; up = to_ascii_uppercase rule in
      if CHR 0x0A \<in> set rule \<or> list_ex (\<lambda>p. contains_text p up) [''DTSTART'', ''EXDATE'', ''RDATE'', ''EXRULE'']
      then Inl (NotADateRule SECOND_LINE)
      else case check_parts (split_on CHR '';'' up) of
        Some why \<Rightarrow> Inl why
      | None \<Rightarrow>
          (case rule_error E rule anchor of
             Some reason \<Rightarrow> Inl (Unparseable reason)
           | None \<Rightarrow>
               if first_from E rule anchor anchor = None then Inl (NeverOccurs (Some anchor))
               else Inr \<lparr>rc_rule = rule, rc_anchor = anchor\<rparr>))"

definition recurrence_check :: "rule_engine \<Rightarrow> string \<Rightarrow> rule_refused + unit" where
  "recurrence_check E rule =
     (case recurrence_new E rule (unanchored E) of
        Inr _ \<Rightarrow> Inr ()
      | Inl why \<Rightarrow> Inl (case why of NeverOccurs _ \<Rightarrow> NeverOccurs None | other \<Rightarrow> other))"

definition first_after :: "world \<Rightarrow> rule_engine \<Rightarrow> recurrence \<Rightarrow> int \<Rightarrow> int option" where
  "first_after W E r day =
     (if rule_error E (rc_rule r) (rc_anchor r) \<noteq> None then None
      else Option.bind (add_days W day 1) (first_from E (rc_rule r) (rc_anchor r)))"

section \<open>A rule in words\<close>

definition joined :: "string list \<Rightarrow> string" where
  "joined items =
     (case items of
        [] \<Rightarrow> []
      | [only] \<Rightarrow> only
      | _ \<Rightarrow> join '', '' (butlast items) @ '' and '' @ last items)"

record rule_words =
  rw_unit :: "string option"
  rw_interval :: nat
  rw_monthdays :: "string list"
  rw_weekdays :: "string list"

definition unit_word :: "string \<Rightarrow> string option" where
  "unit_word value =
     (let v = to_ascii_uppercase value in
      if v = ''DAILY'' then Some ''day''
      else if v = ''WEEKLY'' then Some ''week''
      else if v = ''MONTHLY'' then Some ''month''
      else if v = ''YEARLY'' then Some ''year''
      else None)"

text \<open>A day of the month: \<open>-1\<close>, or \<open>1\<close> to \<open>31\<close>, parsed as an \<open>i32\<close>.\<close>

definition monthday_word :: "string \<Rightarrow> string option" where
  "monthday_word day =
     (let d = trim day in
      case strip_prefix ''-'' d of
        Some ds \<Rightarrow> if ds \<noteq> [] \<and> list_all is_digit ds \<and> dec_value ds = 1 then Some ''the last day'' else None
      | None \<Rightarrow>
          (case parse_unsigned 2147483647 d of
             None \<Rightarrow> None
           | Some n \<Rightarrow> if 1 \<le> n \<and> n \<le> 31 then Some (''day '' @ show_nat n) else None))"

definition weekday_word :: "string \<Rightarrow> string option" where
  "weekday_word day =
     map_of [(''MO'', ''Monday''), (''TU'', ''Tuesday''), (''WE'', ''Wednesday''), (''TH'', ''Thursday''),
             (''FR'', ''Friday''), (''SA'', ''Saturday''), (''SU'', ''Sunday'')]
       (to_ascii_uppercase (trim day))"

fun words_of_parts :: "rule_words \<Rightarrow> string list \<Rightarrow> rule_words option" where
  "words_of_parts rw [] = Some rw"
| "words_of_parts rw (part # parts) =
     (case split_once CHR ''='' part of
        None \<Rightarrow> None
      | Some (name, value) \<Rightarrow>
          (let name = to_ascii_uppercase (trim name); value = trim value in
           if name = ''FREQ'' then
             Option.bind (unit_word value) (\<lambda>u. words_of_parts (rw\<lparr>rw_unit := Some u\<rparr>) parts)
           else if name = ''INTERVAL'' then
             (case parse_unsigned u32_max value of
                None \<Rightarrow> None
              | Some n \<Rightarrow> if n \<ge> 1 then words_of_parts (rw\<lparr>rw_interval := n\<rparr>) parts else None)
           else if name = ''BYMONTHDAY'' then
             Option.bind (all_some (map monthday_word (split_on CHR '','' value)))
               (\<lambda>ds. words_of_parts (rw\<lparr>rw_monthdays := ds\<rparr>) parts)
           else if name = ''BYDAY'' then
             Option.bind (all_some (map weekday_word (split_on CHR '','' value)))
               (\<lambda>ds. words_of_parts (rw\<lparr>rw_weekdays := ds\<rparr>) parts)
           else None))"

definition words_of :: "string \<Rightarrow> string option" where
  "words_of rule =
     Option.bind (words_of_parts \<lparr>rw_unit = None, rw_interval = 1, rw_monthdays = [], rw_weekdays = []\<rparr>
                    (split_on CHR '';'' rule)) (\<lambda>rw.
     Option.bind (rw_unit rw) (\<lambda>u.
       let every = (if rw_interval rw = 1 then ''every '' @ u
                    else ''every '' @ show_nat (rw_interval rw) @ '' '' @ u @ ''s'')
       in if rw_monthdays rw \<noteq> [] \<and> rw_weekdays rw = [] \<and> u = ''month''
            then Some (''on '' @ joined (rw_monthdays rw) @ '' of '' @ every)
          else if rw_monthdays rw = [] \<and> rw_weekdays rw \<noteq> [] \<and> u = ''week''
            then Some (every @ '' on '' @ joined (rw_weekdays rw))
          else if rw_monthdays rw = [] \<and> rw_weekdays rw = [] then Some every
          else None))"

definition recurrence_describe :: "rule_engine \<Rightarrow> string \<Rightarrow> rule_refused + string" where
  "recurrence_describe E rule =
     (case recurrence_new E rule (unanchored E) of
        Inl why \<Rightarrow> Inl why
      | Inr r \<Rightarrow> Inr (case words_of (rc_rule r) of Some w \<Rightarrow> w | None \<Rightarrow> ''by the rule '' @ rc_rule r))"

lemma recurrence_new_anchor: "recurrence_new E rule anchor = Inr r \<Longrightarrow> rc_anchor r = anchor \<and> rc_rule r = bare_rule rule"
  by (auto simp: recurrence_new_def Let_def split: if_split_asm option.split_asm)

text \<open>What a rule the checks pass never says: an end, a time of day, a frequency under a day.\<close>

lemma check_parts_None:
  "check_parts parts = None \<Longrightarrow> part \<in> set parts \<Longrightarrow> split_once CHR ''='' part = Some (name, value) \<Longrightarrow>
     trim name \<notin> {''COUNT'', ''UNTIL'', ''BYHOUR'', ''BYMINUTE'', ''BYSECOND''} \<and>
     (trim name = ''FREQ'' \<longrightarrow> trim value \<notin> {''HOURLY'', ''MINUTELY'', ''SECONDLY''})"
  by (induction parts) (auto simp: Let_def split: option.split_asm prod.split_asm if_split_asm)

end
