(* ===== verification/Attention.thy ===== *)
theory Attention
  imports Type_Match Recurrence
begin

text \<open>
  When a thing asks for attention (\<open>attention.rs\<close>): the schedule a rhythm's fields say, what a check-in
  writes, what each carrier of a due day answers, the due day a store keeps beside a thing, and the
  changes of a schedule that are refused.  Days are the calendar's numbers; a sum of days past the last
  one is the last one, as \<open>unwrap_or(Date::MAX)\<close> has it.
\<close>

section \<open>Keys and words\<close>

definition CADENCE_DAYS :: string where "CADENCE_DAYS = ''cadence_days''"
definition RRULE :: string where "RRULE = ''rrule''"
definition ANCHORED_ON :: string where "ANCHORED_ON = ''anchored_on''"
definition ADVANCES_FROM :: string where "ADVANCES_FROM = ''advances_from''"
definition COUNTS_FROM :: string where "COUNTS_FROM = ''counts_from''"
definition SNOOZED_UNTIL :: string where "SNOOZED_UNTIL = ''snoozed_until''"
definition LAST_CHECK_IN :: string where "LAST_CHECK_IN = ''last_check_in''"
definition OUTCOME :: string where "OUTCOME = ''outcome''"
definition DUE_ON :: string where "DUE_ON = ''due_on''"
definition COMPUTED_KEYS :: "string list" where
  "COMPUTED_KEYS = [OUTCOME, LAST_CHECK_IN, COUNTS_FROM, DUE_ON]"
definition RUNS_OUT :: string where "RUNS_OUT = ''runs_out''"
definition DECIDE_BY :: string where "DECIDE_BY = ''decide_by''"
definition PROMISED_BY :: string where "PROMISED_BY = ''promised_by''"
definition ENDED :: string where "ENDED = ''ended''"

datatype outcome = Ran | Skipped | Snoozed

primrec outcome_token :: "outcome \<Rightarrow> string" where
  "outcome_token Ran = ''ran''"
| "outcome_token Skipped = ''skipped''"
| "outcome_token Snoozed = ''snoozed''"

definition outcome_of_token :: "string \<Rightarrow> outcome option" where
  "outcome_of_token token =
     (let t = trim token in
      if t = ''ran'' then Some Ran
      else if t = ''skipped'' then Some Skipped
      else if t = ''snoozed'' then Some Snoozed
      else None)"

primrec consumes_the_cycle :: "outcome \<Rightarrow> bool" where
  "consumes_the_cycle Ran \<longleftrightarrow> True"
| "consumes_the_cycle Skipped \<longleftrightarrow> True"
| "consumes_the_cycle Snoozed \<longleftrightarrow> False"

datatype advances_from = DueDate | CheckInDate

primrec advances_token :: "advances_from \<Rightarrow> string" where
  "advances_token DueDate = ''due_date''"
| "advances_token CheckInDate = ''check_in_date''"

definition advances_of_token :: "string \<Rightarrow> advances_from option" where
  "advances_of_token token =
     (let t = trim token in
      if t = ''due_date'' then Some DueDate
      else if t = ''check_in_date'' then Some CheckInDate
      else None)"

definition default_for :: "bool \<Rightarrow> advances_from" where
  "default_for is_calendar_rule = (if is_calendar_rule then DueDate else CheckInDate)"

record not_schedulable =
  ns_key :: string
  ns_held :: "string option"
  ns_accepts :: "string list"
  ns_would_open :: bool
  ns_also_holds :: "string option"

section \<open>Schedules\<close>

datatype cadence = Days int | Rule recurrence

record schedule =
  s_cadence :: cadence
  s_advances_from :: advances_from
  s_counts_from :: int
  s_snoozed_until :: "int option"

definition due_after :: "world \<Rightarrow> rule_engine \<Rightarrow> cadence \<Rightarrow> int \<Rightarrow> int" where
  "due_after W E c from =
     (case c of
        Days n \<Rightarrow> (case add_days W from n of Some d \<Rightarrow> d | None \<Rightarrow> date_max E)
      | Rule r \<Rightarrow> (case first_after W E r from of Some d \<Rightarrow> d | None \<Rightarrow> date_max E))"

definition default_advances_from :: "cadence \<Rightarrow> advances_from" where
  "default_advances_from c = default_for (case c of Rule _ \<Rightarrow> True | Days _ \<Rightarrow> False)"

definition cycle_due_on :: "world \<Rightarrow> rule_engine \<Rightarrow> schedule \<Rightarrow> int" where
  "cycle_due_on W E s = due_after W E (s_cadence s) (s_counts_from s)"

definition due_on :: "world \<Rightarrow> rule_engine \<Rightarrow> schedule \<Rightarrow> int" where
  "due_on W E s =
     (let own = cycle_due_on W E s in
      case s_snoozed_until s of None \<Rightarrow> own | Some until \<Rightarrow> max own until)"

definition overdue_on :: "world \<Rightarrow> rule_engine \<Rightarrow> schedule \<Rightarrow> int \<Rightarrow> bool" where
  "overdue_on W E s as_of \<longleftrightarrow> due_on W E s \<le> as_of"

definition after_outcome :: "world \<Rightarrow> rule_engine \<Rightarrow> schedule \<Rightarrow> outcome \<Rightarrow> int \<Rightarrow> schedule" where
  "after_outcome W E s out on =
     (if \<not> consumes_the_cycle out then s
      else s\<lparr>s_counts_from := (case s_advances_from s of DueDate \<Rightarrow> cycle_due_on W E s | CheckInDate \<Rightarrow> on),
             s_snoozed_until := None\<rparr>)"

text \<open>\<open>str::parse::<i32>\<close>, kept when it is positive.\<close>

definition days_of :: "string \<Rightarrow> int option" where
  "days_of held =
     (case parse_unsigned 2147483647 held of
        None \<Rightarrow> None
      | Some n \<Rightarrow> if n > 0 then Some (int n) else None)"

definition held_value_at :: "fields \<Rightarrow> string \<Rightarrow> string option" where
  "held_value_at fs k =
     (case bt_get fs k of
        None \<Rightarrow> None
      | Some v \<Rightarrow> let t = trim v in if t = [] then None else Some t)"

definition cadence_in_words :: "rule_engine \<Rightarrow> fields \<Rightarrow> string option" where
  "cadence_in_words E fs =
     (case (held_value_at fs CADENCE_DAYS, held_value_at fs RRULE) of
        (Some days, None) \<Rightarrow> map_option (\<lambda>n. ''every '' @ show_nat (nat n) @ '' days'') (days_of days)
      | (None, Some rule) \<Rightarrow> (case recurrence_describe E rule of Inl _ \<Rightarrow> None | Inr w \<Rightarrow> Some w)
      | _ \<Rightarrow> None)"

definition refuse_key :: "string \<Rightarrow> string list \<Rightarrow> string option \<Rightarrow> not_schedulable" where
  "refuse_key k accepts held =
     \<lparr>ns_key = k, ns_held = held, ns_accepts = accepts, ns_would_open = False, ns_also_holds = None\<rparr>"

definition read_key :: "fields \<Rightarrow> string \<Rightarrow> string list \<Rightarrow> (string \<Rightarrow> 'a option) \<Rightarrow> not_schedulable + 'a" where
  "read_key fs k accepts parse_it =
     (case held_value_at fs k of
        None \<Rightarrow> Inl (refuse_key k accepts None)
      | Some held \<Rightarrow>
          (case parse_it held of None \<Rightarrow> Inl (refuse_key k accepts (Some held)) | Some x \<Rightarrow> Inr x))"

definition rule_anchor_key :: "fields \<Rightarrow> string" where
  "rule_anchor_key fs =
     (case bt_get fs ANCHORED_ON of
        Some held \<Rightarrow> if trim held \<noteq> [] then ANCHORED_ON else COUNTS_FROM
      | None \<Rightarrow> COUNTS_FROM)"

definition rule_of :: "rule_engine \<Rightarrow> fields \<Rightarrow> not_schedulable + string option" where
  "rule_of E fs =
     (case (held_value_at fs CADENCE_DAYS, held_value_at fs RRULE) of
        (Some _, Some rule) \<Rightarrow> Inl ((refuse_key RRULE [] (Some rule))\<lparr>ns_also_holds := Some CADENCE_DAYS\<rparr>)
      | (None, Some rule) \<Rightarrow>
          (case recurrence_check E rule of
             Inl _ \<Rightarrow> Inl (refuse_key RRULE [] (Some rule)) | Inr _ \<Rightarrow> Inr (Some rule))
      | _ \<Rightarrow> Inr None)"

definition snoozed_in :: "fields \<Rightarrow> bool" where
  "snoozed_in fs \<longleftrightarrow>
     (case bt_get fs OUTCOME of None \<Rightarrow> False | Some held \<Rightarrow> outcome_of_token held = Some Snoozed)"

definition snooze_of :: "world \<Rightarrow> fields \<Rightarrow> not_schedulable + int option" where
  "snooze_of W fs =
     (case read_key fs SNOOZED_UNTIL [] (date_of_text W) of
        Inr day \<Rightarrow> Inr (if snoozed_in fs then Some day else None)
      | Inl why \<Rightarrow> if ns_held why = None \<or> \<not> snoozed_in fs then Inr None else Inl why)"

definition cadence_of :: "world \<Rightarrow> rule_engine \<Rightarrow> fields \<Rightarrow> int option \<Rightarrow> string option \<Rightarrow> not_schedulable + cadence" where
  "cadence_of W E fs days rule =
     (case (days, rule) of
        (Some n, _) \<Rightarrow> Inr (Days n)
      | (None, Some rule) \<Rightarrow>
          ok_then (read_key fs (rule_anchor_key fs) [] (date_of_text W)) (\<lambda>anchor.
            case recurrence_new E rule anchor of
              Inl _ \<Rightarrow> Inl (refuse_key RRULE [] (Some rule)) | Inr r \<Rightarrow> Inr (Rule r))
      | (None, None) \<Rightarrow> Inl (refuse_key CADENCE_DAYS [] None))"

text \<open>
  The last branch of \<open>cadence_of\<close> is the source's \<open>unreachable!\<close>: with no rule the days were read, or their
  absence was refused, before it.
\<close>

definition read_days :: "fields \<Rightarrow> string option \<Rightarrow> not_schedulable + int option" where
  "read_days fs rule =
     (if rule = None then (case read_key fs CADENCE_DAYS [] days_of of Inl e \<Rightarrow> Inl e | Inr d \<Rightarrow> Inr (Some d))
      else Inr None)"

definition read_policy :: "fields \<Rightarrow> not_schedulable + advances_from option" where
  "read_policy fs =
     (case held_value_at fs ADVANCES_FROM of
        None \<Rightarrow> Inr None
      | Some _ \<Rightarrow>
          (case read_key fs ADVANCES_FROM (map advances_token [DueDate, CheckInDate]) advances_of_token of
             Inl e \<Rightarrow> Inl e | Inr a \<Rightarrow> Inr (Some a)))"

definition schedule_of :: "world \<Rightarrow> rule_engine \<Rightarrow> fields \<Rightarrow> not_schedulable + schedule" where
  "schedule_of W E fs =
     ok_then (rule_of E fs) (\<lambda>rule.
     ok_then (read_days fs rule) (\<lambda>days.
     ok_then (read_policy fs) (\<lambda>named_policy.
     ok_then (read_key fs COUNTS_FROM [] (date_of_text W)) (\<lambda>counts_from.
     ok_then (cadence_of W E fs days rule) (\<lambda>c.
     ok_then (snooze_of W fs) (\<lambda>snoozed_until.
       Inr \<lparr>s_cadence = c,
            s_advances_from = (case named_policy of None \<Rightarrow> default_advances_from c | Some a \<Rightarrow> a),
            s_counts_from = counts_from, s_snoozed_until = snoozed_until\<rparr>))))))"

definition defaulted_advances_from :: "fields \<Rightarrow> advances_from option" where
  "defaulted_advances_from fs =
     (if held_value_at fs ADVANCES_FROM \<noteq> None then None
      else case (held_value_at fs CADENCE_DAYS, held_value_at fs RRULE) of
             (Some _, None) \<Rightarrow> Some (default_for False)
           | (None, Some _) \<Rightarrow> Some (default_for True)
           | _ \<Rightarrow> None)"

section \<open>A check-in\<close>

definition opens_the_loop :: "not_schedulable \<Rightarrow> outcome \<Rightarrow> bool" where
  "opens_the_loop why out \<longleftrightarrow> ns_key why = COUNTS_FROM \<and> ns_held why = None \<and> consumes_the_cycle out"

definition check_in :: "world \<Rightarrow> rule_engine \<Rightarrow> fields \<Rightarrow> outcome \<Rightarrow> int \<Rightarrow> not_schedulable + fields" where
  "check_in W E fs out on =
     (let written = bt_insert LAST_CHECK_IN (text_of_date W on) (bt_insert OUTCOME (outcome_token out) []);
          unanchored = (held_value_at fs ANCHORED_ON = None)
      in case schedule_of W E fs of
           Inr s \<Rightarrow>
             (let moved = after_outcome W E s out on;
                  spends_a_snooze = (s_snoozed_until s \<noteq> None \<and> s_snoozed_until moved = None);
                  written = (if s_counts_from moved \<noteq> s_counts_from s \<or> spends_a_snooze
                             then bt_insert COUNTS_FROM (text_of_date W (s_counts_from moved)) written else written);
                  written = (case s_cadence s of
                               Rule r \<Rightarrow> if unanchored then bt_insert ANCHORED_ON (text_of_date W (rc_anchor r)) written
                                         else written
                             | Days _ \<Rightarrow> written)
              in Inr written)
         | Inl why \<Rightarrow>
             if opens_the_loop why out then
               (let written = bt_insert COUNTS_FROM (text_of_date W on) written
                in Inr (if held_value_at fs RRULE \<noteq> None \<and> unanchored
                        then bt_insert ANCHORED_ON (text_of_date W on) written else written))
             else Inl (why\<lparr>ns_would_open := ns_key why = COUNTS_FROM \<and> ns_held why = None\<rparr>))"

datatype snooze_refused =
    SnoozeMissing int
  | SnoozeUnreadable string int
  | SnoozeNotAfter int int
  | NotASnooze

definition snooze_day_of :: "world \<Rightarrow> outcome \<Rightarrow> string option \<Rightarrow> int \<Rightarrow> snooze_refused + int option" where
  "snooze_day_of W out sent on =
     (let sent = (case sent of None \<Rightarrow> None | Some v \<Rightarrow> if trim v = [] then None else Some (trim v)) in
      if consumes_the_cycle out then (case sent of None \<Rightarrow> Inr None | Some _ \<Rightarrow> Inl NotASnooze)
      else case sent of
             None \<Rightarrow> Inl (SnoozeMissing on)
           | Some held \<Rightarrow>
               (case date_of_text W held of
                  None \<Rightarrow> Inl (SnoozeUnreadable held on)
                | Some day \<Rightarrow> if day \<le> on then Inl (SnoozeNotAfter day on) else Inr (Some day)))"

record snooze_standing =
  sn_until :: string
  sn_in_force :: bool

definition snooze_standing_of :: "fields \<Rightarrow> snooze_standing option" where
  "snooze_standing_of fs =
     map_option (\<lambda>u. \<lparr>sn_until = u, sn_in_force = snoozed_in fs\<rparr>) (held_value_at fs SNOOZED_UNTIL)"

section \<open>Carriers of a due day\<close>

datatype due = Never | On int | NotYetOpened | Unreadable

definition due_owed_on :: "due \<Rightarrow> int \<Rightarrow> bool" where
  "due_owed_on d as_of =
     (case d of Never \<Rightarrow> False | On day \<Rightarrow> day \<le> as_of | NotYetOpened \<Rightarrow> False | Unreadable \<Rightarrow> True)"

definition staleness :: "rule_engine \<Rightarrow> due \<Rightarrow> nat \<times> int" where
  "staleness E d =
     (case d of Unreadable \<Rightarrow> (0, date_min E) | On day \<Rightarrow> (1, day)
      | Never \<Rightarrow> (2, date_max E) | NotYetOpened \<Rightarrow> (2, date_max E))"

definition days_overdue :: "due \<Rightarrow> int \<Rightarrow> int option" where
  "days_overdue d as_of = (case d of On day \<Rightarrow> Some (as_of - day) | _ \<Rightarrow> None)"

datatype carrier = Rhythms | RunsOut | DecideBy | Promises

record unreadable =
  ur_lacks :: "string list"
  ur_will_not_parse :: "string list"

record ending =
  e_key :: string
  e_words :: "string list"
  e_any_word :: bool

datatype promise_end = Delivered | Withdrawn | Overtaken

primrec promise_end_token :: "promise_end \<Rightarrow> string" where
  "promise_end_token Delivered = ''delivered''"
| "promise_end_token Withdrawn = ''withdrawn''"
| "promise_end_token Overtaken = ''overtaken''"

definition has_ended :: "fields \<Rightarrow> bool" where
  "has_ended fs \<longleftrightarrow> (case bt_get fs ENDED of None \<Rightarrow> False | Some held \<Rightarrow> trim held \<noteq> [])"

definition open_ending :: ending where
  "open_ending = \<lparr>e_key = ENDED, e_words = [''kept'', ''renewed'', ''replaced'', ''cancelled''], e_any_word = True\<rparr>"

primrec interface_of :: "carrier \<Rightarrow> declared_type" where
  "interface_of Rhythms =
     type_new ''is-due''
       [field_new CADENCE_DAYS VNumber, field_new RRULE VText,
        field_one_of ADVANCES_FROM (map advances_token [DueDate, CheckInDate]),
        field_new COUNTS_FROM VDate, field_new ANCHORED_ON VDate, field_new SNOOZED_UNTIL VDate]"
| "interface_of RunsOut = type_new ''runs-out'' [field_new RUNS_OUT VDate]"
| "interface_of DecideBy = type_new ''decide-by'' [field_new DECIDE_BY VDate]"
| "interface_of Promises = type_new ''promised-by'' [field_new PROMISED_BY VDate]"

primrec also_reads :: "carrier \<Rightarrow> string list" where
  "also_reads Rhythms = [OUTCOME]"
| "also_reads RunsOut = [ENDED]"
| "also_reads DecideBy = [ENDED]"
| "also_reads Promises = [ENDED]"

primrec derives_due :: "carrier \<Rightarrow> bool" where
  "derives_due Rhythms \<longleftrightarrow> True"
| "derives_due RunsOut \<longleftrightarrow> False"
| "derives_due DecideBy \<longleftrightarrow> False"
| "derives_due Promises \<longleftrightarrow> False"

primrec ending_of :: "carrier \<Rightarrow> ending option" where
  "ending_of Rhythms = None"
| "ending_of RunsOut = Some open_ending"
| "ending_of DecideBy = Some open_ending"
| "ending_of Promises =
     Some \<lparr>e_key = ENDED, e_words = map promise_end_token [Delivered, Withdrawn, Overtaken], e_any_word = False\<rparr>"

definition due_from_day :: "world \<Rightarrow> string \<Rightarrow> fields \<Rightarrow> due" where
  "due_from_day W k fs =
     (if has_ended fs then Never
      else case bt_get fs k of
             None \<Rightarrow> Never
           | Some held \<Rightarrow> (case date_of_text W (trim held) of Some day \<Rightarrow> On day | None \<Rightarrow> Unreadable))"

definition rhythm_due :: "world \<Rightarrow> rule_engine \<Rightarrow> fields \<Rightarrow> due" where
  "rhythm_due W E fs =
     (case schedule_of W E fs of
        Inr s \<Rightarrow> On (due_on W E s)
      | Inl why \<Rightarrow> if ns_key why = COUNTS_FROM \<and> ns_held why = None then NotYetOpened else Unreadable)"

primrec carrier_due :: "world \<Rightarrow> rule_engine \<Rightarrow> fields \<Rightarrow> carrier \<Rightarrow> due" where
  "carrier_due W E fs Rhythms = rhythm_due W E fs"
| "carrier_due W E fs RunsOut = due_from_day W RUNS_OUT fs"
| "carrier_due W E fs DecideBy = due_from_day W DECIDE_BY fs"
| "carrier_due W E fs Promises = due_from_day W PROMISED_BY fs"

definition note_key :: "unreadable \<Rightarrow> not_schedulable \<Rightarrow> unreadable" where
  "note_key why n =
     (if ns_held n \<noteq> None then why\<lparr>ur_lacks := ur_lacks why @ [ns_key n]\<rparr>
      else why\<lparr>ur_will_not_parse := ur_will_not_parse why @ [ns_key n]\<rparr>)"

definition rhythm_unreadable :: "world \<Rightarrow> rule_engine \<Rightarrow> fields \<Rightarrow> unreadable option" where
  "rhythm_unreadable W E fs =
     (if rhythm_due W E fs \<noteq> Unreadable then None
      else
        (let first = schedule_of W E fs;
             stopped_at = (case first of Inl n \<Rightarrow> Some (ns_key n) | Inr _ \<Rightarrow> None);
             why = (case first of Inl n \<Rightarrow> note_key \<lparr>ur_lacks = [], ur_will_not_parse = []\<rparr> n
                    | Inr _ \<Rightarrow> \<lparr>ur_lacks = [], ur_will_not_parse = []\<rparr>);
             why = (if stopped_at \<noteq> Some COUNTS_FROM
                    then (case read_key fs COUNTS_FROM [] (date_of_text W) of Inl n \<Rightarrow> note_key why n | Inr _ \<Rightarrow> why)
                    else why)
         in Some (if ur_lacks why = [] \<and> ur_will_not_parse why = []
                  then (case first of Inl n \<Rightarrow> why\<lparr>ur_will_not_parse := [ns_key n]\<rparr> | Inr _ \<Rightarrow> why)
                  else why)))"

primrec carrier_unreadable :: "world \<Rightarrow> rule_engine \<Rightarrow> fields \<Rightarrow> carrier \<Rightarrow> unreadable option" where
  "carrier_unreadable W E fs Rhythms = rhythm_unreadable W E fs"
| "carrier_unreadable W E fs RunsOut = None"
| "carrier_unreadable W E fs DecideBy = None"
| "carrier_unreadable W E fs Promises = None"

definition carrier_answering :: "world \<Rightarrow> int \<Rightarrow> carrier list \<Rightarrow> fields \<Rightarrow> carrier option" where
  "carrier_answering W y2k carrs fs = find (\<lambda>c. matched_by W y2k (interface_of c) fs \<noteq> None) carrs"

definition owed :: "world \<Rightarrow> int \<Rightarrow> rule_engine \<Rightarrow> carrier list \<Rightarrow> fields \<Rightarrow> due" where
  "owed W y2k E carrs fs =
     (case carrier_answering W y2k carrs fs of None \<Rightarrow> Never | Some c \<Rightarrow> carrier_due W E fs c)"

definition unreadable_because :: "world \<Rightarrow> int \<Rightarrow> rule_engine \<Rightarrow> carrier list \<Rightarrow> fields \<Rightarrow> unreadable option" where
  "unreadable_because W y2k E carrs fs =
     Option.bind (carrier_answering W y2k carrs fs) (carrier_unreadable W E fs)"

datatype owes = Finishing | Owing due

definition owes_as :: "world \<Rightarrow> int \<Rightarrow> rule_engine \<Rightarrow> kind \<Rightarrow> carrier list \<Rightarrow> fields \<Rightarrow> fields \<Rightarrow> owes" where
  "owes_as W y2k E k carrs fs inst =
     (if is_finished k fs inst then Finishing
      else if (case carrier_answering W y2k carrs fs of None \<Rightarrow> False | Some c \<Rightarrow> ending_of c \<noteq> None) \<and> has_ended fs
        then Finishing
      else Owing (owed W y2k E carrs fs))"

definition owed_as :: "world \<Rightarrow> int \<Rightarrow> rule_engine \<Rightarrow> kind \<Rightarrow> carrier list \<Rightarrow> fields \<Rightarrow> fields \<Rightarrow> due" where
  "owed_as W y2k E k carrs fs inst =
     (case owes_as W y2k E k carrs fs inst of Finishing \<Rightarrow> Never | Owing d \<Rightarrow> d)"

definition due_is_derived :: "world \<Rightarrow> int \<Rightarrow> carrier list \<Rightarrow> fields \<Rightarrow> bool" where
  "due_is_derived W y2k carrs fs \<longleftrightarrow>
     (case carrier_answering W y2k carrs fs of None \<Rightarrow> False | Some c \<Rightarrow> derives_due c)"

definition due_key_groups :: "carrier list \<Rightarrow> string list list" where
  "due_key_groups carrs = map (\<lambda>c. map key (type_fields (interface_of c))) carrs"

definition due_keys :: "carrier list \<Rightarrow> string list" where
  "due_keys carrs = foldl push_new [] (concat (due_key_groups carrs))"

definition due_group_reads :: "carrier list \<Rightarrow> (string \<times> bool) list list" where
  "due_group_reads carrs =
     (let setting = due_keys carrs in
      map (\<lambda>c. map (\<lambda>k. (k, map_option e_key (ending_of c) = Some k))
                 (filter (\<lambda>k. k \<notin> set setting) (also_reads c))) carrs)"

definition shipped_carriers :: "carrier list" where
  "shipped_carriers = [Rhythms, RunsOut, DecideBy, Promises]"

section \<open>The due day a store keeps\<close>

datatype due_move = Unchanged | SetTo int | Cleared

definition moved_due_moment ::
  "world \<Rightarrow> int \<Rightarrow> rule_engine \<Rightarrow> carrier list \<Rightarrow> int option \<Rightarrow> fields \<Rightarrow> int \<Rightarrow> due_move" where
  "moved_due_moment W y2k E carrs existing projected today =
     (case owed W y2k E carrs projected of
        On day \<Rightarrow> if Some day \<noteq> existing then SetTo day else Unchanged
      | Unreadable \<Rightarrow> if Some today \<noteq> existing then SetTo today else Unchanged
      | _ \<Rightarrow> if existing \<noteq> None then Cleared else Unchanged)"

definition moved_due_moment_as ::
  "world \<Rightarrow> int \<Rightarrow> rule_engine \<Rightarrow> kind \<Rightarrow> carrier list \<Rightarrow> int option \<Rightarrow> fields \<Rightarrow> fields \<Rightarrow> fields \<Rightarrow> int \<Rightarrow> due_move" where
  "moved_due_moment_as W y2k E k carrs existing held projected inst today =
     (if is_finished k projected inst then (case existing of Some _ \<Rightarrow> Cleared | None \<Rightarrow> Unchanged)
      else (case moved_due_moment W y2k E carrs existing projected today of
              SetTo day \<Rightarrow>
                if existing \<noteq> None \<and> owed W y2k E carrs held = Unreadable \<and> owed W y2k E carrs projected = Unreadable
                then Unchanged else SetTo day
            | Cleared \<Rightarrow> if carrier_answering W y2k carrs held = None then Unchanged else Cleared
            | Unchanged \<Rightarrow> Unchanged))"

definition unread_mapping_could_decide :: "kind \<Rightarrow> fields \<Rightarrow> bool" where
  "unread_mapping_could_decide k fs \<longleftrightarrow>
     holds_columns k \<and> (case bt_get fs STATUS of None \<Rightarrow> False | Some word \<Rightarrow> meaning_of word [] = None)"

definition moved_due_moment_under_unread_mapping ::
  "world \<Rightarrow> int \<Rightarrow> rule_engine \<Rightarrow> kind \<Rightarrow> carrier list \<Rightarrow> int option \<Rightarrow> fields \<Rightarrow> fields \<Rightarrow> int \<Rightarrow> due_move option" where
  "moved_due_moment_under_unread_mapping W y2k E k carrs existing held projected today =
     (if unread_mapping_could_decide k projected then None
      else Some (moved_due_moment_as W y2k E k carrs existing held projected [] today))"

section \<open>Changes of a schedule that are refused\<close>

definition half_cleared_schedule :: "world \<Rightarrow> rule_engine \<Rightarrow> string list \<Rightarrow> fields \<Rightarrow> string list option" where
  "half_cleared_schedule W E cleared current =
     (if \<not> list_ex (\<lambda>k. k = CADENCE_DAYS \<or> k = ADVANCES_FROM \<or> k = RRULE) cleared then None
      else
        (let remaining = filter (has_key current)
               [CADENCE_DAYS, RRULE, ADVANCES_FROM, COUNTS_FROM, ANCHORED_ON, SNOOZED_UNTIL]
         in if remaining = [] then None
            else case schedule_of W E current of
                   Inr _ \<Rightarrow> None
                 | Inl why \<Rightarrow> if ns_key why = COUNTS_FROM \<and> ns_held why = None then None else Some remaining))"

definition leaves_advances_from_without_a_cadence :: "fields \<Rightarrow> fields \<Rightarrow> bool" where
  "leaves_advances_from_without_a_cadence before after \<longleftrightarrow>
     (bt_get before CADENCE_DAYS \<noteq> bt_get after CADENCE_DAYS \<or> bt_get before RRULE \<noteq> bt_get after RRULE \<or>
      bt_get before ADVANCES_FROM \<noteq> bt_get after ADVANCES_FROM) \<and>
     held_value_at after ADVANCES_FROM \<noteq> None \<and> held_value_at after CADENCE_DAYS = None \<and>
     held_value_at after RRULE = None"

definition leaves_two_cadences :: "fields \<Rightarrow> fields \<Rightarrow> bool" where
  "leaves_two_cadences before after \<longleftrightarrow>
     (bt_get before CADENCE_DAYS \<noteq> bt_get after CADENCE_DAYS \<or> bt_get before RRULE \<noteq> bt_get after RRULE) \<and>
     held_value_at after CADENCE_DAYS \<noteq> None \<and> held_value_at after RRULE \<noteq> None"

definition runs_from :: "fields \<Rightarrow> string option" where
  "runs_from fs = held_value_at fs (rule_anchor_key fs)"

definition refuses_a_rule :: "world \<Rightarrow> rule_engine \<Rightarrow> fields \<Rightarrow> fields \<Rightarrow> rule_refused option" where
  "refuses_a_rule W E before after =
     (case held_value_at after RRULE of
        None \<Rightarrow> None
      | Some rule \<Rightarrow>
          if bt_get before RRULE = bt_get after RRULE \<and> runs_from before = runs_from after then None
          else case Option.bind (bt_get after (rule_anchor_key after)) (\<lambda>held. date_of_text W (trim held)) of
                 Some anchor \<Rightarrow> (case recurrence_new E rule anchor of Inl why \<Rightarrow> Some why | Inr _ \<Rightarrow> None)
               | None \<Rightarrow> (case recurrence_check E rule of Inl why \<Rightarrow> Some why | Inr _ \<Rightarrow> None))"

section \<open>What a check-in leaves\<close>

text \<open>The thing's fields once a check-in's keys are written over them.\<close>

definition overlay :: "fields \<Rightarrow> fields \<Rightarrow> fields" where
  "overlay w fs = foldl (\<lambda>m (k, v). bt_insert k v m) fs w"

lemma bt_get_insert_any: "bt_get (bt_insert k v m) k' = (if k' = k then Some v else bt_get m k')"
  by (simp add: bt_get_insert_other)

lemma bt_get_overlay:
  "distinct (map fst w) \<Longrightarrow> bt_get (overlay w fs) k = (case bt_get w k of Some v \<Rightarrow> Some v | None \<Rightarrow> bt_get fs k)"
proof (induction w arbitrary: fs)
  case (Cons p w)
  obtain a v where p: "p = (a, v)" by (cases p)
  have "bt_get (overlay (p # w) fs) k = bt_get (overlay w (bt_insert a v fs)) k" by (simp add: overlay_def p)
  also have "\<dots> = (case bt_get w k of Some v \<Rightarrow> Some v | None \<Rightarrow> bt_get (bt_insert a v fs) k)"
    using Cons by simp
  also have "\<dots> = (case bt_get (p # w) k of Some v \<Rightarrow> Some v | None \<Rightarrow> bt_get fs k)"
  proof (cases "k = a")
    case True
    have "bt_get w a = None" using Cons.prems p by (auto simp: bt_get_def map_of_eq_None_iff)
    then show ?thesis using True p by (simp add: bt_get_def [of "(a, v) # w"])
  next
    case False
    then have "bt_get (p # w) k = bt_get w k" "bt_get (bt_insert a v fs) k = bt_get fs k"
      using p by (simp_all add: bt_get_insert_other) (simp add: bt_get_def)
    then show ?thesis by (simp split: option.split)
  qed
  finally show ?case .
qed (simp add: overlay_def bt_get_def)

text \<open>A day the calendar writes and reads back as itself.\<close>

definition reads_back :: "world \<Rightarrow> int \<Rightarrow> bool" where
  "reads_back W d \<longleftrightarrow>
     date_of_text W (text_of_date W d) = Some d \<and> trim (text_of_date W d) = text_of_date W d \<and> text_of_date W d \<noteq> []"

lemma read_back_key:
  "bt_get fs k = Some (text_of_date W d) \<Longrightarrow> reads_back W d \<Longrightarrow> read_key fs k accepts (date_of_text W) = Inr d"
  by (simp add: read_key_def held_value_at_def reads_back_def)

lemma held_value_at_cong: "bt_get fs k = bt_get gs k \<Longrightarrow> held_value_at fs k = held_value_at gs k"
  by (simp add: held_value_at_def)

lemma read_key_cong: "bt_get fs k = bt_get gs k \<Longrightarrow> read_key fs k accepts p = read_key gs k accepts p"
  by (simp add: read_key_def held_value_at_def)

lemma rule_of_cong:
  "bt_get fs CADENCE_DAYS = bt_get gs CADENCE_DAYS \<Longrightarrow> bt_get fs RRULE = bt_get gs RRULE \<Longrightarrow> rule_of E fs = rule_of E gs"
  by (simp add: rule_of_def held_value_at_def)

lemma attention_keys:
  "distinct [CADENCE_DAYS, RRULE, ANCHORED_ON, ADVANCES_FROM, COUNTS_FROM, SNOOZED_UNTIL, LAST_CHECK_IN, OUTCOME]"
  by (simp add: CADENCE_DAYS_def RRULE_def ANCHORED_ON_def ADVANCES_FROM_def COUNTS_FROM_def SNOOZED_UNTIL_def
      LAST_CHECK_IN_def OUTCOME_def)

lemmas attention_keys_apart = attention_keys [simplified] attention_keys [THEN distinct_rev [THEN iffD2], simplified]

text \<open>The parts a schedule is read from.\<close>

lemma schedule_of_parts:
  assumes "schedule_of W E fs = Inr s"
  obtains rule days policy where "rule_of E fs = Inr rule" and "read_days fs rule = Inr days" and "read_policy fs = Inr policy"
    and "read_key fs COUNTS_FROM [] (date_of_text W) = Inr (s_counts_from s)"
    and "cadence_of W E fs days rule = Inr (s_cadence s)" and "snooze_of W fs = Inr (s_snoozed_until s)"
    and "s_advances_from s = (case policy of None \<Rightarrow> default_advances_from (s_cadence s) | Some a \<Rightarrow> a)"
proof -
  obtain rule days policy counts c sn where "rule_of E fs = Inr rule" "read_days fs rule = Inr days"
      "read_policy fs = Inr policy" "read_key fs COUNTS_FROM [] (date_of_text W) = Inr counts"
      "cadence_of W E fs days rule = Inr c" "snooze_of W fs = Inr sn"
      "s = \<lparr>s_cadence = c, s_advances_from = (case policy of None \<Rightarrow> default_advances_from c | Some a \<Rightarrow> a),
            s_counts_from = counts, s_snoozed_until = sn\<rparr>"
    using assms by (auto simp: schedule_of_def ok_then_Inr)
  then show thesis by (intro that [of rule days policy]) (simp_all split: option.split)
qed

lemma schedule_of_from_parts:
  assumes "rule_of E fs = Inr rule" and "read_days fs rule = Inr days" and "read_policy fs = Inr policy"
    and "read_key fs COUNTS_FROM [] (date_of_text W) = Inr counts"
    and "cadence_of W E fs days rule = Inr c" and "snooze_of W fs = Inr sn"
  shows "schedule_of W E fs = Inr \<lparr>s_cadence = c,
           s_advances_from = (case policy of None \<Rightarrow> default_advances_from c | Some a \<Rightarrow> a),
           s_counts_from = counts, s_snoozed_until = sn\<rparr>"
  using assms by (simp add: schedule_of_def)

lemma read_days_cong: "bt_get fs CADENCE_DAYS = bt_get gs CADENCE_DAYS \<Longrightarrow> read_days fs rule = read_days gs rule"
  by (simp add: read_days_def read_key_def held_value_at_def)

lemma read_policy_cong:
  assumes "bt_get fs ADVANCES_FROM = bt_get gs ADVANCES_FROM"
  shows "read_policy fs = read_policy gs"
  unfolding read_policy_def held_value_at_cong [OF assms] read_key_cong [OF assms] ..

lemma cadence_of_kept:
  assumes "cadence_of W E fs days rule = Inr c"
    and "(case c of Days _ \<Rightarrow> True | Rule r \<Rightarrow> reads_back W (rc_anchor r))"
    and "if held_value_at fs ANCHORED_ON = None
         then (case c of Days _ \<Rightarrow> True | Rule r \<Rightarrow> bt_get gs ANCHORED_ON = Some (text_of_date W (rc_anchor r)))
         else bt_get gs ANCHORED_ON = bt_get fs ANCHORED_ON"
  shows "cadence_of W E gs days rule = Inr c"
proof (cases days)
  case (Some n)
  then show ?thesis using assms(1) by (simp add: cadence_of_def)
next
  case None
  then obtain rl where rule: "rule = Some rl" using assms(1) by (cases rule) (auto simp: cadence_of_def)
  then obtain anchor where at: "read_key fs (rule_anchor_key fs) [] (date_of_text W) = Inr anchor"
    using assms(1) None by (auto simp: cadence_of_def ok_then_Inr)
  then obtain r where "recurrence_new E rl anchor = Inr r" "c = Rule r"
    using assms(1) None rule by (cases "recurrence_new E rl anchor") (auto simp: cadence_of_def)
  note rl = rule at this
  have anchor: "rc_anchor r = anchor" using recurrence_new_anchor [OF rl(3)] by simp
  have "read_key gs (rule_anchor_key gs) [] (date_of_text W) = Inr anchor"
  proof (cases "held_value_at fs ANCHORED_ON = None")
    case True
    then have at: "bt_get gs ANCHORED_ON = Some (text_of_date W anchor)" "reads_back W anchor"
      using assms(2,3) rl(4) anchor by simp_all
    then have "rule_anchor_key gs = ANCHORED_ON" by (simp add: rule_anchor_key_def reads_back_def)
    then show ?thesis using read_back_key at by simp
  next
    case False
    then have same: "bt_get gs ANCHORED_ON = bt_get fs ANCHORED_ON" using assms(3) by simp
    have "rule_anchor_key fs = ANCHORED_ON" "rule_anchor_key gs = ANCHORED_ON"
      using False same by (auto simp: held_value_at_def rule_anchor_key_def Let_def split: option.splits if_splits)
    then show ?thesis using rl(2) read_key_cong [OF same, of "[]" "date_of_text W"] by simp
  qed
  then show ?thesis using None rl by (simp add: cadence_of_def)
qed

text \<open>What a check-in of a readable schedule writes, key by key.\<close>

lemma check_in_writes:
  assumes "schedule_of W E fs = Inr s" and "check_in W E fs out on = Inr w"
  shows "distinct (map fst w)"
    and "bt_get w OUTCOME = Some (outcome_token out)" and "bt_get w LAST_CHECK_IN = Some (text_of_date W on)"
    and "bt_get w CADENCE_DAYS = None" and "bt_get w RRULE = None" and "bt_get w ADVANCES_FROM = None"
    and "bt_get w SNOOZED_UNTIL = None"
    and "bt_get w COUNTS_FROM =
      (if s_counts_from (after_outcome W E s out on) \<noteq> s_counts_from s \<or>
          s_snoozed_until s \<noteq> None \<and> s_snoozed_until (after_outcome W E s out on) = None
       then Some (text_of_date W (s_counts_from (after_outcome W E s out on))) else None)"
    and "bt_get w ANCHORED_ON =
      (case s_cadence s of
         Rule r \<Rightarrow> if held_value_at fs ANCHORED_ON = None then Some (text_of_date W (rc_anchor r)) else None
       | Days _ \<Rightarrow> None)"
proof -
  note keys = attention_keys_apart
  define m where "m = after_outcome W E s out on"
  define moves where "moves \<longleftrightarrow> s_counts_from m \<noteq> s_counts_from s \<or> s_snoozed_until s \<noteq> None \<and> s_snoozed_until m = None"
  define anchor where "anchor =
    (case s_cadence s of Rule r \<Rightarrow> if held_value_at fs ANCHORED_ON = None then Some (text_of_date W (rc_anchor r)) else None
     | Days _ \<Rightarrow> None)"
  define w0 where "w0 = bt_insert LAST_CHECK_IN (text_of_date W on) (bt_insert OUTCOME (outcome_token out) [])"
  define w1 where "w1 = (if moves then bt_insert COUNTS_FROM (text_of_date W (s_counts_from m)) w0 else w0)"
  have w: "w = (case anchor of None \<Rightarrow> w1 | Some a \<Rightarrow> bt_insert ANCHORED_ON a w1)"
  proof -
    have "check_in W E fs out on =
        Inr (case s_cadence s of Rule r \<Rightarrow> if held_value_at fs ANCHORED_ON = None
               then bt_insert ANCHORED_ON (text_of_date W (rc_anchor r)) w1 else w1 | Days _ \<Rightarrow> w1)"
      unfolding check_in_def assms(1) Let_def sum.case w1_def moves_def w0_def m_def ..
    then show ?thesis using assms(2) by (cases "s_cadence s") (simp_all add: anchor_def)
  qed
  have w0: "bt_get w0 k = (if k = LAST_CHECK_IN then Some (text_of_date W on)
      else if k = OUTCOME then Some (outcome_token out) else None)" for k
    unfolding w0_def bt_get_insert_any by (simp add: bt_get_def)
  have w1: "bt_get w1 k = (if moves \<and> k = COUNTS_FROM then Some (text_of_date W (s_counts_from m)) else bt_get w0 k)" for k
    by (simp add: w1_def bt_get_insert_any del: bt_insert.simps)
  have at: "bt_get w k = (if k = ANCHORED_ON \<and> anchor \<noteq> None then anchor else bt_get w1 k)" for k
    by (cases anchor) (simp_all add: w bt_get_insert_any del: bt_insert.simps)
  have "bt_ok w0" unfolding w0_def by (intro bt_ok_insert bt_ok_Nil)
  then have "bt_ok w1" unfolding w1_def by (simp add: bt_ok_insert del: bt_insert.simps)
  then have "bt_ok w" unfolding w by (cases anchor) (simp_all add: bt_ok_insert del: bt_insert.simps)
  then show "distinct (map fst w)" by (rule bt_ok_distinct)
  show "bt_get w OUTCOME = Some (outcome_token out)" "bt_get w LAST_CHECK_IN = Some (text_of_date W on)"
    "bt_get w CADENCE_DAYS = None" "bt_get w RRULE = None" "bt_get w ADVANCES_FROM = None" "bt_get w SNOOZED_UNTIL = None"
    unfolding at w1 w0 using keys by simp_all
  show "bt_get w COUNTS_FROM =
      (if s_counts_from (after_outcome W E s out on) \<noteq> s_counts_from s \<or>
          s_snoozed_until s \<noteq> None \<and> s_snoozed_until (after_outcome W E s out on) = None
       then Some (text_of_date W (s_counts_from (after_outcome W E s out on))) else None)"
    unfolding at w1 w0 m_def [symmetric] moves_def [symmetric] using keys by simp
  show "bt_get w ANCHORED_ON =
      (case s_cadence s of
         Rule r \<Rightarrow> if held_value_at fs ANCHORED_ON = None then Some (text_of_date W (rc_anchor r)) else None
       | Days _ \<Rightarrow> None)"
    unfolding at w1 w0 anchor_def [symmetric] using keys by simp
qed

text \<open>
  C9: A check-in keeps the schedule the code computes: the keys it writes, laid over the rhythm's own, read
  back as the schedule after that outcome. A cycle that ran or was skipped moves the basis, by the rhythm's
  own policy, and ends any snooze; the rule of a calendar rhythm keeps its anchor.
\<close>

theorem check_in_writes_the_schedule_after:
  assumes "schedule_of W E fs = Inr s" and "check_in W E fs out on = Inr w" and "consumes_the_cycle out"
    and "reads_back W (s_counts_from (after_outcome W E s out on))"
    and "case s_cadence s of Days _ \<Rightarrow> True | Rule r \<Rightarrow> reads_back W (rc_anchor r)"
  shows "schedule_of W E (overlay w fs) = Inr (after_outcome W E s out on)"
proof -
  note writes = check_in_writes [OF assms(1,2)]
  let ?gs = "overlay w fs" and ?m = "after_outcome W E s out on"
  have at: "bt_get ?gs k = (case bt_get w k of Some v \<Rightarrow> Some v | None \<Rightarrow> bt_get fs k)" for k
    by (rule bt_get_overlay [OF writes(1)])
  obtain rule days policy where parts: "rule_of E fs = Inr rule" "read_days fs rule = Inr days" "read_policy fs = Inr policy"
      "read_key fs COUNTS_FROM [] (date_of_text W) = Inr (s_counts_from s)"
      "cadence_of W E fs days rule = Inr (s_cadence s)" "snooze_of W fs = Inr (s_snoozed_until s)"
      "s_advances_from s = (case policy of None \<Rightarrow> default_advances_from (s_cadence s) | Some a \<Rightarrow> a)"
    by (rule schedule_of_parts [OF assms(1)])
  have same: "bt_get ?gs CADENCE_DAYS = bt_get fs CADENCE_DAYS" "bt_get ?gs RRULE = bt_get fs RRULE"
      "bt_get ?gs ADVANCES_FROM = bt_get fs ADVANCES_FROM"
    unfolding at writes by simp_all
  have counts: "read_key ?gs COUNTS_FROM [] (date_of_text W) = Inr (s_counts_from ?m)"
  proof (cases "bt_get w COUNTS_FROM")
    case None
    then have "s_counts_from ?m = s_counts_from s" using writes(8) by (auto split: if_split_asm)
    moreover have "bt_get ?gs COUNTS_FROM = bt_get fs COUNTS_FROM" using None at by simp
    ultimately show ?thesis using parts(4) read_key_cong [of ?gs COUNTS_FROM fs "[]" "date_of_text W"] by simp
  next
    case (Some t)
    then have "t = text_of_date W (s_counts_from ?m)" using writes(8) by (auto split: if_split_asm)
    then have "bt_get ?gs COUNTS_FROM = Some (text_of_date W (s_counts_from ?m))" using Some at by simp
    then show ?thesis using read_back_key assms(4) by blast
  qed
  have cad: "cadence_of W E ?gs days rule = Inr (s_cadence s)"
  proof (rule cadence_of_kept [OF parts(5) assms(5)])
    have held: "bt_get fs ANCHORED_ON = bt_get fs ANCHORED_ON" ..
    show "if held_value_at fs ANCHORED_ON = None
         then (case s_cadence s of Days _ \<Rightarrow> True | Rule r \<Rightarrow> bt_get ?gs ANCHORED_ON = Some (text_of_date W (rc_anchor r)))
         else bt_get ?gs ANCHORED_ON = bt_get fs ANCHORED_ON"
      unfolding at writes(9) by (cases "s_cadence s") simp_all
  qed
  have "\<not> snoozed_in ?gs"
    using assms(3) unfolding snoozed_in_def at writes(2)
    by (cases out) (simp_all add: outcome_of_token_def trim_printable printable_def)
  then have snooze: "snooze_of W ?gs = Inr None" by (auto simp: snooze_of_def split: sum.split)
  have "schedule_of W E ?gs = Inr \<lparr>s_cadence = s_cadence s,
           s_advances_from = (case policy of None \<Rightarrow> default_advances_from (s_cadence s) | Some a \<Rightarrow> a),
           s_counts_from = s_counts_from ?m, s_snoozed_until = None\<rparr>"
    using parts(1-3) rule_of_cong [OF same(1,2)] read_days_cong [OF same(1)] read_policy_cong [OF same(3)]
    by (intro schedule_of_from_parts [OF _ _ _ counts cad snooze]) simp_all
  also have "\<dots> = Inr ?m" using assms(3) parts(7) by (simp add: after_outcome_def)
  finally show ?thesis .
qed

text \<open>
  C26: A snooze puts a loop off and moves nothing else: with the day it names beside the keys the check-in
  writes, the schedule reads as it was, put off to that day, which is after the check-in's own, and
  never due before the cycle itself.
\<close>

theorem snooze_moves_only_the_day:
  assumes "schedule_of W E fs = Inr s" and "check_in W E fs Snoozed on = Inr w"
    and "snooze_day_of W Snoozed sent on = Inr (Some day)" and "reads_back W day"
    and "case s_cadence s of Days _ \<Rightarrow> True | Rule r \<Rightarrow> reads_back W (rc_anchor r)"
  shows "schedule_of W E (bt_insert SNOOZED_UNTIL (text_of_date W day) (overlay w fs)) = Inr (s\<lparr>s_snoozed_until := Some day\<rparr>) \<and>
     on < day \<and> due_on W E (s\<lparr>s_snoozed_until := Some day\<rparr>) = max (cycle_due_on W E s) day"
proof -
  note keys = attention_keys_apart
  note writes = check_in_writes [OF assms(1,2)]
  let ?gs = "bt_insert SNOOZED_UNTIL (text_of_date W day) (overlay w fs)"
  have at: "bt_get ?gs k = (if k = SNOOZED_UNTIL then Some (text_of_date W day)
      else case bt_get w k of Some v \<Rightarrow> Some v | None \<Rightarrow> bt_get fs k)" for k
    unfolding bt_get_insert_any bt_get_overlay [OF writes(1)] ..
  obtain rule days policy where parts: "rule_of E fs = Inr rule" "read_days fs rule = Inr days" "read_policy fs = Inr policy"
      "read_key fs COUNTS_FROM [] (date_of_text W) = Inr (s_counts_from s)"
      "cadence_of W E fs days rule = Inr (s_cadence s)" "snooze_of W fs = Inr (s_snoozed_until s)"
      "s_advances_from s = (case policy of None \<Rightarrow> default_advances_from (s_cadence s) | Some a \<Rightarrow> a)"
    by (rule schedule_of_parts [OF assms(1)])
  have "bt_get w COUNTS_FROM = None" using writes(8) by (simp add: after_outcome_def split: if_split_asm)
  then have same: "bt_get ?gs CADENCE_DAYS = bt_get fs CADENCE_DAYS" "bt_get ?gs RRULE = bt_get fs RRULE"
      "bt_get ?gs ADVANCES_FROM = bt_get fs ADVANCES_FROM" "bt_get ?gs COUNTS_FROM = bt_get fs COUNTS_FROM"
    unfolding at writes(4-6) using keys by simp_all
  have counts: "read_key ?gs COUNTS_FROM [] (date_of_text W) = Inr (s_counts_from s)"
    using parts(4) read_key_cong [OF same(4), of "[]" "date_of_text W"] by simp
  have cad: "cadence_of W E ?gs days rule = Inr (s_cadence s)"
    by (rule cadence_of_kept [OF parts(5) assms(5)])
      (unfold at writes(9), use keys in \<open>cases "s_cadence s"; simp\<close>)
  have "bt_get ?gs OUTCOME = Some (outcome_token Snoozed)" unfolding at writes(2) using keys by auto
  then have "snoozed_in ?gs"
    by (simp add: snoozed_in_def outcome_of_token_def trim_printable printable_def del: bt_insert.simps)
  moreover have "read_key ?gs SNOOZED_UNTIL [] (date_of_text W) = Inr day"
    by (rule read_back_key [OF _ assms(4)]) (simp add: at)
  ultimately have snooze: "snooze_of W ?gs = Inr (Some day)" by (simp add: snooze_of_def)
  have "schedule_of W E ?gs = Inr \<lparr>s_cadence = s_cadence s,
           s_advances_from = (case policy of None \<Rightarrow> default_advances_from (s_cadence s) | Some a \<Rightarrow> a),
           s_counts_from = s_counts_from s, s_snoozed_until = Some day\<rparr>"
    using parts(1-3) rule_of_cong [OF same(1,2)] read_days_cong [OF same(1)] read_policy_cong [OF same(3)]
    by (intro schedule_of_from_parts [OF _ _ _ counts cad snooze]) simp_all
  also have "\<dots> = Inr (s\<lparr>s_snoozed_until := Some day\<rparr>)" using parts(7) by simp
  finally have "schedule_of W E ?gs = Inr (s\<lparr>s_snoozed_until := Some day\<rparr>)" .
  moreover have "on < day"
    using assms(3) by (auto simp: snooze_day_of_def Let_def split: option.split_asm if_split_asm)
  ultimately show ?thesis by (simp add: due_on_def cycle_due_on_def Let_def)
qed

lemma ok_then_Inl: "ok_then r f = Inl e \<longleftrightarrow> r = Inl e \<or> (\<exists>x. r = Inr x \<and> f x = Inl e)"
  by (cases r) auto

lemma read_key_Inl: "read_key fs k accepts p = Inl why \<Longrightarrow> ns_key why = k"
  by (auto simp: read_key_def refuse_key_def split: option.split_asm)

text \<open>
  C27: The first cycle that runs opens a loop: a rhythm of a readable number of days, with nothing to count
  from and a policy that reads (or none), takes every check-in that ran or was skipped, and has a schedule of
  that many days from the day of the check-in on.
\<close>

theorem consuming_check_in_opens_a_loop:
  assumes "held_value_at fs RRULE = None" and "held_value_at fs CADENCE_DAYS = Some held" and "days_of held = Some n"
    and "held_value_at fs COUNTS_FROM = None" and "read_policy fs = Inr policy"
    and "consumes_the_cycle out" and "reads_back W on"
  shows "\<exists>w. check_in W E fs out on = Inr w \<and> schedule_of W E (overlay w fs) = Inr
     \<lparr>s_cadence = Days n, s_advances_from = (case policy of Some a \<Rightarrow> a | None \<Rightarrow> CheckInDate),
      s_counts_from = on, s_snoozed_until = None\<rparr>"
proof -
  note keys = attention_keys_apart
  define w where "w = bt_insert COUNTS_FROM (text_of_date W on)
      (bt_insert LAST_CHECK_IN (text_of_date W on) (bt_insert OUTCOME (outcome_token out) []))"
  have rule: "rule_of E fs = Inr None" using assms(1) by (simp add: rule_of_def split: option.split)
  have days: "read_days fs None = Inr (Some n)" using assms(2,3) by (simp add: read_days_def read_key_def)
  have stopped: "schedule_of W E fs = Inl (refuse_key COUNTS_FROM [] None)"
    using rule days assms(4,5) by (simp add: schedule_of_def read_key_def)
  have "opens_the_loop (refuse_key COUNTS_FROM [] None) out"
    using assms(6) by (simp add: opens_the_loop_def refuse_key_def)
  then have taken: "check_in W E fs out on = Inr w"
    using stopped assms(1) by (simp add: check_in_def w_def Let_def del: bt_insert.simps)
  have ok: "distinct (map fst w)" unfolding w_def by (intro bt_ok_distinct bt_ok_insert bt_ok_Nil)
  have at_w: "bt_get w k = (if k = COUNTS_FROM then Some (text_of_date W on)
      else if k = LAST_CHECK_IN then Some (text_of_date W on)
      else if k = OUTCOME then Some (outcome_token out) else None)" for k
    unfolding w_def bt_get_insert_any by (simp add: bt_get_def)
  let ?gs = "overlay w fs"
  have at: "bt_get ?gs k = (case bt_get w k of Some v \<Rightarrow> Some v | None \<Rightarrow> bt_get fs k)" for k
    by (rule bt_get_overlay [OF ok])
  have same: "bt_get ?gs CADENCE_DAYS = bt_get fs CADENCE_DAYS" "bt_get ?gs RRULE = bt_get fs RRULE"
      "bt_get ?gs ADVANCES_FROM = bt_get fs ADVANCES_FROM"
    unfolding at at_w using keys by simp_all
  have counts: "read_key ?gs COUNTS_FROM [] (date_of_text W) = Inr on"
    by (rule read_back_key [OF _ assms(7)]) (simp add: at at_w)
  have cad: "cadence_of W E ?gs (Some n) None = Inr (Days n)" by (simp add: cadence_of_def)
  have "\<not> snoozed_in ?gs"
    unfolding snoozed_in_def at at_w using assms(6) keys
    by (cases out) (simp_all add: outcome_of_token_def trim_printable printable_def)
  then have snooze: "snooze_of W ?gs = Inr None" by (auto simp: snooze_of_def split: sum.split)
  have "schedule_of W E ?gs = Inr \<lparr>s_cadence = Days n,
           s_advances_from = (case policy of None \<Rightarrow> default_advances_from (Days n) | Some a \<Rightarrow> a),
           s_counts_from = on, s_snoozed_until = None\<rparr>"
    using rule days assms(5) rule_of_cong [OF same(1,2)] read_days_cong [OF same(1)] read_policy_cong [OF same(3)]
    by (intro schedule_of_from_parts [OF _ _ _ counts cad snooze]) simp_all
  then have "schedule_of W E ?gs = Inr \<lparr>s_cadence = Days n,
           s_advances_from = (case policy of Some a \<Rightarrow> a | None \<Rightarrow> CheckInDate),
           s_counts_from = on, s_snoozed_until = None\<rparr>"
    by (simp add: default_advances_from_def default_for_def split: option.split_asm)
  with taken show ?thesis by blast
qed

section \<open>The due day kept beside a thing\<close>

definition due_kept :: "int option \<Rightarrow> due_move \<Rightarrow> int option" where
  "due_kept existing m = (case m of Unchanged \<Rightarrow> existing | SetTo d \<Rightarrow> Some d | Cleared \<Rightarrow> None)"

text \<open>
  C25: The day a store keeps is the day the thing asks for: after the move it is the day the answering carrier
  says, nothing once the thing is finished or asks for nothing, and for a due day nobody can read it is
  the day that was kept when it could not be read before either, and today otherwise. A day is left alone
  only when nothing answered for the thing before.
\<close>

theorem kept_due_day_is_what_is_owed:
  "due_kept existing (moved_due_moment_as W y2k E k carrs existing held projected inst today) =
     (if is_finished k projected inst then None
      else case owed W y2k E carrs projected of
             On day \<Rightarrow> Some day
           | Unreadable \<Rightarrow> if existing \<noteq> None \<and> owed W y2k E carrs held = Unreadable then existing else Some today
           | _ \<Rightarrow> if carrier_answering W y2k carrs held = None then existing else None)"
  by (cases "owed W y2k E carrs projected"; cases existing)
    (auto simp: due_kept_def moved_due_moment_as_def moved_due_moment_def)

section \<open>Concrete rhythms\<close>

definition sample_engine :: rule_engine where
  "sample_engine = \<lparr>rule_error = (\<lambda>_ _. None), first_from = (\<lambda>_ _ d. Some d), unanchored = 0, date_max = 1, date_min = 0\<rparr>"

definition daily_loop :: fields where
  "daily_loop = [(ADVANCES_FROM, ''due_date''), (COUNTS_FROM, ''2026-01-01''), (RRULE, ''FREQ=DAILY'')]"

definition daily_schedule :: schedule where
  "daily_schedule = \<lparr>s_cadence = Rule \<lparr>rc_rule = ''FREQ=DAILY'', rc_anchor = 0\<rparr>, s_advances_from = DueDate, s_counts_from = 0, s_snoozed_until = None\<rparr>"

lemma daily_loop_schedule: "schedule_of sample_world sample_engine daily_loop = Inr daily_schedule"
  by code_simp

theorem check_in_writes_the_schedule_after_witness:
  "schedule_of sample_world sample_engine
     (overlay [(ANCHORED_ON, ''2026-01-01''), (COUNTS_FROM, ''2026-01-02''), (LAST_CHECK_IN, ''2026-01-01''), (OUTCOME, ''ran'')] daily_loop) =
   Inr (daily_schedule\<lparr>s_counts_from := 1\<rparr>)"
proof -
  have 1: "check_in sample_world sample_engine daily_loop Ran 0 =
      Inr [(ANCHORED_ON, ''2026-01-01''), (COUNTS_FROM, ''2026-01-02''), (LAST_CHECK_IN, ''2026-01-01''), (OUTCOME, ''ran'')]" by code_simp
  have 2: "after_outcome sample_world sample_engine daily_schedule Ran 0 = daily_schedule\<lparr>s_counts_from := 1\<rparr>" by code_simp
  have 3: "reads_back sample_world 1" "reads_back sample_world 0"
    by (simp_all add: reads_back_def sample_world_def trim_printable printable_def)
  show ?thesis
    unfolding 2 [symmetric] by (rule check_in_writes_the_schedule_after [OF daily_loop_schedule 1])
      (simp_all add: 2 3, simp add: daily_schedule_def 3)
qed

theorem snooze_moves_only_the_day_witness:
  "schedule_of sample_world sample_engine
     (bt_insert SNOOZED_UNTIL ''2026-01-02'' (overlay [(ANCHORED_ON, ''2026-01-01''), (LAST_CHECK_IN, ''2026-01-01''), (OUTCOME, ''snoozed'')] daily_loop)) =
   Inr (daily_schedule\<lparr>s_snoozed_until := Some 1\<rparr>)"
proof -
  have 1: "check_in sample_world sample_engine daily_loop Snoozed 0 =
      Inr [(ANCHORED_ON, ''2026-01-01''), (LAST_CHECK_IN, ''2026-01-01''), (OUTCOME, ''snoozed'')]" by code_simp
  have 2: "snooze_day_of sample_world Snoozed (Some ''2026-01-02'') 0 = Inr (Some 1)" by code_simp
  have 3: "reads_back sample_world 1" "text_of_date sample_world 1 = ''2026-01-02''" by code_simp+
  have 4: "case s_cadence daily_schedule of Days _ \<Rightarrow> True | Rule r \<Rightarrow> reads_back sample_world (rc_anchor r)"
    by (simp add: daily_schedule_def reads_back_def sample_world_def trim_printable printable_def)
  show ?thesis using snooze_moves_only_the_day [OF daily_loop_schedule 1 2 3(1) 4] unfolding 3(2) by (rule conjunct1)
qed

lemma seven_days: "days_of ''7'' = Some 7"
proof -
  have "show_nat 7 = ''7''" by code_simp
  then show ?thesis using parse_unsigned_show_nat [of 7 2147483647] by (simp add: days_of_def)
qed

lemma weekly_loop_reads:
  "schedule_of sample_world sample_engine [(CADENCE_DAYS, ''7'')] = Inl (refuse_key COUNTS_FROM [] None)"
  "read_policy [(CADENCE_DAYS, ''7'')] = Inr None" "held_value_at [(CADENCE_DAYS, ''7'')] RRULE = None"
proof -
  have held: "held_value_at [(CADENCE_DAYS, ''7'')] k = (if k = CADENCE_DAYS then Some ''7'' else None)" for k
    by (simp add: held_value_at_def bt_get_def trim_printable printable_def)
  show "read_policy [(CADENCE_DAYS, ''7'')] = Inr None" "held_value_at [(CADENCE_DAYS, ''7'')] RRULE = None"
    using attention_keys_apart by (simp_all add: read_policy_def held)
  then show "schedule_of sample_world sample_engine [(CADENCE_DAYS, ''7'')] = Inl (refuse_key COUNTS_FROM [] None)"
    using attention_keys_apart by (simp add: schedule_of_def rule_of_def read_days_def read_key_def held seven_days)
qed

theorem consuming_check_in_opens_a_loop_witness:
  "\<exists>w. check_in sample_world sample_engine [(CADENCE_DAYS, ''7'')] Ran 1 = Inr w \<and>
     schedule_of sample_world sample_engine (overlay w [(CADENCE_DAYS, ''7'')]) =
       Inr \<lparr>s_cadence = Days 7, s_advances_from = CheckInDate, s_counts_from = 1, s_snoozed_until = None\<rparr>"
proof -
  have held: "held_value_at [(CADENCE_DAYS, ''7'')] k = (if k = CADENCE_DAYS then Some ''7'' else None)" for k
    by (simp add: held_value_at_def bt_get_def trim_printable printable_def)
  have "reads_back sample_world 1" by code_simp
  then show ?thesis
    using consuming_check_in_opens_a_loop [OF weekly_loop_reads(3) _ seven_days _ weekly_loop_reads(2), of Ran sample_world 1]
      attention_keys_apart by (simp add: held)
qed

text \<open>
  C28: A loop never stands still: with a calendar whose days add up and an engine that looks forward, a
  schedule that reads and counts from a day before the last of the calendar is due after that day; and a cycle
  that ran or was skipped leaves a schedule that counts from the due day under the due-date policy, later than
  before, and from the day of the check-in under the other, each due after the day it then counts from unless
  that is the last of the calendar.
\<close>

theorem cycle_always_moves_on:
  assumes "schedule_of W E fs = Inr s" and "s_counts_from s < date_max E"
    and "\<And>d n x. add_days W d n = Some x \<Longrightarrow> x = d + n"
    and "\<And>r a d x. first_from E r a d = Some x \<Longrightarrow> d \<le> x" and "consumes_the_cycle out"
  shows "s_counts_from s < cycle_due_on W E s \<and>
    (let s' = after_outcome W E s out on in
     (case s_advances_from s of
        DueDate \<Rightarrow> s_counts_from s' = cycle_due_on W E s \<and> s_counts_from s < s_counts_from s'
      | CheckInDate \<Rightarrow> s_counts_from s' = on) \<and>
     (s_counts_from s' < date_max E \<longrightarrow> s_counts_from s' < cycle_due_on W E s'))"
proof -
  obtain rule days policy where read: "read_days fs rule = Inr days" "cadence_of W E fs days rule = Inr (s_cadence s)"
    by (rule schedule_of_parts [OF assms(1)])
  have ahead: "from < due_after W E (s_cadence s) from" if before: "from < date_max E" for "from"
  proof (cases "s_cadence s")
    case (Days n)
    then have "days = Some n"
      using read(2) by (cases days; cases rule) (auto simp: cadence_of_def ok_then_Inr split: sum.split_asm, metis sum.exhaust)
    then have "0 < n"
      using read(1) by (auto simp: read_days_def read_key_def days_of_def split: sum.split_asm option.split_asm if_split_asm)
    then show ?thesis
      using Days before by (auto simp: due_after_def dest: assms(3) split: option.split)
  next
    case (Rule r)
    have "from < d" if "first_after W E r from = Some d" for d
      using that by (auto simp: first_after_def bind_eq_Some_conv split: if_split_asm dest!: assms(3,4))
    then show ?thesis
      using Rule before by (auto simp: due_after_def split: option.split)
  qed
  then have due: "s_counts_from s < cycle_due_on W E s" using assms(2) by (simp add: cycle_due_on_def)
  have "s_cadence (after_outcome W E s out on) = s_cadence s" using assms(5) by (simp add: after_outcome_def)
  then show ?thesis
    using due ahead assms(5) by (cases "s_advances_from s") (simp_all add: after_outcome_def cycle_due_on_def Let_def)
qed

theorem cycle_always_moves_on_witness:
  "s_counts_from daily_schedule < s_counts_from (after_outcome sample_world sample_engine daily_schedule Ran 0)"
proof -
  have "s_advances_from daily_schedule = DueDate" by (simp add: daily_schedule_def)
  moreover have "s_counts_from daily_schedule < date_max sample_engine"
    by (simp add: daily_schedule_def sample_engine_def)
  moreover have "x = d + n" if "add_days sample_world d n = Some x" for d n x
    using that by (auto simp: sample_world_def split: if_split_asm)
  moreover have "d \<le> x" if "first_from sample_engine r a d = Some x" for r a d x
    using that by (auto simp: sample_engine_def split: if_split_asm)
  ultimately show ?thesis
    using cycle_always_moves_on [OF daily_loop_schedule, of Ran 0] by (simp add: Let_def)
qed

text \<open>
  What a rhythm that cannot say when it is due lacks, and what it holds unreadably, are told the wrong way
  round: a rhythm that holds a number of days that is none, and no day to count from, is said to lack the
  number and to hold a day that will not parse.
\<close>

lemma unreadable_lists_are_swapped:
  "rhythm_unreadable sample_world sample_engine [(CADENCE_DAYS, ''often'')] =
     Some \<lparr>ur_lacks = [CADENCE_DAYS], ur_will_not_parse = [COUNTS_FROM]\<rparr>"
proof -
  have held: "held_value_at [(CADENCE_DAYS, ''often'')] k = (if k = CADENCE_DAYS then Some ''often'' else None)" for k
    by (simp add: held_value_at_def bt_get_def trim_printable printable_def)
  have "days_of ''often'' = None"
    by (simp add: days_of_def parse_unsigned_def strip_prefix_def starts_with_def is_digit_def Let_def)
  then have "schedule_of sample_world sample_engine [(CADENCE_DAYS, ''often'')] = Inl (refuse_key CADENCE_DAYS [] (Some ''often''))"
    using attention_keys_apart by (simp add: schedule_of_def rule_of_def read_days_def read_key_def held)
  then show ?thesis
    using attention_keys_apart
    by (simp add: rhythm_unreadable_def rhythm_due_def read_key_def held note_key_def refuse_key_def Let_def)
qed

end
