(* ===== verification/Write_Fit.thy ===== *)
theory Write_Fit
  imports Attention List_Entries View_Filling Claim_Edits
begin

text \<open>
  What a write may do to the thing it reaches (\<open>memory.rs\<close>, \<open>memory/done_gate.rs\<close>): which bag of fields
  each key of a write goes to, what clearing a key may take off, the fields the thing will hold after the
  write, and the guard that keeps those fields fit for the thing's kind.
\<close>

section \<open>Where a key goes\<close>

datatype write_class = Legacy | Own | Sets | Stays

primrec class_token :: "write_class \<Rightarrow> string" where
  "class_token Legacy = ''legacy''"
| "class_token Own = ''own''"
| "class_token Sets = ''sets''"
| "class_token Stays = ''stays''"

definition class_of_token :: "string \<Rightarrow> write_class" where
  "class_of_token token =
     (if token = ''own'' then Own
      else if token = ''sets'' then Sets
      else if token = ''stays'' then Stays
      else Legacy)"

primrec reaches_the_thing :: "write_class \<Rightarrow> bool" where
  "reaches_the_thing Legacy \<longleftrightarrow> True"
| "reaches_the_thing Own \<longleftrightarrow> True"
| "reaches_the_thing Sets \<longleftrightarrow> True"
| "reaches_the_thing Stays \<longleftrightarrow> False"

datatype class_refused =
    SettingWithoutValue string
  | DescribesItsRecord string
  | KeyInOtherBag string

definition check_setting :: "fields \<Rightarrow> declared_type list \<Rightarrow> string \<Rightarrow> class_refused option" where
  "check_setting written declared k =
     (let k = trim k in
      if \<not> list_ex (\<lambda>w. trim (fst w) = k) written then Some (SettingWithoutValue k)
      else if fold_of k declared = FDescribes then Some (DescribesItsRecord k)
      else None)"

definition class_for ::
  "(string, write_class) btree \<Rightarrow> string list \<Rightarrow> string list \<Rightarrow> bool \<Rightarrow> string \<Rightarrow> class_refused + write_class" where
  "class_for held sets derived own_fields_stay k =
     (let named = list_ex (\<lambda>s. trim s = k) sets; computed = list_ex (\<lambda>d. trim d = k) derived in
      if computed then Inr (case bt_get held k of Some Legacy \<Rightarrow> Legacy | Some Own \<Rightarrow> Own | _ \<Rightarrow> Sets)
      else case (bt_get held k, named) of
             (None, True) \<Rightarrow> Inr Sets
           | (Some Sets, True) \<Rightarrow> Inr Sets
           | (None, False) \<Rightarrow> Inr (if own_fields_stay then Stays else Own)
           | (Some Sets, False) \<Rightarrow> if k \<in> set COMPUTED_KEYS then Inr Sets else Inl (KeyInOtherBag k)
           | (Some c, False) \<Rightarrow> Inr c
           | (Some _, True) \<Rightarrow> Inr Sets)"

primrec classes_written ::
  "(string, write_class) btree \<Rightarrow> string list \<Rightarrow> string list \<Rightarrow> bool \<Rightarrow> (string, write_class) btree \<Rightarrow> string list
     \<Rightarrow> class_refused + (string, write_class) btree" where
  "classes_written held sets derived own_fields_stay classes [] = Inr classes"
| "classes_written held sets derived own_fields_stay classes (k # ks) =
     (case class_for held sets derived own_fields_stay (trim k) of
        Inl e \<Rightarrow> Inl e
      | Inr c \<Rightarrow> classes_written held sets derived own_fields_stay (bt_insert (trim k) c classes) ks)"

definition or_insert :: "'k::linorder \<Rightarrow> 'v \<Rightarrow> ('k, 'v) btree \<Rightarrow> ('k, 'v) btree" where
  "or_insert k v m = (if has_key m k then m else bt_insert k v m)"

definition class_cleared ::
  "(string, write_class) btree \<Rightarrow> (string, write_class) btree \<Rightarrow> string \<Rightarrow> (string, write_class) btree" where
  "class_cleared held classes k =
     (case bt_get held (trim k) of None \<Rightarrow> classes | Some c \<Rightarrow> or_insert (trim k) c classes)"

definition classes_for_write ::
  "(string, write_class) btree \<Rightarrow> fields \<Rightarrow> string list \<Rightarrow> string list \<Rightarrow> string list \<Rightarrow> declared_type list \<Rightarrow> bool
     \<Rightarrow> class_refused + (string, write_class) btree" where
  "classes_for_write held written sets derived cleared declared own_fields_stay =
     (case first_error (check_setting written declared) sets of
        Some e \<Rightarrow> Inl e
      | None \<Rightarrow>
          (case classes_written held sets derived own_fields_stay [] (map fst written) of
             Inl e \<Rightarrow> Inl e
           | Inr classes \<Rightarrow> Inr (foldl (class_cleared held) classes cleared)))"

section \<open>The fields after the write\<close>

definition writes_of_patch :: "fact_patch \<Rightarrow> fields \<Rightarrow> (string \<times> string option) list" where
  "writes_of_patch p bag =
     map (\<lambda>k. (k, None)) (filter (has_key bag) (map trim (p_clear_fields p))) @
     map (\<lambda>(k, v). (trim k, Some v)) (p_fields p)"

record clears_an_older_write =
  co_address :: string
  co_key :: string
  co_backing :: fact_id
  co_backing_address :: string

definition clear_refusal ::
  "(string, field_backing) btree \<Rightarrow> fact \<Rightarrow> fact_patch \<Rightarrow> fields \<Rightarrow> string \<Rightarrow> clears_an_older_write option" where
  "clear_refusal backing mine p bag k =
     (if \<not> has_key bag k \<or> k \<notin> f_reaching mine \<or> list_ex (\<lambda>s. trim (fst s) = k) (p_fields p) then None
      else case bt_get backing k of
             None \<Rightarrow> None
           | Some held \<Rightarrow>
               if b_fact held \<noteq> f_id mine
               then Some \<lparr>co_address = show_address (fact_address mine), co_key = k, co_backing = b_fact held,
                          co_backing_address = show_address \<lparr>a_home = f_home mine, a_local = b_fact held\<rparr>\<rparr>
               else None)"

definition guard_clear_backing ::
  "key_write list \<Rightarrow> fact \<Rightarrow> fact_patch \<Rightarrow> fields \<Rightarrow> declared_type list \<Rightarrow> clears_an_older_write option" where
  "guard_clear_backing ws mine p bag declared =
     (if f_status mine \<noteq> Active then None
      else first_error (clear_refusal (folded_backing ws declared) mine p bag) (map trim (p_clear_fields p)))"

definition next_ordinal :: "key_write list \<Rightarrow> string \<Rightarrow> nat" where
  "next_ordinal ws k = foldl max 0 (map kw_ordinal (filter (\<lambda>w. kw_key w = k) ws)) + 1"

definition write_by :: "fact \<Rightarrow> key_write list \<Rightarrow> string \<times> string option \<Rightarrow> key_write list" where
  "write_by f ws w =
     ws @ [\<lparr>kw_key = fst w, kw_ordinal = next_ordinal ws (fst w), kw_value = snd w, kw_fact = f_id f,
            kw_status = f_status f, kw_provenance = f_provenance f, kw_standing = f_standing f,
            kw_note = f_details f, kw_recorded_by = f_app_stamp f, kw_writer = None, kw_run = None,
            kw_written_at = None\<rparr>]"

definition restated :: "fact \<Rightarrow> key_write \<Rightarrow> key_write" where
  "restated f w = w\<lparr>kw_status := (if kw_fact w = f_id f then f_status f else kw_status w)\<rparr>"

definition stood_after :: "key_write list \<Rightarrow> fact \<Rightarrow> fact_patch \<Rightarrow> fields \<Rightarrow> declared_type list \<Rightarrow> fields" where
  "stood_after ws mine p bag declared =
     folded_fields (foldl (write_by mine) (map (restated mine) ws) (writes_of_patch p bag)) declared"

definition stood_after_capture :: "key_write list \<Rightarrow> fact \<Rightarrow> declared_type list \<Rightarrow> fields" where
  "stood_after_capture ws captured declared =
     folded_fields (foldl (write_by captured) ws (map (\<lambda>(k, v). (k, Some v)) (f_fields captured))) declared"

section \<open>The guard of a kind\<close>

datatype fit_error =
    BreaksType string string string string "string list"   \<comment> \<open>type, key, what it wants, value, keys that take it\<close>
  | BreaksFit string "string list"
  | StillOpen "string list"
  | RemapsShippedWord string string
  | BreaksView string string string view_wrong
  | HoldsTwoCadences
  | RefusedRule rule_refused "string option"
  | BreaksSchedule string string

definition resolved_kind :: "world \<Rightarrow> (entity_id, entity_id) btree \<Rightarrow> string \<Rightarrow> kind option" where
  "resolved_kind W resolved item =
     (let i = trim item in entity_kind W (case bt_get resolved i of None \<Rightarrow> i | Some r \<Rightarrow> r))"

definition written_field :: "string \<Rightarrow> field \<Rightarrow> field" where
  "written_field k f = (if holds_columns k \<and> key f = STATUS then f\<lparr>one_of := None\<rparr> else f)"

definition fit_of_field ::
  "world \<Rightarrow> int \<Rightarrow> string \<Rightarrow> fields \<Rightarrow> fields \<Rightarrow> (entity_id, entity_id) btree \<Rightarrow> declared_type \<Rightarrow> field \<Rightarrow> fit_error option" where
  "fit_of_field W y2k k before after resolved d f =
     (case bt_get after (key f) of
        None \<Rightarrow> None
      | Some value \<Rightarrow>
          if bt_get before (key f) = Some value then None
          else
            (let f = written_field k f in
             if accepts_with_kind W y2k f (resolved_kind W resolved) value then None
             else Some (BreaksType (type_name d) (key f) (wanted (mistyped_of f value)) value
                   (map key (filter (\<lambda>other. key other \<noteq> key f \<and> is_list other \<and> holds other = VReference \<and>
                        accepts_with_kind W y2k other (resolved_kind W resolved) value) (type_fields d))))))"

definition lost_keys :: "declared_type \<Rightarrow> fields \<Rightarrow> string list" where
  "lost_keys d after = filter (\<lambda>k. \<not> has_key after k) (map key (filter required (type_fields d)))"

definition met_its_floor :: "world \<Rightarrow> int \<Rightarrow> declared_type \<Rightarrow> fields \<Rightarrow> bool" where
  "met_its_floor W y2k d fs \<longleftrightarrow> (case matched_by W y2k d fs of None \<Rightarrow> False | Some m \<Rightarrow> meets_the_floor m)"

definition fit_of_type ::
  "world \<Rightarrow> int \<Rightarrow> string \<Rightarrow> fields \<Rightarrow> fields \<Rightarrow> (entity_id, entity_id) btree \<Rightarrow> declared_type \<Rightarrow> fit_error option" where
  "fit_of_type W y2k k before after resolved d =
     (case first_error (fit_of_field W y2k k before after resolved d) (type_fields d) of
        Some e \<Rightarrow> Some e
      | None \<Rightarrow>
          if \<not> met_its_floor W y2k d before then None
          else if lost_keys d after \<noteq> [] then Some (BreaksFit (type_name d) (lost_keys d after))
          else None)"

definition fit_of_columns :: "string \<Rightarrow> fields \<Rightarrow> fields \<Rightarrow> fit_error option" where
  "fit_of_columns k before after =
     (if k \<noteq> ''project'' then None
      else case bt_get after COLUMNS of
             None \<Rightarrow> None
           | Some value \<Rightarrow>
               if bt_get before COLUMNS = Some value then None
               else case columns_of after of
                      None \<Rightarrow> None
                    | Some listed \<Rightarrow>
                        if list_ex (\<lambda>shipped. shipped \<notin> set listed) WORK_STATUSES
                        then Some (BreaksType k COLUMNS
                               (''a list holding every one of '' @ join '', '' WORK_STATUSES) value [])
                        else None)"

definition fit_of_word :: "string \<Rightarrow> fields \<Rightarrow> string \<times> string \<Rightarrow> fit_error option" where
  "fit_of_word k before kv =
     (case strip_prefix STATUS_WORD (fst kv) of
        None \<Rightarrow> None
      | Some word \<Rightarrow>
          if bt_get before (fst kv) = Some (snd kv) then None
          else if trim word \<in> set WORK_STATUSES then Some (RemapsShippedWord (trim word) (snd kv))
          else if trim (snd kv) \<notin> set WORK_STATUSES
            then Some (BreaksType k (fst kv) (''one of '' @ join '', '' WORK_STATUSES) (snd kv) [])
          else None)"

definition fit_of_view :: "world \<Rightarrow> int \<Rightarrow> string \<Rightarrow> fields \<Rightarrow> fields \<Rightarrow> fit_error option" where
  "fit_of_view W today k before after =
     (if k \<noteq> ''view'' then None
      else map_option (\<lambda>(j, wrong). BreaksView k j (case bt_get after j of None \<Rightarrow> [] | Some v \<Rightarrow> v) wrong)
             (breaks_a_view W today before after))"

definition fit_of_rhythm :: "world \<Rightarrow> rule_engine \<Rightarrow> string \<Rightarrow> fields \<Rightarrow> fields \<Rightarrow> fit_error option" where
  "fit_of_rhythm W E k before after =
     (if k \<noteq> ''rhythm'' then None
      else if leaves_two_cadences before after then Some HoldsTwoCadences
      else case refuses_a_rule W E before after of
        Some why \<Rightarrow>
          Some (RefusedRule why (case why of NeverOccurs (Some _) \<Rightarrow> Some (rule_anchor_key after) | _ \<Rightarrow> None))
      | None \<Rightarrow>
          if leaves_advances_from_without_a_cadence before after then Some (BreaksSchedule ADVANCES_FROM CADENCE_DAYS)
          else None)"

definition guard_fit_resolved ::
  "world \<Rightarrow> rule_engine \<Rightarrow> int \<Rightarrow> int \<Rightarrow> string \<Rightarrow> fields \<Rightarrow> fields \<Rightarrow> declared_type list \<Rightarrow>
   (entity_id, entity_id) btree \<Rightarrow> string list \<Rightarrow> fit_error option" where
  "guard_fit_resolved W E y2k today k before after declared resolved still_open =
     or_else (first_error (fit_of_type W y2k k before after resolved) (filter (\<lambda>d. type_name d = k) declared))
    (or_else (fit_of_columns k before after)
    (or_else (if still_open \<noteq> [] \<and> moves_to_done k before after then Some (StillOpen still_open) else None)
    (or_else (if k = ''topic'' then first_error (fit_of_word k before) after else None)
    (or_else (fit_of_view W today k before after)
      (fit_of_rhythm W E k before after)))))"

section \<open>What a guarded write leaves\<close>

lemma guard_fit_None:
  assumes "guard_fit_resolved W E y2k today k before after declared resolved opened = None"
  shows "\<And>d. d \<in> set declared \<Longrightarrow> type_name d = k \<Longrightarrow> fit_of_type W y2k k before after resolved d = None"
    and "fit_of_columns k before after = None" and "opened \<noteq> [] \<Longrightarrow> \<not> moves_to_done k before after"
    and "\<And>kv. k = ''topic'' \<Longrightarrow> kv \<in> set after \<Longrightarrow> fit_of_word k before kv = None"
    and "fit_of_view W today k before after = None" and "fit_of_rhythm W E k before after = None"
  using assms by (auto simp: guard_fit_resolved_def or_else_None first_error_None split: if_split_asm)

lemma resolved_kind_Nil [simp]: "resolved_kind W [] = (\<lambda>item. entity_kind W (trim item))"
  by (simp add: resolved_kind_def bt_get_def Let_def fun_eq_iff)

lemma written_field_key [simp]: "key (written_field k f) = key f"
  by (simp add: written_field_def)

text \<open>
  What an accepted write puts under a declared key, the declared field takes: a reference by the kind of the
  thing its handle resolves to in the store, and a status of a kind with columns whatever the set says.
\<close>

definition takes_written :: "world \<Rightarrow> int \<Rightarrow> string \<Rightarrow> (entity_id, entity_id) btree \<Rightarrow> field \<Rightarrow> string \<Rightarrow> bool" where
  "takes_written W y2k k resolved f v =
     accepts_with_kind W y2k (written_field k f) (resolved_kind W resolved) v"

lemma accepted_value:
  assumes "fit_of_type W y2k k before after resolved d = None" and "f \<in> set (type_fields d)"
    and "bt_get after (key f) = Some v"
  shows "bt_get before (key f) = Some v \<or> takes_written W y2k k resolved f v"
proof -
  have "fit_of_field W y2k k before after resolved d f = None"
    using assms(1,2) by (simp add: fit_of_type_def first_error_None split: option.split_asm)
  then show ?thesis
    using assms(3) by (auto simp: fit_of_field_def takes_written_def Let_def split: if_split_asm)
qed

text \<open>
  C11: No write takes a thing below the floor of its kind: a thing that answered every required key of its
  kind's type well still holds each of them after any write the guard lets through, with the value that
  answered well or with one its field takes as it is written, a reference by the kind of the thing its handle
  resolves to and the status of a kind with columns whatever the set says; and a write that names no resolved
  handle leaves a key that keeps its set answered well.
\<close>

theorem accepted_write_keeps_the_floor:
  assumes "guard_fit_resolved W E y2k today k before after declared resolved opened = None"
    and "d \<in> set declared" and "type_name d = k" and "met_its_floor W y2k d before"
    and "f \<in> set (type_fields d)" and "required f"
  shows "(\<exists>v. bt_get after (key f) = Some v \<and>
      (bt_get before (key f) = Some v \<and> answers_well W y2k before f \<or> takes_written W y2k k resolved f v)) \<and>
    (resolved = [] \<and> written_field k f = f \<longrightarrow> answers_well W y2k after f)"
proof -
  have fit: "fit_of_type W y2k k before after resolved d = None" by (rule guard_fit_None(1) [OF assms(1,2,3)])
  then have "lost_keys d after = []"
    using assms(4) by (auto simp: fit_of_type_def split: option.split_asm if_split_asm)
  then have "has_key after (key f)"
    using assms(5,6) by (auto simp: lost_keys_def filter_empty_conv)
  then obtain v where v: "bt_get after (key f) = Some v" by (auto simp: has_key_def)
  have "answers_well W y2k before f"
    using assms(4-6) unfolding met_its_floor_def meets_the_floor_iff by blast
  then have held: "bt_get before (key f) = Some v \<and> answers_well W y2k before f \<or> takes_written W y2k k resolved f v"
    using accepted_value [OF fit assms(5) v] by blast
  moreover have "answers_well W y2k after f" if "resolved = []" "written_field k f = f"
    using held v that by (auto simp: answers_well_def takes_written_def field_accepts_def)
  ultimately show ?thesis using v by blast
qed

text \<open>The fields a thing of a kind may hold after any number of guarded writes.\<close>

definition rule_stands :: "world \<Rightarrow> rule_engine \<Rightarrow> fields \<Rightarrow> bool" where
  "rule_stands W E fs \<longleftrightarrow>
     (case held_value_at fs RRULE of
        None \<Rightarrow> True
      | Some rule \<Rightarrow>
          (case Option.bind (runs_from fs) (date_of_text W) of
             Some anchor \<Rightarrow> (case recurrence_new E rule anchor of Inl _ \<Rightarrow> False | Inr _ \<Rightarrow> True)
           | None \<Rightarrow> recurrence_check E rule = Inr ()))"

definition typed_well ::
  "world \<Rightarrow> int \<Rightarrow> string \<Rightarrow> declared_type list \<Rightarrow> (entity_id, entity_id) btree list \<Rightarrow> fields \<Rightarrow> bool" where
  "typed_well W y2k k declared answers fs \<longleftrightarrow>
     list_all (\<lambda>d. list_all (\<lambda>f. case bt_get fs (key f) of None \<Rightarrow> True
                              | Some v \<Rightarrow> list_ex (\<lambda>resolved. takes_written W y2k k resolved f v) answers) (type_fields d))
       (filter (\<lambda>d. type_name d = k) declared)"

definition columns_well :: "fields \<Rightarrow> bool" where
  "columns_well fs \<longleftrightarrow> (case columns_of fs of None \<Rightarrow> True | Some listed \<Rightarrow> set WORK_STATUSES \<subseteq> set listed)"

definition words_well :: "fields \<Rightarrow> bool" where
  "words_well fs \<longleftrightarrow>
     list_all (\<lambda>(k, v). case strip_prefix STATUS_WORD k of None \<Rightarrow> True
                       | Some word \<Rightarrow> trim word \<notin> set WORK_STATUSES \<and> trim v \<in> set WORK_STATUSES) fs"

definition schedule_well :: "world \<Rightarrow> rule_engine \<Rightarrow> fields \<Rightarrow> bool" where
  "schedule_well W E fs \<longleftrightarrow>
     (held_value_at fs CADENCE_DAYS = None \<or> held_value_at fs RRULE = None) \<and>
     (held_value_at fs ADVANCES_FROM \<noteq> None \<longrightarrow> held_value_at fs CADENCE_DAYS \<noteq> None \<or> held_value_at fs RRULE \<noteq> None) \<and>
     rule_stands W E fs"

definition fits_its_kind ::
  "world \<Rightarrow> rule_engine \<Rightarrow> int \<Rightarrow> string \<Rightarrow> declared_type list \<Rightarrow> (entity_id, entity_id) btree list \<Rightarrow> fields \<Rightarrow> bool" where
  "fits_its_kind W E y2k k declared answers fs \<longleftrightarrow>
     typed_well W y2k k declared answers fs \<and> (k = ''project'' \<longrightarrow> columns_well fs) \<and> (k = ''topic'' \<longrightarrow> words_well fs) \<and>
     (k = ''rhythm'' \<longrightarrow> schedule_well W E fs)"

text \<open>
  A thing under the types declared for its kind, after any number of accepted writes: each is judged on its own
  day, with the open entries and the resolved handles the store answered for it, which are kept.
\<close>

inductive guarded ::
  "world \<Rightarrow> rule_engine \<Rightarrow> int \<Rightarrow> string \<Rightarrow> declared_type list \<Rightarrow> (entity_id, entity_id) btree list \<Rightarrow> fields \<Rightarrow> bool"
  for W E y2k k declared where
  fresh: "guarded W E y2k k declared [] []"
| further: "guarded W E y2k k declared answers before \<Longrightarrow>
    guard_fit_resolved W E y2k today k before after declared resolved opened = None \<Longrightarrow>
    guarded W E y2k k declared (resolved # answers) after"

lemma typed_well_step:
  assumes "guard_fit_resolved W E y2k today k before after declared resolved opened = None"
    and "typed_well W y2k k declared answers before"
  shows "typed_well W y2k k declared (resolved # answers) after"
  unfolding typed_well_def list_all_iff
proof (intro ballI)
  fix d f assume d: "d \<in> set (filter (\<lambda>d. type_name d = k) declared)" and f: "f \<in> set (type_fields d)"
  have fit: "fit_of_type W y2k k before after resolved d = None" using guard_fit_None(1) [OF assms(1)] d by simp
  show "case bt_get after (key f) of None \<Rightarrow> True
      | Some v \<Rightarrow> list_ex (\<lambda>resolved. takes_written W y2k k resolved f v) (resolved # answers)"
  proof (cases "bt_get after (key f)")
    case (Some v)
    have "bt_get before (key f) = Some v \<Longrightarrow> list_ex (\<lambda>resolved. takes_written W y2k k resolved f v) answers"
      using assms(2) d f by (fastforce simp: typed_well_def list_all_iff)
    then show ?thesis using accepted_value [OF fit f Some] Some by auto
  qed simp
qed

lemma columns_well_step:
  assumes "fit_of_columns ''project'' before after = None" and "columns_well before"
  shows "columns_well after"
proof (cases "bt_get before COLUMNS = bt_get after COLUMNS")
  case True
  then show ?thesis using assms(2) by (simp add: columns_well_def columns_of_def)
next
  case False
  then show ?thesis
    using assms(1)
    by (cases "bt_get after COLUMNS")
      (auto simp: columns_well_def fit_of_columns_def columns_of_def list_ex_iff split: option.split_asm if_split_asm option.split)
qed

lemma words_well_step:
  assumes "\<And>kv. kv \<in> set after \<Longrightarrow> fit_of_word k before kv = None" and "words_well before"
  shows "words_well after"
  unfolding words_well_def list_all_iff
proof (intro ballI, clarify)
  fix j v assume "(j, v) \<in> set after"
  then have fit: "fit_of_word k before (j, v) = None" by (rule assms(1))
  show "case strip_prefix STATUS_WORD j of None \<Rightarrow> True
      | Some word \<Rightarrow> trim word \<notin> set WORK_STATUSES \<and> trim v \<in> set WORK_STATUSES"
  proof (cases "bt_get before j = Some v")
    case True
    then have "(j, v) \<in> set before" by (simp add: bt_get_def map_of_SomeD)
    then show ?thesis using assms(2) unfolding words_well_def list_all_iff by blast
  next
    case False
    show ?thesis
    proof (cases "strip_prefix STATUS_WORD j")
      case (Some word)
      have "(if trim word \<in> set WORK_STATUSES then Some (RemapsShippedWord (trim word) v)
          else if trim v \<notin> set WORK_STATUSES
            then Some (BreaksType k j (''one of '' @ join '', '' WORK_STATUSES) v []) else None) = None"
        using fit unfolding fit_of_word_def fst_conv snd_conv Some option.case if_not_P [OF False] .
      then show ?thesis unfolding Some option.case by (metis option.distinct(1))
    qed (simp only: option.case)
  qed
qed

lemma rule_stands_step:
  assumes "refuses_a_rule W E before after = None" and "rule_stands W E before" and "date_of_text W [] = None"
  shows "rule_stands W E after"
proof (cases "held_value_at after RRULE")
  case (Some rule)
  have read: "Option.bind (bt_get after (rule_anchor_key after)) (\<lambda>held. date_of_text W (trim held)) =
      Option.bind (runs_from after) (date_of_text W)"
    using assms(3) by (simp add: runs_from_def held_value_at_def Let_def split: option.split)
  show ?thesis
  proof (cases "bt_get before RRULE = bt_get after RRULE \<and> runs_from before = runs_from after")
    case True
    then have "held_value_at before RRULE = Some rule" using Some by (simp add: held_value_at_def)
    then show ?thesis using assms(2) True Some by (simp add: rule_stands_def)
  next
    case False
    then show ?thesis
      using assms(1) Some unfolding refuses_a_rule_def rule_stands_def read
      by (auto split: option.split_asm sum.split_asm option.split sum.split)
  qed
qed (simp add: rule_stands_def)

lemma schedule_well_step:
  assumes "fit_of_rhythm W E ''rhythm'' before after = None" and "schedule_well W E before" and "date_of_text W [] = None"
  shows "schedule_well W E after"
proof -
  have one: "\<not> leaves_two_cadences before after" and rule: "refuses_a_rule W E before after = None"
    and adv: "\<not> leaves_advances_from_without_a_cadence before after"
    using assms(1) by (auto simp: fit_of_rhythm_def split: if_split_asm option.split_asm)
  have same: "bt_get before j = bt_get after j \<Longrightarrow> held_value_at before j = held_value_at after j" for j
    by (simp add: held_value_at_def)
  show ?thesis
    unfolding schedule_well_def
  proof (intro conjI)
    show "held_value_at after CADENCE_DAYS = None \<or> held_value_at after RRULE = None"
      using one assms(2) same unfolding leaves_two_cadences_def schedule_well_def by metis
    show "held_value_at after ADVANCES_FROM \<noteq> None \<longrightarrow> held_value_at after CADENCE_DAYS \<noteq> None \<or> held_value_at after RRULE \<noteq> None"
      using adv assms(2) same unfolding leaves_advances_from_without_a_cadence_def schedule_well_def by metis
    show "rule_stands W E after" using rule_stands_step [OF rule _ assms(3)] assms(2) by (simp add: schedule_well_def)
  qed
qed

text \<open>
  C8: However many writes a thing takes while the types of its kind stand, its fields fit its kind: every
  declared key holds a value its field took when it was written (a reference by the kind of the thing its
  handle resolved to, the status of a kind with columns whatever the set says), a project's columns name every
  shipped word, a topic maps no shipped word and maps each of its own to one, and a rhythm repeats one way, by
  a rule that stands, and names a policy only beside a cadence; for a calendar that reads no day in an empty text.
\<close>

theorem guarded_things_fit_their_kind:
  assumes "guarded W E y2k k declared answers fs" and "date_of_text W [] = None"
  shows "fits_its_kind W E y2k k declared answers fs"
  using assms(1)
proof (induction rule: guarded.induct)
  case fresh
  show ?case
    by (simp add: fits_its_kind_def typed_well_def columns_well_def words_well_def schedule_well_def rule_stands_def
        columns_of_def held_value_at_def bt_get_def list_all_iff)
next
  case (further answers before today after resolved opened)
  note fit = guard_fit_None [OF further(2)]
  note held = further.IH [unfolded fits_its_kind_def]
  have typed: "typed_well W y2k k declared (resolved # answers) after" by (rule typed_well_step [OF further(2)]) (use held in blast)
  have columns: "columns_well after" if "k = ''project''"
    using columns_well_step [OF fit(2) [unfolded that]] held that by blast
  have words: "words_well after" if "k = ''topic''"
    by (rule words_well_step [OF fit(4)]) (use held that in blast)+
  have sched: "schedule_well W E after" if "k = ''rhythm''"
    using schedule_well_step [OF fit(6) [unfolded that] _ assms(2)] held that by blast
  show ?case unfolding fits_its_kind_def using typed columns words sched by blast
qed

section \<open>Where each key of a write goes\<close>

lemma classes_written_get:
  assumes "classes_written held sets derived stay classes ks = Inr cs"
  shows "bt_get cs k = (if k \<in> trim ` set ks
      then (case class_for held sets derived stay k of Inl _ \<Rightarrow> None | Inr c \<Rightarrow> Some c) else bt_get classes k)"
  using assms
proof (induction ks arbitrary: classes)
  case (Cons a ks)
  then obtain c where c: "class_for held sets derived stay (trim a) = Inr c"
    and rest: "classes_written held sets derived stay (bt_insert (trim a) c classes) ks = Inr cs"
    by (auto split: sum.split_asm)
  show ?case unfolding Cons.IH [OF rest] bt_get_insert_any using c by auto
qed simp

lemma class_cleared_get:
  "bt_get (class_cleared held classes a) k =
     (if bt_get classes k = None \<and> k = trim a then bt_get held k else bt_get classes k)"
  by (auto simp: class_cleared_def or_insert_def has_key_def bt_get_insert_any simp del: bt_insert.simps split: option.split)

lemma classes_cleared_get:
  "bt_get (foldl (class_cleared held) classes ks) k =
     (if bt_get classes k = None \<and> k \<in> trim ` set ks then bt_get held k else bt_get classes k)"
  by (induction ks arbitrary: classes) (auto simp: class_cleared_get)

lemma classes_written_ok:
  "classes_written held sets derived stay m ks = Inr cs \<Longrightarrow> a \<in> set ks \<Longrightarrow>
     \<exists>c. class_for held sets derived stay (trim a) = Inr c"
  by (induction ks arbitrary: m) (auto split: sum.split_asm)

lemma classes_for_write_ok:
  assumes "classes_for_write held written sets derived cleared declared stay = Inr cs" and "k \<in> trim ` fst ` set written"
  shows "\<exists>c. class_for held sets derived stay k = Inr c"
  using assms classes_written_ok
  by (fastforce simp: classes_for_write_def split: option.split_asm sum.split_asm)

lemma classes_for_write_get:
  assumes "classes_for_write held written sets derived cleared declared stay = Inr cs"
  shows "bt_get cs k =
    (if k \<in> trim ` fst ` set written
     then (case class_for held sets derived stay k of Inl _ \<Rightarrow> None | Inr c \<Rightarrow> Some c)
     else if k \<in> trim ` set cleared then bt_get held k else None)"
proof -
  obtain classes where "classes_written held sets derived stay [] (map fst written) = Inr classes"
    and cs: "cs = foldl (class_cleared held) classes cleared"
    using assms by (auto simp: classes_for_write_def split: option.split_asm sum.split_asm)
  note classes = classes_written_get [OF this(1), of k]
  show ?thesis
  proof (cases "k \<in> trim ` fst ` set written")
    case True
    then show ?thesis using classes_for_write_ok [OF assms True] unfolding cs classes_cleared_get classes by (auto simp: image_image)
  next
    case False
    then show ?thesis unfolding cs classes_cleared_get classes by (auto simp: image_image bt_get_def [of "[]"])
  qed
qed

text \<open>
  A key's bag is decided once and a write never narrows it: exactly the keys a write sets, or takes off
  what is held, are given a bag; a key already on the thing stays on it, a setting stays a setting, and a key
  the thing has never held reaches it unless the record keeps its own fields.
\<close>

theorem write_never_loses_a_key:
  assumes "classes_for_write held written sets derived cleared declared stay = Inr cs"
  shows "(bt_get cs k \<noteq> None) = (k \<in> trim ` fst ` set written \<or> k \<in> trim ` set cleared \<and> bt_get held k \<noteq> None) \<and>
    (case (bt_get held k, bt_get cs k) of
       (Some c, Some c') \<Rightarrow> (reaches_the_thing c \<longrightarrow> reaches_the_thing c') \<and> (c = Sets \<longrightarrow> c' = Sets)
     | (None, Some c') \<Rightarrow> c' = (if k \<in> trim ` set sets \<or> k \<in> trim ` set derived then Sets else if stay then Stays else Own)
     | _ \<Rightarrow> True)"
proof (cases "k \<in> trim ` fst ` set written")
  case True
  obtain c where c: "class_for held sets derived stay k = Inr c"
    using assms True classes_for_write_ok by blast
  have "bt_get cs k = Some c" using classes_for_write_get [OF assms, of k] True c by simp
  moreover have "case bt_get held k of
      Some b \<Rightarrow> (reaches_the_thing b \<longrightarrow> reaches_the_thing c) \<and> (b = Sets \<longrightarrow> c = Sets)
    | None \<Rightarrow> c = (if k \<in> trim ` set sets \<or> k \<in> trim ` set derived then Sets else if stay then Stays else Own)"
    using c by (cases "bt_get held k"; cases "list_ex (\<lambda>s. trim s = k) sets"; cases "list_ex (\<lambda>d. trim d = k) derived")
      (auto simp: class_for_def Let_def list_ex_iff split: write_class.split_asm if_split_asm)
  ultimately show ?thesis using True by (auto split: option.split)
next
  case False
  then show ?thesis using classes_for_write_get [OF assms, of k] by (auto split: option.split)
qed

section \<open>The fields a write will leave\<close>

lemma foldl_max: "foldl max (m::nat) ns = max m (foldl max 0 ns)"
proof (induction ns arbitrary: m)
  case (Cons n ns)
  show ?case using Cons [of "max m n"] Cons [of "max 0 n"] by simp
qed simp

lemma next_ordinal_later: "w \<in> set ws \<Longrightarrow> kw_key w = k \<Longrightarrow> kw_ordinal w < next_ordinal ws k"
proof -
  have "n \<in> set ns \<Longrightarrow> n \<le> foldl max 0 ns" for n and ns :: "nat list"
  proof (induction ns)
    case (Cons a ns)
    then show ?case using foldl_max [of a ns] by auto
  qed simp
  then show "w \<in> set ws \<Longrightarrow> kw_key w = k \<Longrightarrow> kw_ordinal w < next_ordinal ws k"
    by (auto simp: next_ordinal_def less_Suc_eq_le)
qed

text \<open>What a key holds once a write says so: the value, where one stands, and nothing for a clear.\<close>

definition stands_as :: "declared_type list \<Rightarrow> string \<Rightarrow> string option \<Rightarrow> string option" where
  "stands_as declared k v =
     (case v of
        None \<Rightarrow> None
      | Some v \<Rightarrow> if holds_a_value v \<or> trim k \<in> set VIEW_DECLARATION_KEYS \<or> holds_a_list k declared then Some v else None)"

lemma held_value_stands: "held_value w declared = stands_as declared (kw_key w) (kw_value w)"
  by (simp add: held_value_def stands_as_def)

lemma folds_write_by:
  assumes "f_status f = Active" and "\<not> reserved_key k" and "fold_of k declared = FNewest"
  shows "bt_get (folded_fields (write_by f ws (k, v)) declared) k = stands_as declared k v"
proof -
  let ?w = "last (write_by f ws (k, v))"
  have w: "?w \<in> set (write_by f ws (k, v))" "kw_key ?w = k" "folds_at_all ?w" "kw_ordinal ?w = next_ordinal ws k"
    "kw_value ?w = v"
    using assms by (simp_all add: write_by_def folds_at_all_def)
  have "bt_get (folded_fields (write_by f ws (k, v)) declared) k = held_value ?w declared"
    using w assms(3) next_ordinal_later [of _ ws k]
    by (intro folded_newest_write) (auto simp: write_by_def)
  then show ?thesis using w by (simp add: held_value_stands)
qed

lemma folds_write_by_other:
  assumes "k \<noteq> j" and "fold_of k declared = FNewest"
  shows "bt_get (folded_fields (write_by f ws (j, v)) declared) k = bt_get (folded_fields ws declared) k"
  using assms by (simp add: folded_newest_of_key write_by_def)

lemma folds_writes_by:
  assumes "f_status f = Active" and "\<not> reserved_key k" and "fold_of k declared = FNewest"
  shows "bt_get (folded_fields (foldl (write_by f) ws ps) declared) k =
    (case map_of (rev ps) k of Some v \<Rightarrow> stands_as declared k v | None \<Rightarrow> bt_get (folded_fields ws declared) k)"
proof (induction ps rule: rev_induct)
  case (snoc p ps)
  obtain j v where p: "p = (j, v)" by (cases p)
  show ?case
    using snoc folds_write_by [OF assms] folds_write_by_other [OF _ assms(3)] by (auto simp: p)
qed simp

lemma restated_same:
  "(\<And>w. w \<in> set ws \<Longrightarrow> kw_fact w = f_id f \<Longrightarrow> kw_status w = f_status f) \<Longrightarrow> map (restated f) ws = ws"
  by (induction ws) (auto simp: restated_def)

text \<open>
  C12: The fields the guard judges are the fields the store will fold: for a key that folds by the newest
  write, an edit of a standing claim leaves the value it sets, nothing under a key it takes off and the
  claim carries, and every other key as it was, even when the same edit clears and sets one key.
\<close>

theorem stood_after_is_the_edit:
  assumes "f_status f = Active" and "\<not> reserved_key k" and "fold_of k declared = FNewest"
    and "\<forall>w \<in> set ws. kw_fact w = f_id f \<longrightarrow> kw_status w = Active"
  shows "bt_get (stood_after ws f p bag declared) k =
    (case map_of (rev (map (\<lambda>(j, v). (trim j, v)) (p_fields p))) k of
       Some v \<Rightarrow> stands_as declared k (Some v)
     | None \<Rightarrow> if k \<in> trim ` set (p_clear_fields p) \<and> has_key bag k then None else bt_get (folded_fields ws declared) k)"
proof -
  have same: "map (restated f) ws = ws" by (rule restated_same) (use assms(1,4) in simp)
  have sets: "map_of (rev (map (\<lambda>(j, v). (trim j, Some v)) fs)) k = map_option Some (map_of (rev (map (\<lambda>(j, v). (trim j, v)) fs)) k)"
    for fs :: fields
    by (induction fs rule: rev_induct) auto
  have clears: "map_of (rev (map (\<lambda>j. (j, None)) js)) k = (if k \<in> set js then Some None else None)" for js :: "string list"
    by (induction js rule: rev_induct) auto
  show ?thesis
    unfolding stood_after_def same folds_writes_by [OF assms(1-3)] writes_of_patch_def rev_append map_of_append
    by (auto simp: map_add_def sets clears stands_as_def split: option.split)
qed

text \<open>
  C14: Taking a key off a thing takes off the record's own value: for a key that folds by the newest write (no
  counter, none that describes its record) and is no reserved one, that an active record carries, that reaches
  the thing and that the same patch does not set again, an accepted clear leaves the thing without the key, and a
  value that was folded there was written by the very claim being edited.
\<close>

theorem accepted_clear_takes_its_own:
  assumes "guard_clear_backing ws f p bag declared = None" and "f_status f = Active"
    and "k \<in> trim ` set (p_clear_fields p)" and "has_key bag k" and "k \<in> f_reaching f"
    and "k \<notin> trim ` fst ` set (p_fields p)"
    and "\<not> reserved_key k" and "fold_of k declared = FNewest"
  shows "bt_get (stood_after ws f p bag declared) k = None \<and>
    (case bt_get (folded_fields ws declared) k of
       None \<Rightarrow> True
     | Some v \<Rightarrow> \<exists>w \<in> set ws. kw_key w = k \<and> kw_fact w = f_id f \<and> kw_value w = Some v)"
proof
  have "map_of (rev (map (\<lambda>(j, v). (trim j, Some v)) (p_fields p))) k = None"
    using assms(6) by (force simp: map_of_eq_None_iff)
  moreover have "map_of (rev (map (\<lambda>j. (j, None :: string option)) (filter (has_key bag) (map trim (p_clear_fields p))))) k = Some None"
  proof -
    have "map_of (rev (map (\<lambda>j. (j, None :: string option)) js)) k = (if k \<in> set js then Some None else None)" for js
      by (induction js rule: rev_induct) auto
    then show ?thesis using assms(3,4) by auto
  qed
  ultimately show "bt_get (stood_after ws f p bag declared) k = None"
    unfolding stood_after_def folds_writes_by [OF assms(2,7,8)] writes_of_patch_def rev_append map_of_append
    by (simp add: map_add_def stands_as_def)
  have own: "clear_refusal (folded_backing ws declared) f p bag k = None"
    using assms(1-3) by (auto simp: guard_clear_backing_def first_error_None)
  show "case bt_get (folded_fields ws declared) k of
       None \<Rightarrow> True
     | Some v \<Rightarrow> \<exists>w \<in> set ws. kw_key w = k \<and> kw_fact w = f_id f \<and> kw_value w = Some v"
  proof (cases "bt_get (folded_fields ws declared) k")
    case (Some v)
    let ?w = "last (writes_of k ws)"
    have backed: "bt_get (folded_backing ws declared) k = Some (backing_of ?w)"
      using backing_is_the_winners [of ws declared k] assms(8) Some by simp
    have held: "writes_of k ws \<noteq> [] \<and> held_value ?w declared = Some v"
      using Some unfolding folded_newest_of_key [OF assms(8)] writes_of_sorted [symmetric]
      by (cases "writes_of k ws" rule: rev_cases) auto
    then have "?w \<in> set ws \<and> kw_key ?w = k" using set_writes_of [of k ws] last_in_set by blast
    moreover have "kw_fact ?w = f_id f"
      using own assms(4-6) unfolding clear_refusal_def backed
      by (auto simp: backing_of_def list_ex_iff split: if_split_asm)
    moreover have "kw_value ?w = Some v" using held by (auto simp: held_value_def split: option.split_asm if_split_asm)
    ultimately show ?thesis using Some by auto
  qed simp
qed

section \<open>Concrete writes\<close>

definition named_thing :: declared_type where
  "named_thing = type_new ''thing'' [field_required ''name'' VText]"

theorem accepted_write_keeps_the_floor_witness:
  "answers_well sample_world 0 [(''name'', ''boat''), (''size'', ''2'')] (field_required ''name'' VText)"
proof -
  have 1: "guard_fit_resolved sample_world sample_engine 0 0 ''thing'' [(''name'', ''raft'')] [(''name'', ''boat''), (''size'', ''2'')]
      [named_thing] [] [] = None" by code_simp
  have 2: "named_thing \<in> set [named_thing]" by simp
  have 3: "type_name named_thing = ''thing''" "met_its_floor sample_world 0 named_thing [(''name'', ''raft'')]"
    "required (field_required ''name'' VText)" by code_simp+
  have 4: "field_required ''name'' VText \<in> set (type_fields named_thing)" by (simp add: named_thing_def type_new_def)
  show ?thesis
    using accepted_write_keeps_the_floor [OF 1 2 3(1,2) 4 3(3)] by (simp add: written_field_def holds_columns_def)
qed

theorem guarded_things_fit_their_kind_witness:
  "fits_its_kind sample_world sample_engine 0 ''rhythm'' [interface_of Rhythms] [[]] daily_loop"
proof (rule guarded_things_fit_their_kind)
  have "guard_fit_resolved sample_world sample_engine 0 0 ''rhythm'' [] daily_loop [interface_of Rhythms] [] [] = None"
    by code_simp
  then show "guarded sample_world sample_engine 0 ''rhythm'' [interface_of Rhythms] [[]] daily_loop"
    by (rule further [OF fresh])
  show "date_of_text sample_world [] = None" by (simp add: sample_world_def)
qed

theorem write_never_loses_a_key_witness:
  "(case bt_get [(''name'', Own), (''size'', Sets)] ''size'' of
      Some c \<Rightarrow> c = Sets \<and> bt_get [(''name'', Own), (''size'', Sets)] ''size'' = Some Sets | None \<Rightarrow> False) \<and>
   reaches_the_thing Own"
proof -
  have 1: "classes_for_write [(''size'', Sets)] [(''name'', ''boat''), (''size'', ''2'')] [''size''] [] [] [] False =
      Inr [(''name'', Own), (''size'', Sets)]" by code_simp
  show ?thesis
    using write_never_loses_a_key [OF 1, of "''size''"] write_never_loses_a_key [OF 1, of "''name''"]
    by (simp add: bt_get_def)
qed

definition sized_claim :: fact where
  "sized_claim = (plain_fact ''f1'' ''thing:boat'' [(''size'', ''2'')])\<lparr>f_reaching := {''size''}\<rparr>"

definition sized_write :: key_write where
  "sized_write = write_by sized_claim [] (''size'', Some ''2'') ! 0"

definition unsizing :: fact_patch where
  "unsizing = empty_patch\<lparr>p_clear_fields := ['' size'']\<rparr>"

lemma sized_parts:
  "f_status sized_claim = Active" "\<not> reserved_key ''size''" "fold_of ''size'' [] = FNewest" "kw_status sized_write = Active"
  by code_simp+

theorem stood_after_is_the_edit_witness:
  "bt_get (stood_after [sized_write] sized_claim unsizing [(''size'', ''2'')] []) ''size'' = None"
proof -
  have "trim '' size'' = ''size''" by code_simp
  then show ?thesis
    using stood_after_is_the_edit [OF sized_parts(1,2,3), of "[sized_write]" unsizing "[(''size'', ''2'')]"] sized_parts(4)
    by (simp add: unsizing_def empty_patch_def has_key_def bt_get_def)
qed

theorem accepted_clear_takes_its_own_witness:
  "\<exists>w \<in> set [sized_write]. kw_key w = ''size'' \<and> kw_fact w = f_id sized_claim \<and> kw_value w = Some ''2''"
proof -
  have 1: "guard_clear_backing [sized_write] sized_claim unsizing [(''size'', ''2'')] [] = None" by code_simp
  have 2: "''size'' \<in> trim ` set (p_clear_fields unsizing)" "''size'' \<notin> trim ` fst ` set (p_fields unsizing)" by code_simp+
  have 3: "has_key [(''size'', ''2'')] ''size''" "''size'' \<in> f_reaching sized_claim" by code_simp+
  have "bt_get (folded_fields [sized_write] []) ''size'' = Some ''2''" by code_simp
  then show ?thesis
    using accepted_clear_takes_its_own [OF 1 sized_parts(1) 2(1) 3 2(2) sized_parts(2,3)] by simp
qed

end
