(* ===== verification/Leases.thy ===== *)
theory Leases
  imports Claim_Edits
begin

text \<open>
  Who holds a role (\<open>session.rs\<close>, \<open>session/role_keys.rs\<close>, and the role writes of \<open>memory.rs\<close>): a claim is a lease
  that lasts from its moment, another claimant is refused while it is fresh, and a renewal or a release lands
  only while its own run still holds the role.  Moments are nanoseconds from the epoch, as \<open>jiff::Timestamp\<close>
  counts them.
\<close>

record moments =
  read_moment :: "string \<Rightarrow> int option"     \<comment> \<open>\<open>str::parse::<jiff::Timestamp>\<close>\<close>
  text_of_moment :: "int \<Rightarrow> string"         \<comment> \<open>\<open>Timestamp::to_string\<close>\<close>
  moment_max :: int                         \<comment> \<open>\<open>Timestamp::MAX\<close>\<close>

definition SECOND :: int where "SECOND = 1000000000"

definition LEASE_FRESHNESS :: int where "LEASE_FRESHNESS = 45 * 60 * SECOND"
definition LEASE_RENEWS_AFTER :: int where "LEASE_RENEWS_AFTER = (45 * 60 div 10) * SECOND"
definition ROLE_HOLDER :: string where "ROLE_HOLDER = ''holder''"
definition ROLE_CLAIMED_AT :: string where "ROLE_CLAIMED_AT = ''claimed_at''"

definition renewal_is_due :: "int option \<Rightarrow> int \<Rightarrow> bool" where
  "renewal_is_due claimed_at moment \<longleftrightarrow>
     (case claimed_at of None \<Rightarrow> True | Some stamped \<Rightarrow> moment - stamped \<ge> LEASE_RENEWS_AFTER)"

datatype lease_verdict = Free | Held | Stale

definition lease_verdict_of :: "int option \<Rightarrow> int \<Rightarrow> int \<Rightarrow> lease_verdict" where
  "lease_verdict_of claimed_at now threshold =
     (case claimed_at of None \<Rightarrow> Free | Some t \<Rightarrow> if now - t < threshold then Held else Stale)"

datatype lease_claim = Taken | Refused string int

definition claim_role :: "string \<Rightarrow> string option \<Rightarrow> int option \<Rightarrow> int \<Rightarrow> int \<Rightarrow> lease_claim" where
  "claim_role claimant current_holder claimed_at now threshold =
     (case (current_holder, claimed_at) of
        (Some h, Some t) \<Rightarrow>
          if h \<noteq> claimant \<and> lease_verdict_of (Some t) now threshold = Held then Refused h (t + threshold)
          else Taken
      | _ \<Rightarrow> Taken)"

record role_state =
  rs_holder :: "string option"
  rs_claimed_at :: "int option"

definition no_role_state :: role_state where
  "no_role_state = \<lparr>rs_holder = None, rs_claimed_at = None\<rparr>"

definition role_state_of :: "moments \<Rightarrow> fields option \<Rightarrow> role_state" where
  "role_state_of M child =
     (case child of
        None \<Rightarrow> no_role_state
      | Some fs \<Rightarrow>
          if has_key fs ROLE_CLAIMED_AT
          then \<lparr>rs_holder = bt_get fs ROLE_HOLDER,
                rs_claimed_at = Option.bind (bt_get fs ROLE_CLAIMED_AT) (read_moment M)\<rparr>
          else no_role_state)"

definition role_claim_in :: "moments \<Rightarrow> fields \<Rightarrow> (string \<times> int) option" where
  "role_claim_in M fs =
     Option.bind (bt_get fs ROLE_HOLDER) (\<lambda>claimant.
     Option.bind (Option.bind (bt_get fs ROLE_CLAIMED_AT) (read_moment M)) (\<lambda>now. Some (claimant, now)))"

section \<open>The keys a role was held under on a bot\<close>

definition role_holder_key :: "string \<Rightarrow> string" where
  "role_holder_key role = ''role/'' @ role @ ''/holder''"

definition role_claimed_at_key :: "string \<Rightarrow> string" where
  "role_claimed_at_key role = ''role/'' @ role @ ''/claimed_at''"

definition strip_suffix :: "string \<Rightarrow> string \<Rightarrow> string option" where
  "strip_suffix p s = map_option rev (strip_prefix (rev p) (rev s))"

definition role_from_field_key :: "string \<Rightarrow> string option" where
  "role_from_field_key k =
     Option.bind (strip_prefix ''role/'' k) (\<lambda>r.
       case strip_suffix ''/holder'' r of Some x \<Rightarrow> Some x | None \<Rightarrow> strip_suffix ''/claimed_at'' r)"

definition role_claim_content :: "string \<Rightarrow> string" where
  "role_claim_content role = ''claimed the '' @ role @ '' role''"

section \<open>Writes to a role\<close>

definition role_named_by :: "entity_id \<Rightarrow> string option" where
  "role_named_by subject =
     (case split_once CHR '':'' subject of
        None \<Rightarrow> None
      | Some (k, s) \<Rightarrow> if k = ''role'' then Some s else None)"

definition is_a_plain_renewal :: "fact_patch \<Rightarrow> bool" where
  "is_a_plain_renewal p \<longleftrightarrow>
     (case p_role_move p of None \<Rightarrow> False | Some m \<Rightarrow> rm_kind m = Renew) \<and>
     has_key (p_fields p) ROLE_CLAIMED_AT \<and>
     list_all (\<lambda>kv. fst kv = ROLE_CLAIMED_AT \<or> fst kv = ROLE_HOLDER) (p_fields p) \<and>
     p\<lparr>p_fields := [], p_derived := {}, p_role_move := None\<rparr> = empty_patch"

definition refuses_role_write :: "moments \<Rightarrow> string \<Rightarrow> role_move option \<Rightarrow> fields \<Rightarrow> role_state \<Rightarrow> memory_error option" where
  "refuses_role_write M role move fs st =
     (case move of
        Some m \<Rightarrow> if rs_holder st \<noteq> Some (rm_claimant m) then Some (RoleNotHeld role (rm_claimant m)) else None
      | None \<Rightarrow>
          (case role_claim_in M fs of
             None \<Rightarrow> None
           | Some (claimant, now) \<Rightarrow>
               (case claim_role claimant (rs_holder st) (rs_claimed_at st) now LEASE_FRESHNESS of
                  Refused h until \<Rightarrow> Some (RoleTaken role h until)
                | Taken \<Rightarrow> None)))"

definition refuses_role_fields :: "entity_id \<Rightarrow> string list \<Rightarrow> (string \<times> string) option" where
  "refuses_role_fields subject ks =
     Option.bind (role_named_by subject) (\<lambda>role.
       map_option (\<lambda>k. (role, k)) (find (\<lambda>k. k = ROLE_HOLDER \<or> k = ROLE_CLAIMED_AT) ks))"

section \<open>A role over its writes\<close>

text \<open>
  What a store does with a write to a role: the decision is taken against the role as it stands, and a write
  that lands edits its fields, its keys trimmed (\<open>apply_fact_patch\<close>).  A write with a move is the run's own; one
  without is a claim, or an ordinary write that the verbs have screened with \<open>refuses_role_fields\<close>, on the keys
  as they were sent.
\<close>

record role_write =
  rw_move :: "role_move option"
  rw_clears :: "string list"
  rw_sets :: fields

definition role_after :: "moments \<Rightarrow> string \<Rightarrow> fields \<Rightarrow> role_write \<Rightarrow> fields" where
  "role_after M role fs w =
     (case refuses_role_write M role (rw_move w) (rw_sets w) (role_state_of M (Some fs)) of
        Some _ \<Rightarrow> fs
      | None \<Rightarrow> edit_fields fs (rw_clears w) (rw_sets w))"

definition screened :: "entity_id \<Rightarrow> role_write \<Rightarrow> bool" where
  "screened subject w \<longleftrightarrow> refuses_role_fields subject (map fst (rw_sets w) @ rw_clears w) = None"

definition plain_keys :: "role_write \<Rightarrow> bool" where
  "plain_keys w \<longleftrightarrow> list_all (\<lambda>k. trim k = k) (map fst (rw_sets w) @ rw_clears w)"

lemma role_keys_apart [simp]: "ROLE_HOLDER \<noteq> ROLE_CLAIMED_AT" "ROLE_CLAIMED_AT \<noteq> ROLE_HOLDER"
  by (simp_all add: ROLE_HOLDER_def ROLE_CLAIMED_AT_def)

lemma fold_remove_get:
  "bt_get (fold (\<lambda>k. bt_remove (trim k)) ks m) j = (if j \<in> trim ` set ks then None else bt_get m j)"
  by (induction ks arbitrary: m) auto

lemma fold_insert_get:
  "bt_get (fold (\<lambda>(k, v). bt_insert (trim k) v) kvs m) j =
     (case map_of (rev (map (\<lambda>(k, v). (trim k, v)) kvs)) j of Some v \<Rightarrow> Some v | None \<Rightarrow> bt_get m j)"
  by (induction kvs rule: rev_induct) (auto simp: bt_get_insert_other [OF not_sym] split: option.split)

lemma map_of_rev_distinct: "distinct (map fst kvs) \<Longrightarrow> map_of (rev kvs) = map_of kvs"
proof (induction kvs)
  case (Cons kv kvs)
  then have "map_of kvs (fst kv) = None" by (simp add: map_of_eq_None_iff)
  then show ?case using Cons by (cases kv) (auto simp: map_add_def fun_eq_iff split: option.split)
qed simp

lemma edit_fields_other:
  assumes "j \<notin> trim ` set clear" and "j \<notin> trim ` fst ` set put"
  shows "bt_get (edit_fields fs clear put) j = bt_get fs j"
proof -
  have "map_of (rev (map (\<lambda>(k, v). (trim k, v)) put)) j = None"
    using assms(2) by (force simp: map_of_eq_None_iff)
  then show ?thesis using assms(1) by (simp add: edit_fields_def fold_insert_get fold_remove_get)
qed

text \<open>
  C6: A fresh lease has one holder: whatever is written to a role while the lease stands and without a move of
  the holder's own (claims of other runs at moments inside the lease, renewals and releases of runs that do
  not hold it, ordinary writes that pass the screen of the verbs and whose keys are spelled without white space
  around them), the role is held by the same run since the same moment.
\<close>

theorem fresh_lease_is_kept:
  assumes "role_named_by subject = Some role"
    and "role_state_of M (Some fs) = \<lparr>rs_holder = Some h, rs_claimed_at = Some t\<rparr>"
    and "\<forall>w \<in> set ws. (case rw_move w of
        Some m \<Rightarrow> rm_claimant m \<noteq> h
      | None \<Rightarrow> (case role_claim_in M (rw_sets w) of
            Some (c, now) \<Rightarrow> c \<noteq> h \<and> now - t < LEASE_FRESHNESS
          | None \<Rightarrow> screened subject w \<and> plain_keys w))"
  shows "role_state_of M (Some (foldl (role_after M role) fs ws)) = \<lparr>rs_holder = Some h, rs_claimed_at = Some t\<rparr>"
  using assms(2,3)
proof (induction ws arbitrary: fs)
  case (Cons w ws)
  have "role_state_of M (Some (role_after M role fs w)) = role_state_of M (Some fs)"
  proof (cases "refuses_role_write M role (rw_move w) (rw_sets w) (role_state_of M (Some fs))")
    case None
    have "rw_move w = None"
      using Cons.prems None by (cases "rw_move w") (auto simp: refuses_role_write_def)
    moreover have "role_claim_in M (rw_sets w) = None"
      using Cons.prems None calculation
      by (cases "role_claim_in M (rw_sets w)")
        (auto simp: refuses_role_write_def claim_role_def lease_verdict_of_def)
    ultimately have "screened subject w" "plain_keys w" using Cons.prems(2) by simp_all
    then have trimmed: "trim ` set (rw_clears w) = set (rw_clears w)" "trim ` fst ` set (rw_sets w) = fst ` set (rw_sets w)"
      by (simp_all add: plain_keys_def list_all_iff image_image)
    have "ROLE_HOLDER \<notin> trim ` set (rw_clears w)" "ROLE_HOLDER \<notin> trim ` fst ` set (rw_sets w)"
      "ROLE_CLAIMED_AT \<notin> trim ` set (rw_clears w)" "ROLE_CLAIMED_AT \<notin> trim ` fst ` set (rw_sets w)"
      using assms(1) \<open>screened subject w\<close> unfolding trimmed by (auto simp: screened_def refuses_role_fields_def find_None_iff)
    then have "bt_get (role_after M role fs w) ROLE_HOLDER = bt_get fs ROLE_HOLDER"
      "bt_get (role_after M role fs w) ROLE_CLAIMED_AT = bt_get fs ROLE_CLAIMED_AT"
      using None by (simp_all add: role_after_def edit_fields_other)
    then show ?thesis by (simp add: role_state_of_def has_key_def)
  qed (simp add: role_after_def)
  then show ?case using Cons by simp
qed simp

text \<open>
  A role that is free, stale or already the claimant's own can be taken: the claim lands, and the claimant
  holds the role from the moment it named.
\<close>

theorem open_role_can_be_taken:
  assumes "role_claim_in M put = Some (c, now)"
    and "rs_holder (role_state_of M (Some fs)) \<in> {None, Some c} \<or> rs_claimed_at (role_state_of M (Some fs)) = None \<or>
      (\<exists>t. rs_claimed_at (role_state_of M (Some fs)) = Some t \<and> now - t \<ge> LEASE_FRESHNESS)"
    and "list_all (\<lambda>kv. trim (fst kv) = fst kv) put" and "distinct (map fst put)"
  shows "role_state_of M (Some (role_after M role fs \<lparr>rw_move = None, rw_clears = [], rw_sets = put\<rparr>)) =
    \<lparr>rs_holder = Some c, rs_claimed_at = Some now\<rparr>"
proof -
  have "claim_role c (rs_holder (role_state_of M (Some fs))) (rs_claimed_at (role_state_of M (Some fs))) now LEASE_FRESHNESS = Taken"
    using assms(2) by (auto simp: claim_role_def lease_verdict_of_def split: option.split)
  then have lands: "role_after M role fs \<lparr>rw_move = None, rw_clears = [], rw_sets = put\<rparr> = edit_fields fs [] put"
    using assms(1) by (simp add: role_after_def refuses_role_write_def)
  have "map (\<lambda>(k, v). (trim k, v)) put = put"
    using assms(3) by (induction put) auto
  then have at: "bt_get (edit_fields fs [] put) j = (case map_of put j of Some v \<Rightarrow> Some v | None \<Rightarrow> bt_get fs j)" for j
    using assms(4) by (simp add: edit_fields_def fold_insert_get map_of_rev_distinct)
  obtain v where "map_of put ROLE_HOLDER = Some c" "map_of put ROLE_CLAIMED_AT = Some v" "read_moment M v = Some now"
    using assms(1) by (auto simp: role_claim_in_def bt_get_def bind_eq_Some_conv)
  then show ?thesis unfolding lands by (simp add: role_state_of_def has_key_def at)
qed

text \<open>
  The screen is taken on the keys as they are sent and the store trims them: an ordinary write that pads the
  role's two keys passes both, and takes the role from whoever holds it, however fresh the lease.
\<close>

lemma padded_keys_take_a_held_role:
  assumes "read_moment M v = Some now"
  shows "screened subject \<lparr>rw_move = None, rw_clears = [], rw_sets = [('' claimed_at'', v), ('' holder'', c)]\<rparr> \<and>
    role_state_of M (Some (role_after M role fs
      \<lparr>rw_move = None, rw_clears = [], rw_sets = [('' claimed_at'', v), ('' holder'', c)]\<rparr>)) =
      \<lparr>rs_holder = Some c, rs_claimed_at = Some now\<rparr>"
proof
  let ?w = "\<lparr>rw_move = None, rw_clears = [], rw_sets = [('' claimed_at'', v), ('' holder'', c)]\<rparr>"
  show "screened subject ?w"
    by (simp add: screened_def refuses_role_fields_def ROLE_HOLDER_def ROLE_CLAIMED_AT_def split: Option.bind_split)
  have trims: "trim '' claimed_at'' = ROLE_CLAIMED_AT" "trim '' holder'' = ROLE_HOLDER"
    "trim ''claimed_at'' = ROLE_CLAIMED_AT" "trim ''holder'' = ROLE_HOLDER" by code_simp+
  have "role_claim_in M (rw_sets ?w) = None"
    by (simp add: role_claim_in_def bt_get_def ROLE_HOLDER_def)
  then have lands: "role_after M role fs ?w = edit_fields fs [] [('' claimed_at'', v), ('' holder'', c)]"
    by (simp add: role_after_def refuses_role_write_def)
  show "role_state_of M (Some (role_after M role fs ?w)) = \<lparr>rs_holder = Some c, rs_claimed_at = Some now\<rparr>"
    unfolding lands
    by (simp add: role_state_of_def has_key_def edit_fields_def trims assms bt_get_insert_other [OF not_sym] del: bt_insert.simps)
qed

definition sample_moments :: moments where
  "sample_moments =
     \<lparr>read_moment = (\<lambda>t. if t = ''2026-07-01T10:00:00Z'' then Some (1782900000 * SECOND)
        else if t = ''2026-07-01T10:30:00Z'' then Some (1782901800 * SECOND)
        else if t = ''2026-07-01T12:00:00Z'' then Some (1782907200 * SECOND) else None),
      text_of_moment = (\<lambda>m. if m < 1782901800 * SECOND then ''2026-07-01T10:00:00Z''
        else if m < 1782907200 * SECOND then ''2026-07-01T10:30:00Z'' else ''2026-07-01T12:00:00Z''),
      moment_max = 253402207200 * SECOND\<rparr>"

definition held_desk :: fields where
  "held_desk = [(''claimed_at'', ''2026-07-01T10:00:00Z''), (''holder'', ''a1b2c3'')]"

definition desk_writes :: "role_write list" where
  "desk_writes =
     [\<lparr>rw_move = None, rw_clears = [], rw_sets = [(''claimed_at'', ''2026-07-01T10:30:00Z''), (''holder'', ''d4e5f6'')]\<rparr>,
      \<lparr>rw_move = Some \<lparr>rm_kind = Release, rm_role = ''desk'', rm_claimant = ''d4e5f6''\<rparr>, rw_clears = [''holder''], rw_sets = []\<rparr>,
      \<lparr>rw_move = None, rw_clears = [''note''], rw_sets = [(''status'', ''open'')]\<rparr>]"

lemma fresh_lease_is_kept_witness:
  "role_state_of sample_moments (Some (foldl (role_after sample_moments ''desk'') held_desk desk_writes)) =
    \<lparr>rs_holder = Some ''a1b2c3'', rs_claimed_at = Some (1782900000 * SECOND)\<rparr>"
  by (rule fresh_lease_is_kept [of "''role:desk''"]) code_simp+

lemma open_role_can_be_taken_witness:
  "role_state_of sample_moments (Some (role_after sample_moments ''desk'' held_desk
     \<lparr>rw_move = None, rw_clears = [],
      rw_sets = [(''claimed_at'', ''2026-07-01T12:00:00Z''), (''holder'', ''d4e5f6'')]\<rparr>)) =
    \<lparr>rs_holder = Some ''d4e5f6'', rs_claimed_at = Some (1782907200 * SECOND)\<rparr>"
proof (rule open_role_can_be_taken)
  have "rs_claimed_at (role_state_of sample_moments (Some held_desk)) = Some (1782900000 * SECOND)" by code_simp
  then show "rs_holder (role_state_of sample_moments (Some held_desk)) \<in> {None, Some ''d4e5f6''} \<or>
      rs_claimed_at (role_state_of sample_moments (Some held_desk)) = None \<or>
      (\<exists>t. rs_claimed_at (role_state_of sample_moments (Some held_desk)) = Some t \<and>
        1782907200 * SECOND - t \<ge> LEASE_FRESHNESS)"
    by (simp add: LEASE_FRESHNESS_def SECOND_def)
qed code_simp+

end
