(* ===== verification/Sessions.thy ===== *)
theory Sessions
  imports Leases Stable_Sort
begin

text \<open>
  A bot's runs (\<open>session.rs\<close>, \<open>session/history.rs\<close>, \<open>session/run_named.rs\<close>, \<open>handle.rs\<close>): the names and keys a run is
  known by, its states and its wrap window, when it is stale and when it is offered again, the board a bot
  opens on, the tallies kept in its chronology, and the history of its changes.
\<close>

section \<open>Names of a run\<close>

definition ALPHABET :: string where "ALPHABET = ''0123456789abcdefghjkmnpqrstvwxyz''"
definition SID_LEN :: nat where "SID_LEN = 4"
definition RUN_LEN :: nat where "RUN_LEN = 6"
definition KEY_PREFIX :: string where "KEY_PREFIX = ''sk-''"
definition KEY_DRAWN :: nat where "KEY_DRAWN = 26"
definition KEY_VOID :: string where "KEY_VOID = ''void''"

definition is_drawn :: "string \<Rightarrow> nat \<Rightarrow> bool" where
  "is_drawn candidate n \<longleftrightarrow> length candidate = n \<and> list_all (\<lambda>b. b \<in> set ALPHABET) candidate"

definition is_run_name :: "string \<Rightarrow> bool" where
  "is_run_name n = is_drawn n RUN_LEN"

definition is_readable_sid :: "string \<Rightarrow> bool" where
  "is_readable_sid sid \<longleftrightarrow> is_drawn sid SID_LEN \<or> is_run_name sid"

definition is_key :: "string \<Rightarrow> bool" where
  "is_key v \<longleftrightarrow> (case strip_prefix KEY_PREFIX v of None \<Rightarrow> False | Some r \<Rightarrow> is_drawn r KEY_DRAWN)"

datatype retired_by = Resumed | WrappedUp  \<comment> \<open>\<open>RetiredBy::Wrapped\<close>\<close>

primrec retired_token :: "retired_by \<Rightarrow> string" where
  "retired_token Resumed = ''resumed''"
| "retired_token WrappedUp = ''wrapped''"

definition retired_of_token :: "string \<Rightarrow> retired_by option" where
  "retired_of_token token =
     (if token = ''resumed'' then Some Resumed else if token = ''wrapped'' then Some WrappedUp else None)"

record retired_key =
  rk_hash :: string
  rk_at :: int
  rk_by :: retired_by

record key_trail =
  kt_retired :: "retired_key option"
  kt_taken_at :: "int option"
  kt_displaced_by :: "string option"

definition no_trail :: key_trail where
  "no_trail = \<lparr>kt_retired = None, kt_taken_at = None, kt_displaced_by = None\<rparr>"

record minted_run =
  mr_name :: string
  mr_key_hash :: string
  mr_bot :: entity_id
  mr_zone :: "string option"
  mr_day :: "int option"
  mr_minted_at :: int

section \<open>States and windows\<close>

datatype session_state = Open_Run | Wrapped | Abandoned  \<comment> \<open>\<open>Open_Run\<close> is \<open>SessionState::Active\<close>\<close>

definition session_states :: "session_state list" where
  "session_states = [Open_Run, Wrapped, Abandoned]"

primrec state_token :: "session_state \<Rightarrow> string" where
  "state_token Open_Run = ''active''"
| "state_token Wrapped = ''wrapped''"
| "state_token Abandoned = ''abandoned''"

definition state_of_token :: "string \<Rightarrow> session_state option" where
  "state_of_token token = find (\<lambda>s. state_token s = trim token) session_states"

definition is_terminal :: "session_state \<Rightarrow> bool" where
  "is_terminal s \<longleftrightarrow> s \<noteq> Open_Run"

definition is_final :: "session_state \<Rightarrow> bool" where
  "is_final s \<longleftrightarrow> s = Wrapped"

datatype wrap_window = Offered string | Opened string  \<comment> \<open>\<open>WrapWindow::Open\<close>\<close>

definition HOUR :: int where "HOUR = 3600 * SECOND"
definition WRAP_WINDOW_HOURS :: int where "WRAP_WINDOW_HOURS = 2"
definition WRAP_CODE_PREFIX :: string where "WRAP_CODE_PREFIX = ''wc-''"
definition WRAP_HASH_PREFIX :: string where "WRAP_HASH_PREFIX = ''wh-''"

text \<open>The SHA-256 of a key, in hexadecimal, is a parameter.\<close>

definition hash_wrap_code :: "(string \<Rightarrow> string) \<Rightarrow> string \<Rightarrow> string" where
  "hash_wrap_code hash_key code = WRAP_HASH_PREFIX @ hash_key code"

definition is_wrap_code :: "string \<Rightarrow> bool" where
  "is_wrap_code answer = starts_with WRAP_CODE_PREFIX answer"

primrec window_code :: "wrap_window \<Rightarrow> string" where
  "window_code (Offered code) = code"
| "window_code (Opened code) = code"

definition answers_to :: "(string \<Rightarrow> string) \<Rightarrow> wrap_window \<Rightarrow> string \<Rightarrow> bool" where
  "answers_to hash_key w code \<longleftrightarrow>
     (let stored = window_code w in
      stored = hash_wrap_code hash_key code \<or>
      is_wrap_code code \<and> starts_with WRAP_CODE_PREFIX stored \<and> stored = code)"

primrec window_is_open :: "wrap_window \<Rightarrow> bool" where
  "window_is_open (Offered _) \<longleftrightarrow> False"
| "window_is_open (Opened _) \<longleftrightarrow> True"

primrec window_to_stored :: "wrap_window \<Rightarrow> string" where
  "window_to_stored (Offered code) = ''offered '' @ code"
| "window_to_stored (Opened code) = ''open '' @ code"

definition window_from_stored :: "string \<Rightarrow> wrap_window option" where
  "window_from_stored stored =
     Option.bind (split_once CHR '' '' stored) (\<lambda>(state, code).
       if \<not> is_wrap_code code \<and> \<not> starts_with WRAP_HASH_PREFIX code then None
       else if state = ''offered'' then Some (Offered code)
       else if state = ''open'' then Some (Opened code)
       else None)"

section \<open>A run\<close>

record journal_entry =
  je_id :: string
  je_at :: int
  je_on :: "int option"
  je_text :: string
  je_touched :: "int option"
  je_beat :: "string option"
  je_closing_focus :: "string option"
  je_closing :: bool

definition is_auto :: "journal_entry \<Rightarrow> bool" where
  "is_auto e \<longleftrightarrow> je_beat e \<noteq> None"

record new_entry =
  ne_text :: string
  ne_at :: int
  ne_beat :: "string option"
  ne_on :: "int option"
  ne_closing_focus :: "string option"
  ne_closing :: bool

definition manual_entry :: "string \<Rightarrow> int \<Rightarrow> int option \<Rightarrow> new_entry" where
  "manual_entry t moment day =
     \<lparr>ne_text = t, ne_at = moment, ne_beat = None, ne_on = day, ne_closing_focus = None, ne_closing = False\<rparr>"

definition beat_entry :: "string \<Rightarrow> string \<Rightarrow> int \<Rightarrow> int option \<Rightarrow> new_entry" where
  "beat_entry class t moment day =
     \<lparr>ne_text = t, ne_at = moment, ne_beat = Some class, ne_on = day, ne_closing_focus = None, ne_closing = False\<rparr>"

definition closing_of :: "new_entry \<Rightarrow> string option \<Rightarrow> new_entry" where
  "closing_of e focus = e\<lparr>ne_closing_focus := focus, ne_closing := True\<rparr>"

record new_session =
  ns_bot :: entity_id
  ns_sid :: string
  ns_id :: "string option"
  ns_key_hash :: "string option"
  ns_focus :: string
  ns_started_at :: int
  ns_timezone :: "string option"
  ns_started_on :: "int option"

record session_run =
  ss_id :: string
  ss_sid :: "string option"
  ss_key_hash :: "string option"
  ss_bot :: entity_id
  ss_focus :: string
  ss_started_at :: int
  ss_state :: session_state
  ss_entries :: "journal_entry list"
  ss_timezone :: "string option"
  ss_started_on :: "int option"
  ss_served_chars :: nat
  ss_stated_day :: "int option"
  ss_wrap_window :: "wrap_window option"
  ss_charter_told_at :: "int option"
  ss_key_trail :: key_trail

definition NEVER_TOLD :: int where "NEVER_TOLD = 0"

definition told_in_words :: "moments \<Rightarrow> string \<Rightarrow> string" where
  "told_in_words M stored = (if read_moment M stored = Some NEVER_TOLD then ''never told'' else stored)"

definition takes_writes :: "session_run \<Rightarrow> bool" where
  "takes_writes s \<longleftrightarrow>
     \<not> is_terminal (ss_state s) \<or>
     ss_state s = Wrapped \<and> (case ss_wrap_window s of None \<Rightarrow> False | Some w \<Rightarrow> window_is_open w)"

definition greatest :: "int list \<Rightarrow> int option" where
  "greatest xs = (case xs of [] \<Rightarrow> None | x # xs \<Rightarrow> Some (foldl max x xs))"

definition last_beat_of :: "int \<Rightarrow> (int \<times> int option) list \<Rightarrow> int" where
  "last_beat_of started_at beats =
     (case greatest (concat (map (\<lambda>(t, touched). [t, case touched of None \<Rightarrow> t | Some x \<Rightarrow> x]) beats)) of
        None \<Rightarrow> started_at | Some t \<Rightarrow> t)"

definition last_beat :: "session_run \<Rightarrow> int" where
  "last_beat s = last_beat_of (ss_started_at s) (map (\<lambda>e. (je_at e, je_touched e)) (ss_entries s))"

definition closing_entry :: "session_run \<Rightarrow> journal_entry option" where
  "closing_entry s =
     (case find je_closing (rev (ss_entries s)) of
        Some e \<Rightarrow> Some e
      | None \<Rightarrow> find (\<lambda>e. je_closing_focus e \<noteq> None) (rev (ss_entries s)))"

definition wrapped_at :: "session_run \<Rightarrow> int" where
  "wrapped_at s = (case closing_entry s of None \<Rightarrow> last_beat s | Some e \<Rightarrow> je_at e)"

definition window_ends_at :: "moments \<Rightarrow> session_run \<Rightarrow> int option" where
  "window_ends_at M s =
     (case ss_wrap_window s of
        None \<Rightarrow> None
      | Some _ \<Rightarrow>
          (let ends = wrapped_at s + WRAP_WINDOW_HOURS * HOUR in
           if ends \<le> moment_max M then Some ends else None))"

definition window_lapsed_at :: "moments \<Rightarrow> session_run \<Rightarrow> int \<Rightarrow> bool" where
  "window_lapsed_at M s now \<longleftrightarrow>
     ss_state s = Wrapped \<and> (case window_ends_at M s of None \<Rightarrow> False | Some ends \<Rightarrow> now \<ge> ends)"

definition last_beat_on :: "session_run \<Rightarrow> int option" where
  "last_beat_on s =
     (case greatest (List.map_filter je_on (ss_entries s)) of None \<Rightarrow> ss_started_on s | Some d \<Rightarrow> Some d)"

section \<open>Stale runs and runs offered again\<close>

definition ABANDONED_AFTER :: int where "ABANDONED_AFTER = 24 * HOUR"
definition OFFER_ABANDONED_WITHIN :: int where "OFFER_ABANDONED_WITHIN = (24 * 7) * HOUR"

text \<open>
  A span of whole days in hours, added to a civil day, moves it by those days (\<open>jiff\<close> balances hours into days
  of 24); past the last day it is the last day.
\<close>

definition keeps_working_until :: "world \<Rightarrow> int \<Rightarrow> int \<Rightarrow> int" where
  "keeps_working_until W date_max day =
     (case add_days W day (ABANDONED_AFTER div (24 * HOUR)) of None \<Rightarrow> date_max | Some d \<Rightarrow> d)"

definition still_offered_until :: "world \<Rightarrow> int \<Rightarrow> int \<Rightarrow> int" where
  "still_offered_until W date_max day =
     (case add_days W day (OFFER_ABANDONED_WITHIN div (24 * HOUR)) of None \<Rightarrow> date_max | Some d \<Rightarrow> d)"

definition is_stale :: "world \<Rightarrow> int \<Rightarrow> session_run \<Rightarrow> int \<Rightarrow> int option \<Rightarrow> bool" where
  "is_stale W date_max s now today \<longleftrightarrow>
     \<not> is_terminal (ss_state s) \<and>
     (case (today, last_beat_on s) of
        (Some t, Some l) \<Rightarrow> t > keeps_working_until W date_max l
      | _ \<Rightarrow> now - last_beat s \<ge> ABANDONED_AFTER)"

definition is_offerable :: "world \<Rightarrow> int \<Rightarrow> session_run \<Rightarrow> int \<Rightarrow> int option \<Rightarrow> bool" where
  "is_offerable W date_max s now today \<longleftrightarrow>
     ss_state s = Abandoned \<and>
     (case (today, last_beat_on s) of
        (Some t, Some l) \<Rightarrow> t \<le> still_offered_until W date_max l
      | _ \<Rightarrow> now - last_beat s < OFFER_ABANDONED_WITHIN)"

datatype session_error =
    Indeterminate
  | InvalidId string
  | EntryEmpty
  | FocusEmpty
  | FocusNotPlain
  | FocusTooLong nat
  | ForeignSid string
  | BegunAlready string
  | UnknownSession string
  | Closed string session_state "string option"
  | NotWrapped string session_state
  | NoEntries string
  | NotABeat string string
  | StoreFailed string
  | UnreadableRun string
  | StoreRefused string
  | StoreConflict
  | KindSetNeverLoaded

record board =
  bd_live :: "session_run list"
  bd_offerable :: "session_run option"
  bd_handover :: "session_run option"
  bd_swept :: "string list"
  bd_unswept :: "(string \<times> session_error) list"
  bd_windows_open :: "string list"

definition windows_open :: "session_run list \<Rightarrow> string list" where
  "windows_open runs = map ss_id (filter (\<lambda>r. ss_wrap_window r \<noteq> None) runs)"

text \<open>\<open>Iterator::max_by_key\<close>: the last of the greatest.\<close>

fun max_by_key :: "('a \<Rightarrow> int) \<Rightarrow> 'a list \<Rightarrow> 'a option" where
  "max_by_key f [] = None"
| "max_by_key f (x # xs) =
     (case max_by_key f xs of None \<Rightarrow> Some x | Some y \<Rightarrow> if f x > f y then Some x else Some y)"

definition board_of ::
  "world \<Rightarrow> int \<Rightarrow> session_run list \<Rightarrow> string list \<Rightarrow> (string \<times> session_error) list \<Rightarrow> int \<Rightarrow> int option \<Rightarrow> board" where
  "board_of W date_max existing swept unswept now today =
     \<lparr>bd_live = filter (\<lambda>s. \<not> is_terminal (ss_state s) \<and> \<not> is_stale W date_max s now today) existing,
      bd_offerable = find (\<lambda>s. is_offerable W date_max s now today)
        (map (\<lambda>s. if ss_id s \<in> set swept then s\<lparr>ss_state := Abandoned\<rparr> else s) existing),
      bd_handover = max_by_key wrapped_at (filter (\<lambda>s. ss_state s = Wrapped) existing),
      bd_swept = swept, bd_unswept = unswept, bd_windows_open = windows_open existing\<rparr>"

text \<open>A board over the store's answers: the runs it lists, and what each close answers.\<close>

definition sweep_and_find ::
  "world \<Rightarrow> int \<Rightarrow> session_error + session_run list \<Rightarrow> (string \<Rightarrow> session_error option) \<Rightarrow> int \<Rightarrow> int option
     \<Rightarrow> session_error + board" where
  "sweep_and_find W date_max listed close now today =
     ok_then listed (\<lambda>existing.
       let stale = map ss_id (filter (\<lambda>s. is_stale W date_max s now today) existing) in
       Inr (board_of W date_max existing (filter (\<lambda>i. close i = None) stale)
             (List.map_filter (\<lambda>i. map_option (\<lambda>e. (i, e)) (close i)) stale) now today))"

definition find_without_sweeping ::
  "world \<Rightarrow> int \<Rightarrow> session_error + session_run list \<Rightarrow> int \<Rightarrow> int option \<Rightarrow> session_error + board" where
  "find_without_sweeping W date_max listed now today =
     ok_then listed (\<lambda>existing.
       Inr (board_of W date_max existing (map ss_id (filter (\<lambda>s. is_stale W date_max s now today) existing)) [] now today))"

section \<open>What a run takes in\<close>

definition is_id_byte :: "char \<Rightarrow> bool" where
  "is_id_byte b \<longleftrightarrow> CHR ''a'' \<le> b \<and> b \<le> CHR ''z'' \<or> is_digit b \<or> b = CHR ''-''"

definition validate_session_id :: "string \<Rightarrow> session_error + unit" where
  "validate_session_id i = refuse_when (\<not> (i \<noteq> [] \<and> length i \<le> 64 \<and> list_all is_id_byte i)) (InvalidId i)"

definition validate_entry :: "string \<Rightarrow> session_error + unit" where
  "validate_entry entry = refuse_when (trim entry = []) EntryEmpty"

definition validate_focus :: "string \<Rightarrow> session_error + unit" where
  "validate_focus focus =
     (let f = trim focus in
      ok_then (refuse_when (f = []) FocusEmpty) (\<lambda>_.
      ok_then (refuse_when (CHR 0x0A \<in> set f \<or> CHR 0x0D \<in> set f \<or> CHR 0x60 \<in> set f \<or>
                 list_ex is_control_char (utf8_chars f)) FocusNotPlain) (\<lambda>_.
        refuse_when (char_count f > 200) (FocusTooLong (char_count f)))))"

fun has_crlf :: "string \<Rightarrow> bool" where
  "has_crlf (a # b # s) \<longleftrightarrow> a = CHR 0x0D \<and> b = CHR 0x0A \<or> has_crlf (b # s)"
| "has_crlf _ \<longleftrightarrow> False"

fun crlf_pass :: "string \<Rightarrow> string" where
  "crlf_pass (a # b # s) =
     (if a = CHR 0x0D \<and> b = CHR 0x0A then CHR 0x0A # crlf_pass s else a # crlf_pass (b # s))"
| "crlf_pass s = s"

lemma crlf_pass_length: "length (crlf_pass s) \<le> length s"
  by (induction s rule: crlf_pass.induct) auto

lemma crlf_pass_shorter: "has_crlf s \<Longrightarrow> length (crlf_pass s) < length s"
proof (induction s rule: crlf_pass.induct)
  case (1 a b s)
  show ?case
  proof (cases "a = CHR 0x0D \<and> b = CHR 0x0A")
    case True
    then show ?thesis using crlf_pass_length [of s] by simp
  next
    case False
    then show ?thesis using 1 by auto
  qed
qed simp_all

function drop_crlf :: "string \<Rightarrow> string" where
  "drop_crlf s = (if has_crlf s then drop_crlf (crlf_pass s) else s)"
  by auto
termination by (relation "measure length") (auto simp: crlf_pass_shorter)

declare drop_crlf.simps [simp del]

definition normalize_entry :: "string \<Rightarrow> string" where
  "normalize_entry entry = trim (drop_crlf entry)"

section \<open>Tallies in the chronology\<close>

record beat =
  be_entry :: string
  be_count :: nat
  be_examples :: "string list"

definition BEAT_EXAMPLES :: nat where "BEAT_EXAMPLES = 5"

definition BEAT_CLASSES :: "(string \<times> string) list" where
  "BEAT_CLASSES =
     [(''add_entity'', ''brought entities into being''),
      (''update_entity'', ''edited entities''),
      (''capture'', ''captured facts about''),
      (''put_document'', ''put markdown onto''),
      (''update_fact'', ''edited facts''),
      (''set_charter'', ''wrote charters for''),
      (''post_message'', ''posted to mailboxes''),
      (''mark_processed'', ''retired messages''),
      (''quarantine'', ''quarantined messages''),
      (''rename_entity'', ''renamed entities''),
      (''retract'', ''took back records''),
      (''merge_entities'', ''merged entities''),
      (''archive_entity'', ''archived entities'')]"

text \<open>The bytes of a comma, a space and an ellipsis.\<close>

definition AND_MORE :: string where "AND_MORE = [CHR '','', CHR '' '', CHR 0xE2, CHR 0x80, CHR 0xA6]"

definition beat_text :: "string \<Rightarrow> beat \<Rightarrow> string" where
  "beat_text phrase b =
     phrase @ '': '' @ join '', '' (be_examples b) @ (if length (be_examples b) < be_count b then AND_MORE else []) @
     '' ('' @ show_nat (be_count b) @ '')''"

text \<open>\<open>str::rsplit_once\<close> and \<open>str::split\<close> at a pattern of two bytes.\<close>

fun split_pair :: "char \<Rightarrow> char \<Rightarrow> string \<Rightarrow> (string \<times> string) option" where
  "split_pair c d (a # b # s) =
     (if a = c \<and> b = d then Some ([], s) else map_option (\<lambda>(x, y). (a # x, y)) (split_pair c d (b # s)))"
| "split_pair c d _ = None"

definition rsplit_pair :: "char \<Rightarrow> char \<Rightarrow> string \<Rightarrow> (string \<times> string) option" where
  "rsplit_pair c d s = map_option (\<lambda>(y, x). (rev x, rev y)) (split_pair d c (rev s))"

fun split_comma :: "string \<Rightarrow> string list" where
  "split_comma (a # b # s) =
     (if a = CHR '','' \<and> b = CHR '' '' then [] # split_comma s
      else (a # hd (split_comma (b # s))) # tl (split_comma (b # s)))"
| "split_comma s = [s]"

text \<open>\<open>str::trim_end_matches\<close> of the mark, on the reversed text.\<close>

lemma strip_prefix_length: "strip_prefix p s = Some r \<Longrightarrow> length s = length p + length r"
  by (auto simp: strip_prefix_Some)

function drop_marks :: "string \<Rightarrow> string" where
  "drop_marks s = (case strip_prefix (rev AND_MORE) s of None \<Rightarrow> s | Some r \<Rightarrow> drop_marks r)"
  by auto
termination
  by (relation "measure length") (auto simp: AND_MORE_def dest: strip_prefix_length)

declare drop_marks.simps [simp del]

definition parse_beat :: "string \<Rightarrow> journal_entry \<Rightarrow> beat option" where
  "parse_beat phrase e =
     Option.bind (strip_prefix phrase (je_text e)) (\<lambda>r.
     Option.bind (strip_prefix '': '' r) (\<lambda>r.
     Option.bind (rsplit_pair CHR '' '' CHR ''('' r) (\<lambda>(named, n).
     Option.bind (strip_suffix '')'' n) (\<lambda>n.
     Option.bind (parse_unsigned usize_max n) (\<lambda>n.
       Some \<lparr>be_entry = je_id e, be_count = n,
             be_examples = filter (\<lambda>x. x \<noteq> []) (split_comma (rev (drop_marks (rev named))))\<rparr>)))))"

definition beats_of :: "session_run \<Rightarrow> (string, beat) btree" where
  "beats_of s =
     foldl (\<lambda>found e.
       case je_beat e of
         None \<Rightarrow> found
       | Some class \<Rightarrow>
           (case map_of BEAT_CLASSES class of
              None \<Rightarrow> found
            | Some phrase \<Rightarrow>
                (case parse_beat phrase e of None \<Rightarrow> found | Some b \<Rightarrow> bt_insert class b found))) [] (ss_entries s)"

section \<open>The history of a run\<close>

definition newest_first :: "int \<times> string \<Rightarrow> int \<times> string \<Rightarrow> ordering" where
  "newest_first a b = then_with (cmp (fst b) (fst a)) (cmp (snd b) (snd a))"

datatype change_kind =
    CBegin | CEntry | CAmendLast | CAmendBeat | CFocus | CTimezone | CStatedDay | CWrapWindow | CState
  | CServedReset | CKey | CCharterTold

definition change_kinds :: "change_kind list" where
  "change_kinds =
     [CBegin, CEntry, CAmendLast, CAmendBeat, CFocus, CTimezone, CStatedDay, CWrapWindow, CState, CServedReset,
      CKey, CCharterTold]"

primrec change_token :: "change_kind \<Rightarrow> string" where
  "change_token CBegin = ''begin''"
| "change_token CEntry = ''entry''"
| "change_token CAmendLast = ''amend_last''"
| "change_token CAmendBeat = ''amend_beat''"
| "change_token CFocus = ''focus''"
| "change_token CTimezone = ''timezone''"
| "change_token CStatedDay = ''stated_day''"
| "change_token CWrapWindow = ''wrap_window''"
| "change_token CState = ''state''"
| "change_token CServedReset = ''served_reset''"
| "change_token CKey = ''key''"
| "change_token CCharterTold = ''charter_told''"

definition change_of_token :: "string \<Rightarrow> change_kind option" where
  "change_of_token token = find (\<lambda>k. change_token k = token) change_kinds"

definition JOURNAL :: string where "JOURNAL = ''journal''"

primrec change_field :: "change_kind \<Rightarrow> string" where
  "change_field CBegin = ''focus''"
| "change_field CEntry = JOURNAL"
| "change_field CAmendLast = JOURNAL"
| "change_field CAmendBeat = JOURNAL"
| "change_field CFocus = ''focus''"
| "change_field CTimezone = ''timezone''"
| "change_field CStatedDay = ''stated_day''"
| "change_field CWrapWindow = ''wrap_window''"
| "change_field CState = ''state''"
| "change_field CServedReset = ''served_chars''"
| "change_field CKey = ''key''"
| "change_field CCharterTold = ''charter_told''"

definition moves_the_index :: "change_kind \<Rightarrow> bool" where
  "moves_the_index k \<longleftrightarrow> k \<in> {CBegin, CEntry, CAmendLast, CAmendBeat, CFocus}"

record session_change =
  sc_ordinal :: nat
  sc_changed :: "change_kind option"
  sc_value :: "string option"
  sc_written_at :: "int option"

record wording =
  wo_revision :: nat
  wo_text :: string
  wo_touched :: "int option"
  wo_written_at :: int

text \<open>A page of a list, the newest first: \<open>items[start..end]\<close> with saturating bounds.\<close>

definition page :: "'a list \<Rightarrow> nat \<Rightarrow> nat \<Rightarrow> 'a list" where
  "page xs most skip = (let upto = length xs - skip; start = upto - most in drop start (take upto xs))"

definition trace_field :: "string \<Rightarrow> session_change list \<Rightarrow> nat \<Rightarrow> nat \<Rightarrow> session_change list \<times> nat" where
  "trace_field field changes most skip =
     (let of_field = filter (\<lambda>c. case sc_changed c of None \<Rightarrow> False | Some k \<Rightarrow> change_field k = field) changes
      in (page of_field most skip, length of_field))"

text \<open>Each wording is placed in the one sequence of all of them; a page keeps the places that fall in it.\<close>

fun parts_kept :: "nat set \<Rightarrow> nat \<Rightarrow> (string \<times> wording list) list \<Rightarrow> (string \<times> nat \<times> wording list) list" where
  "parts_kept kept at_place [] = []"
| "parts_kept kept at_place ((e, ws) # amended) =
     (let here = map snd (filter (\<lambda>(i, _). i \<in> kept) (enumerate at_place ws));
          more = parts_kept kept (at_place + length ws) amended
      in if here = [] then more else (e, length ws, here) # more)"

definition trace_journal :: "(string \<times> wording list) list \<Rightarrow> nat \<Rightarrow> nat \<Rightarrow> (string \<times> nat \<times> wording list) list \<times> nat" where
  "trace_journal entries most skip =
     (let amended = filter (\<lambda>(_, ws). length ws > 1) entries;
          by_write = sort_by (\<lambda>a b. then_with (cmp (fst a) (fst b)) (cmp (snd a) (snd b)))
            (map (\<lambda>(place, w). (wo_written_at w, place)) (enumerate 0 (concat (map snd amended))))
      in (parts_kept (snd ` set (page by_write most skip)) 0 amended, length by_write))"

datatype change =
    BeginWith string
  | EntryAdded string
  | LastAmended string
  | BeatAmended string
  | FocusSet string
  | ZoneSet "string option"
  | DaySet "int option"
  | WindowSet "wrap_window option"
  | StateSet session_state
  | ServedSet nat
  | KeySet
  | CharterTold int

primrec kind_of_change :: "change \<Rightarrow> change_kind" where
  "kind_of_change (BeginWith _) = CBegin"
| "kind_of_change (EntryAdded _) = CEntry"
| "kind_of_change (LastAmended _) = CAmendLast"
| "kind_of_change (BeatAmended _) = CAmendBeat"
| "kind_of_change (FocusSet _) = CFocus"
| "kind_of_change (ZoneSet _) = CTimezone"
| "kind_of_change (DaySet _) = CStatedDay"
| "kind_of_change (WindowSet _) = CWrapWindow"
| "kind_of_change (StateSet _) = CState"
| "kind_of_change (ServedSet _) = CServedReset"
| "kind_of_change KeySet = CKey"
| "kind_of_change (CharterTold _) = CCharterTold"

primrec change_value :: "world \<Rightarrow> moments \<Rightarrow> change \<Rightarrow> string option" where
  "change_value W M (BeginWith focus) = Some focus"
| "change_value W M (EntryAdded i) = Some i"
| "change_value W M (LastAmended i) = Some i"
| "change_value W M (BeatAmended i) = Some i"
| "change_value W M (FocusSet focus) = Some focus"
| "change_value W M (ZoneSet zone) = zone"
| "change_value W M (DaySet day) = map_option (text_of_date W) day"
| "change_value W M (WindowSet w) = map_option (\<lambda>w. if window_is_open w then ''open'' else ''offered'') w"
| "change_value W M (StateSet s) = Some (state_token s)"
| "change_value W M (ServedSet n) = Some (show_nat n)"
| "change_value W M KeySet = None"
| "change_value W M (CharterTold moment) = Some (text_of_moment M moment)"

definition next_change :: "world \<Rightarrow> moments \<Rightarrow> nat option \<Rightarrow> change \<Rightarrow> int \<Rightarrow> session_change" where
  "next_change W M highest_held c moment =
     \<lparr>sc_ordinal = (case highest_held of None \<Rightarrow> 0 | Some n \<Rightarrow> n) + 1, sc_changed = Some (kind_of_change c),
      sc_value = change_value W M c, sc_written_at = Some moment\<rparr>"

definition next_wording :: "nat option \<Rightarrow> string \<Rightarrow> int option \<Rightarrow> int \<Rightarrow> wording" where
  "next_wording highest_held t touched moment =
     \<lparr>wo_revision = (case highest_held of None \<Rightarrow> 0 | Some n \<Rightarrow> n) + 1, wo_text = t, wo_touched = touched,
      wo_written_at = moment\<rparr>"

section \<open>What a run was served\<close>

record reset_mark =
  re_total :: nat
  re_at :: int
  re_day :: "int option"

text \<open>The sum of two \<open>u64\<close>, which wraps as the release build's does.\<close>

definition u64_add :: "nat \<Rightarrow> nat \<Rightarrow> nat" where
  "u64_add a b = (a + b) mod (usize_max + 1)"

lemma u64_add_code [code]: "u64_add a b = nat ((int a + int b) mod 18446744073709551616)"
proof -
  have "u64_add a b = nat (int ((a + b) mod 18446744073709551616))" by (simp add: u64_add_def usize_max_def)
  then show ?thesis unfolding of_nat_mod of_nat_add of_nat_numeral .
qed

definition lifetime_served :: "nat \<Rightarrow> nat \<Rightarrow> nat" where
  "lifetime_served since_compaction set_back = u64_add since_compaction set_back"

definition set_back_total :: "reset_mark list \<Rightarrow> nat" where
  "set_back_total resets = foldl u64_add 0 (map re_total resets)"

fun resets_from :: "world \<Rightarrow> int option \<Rightarrow> session_change list \<Rightarrow> reset_mark list" where
  "resets_from W day [] = []"
| "resets_from W day (c # cs) =
     (if sc_changed c = Some CStatedDay then resets_from W (Option.bind (sc_value c) (date_of_text W)) cs
      else if sc_changed c = Some CServedReset then
        (case (Option.bind (sc_value c) (parse_unsigned usize_max), sc_written_at c) of
           (Some n, Some moment) \<Rightarrow> \<lparr>re_total = n, re_at = moment, re_day = day\<rparr> # resets_from W day cs
         | _ \<Rightarrow> resets_from W day cs)
      else resets_from W day cs)"

definition resets_of :: "world \<Rightarrow> session_change list \<Rightarrow> int option \<Rightarrow> reset_mark list" where
  "resets_of W changes started_on = resets_from W started_on changes"

record run_totals =
  rt_bot :: entity_id
  rt_started_at :: int
  rt_started_on :: "int option"
  rt_served_chars :: nat
  rt_resets :: "reset_mark list"
  rt_dated_from :: "int option"

definition least :: "int list \<Rightarrow> int option" where
  "least xs = (case xs of [] \<Rightarrow> None | x # xs \<Rightarrow> Some (foldl min x xs))"

definition run_totals_of :: "world \<Rightarrow> session_run list \<Rightarrow> (string \<Rightarrow> session_change list option) \<Rightarrow> run_totals list" where
  "run_totals_of W runs changes_of =
     map (\<lambda>r. let kept = (case changes_of (ss_id r) of None \<Rightarrow> [] | Some cs \<Rightarrow> cs) in
       \<lparr>rt_bot = ss_bot r, rt_started_at = ss_started_at r, rt_started_on = ss_started_on r,
        rt_served_chars = ss_served_chars r, rt_resets = resets_of W kept (ss_started_on r),
        rt_dated_from = least (List.map_filter sc_written_at kept)\<rparr>) runs"

record session_summary =
  su_id :: string
  su_sid :: "string option"
  su_bot :: entity_id
  su_focus :: string
  su_started_at :: int
  su_state :: session_state
  su_entry_count :: nat
  su_last_beat :: int
  su_served_chars :: nat
  su_started_on :: "int option"
  su_compactions :: nat
  su_served_set_back :: nat
  su_unreadable :: "string option"

definition counting :: "session_summary \<Rightarrow> reset_mark list \<Rightarrow> session_summary" where
  "counting s resets = s\<lparr>su_compactions := length resets, su_served_set_back := set_back_total resets\<rparr>"

definition summary_of :: "world \<Rightarrow> session_run \<Rightarrow> session_change list \<Rightarrow> session_summary" where
  "summary_of W s changes =
     counting \<lparr>su_id = ss_id s, su_sid = ss_sid s, su_bot = ss_bot s, su_focus = ss_focus s,
        su_started_at = ss_started_at s, su_state = ss_state s, su_entry_count = length (ss_entries s),
        su_last_beat = last_beat s, su_served_chars = ss_served_chars s, su_started_on = ss_started_on s,
        su_compactions = 0, su_served_set_back = 0, su_unreadable = None\<rparr>
       (resets_of W changes (ss_started_on s))"

definition summaries_with :: "world \<Rightarrow> session_run list \<Rightarrow> (string \<times> session_change list) list \<Rightarrow> session_summary list" where
  "summaries_with W runs changes =
     map (\<lambda>r. summary_of W r (case bt_get (bt_of changes) (ss_id r) of None \<Rightarrow> [] | Some cs \<Rightarrow> cs)) runs"

definition run_name :: "session_summary \<Rightarrow> string" where
  "run_name s = (case su_sid s of None \<Rightarrow> su_id s | Some sid \<Rightarrow> sid)"

definition served_lifetime :: "session_summary \<Rightarrow> nat" where
  "served_lifetime s = lifetime_served (su_served_chars s) (su_served_set_back s)"

record run_start =
  ru_started_at :: int
  ru_state :: session_state
  ru_readable :: bool

definition run_start_of :: "session_summary \<Rightarrow> run_start" where
  "run_start_of s = \<lparr>ru_started_at = su_started_at s, ru_state = su_state s, ru_readable = (su_unreadable s = None)\<rparr>"

definition started_ats :: "session_summary list \<Rightarrow> int list" where
  "started_ats runs = map su_started_at (filter (\<lambda>r. su_unreadable r = None) runs)"

definition start_moments :: "run_start list \<Rightarrow> int list" where
  "start_moments runs = map ru_started_at (filter ru_readable runs)"

section \<open>A run by its name\<close>

definition named_among :: "session_summary list \<Rightarrow> string \<Rightarrow> session_summary option" where
  "named_among summaries stored = max_by_key su_started_at (filter (\<lambda>s. su_sid s = Some stored) summaries)"

definition find_among :: "session_summary list \<Rightarrow> string \<Rightarrow> session_summary option" where
  "find_among summaries stored =
     (case find (\<lambda>s. su_id s = stored) summaries of Some s \<Rightarrow> Some s | None \<Rightarrow> named_among summaries stored)"

section \<open>What the board tells\<close>

text \<open>
  C19: A sweep loses no run: each run that was open when the board was drawn is either live on it or named by
  its sweep (closed, or refused with the store's reason), never both and never neither; and when every close
  lands, the board is the one that a reader who may not write computes.
\<close>

theorem sweep_loses_no_run:
  assumes "distinct (map ss_id runs)" and "sweep_and_find W date_max (Inr runs) close now today = Inr b"
  shows "(\<forall>r \<in> set runs. \<not> is_terminal (ss_state r) \<longrightarrow>
      (r \<in> set (bd_live b) \<longleftrightarrow> ss_id r \<notin> set (bd_swept b) \<union> fst ` set (bd_unswept b))) \<and>
    set (bd_swept b) \<inter> fst ` set (bd_unswept b) = {} \<and>
    ((\<forall>i. close i = None) \<longrightarrow> find_without_sweeping W date_max (Inr runs) now today = Inr b)"
proof -
  let ?stale = "filter (\<lambda>s. is_stale W date_max s now today) runs"
  let ?ids = "map ss_id ?stale"
  have b: "b = board_of W date_max runs (filter (\<lambda>i. close i = None) ?ids)
      (List.map_filter (\<lambda>i. map_option (\<lambda>e. (i, e)) (close i)) ?ids) now today"
    using assms(2) by (auto simp: sweep_and_find_def Let_def)
  have refused: "fst ` set (List.map_filter (\<lambda>i. map_option (\<lambda>e. (i, e)) (close i)) is) = {i \<in> set is. close i \<noteq> None}" for "is"
    by (induction "is") (auto simp: List.map_filter_def)
  have named: "set (bd_swept b) \<union> fst ` set (bd_unswept b) = set ?ids"
    unfolding b by (auto simp: board_of_def refused)
  have "set (bd_swept b) \<inter> fst ` set (bd_unswept b) = {}"
    unfolding b by (auto simp: board_of_def refused)
  moreover have "r \<in> set (bd_live b) \<longleftrightarrow> ss_id r \<notin> set ?ids" if "r \<in> set runs" "\<not> is_terminal (ss_state r)" for r
    using that assms(1) unfolding b by (auto simp: board_of_def distinct_map dest: inj_onD)
  moreover have "find_without_sweeping W date_max (Inr runs) now today = Inr b" if "\<forall>i. close i = None"
    unfolding b using that by (simp add: find_without_sweeping_def List.map_filter_def)
  ultimately show ?thesis using named by blast
qed

section \<open>What reads back\<close>

lemma prefixes_apart: "WRAP_HASH_PREFIX @ a \<noteq> WRAP_CODE_PREFIX @ b"
  by (simp add: WRAP_HASH_PREFIX_def WRAP_CODE_PREFIX_def)

text \<open>
  C32: A wrap window reads back as it was stored, and it answers to its own code alone: a hashed window to what
  hashes as its code does and not to its stored text, a window stored in clear to that one code.
\<close>

theorem window_answers_its_own_code:
  assumes "window_code w = (if hashed then hash_wrap_code hash_key code else WRAP_CODE_PREFIX @ code)"
  shows "window_from_stored (window_to_stored w) = Some w \<and>
    (\<forall>answer. answers_to hash_key w answer \<longleftrightarrow>
      (if hashed then hash_key answer = hash_key code else answer = WRAP_CODE_PREFIX @ code))"
proof
  have "is_wrap_code (window_code w) \<or> starts_with WRAP_HASH_PREFIX (window_code w)"
    using assms by (simp add: is_wrap_code_def hash_wrap_code_def)
  moreover have "split_once CHR '' '' (window_to_stored w) =
      Some (case w of Offered _ \<Rightarrow> ''offered'' | Opened _ \<Rightarrow> ''open'', window_code w)"
    by (cases w) (simp_all add: split_once_Some)
  ultimately show "window_from_stored (window_to_stored w) = Some w"
    by (cases w) (auto simp: window_from_stored_def)
  have "\<not> starts_with WRAP_CODE_PREFIX (WRAP_HASH_PREFIX @ s)" for s
    by (simp add: starts_with_def WRAP_HASH_PREFIX_def WRAP_CODE_PREFIX_def)
  then show "\<forall>answer. answers_to hash_key w answer \<longleftrightarrow>
      (if hashed then hash_key answer = hash_key code else answer = WRAP_CODE_PREFIX @ code)"
    using assms prefixes_apart prefixes_apart [symmetric]
    by (auto simp: answers_to_def Let_def hash_wrap_code_def is_wrap_code_def)
qed

lemma split_pair_first: "c \<notin> set xs \<Longrightarrow> split_pair c d (xs @ c # d # s) = Some (xs, s)"
proof (induction xs)
  case (Cons x xs)
  then show ?case by (cases "xs @ c # d # s") auto
qed simp

lemma rsplit_pair_last:
  assumes "d \<notin> set ys"
  shows "rsplit_pair c d (xs @ c # d # ys) = Some (xs, ys)"
  using split_pair_first [of d "rev ys" c "rev xs"] assms by (simp add: rsplit_pair_def)

lemma split_comma_one: "CHR '','' \<notin> set x \<Longrightarrow> split_comma x = [x]"
  by (induction x rule: split_comma.induct) auto

lemma split_comma_more: "CHR '','' \<notin> set x \<Longrightarrow> split_comma (x @ CHR '','' # CHR '' '' # s) = x # split_comma s"
proof (induction x)
  case (Cons a x)
  then show ?case by (cases "x @ CHR '','' # CHR '' '' # s") auto
qed simp

lemma split_comma_join:
  "xs \<noteq> [] \<Longrightarrow> \<forall>x \<in> set xs. CHR '','' \<notin> set x \<Longrightarrow> split_comma (join '', '' xs) = xs"
  by (induction "'', ''" xs rule: join.induct) (auto simp: split_comma_one split_comma_more)

lemma drop_marks_once:
  assumes "strip_prefix (rev AND_MORE) s = None"
  shows "drop_marks s = s" and "drop_marks (rev AND_MORE @ s) = s"
proof -
  show s: "drop_marks s = s" using assms by (subst drop_marks.simps) simp
  show "drop_marks (rev AND_MORE @ s) = s" by (subst drop_marks.simps) (simp add: s)
qed

lemma unmarked:
  assumes "s = [] \<or> printable (last s)"
  shows "strip_prefix (rev AND_MORE) (rev s) = None"
proof (rule ccontr)
  have tail: "rev AND_MORE = CHR 0xA6 # rev (butlast AND_MORE)" by (simp add: AND_MORE_def)
  assume "strip_prefix (rev AND_MORE) (rev s) \<noteq> None"
  then obtain r where "rev s = rev AND_MORE @ r" by (auto simp: strip_prefix_Some)
  then have "rev s = CHR 0xA6 # rev (butlast AND_MORE) @ r" using tail by simp
  then have "s \<noteq> []" "last s = CHR 0xA6" by (auto simp: hd_rev [symmetric])
  then show False using assms by (simp add: printable_def)
qed

lemma last_join: "d \<noteq> [] \<Longrightarrow> xs \<noteq> [] \<Longrightarrow> last xs \<noteq> [] \<Longrightarrow> last (join d xs) = last (last xs)"
proof (induction d xs rule: join.induct)
  case (3 d x y ys)
  moreover have "join d (y # ys) \<noteq> []" using 3 by (cases ys) auto
  ultimately show ?case by simp
qed simp_all

lemma filter_nonempty: "\<forall>x \<in> set xs. x \<noteq> [] \<Longrightarrow> filter (\<lambda>x. x \<noteq> []) xs = xs"
  by (induction xs) auto

text \<open>
  C29: A tally in a chronology reads back: the count of a beat, one a word of the machine holds, and its
  examples, none of them empty, with a comma in it or ending in anything but a printable character of ASCII (a
  handle is none of these), printed into the text of its entry, are the ones the next beat of the same class is
  added to, with and without the mark that more were counted than are named.
\<close>

theorem beat_reads_back:
  assumes "je_text e = beat_text phrase b" and "be_entry b = je_id e" and "be_count b \<le> usize_max"
    and "\<forall>x \<in> set (be_examples b). x \<noteq> [] \<and> CHR '','' \<notin> set x \<and> printable (last x)"
  shows "parse_beat phrase e = Some b"
proof -
  let ?named = "join '', '' (be_examples b)"
  let ?marked = "?named @ (if length (be_examples b) < be_count b then AND_MORE else [])"
  have "strip_prefix phrase (je_text e) = Some ('': '' @ ?marked @ '' ('' @ show_nat (be_count b) @ '')'')"
    unfolding assms(1) beat_text_def by (simp add: strip_prefix_Some)
  moreover have "strip_prefix '': '' ('': '' @ ?marked @ '' ('' @ show_nat (be_count b) @ '')'') =
      Some (?marked @ '' ('' @ show_nat (be_count b) @ '')'')"
    by (rule strip_prefix_append)
  moreover have "rsplit_pair CHR '' '' CHR ''('' (?marked @ '' ('' @ show_nat (be_count b) @ '')'') =
      Some (?marked, show_nat (be_count b) @ '')'')"
  proof -
    have "CHR ''('' \<notin> set (show_nat (be_count b) @ '')'')"
      using show_nat_digits [of "be_count b"] by (auto simp: list_all_iff is_digit_def)
    then show ?thesis using rsplit_pair_last [of "CHR ''(''" "show_nat (be_count b) @ '')''" "CHR '' ''" ?marked] by simp
  qed
  moreover have "strip_suffix '')'' (show_nat (be_count b) @ '')'') = Some (show_nat (be_count b))"
    by (simp add: strip_suffix_def strip_prefix_def starts_with_def)
  moreover have "drop_marks (rev ?marked) = rev ?named"
  proof -
    have "?named = [] \<or> printable (last ?named)"
    proof (cases "be_examples b = []")
      case False
      then have "last (be_examples b) \<in> set (be_examples b)" by simp
      then show ?thesis using assms(4) False last_join [of "'', ''" "be_examples b"] by auto
    qed simp
    then show ?thesis by (simp add: drop_marks_once unmarked)
  qed
  moreover have "filter (\<lambda>x. x \<noteq> []) (split_comma ?named) = be_examples b"
  proof (cases "be_examples b = []")
    case False
    then show ?thesis using assms(4) by (simp add: split_comma_join filter_nonempty)
  qed simp
  ultimately show ?thesis
    using assms(2) by (simp add: parse_beat_def parse_unsigned_show_nat [OF assms(3)])
qed

section \<open>Pages of a history\<close>

lemma pages_join:
  "concat (rev (map (\<lambda>i. page xs most (i * most)) [0..<n])) = drop (length xs - n * most) xs"
proof (induction n)
  case (Suc n)
  have "drop a (take c xs) @ drop c xs = drop a xs" if "a \<le> c" for a c
    using that by (metis append_take_drop_id drop_drop drop_take le_add_diff_inverse2)
  then show ?case using Suc by (simp add: page_def Let_def add.commute)
qed simp

text \<open>
  The pages of a field's history tile it: read page after page from the newest, they give every change of
  the field once and in its order, and each says the same total.
\<close>

theorem pages_of_a_field_tile_it:
  assumes "snd (trace_field field changes most 0) \<le> n * most"
  shows "concat (rev (map (\<lambda>i. fst (trace_field field changes most (i * most))) [0..<n])) =
      filter (\<lambda>c. case sc_changed c of None \<Rightarrow> False | Some k \<Rightarrow> change_field k = field) changes"
  using assms by (simp add: trace_field_def Let_def pages_join)

section \<open>Runs to look at\<close>

definition sample_run :: "string \<Rightarrow> session_state \<Rightarrow> int \<Rightarrow> session_run" where
  "sample_run i st started =
     \<lparr>ss_id = i, ss_sid = Some ''a1b2'', ss_key_hash = None, ss_bot = ''bot:ada'', ss_focus = ''plan'',
      ss_started_at = started, ss_state = st, ss_entries = [], ss_timezone = None, ss_started_on = None,
      ss_served_chars = 0, ss_stated_day = None, ss_wrap_window = None, ss_charter_told_at = None,
      ss_key_trail = no_trail\<rparr>"

definition sample_runs :: "session_run list" where
  "sample_runs = [sample_run ''c3'' Open_Run (80000 * SECOND), sample_run ''b2'' Wrapped (9000 * SECOND), sample_run ''a1'' Open_Run 0]"

lemma sweep_loses_no_run_witness:
  "\<exists>b. sweep_and_find sample_world 1 (Inr sample_runs) (\<lambda>_. None) (90000 * SECOND) None = Inr b \<and>
    find_without_sweeping sample_world 1 (Inr sample_runs) (90000 * SECOND) None = Inr b \<and> bd_swept b = [''a1'']"
proof -
  let ?stale = "map ss_id (filter (\<lambda>s. is_stale sample_world 1 s (90000 * SECOND) None) sample_runs)"
  let ?b = "board_of sample_world 1 sample_runs (filter (\<lambda>_. True) ?stale) [] (90000 * SECOND) None"
  have swept: "sweep_and_find sample_world 1 (Inr sample_runs) (\<lambda>_. None) (90000 * SECOND) None = Inr ?b"
    by (simp add: sweep_and_find_def List.map_filter_def)
  moreover have "bd_swept ?b = [''a1'']" by code_simp
  moreover have "distinct (map ss_id sample_runs)" by code_simp
  ultimately show ?thesis using sweep_loses_no_run [OF _ swept] by blast
qed

lemma window_answers_its_own_code_witness:
  "window_from_stored (window_to_stored (Opened (hash_wrap_code rev ''wc-7f3k''))) =
      Some (Opened (hash_wrap_code rev ''wc-7f3k'')) \<and>
    (\<forall>answer. answers_to rev (Opened (hash_wrap_code rev ''wc-7f3k'')) answer \<longleftrightarrow> rev answer = rev ''wc-7f3k'')"
  using window_answers_its_own_code [of "Opened (hash_wrap_code rev ''wc-7f3k'')" True rev "''wc-7f3k''"] by simp

lemma beat_reads_back_witness:
  "parse_beat ''edited entities'' \<lparr>je_id = ''e1'', je_at = 0, je_on = None,
      je_text = beat_text ''edited entities'' \<lparr>be_entry = ''e1'', be_count = 7, be_examples = [''person:ada'', ''list:food'']\<rparr>,
      je_touched = None, je_beat = Some ''update_entity'', je_closing_focus = None, je_closing = False\<rparr> =
    Some \<lparr>be_entry = ''e1'', be_count = 7, be_examples = [''person:ada'', ''list:food'']\<rparr>"
  by (rule beat_reads_back) (simp_all add: usize_max_def printable_def)

lemma pages_of_a_field_tile_it_witness:
  "concat (rev (map (\<lambda>i. fst (trace_field ''focus''
       [\<lparr>sc_ordinal = 1, sc_changed = Some CBegin, sc_value = Some ''plan'', sc_written_at = Some 1\<rparr>,
        \<lparr>sc_ordinal = 2, sc_changed = Some CKey, sc_value = None, sc_written_at = Some 2\<rparr>,
        \<lparr>sc_ordinal = 3, sc_changed = Some CFocus, sc_value = Some ''cook'', sc_written_at = Some 3\<rparr>] 1 (i * 1))) [0..<2])) =
    filter (\<lambda>c. case sc_changed c of None \<Rightarrow> False | Some k \<Rightarrow> change_field k = ''focus'')
       [\<lparr>sc_ordinal = 1, sc_changed = Some CBegin, sc_value = Some ''plan'', sc_written_at = Some 1\<rparr>,
        \<lparr>sc_ordinal = 2, sc_changed = Some CKey, sc_value = None, sc_written_at = Some 2\<rparr>,
        \<lparr>sc_ordinal = 3, sc_changed = Some CFocus, sc_value = Some ''cook'', sc_written_at = Some 3\<rparr>]"
  by (rule pages_of_a_field_tile_it) code_simp

end
