(* ===== verification/Session_Store.thy ===== *)
theory Session_Store
  imports Sessions "HOL-Library.Product_Lexorder" "HOL-Library.Sublist"
begin

text \<open>
  The store of runs that the port's contract is run against (\<open>session/testing.rs\<close>, \<open>session/testing/faults.rs\<close>): the operations
  of the port on runs over one state, with the history each write leaves; the counts of calls are left out.  What the request ledger answers a write that
  spends a claim is an argument of the operations that ask it; a lock is taken for the whole of each operation,
  so an operation is one step.
\<close>

record charter_change =
  cc_by :: entity_id
  cc_at :: int

record session_store =
  st_sessions :: "session_run list"
  st_unreadable :: "string option"
  st_next_id :: nat
  st_charters :: "(entity_id, charter_change) btree"
  st_changes :: "(string \<times> session_change) list"
  st_wordings :: "(string \<times> string \<times> wording) list"
  st_ticks :: int
  st_held :: "int option"
  st_lists_charters :: bool
  st_minted :: "minted_run list"
  st_served_days :: "(string \<times> int, nat) btree"
  st_keeps_closes :: bool    \<comment> \<open>\<open>refusing_displaced_close\<close>, negated\<close>

definition new_store :: session_store where
  "new_store =
     \<lparr>st_sessions = [], st_unreadable = None, st_next_id = 0, st_charters = [], st_changes = [], st_wordings = [],
      st_ticks = 0, st_held = None, st_lists_charters = True, st_minted = [], st_served_days = [],
      st_keeps_closes = True\<rparr>"

section \<open>Stamps, marks and names\<close>

definition stamp :: "session_store \<Rightarrow> int \<times> session_store" where
  "stamp st =
     (case st_held st of
        Some t \<Rightarrow> (t, st)
      | None \<Rightarrow> ((1790000000 + (st_ticks st + 1)) * SECOND, st\<lparr>st_ticks := st_ticks st + 1\<rparr>))"

definition record_change :: "world \<Rightarrow> moments \<Rightarrow> string \<Rightarrow> change \<Rightarrow> session_store \<Rightarrow> session_store" where
  "record_change W M i c st =
     (let (t, st) = stamp st;
          held = map (\<lambda>h. sc_ordinal (snd h)) (filter (\<lambda>h. fst h = i) (st_changes st));
          made = next_change W M (case held of [] \<Rightarrow> None | n # ns \<Rightarrow> Some (foldl max n ns)) c t
      in st\<lparr>st_changes := st_changes st @ [(i, made)]\<rparr>)"

definition keep_wording :: "string \<Rightarrow> string \<Rightarrow> string \<Rightarrow> int option \<Rightarrow> session_store \<Rightarrow> session_store" where
  "keep_wording i e t touched st =
     (let (moment, st) = stamp st;
          made = next_wording (map_option (\<lambda>(_, _, w). wo_revision w)
                   (find (\<lambda>(r, held, _). r = i \<and> held = e) (rev (st_wordings st)))) t touched moment
      in st\<lparr>st_wordings := st_wordings st @ [(i, e, made)]\<rparr>)"

fun minted_name :: "nat \<Rightarrow> nat \<Rightarrow> string" where
  "minted_name 0 left = []"
| "minted_name (Suc n) left = minted_name n (left div length ALPHABET) @ [ALPHABET ! (left mod length ALPHABET)]"

definition mint :: "session_store \<Rightarrow> string \<times> session_store" where
  "mint st = (minted_name RUN_LEN (st_next_id st + 1), st\<lparr>st_next_id := st_next_id st + 1\<rparr>)"

section \<open>Reading\<close>

definition check_readable :: "session_store \<Rightarrow> string option \<Rightarrow> session_error + unit" where
  "check_readable st asked =
     refuse_when (case st_unreadable st of None \<Rightarrow> False | Some r \<Rightarrow> asked = None \<or> asked = Some r)
       (UnreadableRun ''session.started_at is not a stored timestamp'')"

definition run_at :: "session_store \<Rightarrow> string \<Rightarrow> session_run option" where
  "run_at st i = find (\<lambda>s. ss_id s = i) (st_sessions st)"

definition known_run :: "session_store \<Rightarrow> string \<Rightarrow> session_error + session_run" where
  "known_run st i = (case run_at st i of None \<Rightarrow> Inl (UnknownSession i) | Some s \<Rightarrow> Inr s)"

definition closed_error :: "session_run \<Rightarrow> session_error" where
  "closed_error s = Closed (ss_id s) (ss_state s) (kt_displaced_by (ss_key_trail s))"

definition writable :: "session_store \<Rightarrow> string \<Rightarrow> session_error + session_run" where
  "writable st i =
     ok_then (known_run st i) (\<lambda>s. if takes_writes s then Inr s else Inl (closed_error s))"

definition bot_of_run :: "session_store \<Rightarrow> string \<Rightarrow> entity_id option" where
  "bot_of_run st r = map_option ss_bot (find (\<lambda>s. ss_sid s = Some r) (st_sessions st))"

definition by_newest :: "session_run list \<Rightarrow> session_run list" where
  "by_newest runs = sort_by (\<lambda>a b. newest_first (ss_started_at a, ss_id a) (ss_started_at b, ss_id b)) runs"

definition sessions_of :: "session_store \<Rightarrow> entity_id \<Rightarrow> session_error + session_run list" where
  "sessions_of st who = Inr (by_newest (filter (\<lambda>s. ss_bot s = who) (st_sessions st)))"

definition all_sessions :: "session_store \<Rightarrow> session_error + session_run list" where
  "all_sessions st = ok_then (check_readable st None) (\<lambda>_. Inr (by_newest (st_sessions st)))"

definition read_session :: "session_store \<Rightarrow> string \<Rightarrow> session_error + session_run" where
  "read_session st i =
     ok_then (validate_session_id i) (\<lambda>_. ok_then (check_readable st (Some i)) (\<lambda>_. known_run st i))"

definition changes_of :: "session_store \<Rightarrow> string \<Rightarrow> session_change list" where
  "changes_of st i =
     sort_by (\<lambda>a b. cmp (sc_ordinal a) (sc_ordinal b)) (map snd (filter (\<lambda>h. fst h = i) (st_changes st)))"

definition wordings_of :: "session_store \<Rightarrow> string \<Rightarrow> string \<Rightarrow> wording list" where
  "wordings_of st i e =
     sort_by (\<lambda>a b. cmp (wo_revision a) (wo_revision b))
       (map (\<lambda>(_, _, w). w) (filter (\<lambda>(r, held, _). r = i \<and> held = e) (st_wordings st)))"

definition session_history :: "session_store \<Rightarrow> string \<Rightarrow> session_error + session_change list" where
  "session_history st i = ok_then (validate_session_id i) (\<lambda>_. ok_then (read_session st i) (\<lambda>_. Inr (changes_of st i)))"

definition journal_history :: "session_store \<Rightarrow> string \<Rightarrow> string \<Rightarrow> session_error + wording list" where
  "journal_history st i e =
     ok_then (validate_session_id i) (\<lambda>_.
     ok_then (read_session st i) (\<lambda>s.
       if list_ex (\<lambda>x. je_id x = e) (ss_entries s) then Inr (wordings_of st i e) else Inl (NoEntries i)))"

definition scan_session_history ::
  "session_store \<Rightarrow> (string \<times> session_change list) list \<times> (string \<times> string \<times> wording list) list" where
  "scan_session_history st =
     (map (\<lambda>r. (r, changes_of st r)) (remdups (sort (map fst (st_changes st)))),
      map (\<lambda>(r, e). (r, e, wordings_of st r e)) (remdups (sort (map (\<lambda>(r, e, _). (r, e)) (st_wordings st)))))"

definition minted_without_a_card :: "session_store \<Rightarrow> minted_run list" where
  "minted_without_a_card st =
     sort_by (\<lambda>a b. cmp (mr_minted_at a) (mr_minted_at b))
       (filter (\<lambda>r. \<not> list_ex (\<lambda>card. ss_id card = mr_name r) (st_sessions st)) (st_minted st))"

record served_day =
  sd_run :: string
  sd_bot :: entity_id
  sd_day :: int
  sd_chars :: nat

definition served_days :: "session_store \<Rightarrow> served_day list" where
  "served_days st =
     List.map_filter (\<lambda>((r, day), chars).
       map_option (\<lambda>s. \<lparr>sd_run = r, sd_bot = ss_bot s, sd_day = day, sd_chars = chars\<rparr>) (run_at st r)) (st_served_days st)"

definition charter_change_of :: "session_store \<Rightarrow> entity_id \<Rightarrow> charter_change option" where
  "charter_change_of st who = bt_get (st_charters st) who"

definition charter_changes :: "session_store \<Rightarrow> (entity_id, charter_change) btree option" where
  "charter_changes st = (if st_lists_charters st then Some (st_charters st) else None)"

section \<open>Writing\<close>

fun update_first :: "('a \<Rightarrow> bool) \<Rightarrow> ('a \<Rightarrow> 'a) \<Rightarrow> 'a list \<Rightarrow> 'a list" where
  "update_first p f [] = []"
| "update_first p f (x # xs) = (if p x then f x # xs else x # update_first p f xs)"

definition update_run :: "string \<Rightarrow> (session_run \<Rightarrow> session_run) \<Rightarrow> session_store \<Rightarrow> session_store" where
  "update_run i f st = st\<lparr>st_sessions := update_first (\<lambda>s. ss_id s = i) f (st_sessions st)\<rparr>"

definition spent :: "session_error option \<Rightarrow> session_error + unit" where
  "spent answer = (case answer of None \<Rightarrow> Inr () | Some e \<Rightarrow> Inl e)"

definition fresh_run :: "new_session \<Rightarrow> string \<Rightarrow> session_run" where
  "fresh_run new i =
     \<lparr>ss_id = i, ss_sid = Some (ns_sid new), ss_key_hash = ns_key_hash new, ss_bot = ns_bot new,
      ss_focus = trim (ns_focus new), ss_started_at = ns_started_at new, ss_state = Open_Run, ss_entries = [],
      ss_timezone = ns_timezone new, ss_started_on = ns_started_on new, ss_served_chars = 0, ss_stated_day = None,
      ss_wrap_window = None, ss_charter_told_at = None, ss_key_trail = no_trail\<rparr>"

definition begin_run ::
  "world \<Rightarrow> moments \<Rightarrow> new_session \<Rightarrow> session_store \<Rightarrow> session_error + session_run \<times> session_store" where
  "begin_run W M new st =
     ok_then (validate_focus (ns_focus new)) (\<lambda>_.
     if \<not> is_readable_sid (ns_sid new) then Inl (ForeignSid (ns_sid new))
     else case find (\<lambda>s. ss_sid s = Some (ns_sid new) \<and> \<not> is_terminal (ss_state s)) (st_sessions st) of
       Some held \<Rightarrow> Inr (held, st)
     | None \<Rightarrow>
         ok_then (case ns_id new of
                    Some i \<Rightarrow> if run_at st i \<noteq> None then Inl (BegunAlready i) else Inr (i, st)
                  | None \<Rightarrow> Inr (mint st)) (\<lambda>(i, st).
           Inr (fresh_run new i,
                record_change W M i (BeginWith (ss_focus (fresh_run new i)))
                  (st\<lparr>st_sessions := st_sessions st @ [fresh_run new i]\<rparr>))))"

definition append ::
  "world \<Rightarrow> moments \<Rightarrow> session_error option \<Rightarrow> string \<Rightarrow> new_entry \<Rightarrow> session_store
     \<Rightarrow> (session_error + journal_entry) \<times> session_store" where
  "append W M ledger i e st =
     (case ok_then (validate_session_id i) (\<lambda>_. ok_then (validate_entry (ne_text e)) (\<lambda>_. writable st i)) of
        Inl why \<Rightarrow> (Inl why, st)
      | Inr _ \<Rightarrow>
          (let (minted, st) = mint st in
           case spent ledger of
             Inl why \<Rightarrow> (Inl why, st)
           | Inr _ \<Rightarrow>
               (let recorded = \<lparr>je_id = minted, je_at = ne_at e, je_on = ne_on e, je_text = normalize_entry (ne_text e),
                               je_touched = None, je_beat = ne_beat e, je_closing_focus = ne_closing_focus e,
                               je_closing = ne_closing e\<rparr>
                in (Inr recorded,
                  keep_wording i minted (je_text recorded) None
                    (record_change W M i (EntryAdded minted)
                      (update_run i (\<lambda>s. s\<lparr>ss_entries := ss_entries s @ [recorded]\<rparr>) st))))))"

definition amend_last ::
  "world \<Rightarrow> moments \<Rightarrow> string \<Rightarrow> string \<Rightarrow> session_store \<Rightarrow> session_error + journal_entry \<times> session_store" where
  "amend_last W M i t st =
     ok_then (validate_session_id i) (\<lambda>_.
     ok_then (validate_entry t) (\<lambda>_.
     ok_then (writable st i) (\<lambda>s.
       case find (\<lambda>e. \<not> is_auto e) (rev (ss_entries s)) of
         None \<Rightarrow> Inl (NoEntries i)
       | Some e \<Rightarrow>
           (let kept = e\<lparr>je_text := normalize_entry t\<rparr> in
            Inr (kept,
              keep_wording i (je_id kept) (je_text kept) (je_touched kept)
                (record_change W M i (LastAmended (je_id kept))
                  (update_run i (\<lambda>s. s\<lparr>ss_entries :=
                     rev (update_first (\<lambda>e. \<not> is_auto e) (\<lambda>_. kept) (rev (ss_entries s)))\<rparr>) st)))))))"

definition amend_beat ::
  "world \<Rightarrow> moments \<Rightarrow> string \<Rightarrow> string \<Rightarrow> string \<Rightarrow> int \<Rightarrow> session_store
     \<Rightarrow> session_error + journal_entry \<times> session_store" where
  "amend_beat W M i e t moment st =
     ok_then (validate_session_id i) (\<lambda>_.
     ok_then (validate_entry t) (\<lambda>_.
     ok_then (writable st i) (\<lambda>s.
       case find (\<lambda>x. je_id x = e) (ss_entries s) of
         None \<Rightarrow> Inl (NoEntries i)
       | Some held \<Rightarrow>
           if \<not> is_auto held then Inl (NotABeat e i)
           else
             (let kept = held\<lparr>je_text := normalize_entry t, je_touched := Some moment\<rparr> in
              Inr (kept,
                keep_wording i (je_id kept) (je_text kept) (je_touched kept)
                  (record_change W M i (BeatAmended (je_id kept))
                    (update_run i (\<lambda>s. s\<lparr>ss_entries := update_first (\<lambda>x. je_id x = e) (\<lambda>_. kept) (ss_entries s)\<rparr>) st)))))))"

definition set_focus ::
  "world \<Rightarrow> moments \<Rightarrow> session_error option \<Rightarrow> string \<Rightarrow> string \<Rightarrow> session_store \<Rightarrow> session_error + session_store" where
  "set_focus W M ledger i focus st =
     ok_then (validate_session_id i) (\<lambda>_.
     ok_then (validate_focus focus) (\<lambda>_.
     ok_then (writable st i) (\<lambda>_.
     ok_then (spent ledger) (\<lambda>_.
       Inr (record_change W M i (FocusSet (trim focus)) (update_run i (\<lambda>s. s\<lparr>ss_focus := trim focus\<rparr>) st))))))"

definition set_timezone ::
  "world \<Rightarrow> moments \<Rightarrow> string \<Rightarrow> string option \<Rightarrow> session_store \<Rightarrow> session_error + session_store" where
  "set_timezone W M i zone st =
     ok_then (validate_session_id i) (\<lambda>_.
     ok_then (writable st i) (\<lambda>_.
       let zone = (case zone of None \<Rightarrow> None | Some z \<Rightarrow> if trim z = [] then None else Some (trim z)) in
       Inr (record_change W M i (ZoneSet zone) (update_run i (\<lambda>s. s\<lparr>ss_timezone := zone\<rparr>) st))))"

definition set_stated_day ::
  "world \<Rightarrow> moments \<Rightarrow> string \<Rightarrow> int option \<Rightarrow> session_store \<Rightarrow> session_error + session_store" where
  "set_stated_day W M i day st =
     ok_then (validate_session_id i) (\<lambda>_.
     ok_then (writable st i) (\<lambda>_.
       Inr (record_change W M i (DaySet day) (update_run i (\<lambda>s. s\<lparr>ss_stated_day := day\<rparr>) st))))"

definition set_wrap_window ::
  "world \<Rightarrow> moments \<Rightarrow> string \<Rightarrow> wrap_window option \<Rightarrow> session_store \<Rightarrow> session_error + session_store" where
  "set_wrap_window W M i w st =
     ok_then (validate_session_id i) (\<lambda>_.
     ok_then (known_run st i) (\<lambda>s.
       if ss_state s \<noteq> Wrapped then Inl (NotWrapped i (ss_state s))
       else Inr (record_change W M i (WindowSet w) (update_run i (\<lambda>s. s\<lparr>ss_wrap_window := w\<rparr>) st))))"

definition close_run ::
  "world \<Rightarrow> moments \<Rightarrow> string \<Rightarrow> session_state \<Rightarrow> session_store \<Rightarrow> session_error + session_store" where
  "close_run W M i to st =
     ok_then (validate_session_id i) (\<lambda>_.
     ok_then (writable st i) (\<lambda>s.
       if is_terminal (ss_state s) \<and> to \<noteq> Wrapped then Inl (closed_error s)
       else
         (let st = record_change W M i (StateSet to)
                     (update_run i (\<lambda>s. s\<lparr>ss_state := to, ss_wrap_window := None\<rparr>) st)
          in Inr (if ss_wrap_window s \<noteq> None then record_change W M i (WindowSet None) st else st))))"

definition close_displaced ::
  "world \<Rightarrow> moments \<Rightarrow> string \<Rightarrow> string \<Rightarrow> session_store \<Rightarrow> session_error + session_store" where
  "close_displaced W M i by_sid st =
     (if \<not> st_keeps_closes st then Inl (StoreFailed ''the close cannot be kept'')
      else ok_then (close_run W M i Abandoned st) (\<lambda>st.
        Inr (update_run i (\<lambda>s. s\<lparr>ss_key_trail := (ss_key_trail s)\<lparr>kt_displaced_by := Some by_sid\<rparr>\<rparr>) st)))"

definition add_served :: "string \<Rightarrow> nat \<Rightarrow> int \<Rightarrow> session_store \<Rightarrow> session_error + session_store" where
  "add_served i chars day st =
     ok_then (validate_session_id i) (\<lambda>_.
     ok_then (known_run st i) (\<lambda>_.
       let st = update_run i (\<lambda>s. s\<lparr>ss_served_chars := u64_add (ss_served_chars s) chars\<rparr>) st in
       Inr (if chars > 0
            then st\<lparr>st_served_days := bt_insert (i, day)
                      (u64_add (case bt_get (st_served_days st) (i, day) of None \<Rightarrow> 0 | Some n \<Rightarrow> n) chars) (st_served_days st)\<rparr>
            else st)))"

definition reset_served ::
  "world \<Rightarrow> moments \<Rightarrow> session_error option \<Rightarrow> string \<Rightarrow> session_store \<Rightarrow> session_error + session_store" where
  "reset_served W M ledger i st =
     ok_then (validate_session_id i) (\<lambda>_.
     ok_then (known_run st i) (\<lambda>s.
     ok_then (spent ledger) (\<lambda>_.
       Inr (record_change W M i (ServedSet (ss_served_chars s)) (update_run i (\<lambda>s. s\<lparr>ss_served_chars := 0\<rparr>) st)))))"

definition set_key_hash ::
  "world \<Rightarrow> moments \<Rightarrow> string \<Rightarrow> string \<Rightarrow> key_trail \<Rightarrow> session_store \<Rightarrow> session_error + session_store" where
  "set_key_hash W M i hash trail st =
     ok_then (validate_session_id i) (\<lambda>_.
     ok_then (known_run st i) (\<lambda>_.
       Inr (record_change W M i KeySet (update_run i (\<lambda>s. s\<lparr>ss_key_hash := Some hash, ss_key_trail := trail\<rparr>) st))))"

definition note_minted :: "minted_run \<Rightarrow> session_store \<Rightarrow> session_store" where
  "note_minted r st =
     (if list_ex (\<lambda>h. mr_name h = mr_name r) (st_minted st) then st else st\<lparr>st_minted := st_minted st @ [r]\<rparr>)"

definition prune_minted :: "int \<Rightarrow> session_store \<Rightarrow> nat \<times> session_store" where
  "prune_minted before st =
     (let kept = filter (\<lambda>r. \<not> list_ex (\<lambda>card. ss_id card = mr_name r) (st_sessions st) \<and> mr_minted_at r \<ge> before)
                   (st_minted st)
      in (length (st_minted st) - length kept, st\<lparr>st_minted := kept\<rparr>))"

definition set_charter_told ::
  "world \<Rightarrow> moments \<Rightarrow> string \<Rightarrow> int \<Rightarrow> session_store \<Rightarrow> session_error + session_store" where
  "set_charter_told W M i moment st =
     ok_then (validate_session_id i) (\<lambda>_.
     ok_then (known_run st i) (\<lambda>_.
       Inr (record_change W M i (CharterTold moment) (update_run i (\<lambda>s. s\<lparr>ss_charter_told_at := Some moment\<rparr>) st))))"

definition note_charter_change ::
  "session_error option \<Rightarrow> entity_id \<Rightarrow> charter_change \<Rightarrow> session_store \<Rightarrow> session_error + session_store" where
  "note_charter_change ledger who c st =
     ok_then (spent ledger) (\<lambda>_.
       Inr (if cc_by c \<noteq> who then st\<lparr>st_charters := bt_insert who c (st_charters st)\<rparr> else st))"

definition reopen :: "world \<Rightarrow> moments \<Rightarrow> string \<Rightarrow> session_store \<Rightarrow> session_error + session_store" where
  "reopen W M i st =
     ok_then (validate_session_id i) (\<lambda>_.
     ok_then (known_run st i) (\<lambda>s.
       if is_final (ss_state s) then Inl (closed_error s)
       else
         (let st' = update_run i (\<lambda>s. s\<lparr>ss_state := Open_Run\<rparr>) st in
          Inr (if ss_state s \<noteq> Open_Run then record_change W M i (StateSet Open_Run) st' else st'))))"

section \<open>A store over its operations\<close>

datatype session_op =
    BeginRun new_session
  | Append "session_error option" string new_entry
  | AmendLast string string
  | AmendBeat string string string int
  | SetFocus "session_error option" string string
  | SetTimezone string "string option"
  | SetStatedDay string "int option"
  | SetWrapWindow string "wrap_window option"
  | CloseRun string session_state
  | CloseDisplaced string string
  | AddServed string nat int
  | ResetServed "session_error option" string
  | SetKeyHash string string key_trail
  | NoteMinted minted_run
  | PruneMinted int
  | SetCharterTold string int
  | NoteCharterChange "session_error option" entity_id charter_change
  | Reopen string

definition kept :: "session_store \<Rightarrow> session_error + session_store \<Rightarrow> session_store" where
  "kept st r = (case r of Inl _ \<Rightarrow> st | Inr st' \<Rightarrow> st')"

definition kept_snd :: "session_store \<Rightarrow> session_error + 'a \<times> session_store \<Rightarrow> session_store" where
  "kept_snd st r = (case r of Inl _ \<Rightarrow> st | Inr (_, st') \<Rightarrow> st')"

primrec after_op :: "world \<Rightarrow> moments \<Rightarrow> session_store \<Rightarrow> session_op \<Rightarrow> session_store" where
  "after_op W M st (BeginRun new) = kept_snd st (begin_run W M new st)"
| "after_op W M st (Append ledger i e) = snd (append W M ledger i e st)"
| "after_op W M st (AmendLast i t) = kept_snd st (amend_last W M i t st)"
| "after_op W M st (AmendBeat i e t moment) = kept_snd st (amend_beat W M i e t moment st)"
| "after_op W M st (SetFocus ledger i focus) = kept st (set_focus W M ledger i focus st)"
| "after_op W M st (SetTimezone i zone) = kept st (set_timezone W M i zone st)"
| "after_op W M st (SetStatedDay i day) = kept st (set_stated_day W M i day st)"
| "after_op W M st (SetWrapWindow i w) = kept st (set_wrap_window W M i w st)"
| "after_op W M st (CloseRun i to) = kept st (close_run W M i to st)"
| "after_op W M st (CloseDisplaced i who) = kept st (close_displaced W M i who st)"
| "after_op W M st (AddServed i chars day) = kept st (add_served i chars day st)"
| "after_op W M st (ResetServed ledger i) = kept st (reset_served W M ledger i st)"
| "after_op W M st (SetKeyHash i hash trail) = kept st (set_key_hash W M i hash trail st)"
| "after_op W M st (NoteMinted r) = note_minted r st"
| "after_op W M st (PruneMinted before) = snd (prune_minted before st)"
| "after_op W M st (SetCharterTold i moment) = kept st (set_charter_told W M i moment st)"
| "after_op W M st (NoteCharterChange ledger who c) = kept st (note_charter_change ledger who c st)"
| "after_op W M st (Reopen i) = kept st (reopen W M i st)"

lemmas session_op_defs = begin_run_def append_def amend_last_def amend_beat_def set_focus_def set_timezone_def
  set_stated_day_def set_wrap_window_def close_run_def close_displaced_def add_served_def reset_served_def
  set_key_hash_def note_minted_def prune_minted_def set_charter_told_def note_charter_change_def reopen_def

lemma sessions_record_change [simp]: "st_sessions (record_change W M i c st) = st_sessions st"
  by (simp add: record_change_def stamp_def Let_def split: option.split)

lemma sessions_keep_wording [simp]: "st_sessions (keep_wording i e t touched st) = st_sessions st"
  by (simp add: keep_wording_def stamp_def Let_def split: option.split)

lemma sessions_mint: "mint st = (m, st') \<Longrightarrow> st_sessions st' = st_sessions st"
  by (auto simp: mint_def)

lemma run_at_record_change [simp]: "run_at (record_change W M i c st) j = run_at st j"
  by (simp add: run_at_def)

lemma run_at_keep_wording [simp]: "run_at (keep_wording i e t touched st) j = run_at st j"
  by (simp add: run_at_def)

lemma run_at_update_run:
  assumes "\<And>s. ss_id (f s) = ss_id s"
  shows "run_at (update_run i f st) j = (if j = i then map_option f (run_at st j) else run_at st j)"
proof -
  have "find (\<lambda>s. ss_id s = j) (update_first (\<lambda>s. ss_id s = i) f xs) =
      (if j = i then map_option f (find (\<lambda>s. ss_id s = j) xs) else find (\<lambda>s. ss_id s = j) xs)" for xs
    by (induction xs) (auto simp: assms)
  then show ?thesis by (simp add: run_at_def update_run_def)
qed

lemma run_at_id: "run_at st i = Some s \<Longrightarrow> ss_id s = i"
  by (auto simp: run_at_def find_Some_iff)

text \<open>What stays of an entry when its words are amended.\<close>

definition entry_mark :: "journal_entry \<Rightarrow> string \<times> int \<times> int option \<times> string option \<times> bool \<times> string option" where
  "entry_mark e = (je_id e, je_at e, je_on e, je_beat e, je_closing e, je_closing_focus e)"

definition forward :: "session_run \<Rightarrow> session_run \<Rightarrow> bool" where
  "forward s s' \<longleftrightarrow>
     ss_bot s' = ss_bot s \<and> ss_started_at s' = ss_started_at s \<and>
     prefix (map entry_mark (ss_entries s)) (map entry_mark (ss_entries s')) \<and>
     (ss_state s = Wrapped \<longrightarrow> ss_state s' = Wrapped) \<and> (takes_writes s \<or> ss_entries s' = ss_entries s)"

lemma forward_refl [simp]: "forward s s"
  by (simp add: forward_def)

lemma forwardI:
  "ss_bot s' = ss_bot s \<Longrightarrow> ss_started_at s' = ss_started_at s \<Longrightarrow> ss_entries s' = ss_entries s \<Longrightarrow>
   (ss_state s = Wrapped \<Longrightarrow> ss_state s' = Wrapped) \<Longrightarrow> forward s s'"
  by (simp add: forward_def)

lemma forward_update:
  assumes "\<And>s. ss_id (f s) = ss_id s" and "\<And>s. run_at st i = Some s \<Longrightarrow> forward s (f s)"
    and "run_at st j = Some s"
  shows "\<exists>s'. run_at (update_run i f st) j = Some s' \<and> forward s s'"
  using assms by (auto simp: run_at_update_run)

lemma update_first_marks:
  "(\<And>x. x \<in> set xs \<Longrightarrow> p x \<Longrightarrow> find p xs = Some x \<Longrightarrow> g (f x) = g x) \<Longrightarrow> map g (update_first p f xs) = map g xs"
  by (induction xs) auto

lemma amend_marks:
  assumes "find p (rev es) = Some e" and "entry_mark kept_e = entry_mark e"
  shows "map entry_mark (rev (update_first p (\<lambda>_. kept_e) (rev es))) = map entry_mark es"
proof -
  have "map entry_mark (update_first p (\<lambda>_. kept_e) (rev es)) = map entry_mark (rev es)"
    by (rule update_first_marks) (use assms in simp)
  then show ?thesis by (metis rev_map rev_rev_ident)
qed

lemma writableE:
  assumes "writable st i = Inr s"
  shows "run_at st i = Some s" and "takes_writes s"
  using assms by (auto simp: writable_def known_run_def ok_then_Inr split: option.split_asm if_split_asm)

lemma known_runE: "known_run st i = Inr s \<Longrightarrow> run_at st i = Some s"
  by (auto simp: known_run_def split: option.split_asm)

lemma forward_same: "st_sessions st' = st_sessions st \<Longrightarrow> run_at st i = Some s \<Longrightarrow> \<exists>s'. run_at st' i = Some s' \<and> forward s s'"
  by (auto simp: run_at_def)

lemma forward_amend:
  assumes "writable st i = Inr r" and "map entry_mark es = map entry_mark (ss_entries r)" and "run_at st j = Some s"
  shows "\<exists>s'. run_at (update_run i (\<lambda>s. s\<lparr>ss_entries := es\<rparr>) st) j = Some s' \<and> forward s s'"
  using assms(3) writableE [OF assms(1)] assms(2) by (intro forward_update) (auto simp: forward_def)

lemma step_forward_writes:
  assumes "run_at st j = Some s"
  shows "\<exists>s'. run_at (after_op W M st (Append ledger i e)) j = Some s' \<and> forward s s'"
    and "\<exists>s'. run_at (after_op W M st (AmendLast i t)) j = Some s' \<and> forward s s'"
    and "\<exists>s'. run_at (after_op W M st (AmendBeat i x t moment)) j = Some s' \<and> forward s s'"
proof -
  show "\<exists>s'. run_at (after_op W M st (Append ledger i e)) j = Some s' \<and> forward s s'"
  proof (cases "ok_then (validate_session_id i) (\<lambda>_. ok_then (validate_entry (ne_text e)) (\<lambda>_. writable st i))")
    case (Inr r)
    then have r: "run_at st i = Some r" "takes_writes r" by (auto simp: ok_then_Inr dest: writableE)
    obtain m st' where m: "mint st = (m, st')" by (cases "mint st")
    have same: "run_at st' k = run_at st k" for k using sessions_mint [OF m] by (simp add: run_at_def)
    have "\<exists>s'. run_at (update_run i (\<lambda>s. s\<lparr>ss_entries := ss_entries s @ [en]\<rparr>) st') j = Some s' \<and> forward s s'" for en
      by (rule forward_update) (use assms r same in \<open>auto simp: forward_def\<close>)
    moreover have "\<exists>s'. run_at st' j = Some s' \<and> forward s s'" using assms same by auto
    ultimately show ?thesis
      unfolding after_op.simps append_def Inr sum.case m prod.case by (cases "spent ledger") (simp_all add: Let_def)
  qed (use assms in \<open>simp add: append_def\<close>)
  show "\<exists>s'. run_at (after_op W M st (AmendLast i t)) j = Some s' \<and> forward s s'"
  proof (cases "amend_last W M i t st")
    case (Inr res)
    then obtain r e where r: "writable st i = Inr r" "find (\<lambda>e. \<not> is_auto e) (rev (ss_entries r)) = Some e"
      by (auto simp: amend_last_def ok_then_Inr split: option.split_asm)
    let ?k = "e\<lparr>je_text := normalize_entry t\<rparr>"
    let ?es = "rev (update_first (\<lambda>e. \<not> is_auto e) (\<lambda>_. ?k) (rev (ss_entries r)))"
    have "map entry_mark ?es = map entry_mark (ss_entries r)" by (rule amend_marks [OF r(2)]) (simp add: entry_mark_def)
    note this' = forward_update [of "\<lambda>s. s\<lparr>ss_entries := rev (update_first (\<lambda>e. \<not> is_auto e) (\<lambda>_. ?k) (rev (ss_entries s)))\<rparr>" st i]
    have "\<exists>s'. run_at (update_run i (\<lambda>s. s\<lparr>ss_entries := rev (update_first (\<lambda>e. \<not> is_auto e) (\<lambda>_. ?k) (rev (ss_entries s)))\<rparr>) st) j
        = Some s' \<and> forward s s'"
      by (rule this') (use assms writableE [OF r(1)] \<open>map entry_mark ?es = _\<close> in \<open>auto simp: forward_def\<close>)
    then show ?thesis using Inr r by (auto simp: amend_last_def ok_then_Inr kept_snd_def Let_def)
  qed (use assms in \<open>simp add: kept_snd_def\<close>)
  show "\<exists>s'. run_at (after_op W M st (AmendBeat i x t moment)) j = Some s' \<and> forward s s'"
  proof (cases "amend_beat W M i x t moment st")
    case (Inr res)
    then obtain r e where r: "writable st i = Inr r" "find (\<lambda>e. je_id e = x) (ss_entries r) = Some e"
      by (auto simp: amend_beat_def ok_then_Inr split: option.split_asm)
    let ?k = "e\<lparr>je_text := normalize_entry t, je_touched := Some moment\<rparr>"
    have marks: "map entry_mark (update_first (\<lambda>e. je_id e = x) (\<lambda>_. ?k) (ss_entries r)) = map entry_mark (ss_entries r)"
      by (rule update_first_marks) (use r(2) in \<open>auto simp: entry_mark_def\<close>)
    have "\<exists>s'. run_at (update_run i (\<lambda>s. s\<lparr>ss_entries := update_first (\<lambda>e. je_id e = x) (\<lambda>_. ?k) (ss_entries s)\<rparr>) st) j
        = Some s' \<and> forward s s'"
      by (rule forward_update) (use assms writableE [OF r(1)] marks in \<open>auto simp: forward_def\<close>)
    then show ?thesis using Inr r by (auto simp: amend_beat_def ok_then_Inr kept_snd_def Let_def split: if_split_asm)
  qed (use assms in \<open>simp add: kept_snd_def\<close>)
qed

lemma forward_kept:
  assumes "run_at st j = Some s"
    and "\<And>st'. r = Inr st' \<Longrightarrow> \<exists>s'. run_at st' j = Some s' \<and> forward s s'"
  shows "\<exists>s'. run_at (kept st r) j = Some s' \<and> forward s s'"
  using assms by (cases r) (auto simp: kept_def)

lemma find_more: "find p xs = Some s \<Longrightarrow> find p (xs @ ys) = Some s"
  by (induction xs) auto

lemma begin_run_Inr:
  assumes "begin_run W M new st = Inr (r, st')"
  shows "st' = st \<or> (\<exists>i c st1. (st1 = st \<or> st1 = snd (mint st)) \<and>
     st' = record_change W M i c (st1\<lparr>st_sessions := st_sessions st1 @ [fresh_run new i]\<rparr>))"
proof -
  let ?twin = "find (\<lambda>s. ss_sid s = Some (ns_sid new) \<and> \<not> is_terminal (ss_state s)) (st_sessions st)"
  have ok: "validate_focus (ns_focus new) = Inr ()"
  proof (cases "validate_focus (ns_focus new)")
    case (Inl e)
    then show ?thesis using assms unfolding begin_run_def by simp
  qed simp
  have sid: "is_readable_sid (ns_sid new)"
  proof (rule ccontr)
    assume "\<not> is_readable_sid (ns_sid new)"
    then show False using assms unfolding begin_run_def ok by simp
  qed
  show ?thesis
  proof (cases ?twin)
    case None
    show ?thesis
    proof (cases "ns_id new")
      case None
      have "begin_run W M new st = (case mint st of (i, st) \<Rightarrow> Inr (fresh_run new i,
          record_change W M i (BeginWith (ss_focus (fresh_run new i))) (st\<lparr>st_sessions := st_sessions st @ [fresh_run new i]\<rparr>)))"
        unfolding begin_run_def ok \<open>?twin = None\<close> None option.case ok_then_simps if_not_P [OF sid [THEN not_not [THEN iffD2]]] by (rule refl)
      note opened = this
      obtain i st1 where m: "mint st = (i, st1)" by (cases "mint st")
      have "st' = record_change W M i (BeginWith (ss_focus (fresh_run new i)))
          (st1\<lparr>st_sessions := st_sessions st1 @ [fresh_run new i]\<rparr>)"
        using assms unfolding opened m prod.case by blast
      then show ?thesis unfolding m snd_conv by blast
    next
      case (Some i)
      have "begin_run W M new st = (if run_at st i \<noteq> None then Inl (BegunAlready i) else Inr (fresh_run new i,
          record_change W M i (BeginWith (ss_focus (fresh_run new i))) (st\<lparr>st_sessions := st_sessions st @ [fresh_run new i]\<rparr>)))"
        unfolding begin_run_def ok \<open>?twin = None\<close> Some option.case ok_then_simps if_not_P [OF sid [THEN not_not [THEN iffD2]]]
        by simp
      then have "st' = record_change W M i (BeginWith (ss_focus (fresh_run new i)))
          (st\<lparr>st_sessions := st_sessions st @ [fresh_run new i]\<rparr>)"
        using assms by (cases "run_at st i = None") simp_all
      then show ?thesis by blast
    qed
  next
    case (Some held)
    have "begin_run W M new st = Inr (held, st)"
      unfolding begin_run_def ok Some option.case ok_then_simps if_not_P [OF sid [THEN not_not [THEN iffD2]]] by (rule refl)
    then show ?thesis using assms by simp
  qed
qed

lemma step_forward_begin:
  assumes "run_at st j = Some s"
  shows "\<exists>s'. run_at (after_op W M st (BeginRun new)) j = Some s' \<and> forward s s'"
proof (cases "begin_run W M new st")
  case (Inr res)
  obtain r st' where res: "res = (r, st')" by (cases res)
  have "run_at st' j = Some s"
    using begin_run_Inr [OF Inr [unfolded res]] assms by (auto simp: run_at_def mint_def find_more)
  then show ?thesis using Inr res by (simp add: kept_snd_def)
qed (use assms in \<open>simp add: kept_snd_def\<close>)

lemma step_forward_state:
  assumes "run_at st j = Some s"
  shows "\<exists>s'. run_at (kept st (close_run W M i to st)) j = Some s' \<and> forward s s'"
    and "\<exists>s'. run_at (kept st (close_displaced W M i who st)) j = Some s' \<and> forward s s'"
    and "\<exists>s'. run_at (kept st (reopen W M i st)) j = Some s' \<and> forward s s'"
proof -
  have close: "\<exists>s'. run_at st' j = Some s' \<and> forward s s'" if closing: "close_run W M i to st = Inr st'" for st' to
  proof -
    obtain r where r: "writable st i = Inr r" "\<not> (is_terminal (ss_state r) \<and> to \<noteq> Wrapped)"
      and st': "st_sessions st' = st_sessions (update_run i (\<lambda>s. s\<lparr>ss_state := to, ss_wrap_window := None\<rparr>) st)"
      using closing by (auto simp: close_run_def ok_then_Inr Let_def split: if_split_asm)
    have "\<exists>s'. run_at (update_run i (\<lambda>s. s\<lparr>ss_state := to, ss_wrap_window := None\<rparr>) st) j = Some s' \<and> forward s s'"
      by (rule forward_update) (use assms writableE [OF r(1)] r(2) in \<open>auto simp: is_terminal_def intro!: forwardI\<close>)
    then show ?thesis using st' by (simp add: run_at_def)
  qed
  show "\<exists>s'. run_at (kept st (close_run W M i to st)) j = Some s' \<and> forward s s'"
    by (rule forward_kept [OF assms]) (rule close)
  show "\<exists>s'. run_at (kept st (close_displaced W M i who st)) j = Some s' \<and> forward s s'"
  proof (rule forward_kept [OF assms])
    fix st' assume "close_displaced W M i who st = Inr st'"
    then obtain st1 where st1: "close_run W M i Abandoned st = Inr st1"
      and st': "st' = update_run i (\<lambda>s. s\<lparr>ss_key_trail := (ss_key_trail s)\<lparr>kt_displaced_by := Some who\<rparr>\<rparr>) st1"
      by (auto simp: close_displaced_def ok_then_Inr split: if_split_asm)
    obtain s1 where s1: "run_at st1 j = Some s1" "forward s s1" using close [OF st1] by blast
    have "run_at st' j = Some (if j = i then s1\<lparr>ss_key_trail := (ss_key_trail s1)\<lparr>kt_displaced_by := Some who\<rparr>\<rparr> else s1)"
      unfolding st' by (subst run_at_update_run) (use s1 in auto)
    then show "\<exists>s'. run_at st' j = Some s' \<and> forward s s'" using s1(2) by (simp add: forward_def)
  qed
  show "\<exists>s'. run_at (kept st (reopen W M i st)) j = Some s' \<and> forward s s'"
  proof (rule forward_kept [OF assms])
    fix st' assume "reopen W M i st = Inr st'"
    then obtain r where r: "known_run st i = Inr r" "\<not> is_final (ss_state r)"
      and st': "st_sessions st' = st_sessions (update_run i (\<lambda>s. s\<lparr>ss_state := Open_Run\<rparr>) st)"
      by (auto simp: reopen_def ok_then_Inr Let_def split: if_split_asm)
    have "\<exists>s'. run_at (update_run i (\<lambda>s. s\<lparr>ss_state := Open_Run\<rparr>) st) j = Some s' \<and> forward s s'"
      by (rule forward_update) (use assms known_runE [OF r(1)] r(2) in \<open>auto simp: is_final_def intro!: forwardI\<close>)
    then show "\<exists>s'. run_at st' j = Some s' \<and> forward s s'" using st' by (simp add: run_at_def)
  qed
qed

lemma forward_field:
  assumes "run_at st j = Some s" and "\<And>s. forward s (f s)" and "\<And>s. ss_id (f s) = ss_id s"
    and "st_sessions st' = st_sessions (update_run i f st)"
  shows "\<exists>s'. run_at st' j = Some s' \<and> forward s s'"
proof -
  have "\<exists>s'. run_at (update_run i f st) j = Some s' \<and> forward s s'"
    by (rule forward_update) (use assms in auto)
  then show ?thesis using assms(4) by (simp add: run_at_def)
qed

lemma step_forward_field:
  assumes "run_at st j = Some s"
  shows "\<exists>s'. run_at (kept st (set_focus W M ledger i focus st)) j = Some s' \<and> forward s s'"
    and "\<exists>s'. run_at (kept st (set_timezone W M i zone st)) j = Some s' \<and> forward s s'"
    and "\<exists>s'. run_at (kept st (set_stated_day W M i day st)) j = Some s' \<and> forward s s'"
    and "\<exists>s'. run_at (kept st (set_wrap_window W M i w st)) j = Some s' \<and> forward s s'"
    and "\<exists>s'. run_at (kept st (add_served i chars d st)) j = Some s' \<and> forward s s'"
    and "\<exists>s'. run_at (kept st (reset_served W M ledger i st)) j = Some s' \<and> forward s s'"
    and "\<exists>s'. run_at (kept st (set_key_hash W M i hash trail st)) j = Some s' \<and> forward s s'"
    and "\<exists>s'. run_at (kept st (set_charter_told W M i moment st)) j = Some s' \<and> forward s s'"
proof -
  note field = forward_field [OF assms]
  show "\<exists>s'. run_at (kept st (set_focus W M ledger i focus st)) j = Some s' \<and> forward s s'"
    by (rule forward_kept [OF assms], rule field [of "\<lambda>s. s\<lparr>ss_focus := trim focus\<rparr>" _ i])
      (auto simp: set_focus_def ok_then_Inr intro: forwardI)
  show "\<exists>s'. run_at (kept st (set_timezone W M i zone st)) j = Some s' \<and> forward s s'"
    by (rule forward_kept [OF assms], rule field [of "\<lambda>s. s\<lparr>ss_timezone := (case zone of None \<Rightarrow> None
          | Some z \<Rightarrow> if trim z = [] then None else Some (trim z))\<rparr>" _ i])
      (auto simp: set_timezone_def ok_then_Inr Let_def intro: forwardI)
  show "\<exists>s'. run_at (kept st (set_stated_day W M i day st)) j = Some s' \<and> forward s s'"
    by (rule forward_kept [OF assms], rule field [of "\<lambda>s. s\<lparr>ss_stated_day := day\<rparr>" _ i])
      (auto simp: set_stated_day_def ok_then_Inr intro: forwardI)
  show "\<exists>s'. run_at (kept st (set_wrap_window W M i w st)) j = Some s' \<and> forward s s'"
    by (rule forward_kept [OF assms], rule field [of "\<lambda>s. s\<lparr>ss_wrap_window := w\<rparr>" _ i])
      (auto simp: set_wrap_window_def ok_then_Inr intro: forwardI split: if_split_asm)
  show "\<exists>s'. run_at (kept st (add_served i chars d st)) j = Some s' \<and> forward s s'"
    by (rule forward_kept [OF assms], rule field [of "\<lambda>s. s\<lparr>ss_served_chars := u64_add (ss_served_chars s) chars\<rparr>" _ i])
      (auto simp: add_served_def ok_then_Inr Let_def intro: forwardI)
  show "\<exists>s'. run_at (kept st (reset_served W M ledger i st)) j = Some s' \<and> forward s s'"
    by (rule forward_kept [OF assms], rule field [of "\<lambda>s. s\<lparr>ss_served_chars := 0\<rparr>" _ i])
      (auto simp: reset_served_def ok_then_Inr intro: forwardI)
  show "\<exists>s'. run_at (kept st (set_key_hash W M i hash trail st)) j = Some s' \<and> forward s s'"
    by (rule forward_kept [OF assms], rule field [of "\<lambda>s. s\<lparr>ss_key_hash := Some hash, ss_key_trail := trail\<rparr>" _ i])
      (auto simp: set_key_hash_def ok_then_Inr intro: forwardI)
  show "\<exists>s'. run_at (kept st (set_charter_told W M i moment st)) j = Some s' \<and> forward s s'"
    by (rule forward_kept [OF assms], rule field [of "\<lambda>s. s\<lparr>ss_charter_told_at := Some moment\<rparr>" _ i])
      (auto simp: set_charter_told_def ok_then_Inr intro: forwardI)
qed

lemma step_forward:
  assumes "run_at st j = Some s"
  shows "\<exists>s'. run_at (after_op W M st op) j = Some s' \<and> forward s s'"
proof (cases op)
  case (BeginRun new)
  then show ?thesis using step_forward_begin [OF assms] by simp
next
  case (NoteMinted r)
  then show ?thesis using assms by (simp add: note_minted_def run_at_def)
next
  case (PruneMinted before)
  then show ?thesis using assms by (simp add: prune_minted_def run_at_def Let_def)
next
  case (NoteCharterChange ledger who c)
  then show ?thesis
    using assms by (cases "spent ledger") (auto simp: note_charter_change_def run_at_def kept_def)
qed (use step_forward_writes [OF assms] step_forward_state [OF assms] step_forward_field [OF assms] in
    \<open>simp_all only: after_op.simps\<close>)

text \<open>
  C3: A run only goes forward: whatever is done to the store, a run it holds stays held under the same bot and
  start, its chronology only grows (an amend changes the words of an entry and nothing that marks it), a
  wrapped run stays wrapped, and a closed run's chronology is exactly what it was.
\<close>

theorem runs_only_go_forward:
  assumes "run_at st i = Some s"
  shows "\<exists>s'. run_at (after_op W M st op) i = Some s' \<and> ss_bot s' = ss_bot s \<and> ss_started_at s' = ss_started_at s \<and>
    prefix (map entry_mark (ss_entries s)) (map entry_mark (ss_entries s')) \<and>
    (ss_state s = Wrapped \<longrightarrow> ss_state s' = Wrapped) \<and> (\<not> takes_writes s \<longrightarrow> ss_entries s' = ss_entries s)"
  using step_forward [OF assms, of W M op] by (auto simp: forward_def)

section \<open>The history of a store\<close>

definition held_changes :: "session_store \<Rightarrow> string \<Rightarrow> session_change list" where
  "held_changes st i = map snd (filter (\<lambda>h. fst h = i) (st_changes st))"

definition numbered :: "session_store \<Rightarrow> bool" where
  "numbered st \<longleftrightarrow> (\<forall>i. map sc_ordinal (held_changes st i) = map Suc [0..<length (held_changes st i)])"

lemma changes_same [simp]:
  "st_changes (update_run i f st) = st_changes st"
  "st_changes (keep_wording i e t touched st) = st_changes st"
  by (simp_all add: update_run_def keep_wording_def stamp_def Let_def split: option.split)

lemma numbered_cong: "st_changes st' = st_changes st \<Longrightarrow> numbered st' = numbered st"
  by (simp add: numbered_def held_changes_def)

lemma foldl_max_le: "n \<le> m \<Longrightarrow> \<forall>x \<in> set ns. x \<le> m \<Longrightarrow> foldl max (n::nat) ns \<le> m"
  by (induction ns arbitrary: n) auto

lemma greatest_last:
  "\<forall>x \<in> set ns. x \<le> (m::nat) \<Longrightarrow> (case ns @ [m] of [] \<Rightarrow> None | n # ns \<Rightarrow> Some (foldl max n ns)) = Some m"
proof (cases ns)
  case (Cons n ns')
  moreover assume "\<forall>x \<in> set ns. x \<le> m"
  ultimately have "foldl max n ns' \<le> m" by (intro foldl_max_le) auto
  then show ?thesis using Cons by (simp add: max_def)
qed simp

lemma highest_held:
  "(case (case map Suc [0..<n] of [] \<Rightarrow> None | m # ms \<Rightarrow> Some (foldl max m ms)) of None \<Rightarrow> 0 | Some m \<Rightarrow> m) = n"
proof (cases n)
  case (Suc k)
  then have "map Suc [0..<n] = map Suc [0..<k] @ [n]" by simp
  then show ?thesis using greatest_last [of "map Suc [0..<k]" n] Suc by (simp only:) simp
qed simp

lemma held_record_change:
  assumes "numbered st"
  shows "held_changes (record_change W M i c st) j =
    (if j = i then held_changes st i @
        [\<lparr>sc_ordinal = Suc (length (held_changes st i)), sc_changed = Some (kind_of_change c),
          sc_value = change_value W M c, sc_written_at = Some (fst (stamp st))\<rparr>]
     else held_changes st j)"
proof -
  obtain t st1 where st1: "stamp st = (t, st1)" by (cases "stamp st")
  have same: "st_changes st1 = st_changes st" using st1 by (auto simp: stamp_def split: option.split_asm)
  have held: "map (\<lambda>h. sc_ordinal (snd h)) (filter (\<lambda>h. fst h = i) (st_changes st)) = map Suc [0..<length (held_changes st i)]"
    using assms by (simp add: numbered_def held_changes_def comp_def)
  have "record_change W M i c st = st1\<lparr>st_changes := st_changes st1 @
      [(i, \<lparr>sc_ordinal = Suc (length (held_changes st i)), sc_changed = Some (kind_of_change c),
            sc_value = change_value W M c, sc_written_at = Some t\<rparr>)]\<rparr>"
    unfolding record_change_def st1 Let_def prod.case same held next_change_def highest_held by simp
  then show ?thesis by (simp add: held_changes_def st1 same)
qed

lemma numbered_record_change: "numbered st \<Longrightarrow> numbered (record_change W M i c st)"
  unfolding numbered_def [of "record_change W M i c st"] by (simp add: held_record_change) (simp add: numbered_def)

lemma numbered_kept: "numbered st \<Longrightarrow> (\<And>st'. r = Inr st' \<Longrightarrow> numbered st') \<Longrightarrow> numbered (kept st r)"
  by (cases r) (simp_all add: kept_def)

lemma numbered_kept_snd: "numbered st \<Longrightarrow> (\<And>x st'. r = Inr (x, st') \<Longrightarrow> numbered st') \<Longrightarrow> numbered (kept_snd st r)"
  by (cases r) (auto simp: kept_snd_def)

lemma numbered_update [simp]: "numbered (update_run i f st) = numbered st" "numbered (keep_wording i e t touched st) = numbered st"
  by (rule numbered_cong, simp)+

lemma numbered_sessions [simp]: "numbered (st\<lparr>st_sessions := xs\<rparr>) = numbered st" "numbered (st\<lparr>st_minted := ys\<rparr>) = numbered st"
  "numbered (st\<lparr>st_served_days := zs\<rparr>) = numbered st" "numbered (st\<lparr>st_charters := cs\<rparr>) = numbered st"
  "numbered (st\<lparr>st_next_id := n\<rparr>) = numbered st"
  by (rule numbered_cong, simp)+

lemma numbered_begin:
  assumes "numbered st" and "begin_run W M new st = Inr (r, st')"
  shows "numbered st'"
proof -
  have "numbered (snd (mint st))" using assms(1) by (simp add: mint_def)
  then have "st1 = st \<or> st1 = snd (mint st) \<Longrightarrow>
      numbered (record_change W M i c (st1\<lparr>st_sessions := st_sessions st1 @ [fresh_run new i]\<rparr>))" for i c st1
    using assms(1) by (intro numbered_record_change) auto
  then show ?thesis using begin_run_Inr [OF assms(2)] assms(1) by blast
qed

lemma numbered_close: "numbered st \<Longrightarrow> close_run W M i to st = Inr st' \<Longrightarrow> numbered st'"
  by (auto simp: close_run_def ok_then_Inr Let_def numbered_record_change split: if_split_asm)

lemma numbered_append:
  assumes "numbered st"
  shows "numbered (snd (append W M ledger i e st))"
proof (cases "ok_then (validate_session_id i) (\<lambda>_. ok_then (validate_entry (ne_text e)) (\<lambda>_. writable st i))")
  case (Inr r)
  obtain m st' where m: "mint st = (m, st')" by (cases "mint st")
  have "numbered st'" using m assms by (auto simp: mint_def)
  then show ?thesis
    unfolding append_def Inr sum.case m prod.case by (cases "spent ledger") (simp_all add: Let_def numbered_record_change)
qed (use assms in \<open>simp add: append_def\<close>)

lemma numbered_amend_beat:
  assumes "numbered st" and "amend_beat W M i e t moment st = Inr (x, st')"
  shows "numbered st'"
proof -
  obtain s held where s: "writable st i = Inr s" "find (\<lambda>x. je_id x = e) (ss_entries s) = Some held"
    using assms(2) by (auto simp: amend_beat_def ok_then_Inr split: option.split_asm)
  have "is_auto held"
  proof (rule ccontr)
    assume "\<not> is_auto held"
    then show False using assms(2) s by (simp add: amend_beat_def ok_then_Inr)
  qed
  then show ?thesis using assms s by (auto simp: amend_beat_def ok_then_Inr Let_def numbered_record_change)
qed

lemma numbered_step: "numbered st \<Longrightarrow> numbered (after_op W M st op)"
proof (cases op)
  case (BeginRun new)
  then show "numbered st \<Longrightarrow> ?thesis" by (simp, intro numbered_kept_snd) (simp_all add: numbered_begin)
next
  case (Append ledger i e)
  then show "numbered st \<Longrightarrow> ?thesis" by (simp add: numbered_append)
next
  case (AmendLast i t)
  then show "numbered st \<Longrightarrow> ?thesis"
    by (auto intro!: numbered_kept_snd simp: amend_last_def ok_then_Inr Let_def numbered_record_change split: option.split_asm)
next
  case (AmendBeat i e t moment)
  then show "numbered st \<Longrightarrow> ?thesis" by (simp, intro numbered_kept_snd) (simp_all add: numbered_amend_beat)
next
  case (CloseRun i to)
  then show "numbered st \<Longrightarrow> ?thesis" by (simp, intro numbered_kept) (simp_all add: numbered_close)
next
  case (CloseDisplaced i who)
  then show "numbered st \<Longrightarrow> ?thesis"
    by (auto intro!: numbered_kept simp: close_displaced_def ok_then_Inr numbered_close split: if_split_asm)
next
  case (NoteMinted r)
  then show "numbered st \<Longrightarrow> ?thesis" by (simp add: note_minted_def)
next
  case (PruneMinted b)
  then show "numbered st \<Longrightarrow> ?thesis" by (simp add: prune_minted_def Let_def)
qed (auto intro!: numbered_kept simp: ok_then_Inr Let_def numbered_record_change set_focus_def set_timezone_def set_stated_day_def
    set_wrap_window_def add_served_def reset_served_def set_key_hash_def set_charter_told_def note_charter_change_def reopen_def
    split: if_split_asm)

lemma numbered_reached: "numbered (foldl (after_op W M) new_store ops)"
proof (induction ops rule: rev_induct)
  case Nil
  show ?case by (simp add: numbered_def held_changes_def new_store_def)
qed (simp add: numbered_step)

lemma sort_by_sorted: "sorted_wrt (\<lambda>x y. c x y \<noteq> OGreater) xs \<Longrightarrow> sort_by c xs = xs"
proof (induction xs)
  case (Cons x xs)
  then show ?case by (cases xs) (auto simp: sort_by_Cons)
qed simp

lemma numbered_changes_of: "numbered st \<Longrightarrow> changes_of st i = held_changes st i"
proof -
  assume "numbered st"
  then have ordinals: "map sc_ordinal (held_changes st i) = map Suc [0..<length (held_changes st i)]"
    by (simp add: numbered_def)
  have "sorted_wrt (\<le>) (map sc_ordinal (held_changes st i))"
    unfolding ordinals by (simp add: sorted_wrt_map sorted_wrt_iff_nth_less)
  then show ?thesis unfolding changes_of_def held_changes_def by (intro sort_by_sorted) (simp add: sorted_wrt_map cmp_le)
qed

text \<open>
  What a write leaves: every history stays as it was and may grow, the history of the run that is written
  grows, and no other run is touched.  Only the count of characters a run was served is kept without a change.
\<close>

definition uncounted :: "session_run \<Rightarrow> session_run" where
  "uncounted s = s\<lparr>ss_served_chars := 0\<rparr>"

definition written_on :: "string \<Rightarrow> session_store \<Rightarrow> session_store \<Rightarrow> bool" where
  "written_on i st st' \<longleftrightarrow>
     (\<forall>j. prefix (held_changes st j) (held_changes st' j)) \<and> held_changes st' i \<noteq> held_changes st i \<and>
     (\<forall>j. j \<noteq> i \<longrightarrow> run_at st' j = run_at st j)"

definition traced :: "session_store \<Rightarrow> session_store \<Rightarrow> bool" where
  "traced st st' \<longleftrightarrow> (\<forall>j. prefix (held_changes st j) (held_changes st' j) \<and>
     (map_option uncounted (run_at st' j) \<noteq> map_option uncounted (run_at st j) \<longrightarrow> held_changes st' j \<noteq> held_changes st j))"

lemma traced_written: "written_on i st st' \<Longrightarrow> traced st st'"
  unfolding written_on_def traced_def by metis

lemma traced_same:
  "st_changes st' = st_changes st \<Longrightarrow> (\<And>j. map_option uncounted (run_at st' j) = map_option uncounted (run_at st j)) \<Longrightarrow>
   traced st st'"
  by (simp add: traced_def held_changes_def)

lemma traced_sessions: "st_changes st' = st_changes st \<Longrightarrow> st_sessions st' = st_sessions st \<Longrightarrow> traced st st'"
  by (rule traced_same) (simp_all add: run_at_def)

lemma written_record:
  assumes "numbered st" and "st_changes st1 = st_changes st" and "\<And>j. j \<noteq> i \<Longrightarrow> run_at st1 j = run_at st j"
  shows "written_on i st (record_change W M i c st1)"
  using assms held_record_change [of st1 W M i c] numbered_cong [OF assms(2)]
  by (auto simp: written_on_def held_changes_def)

lemma written_more:
  assumes "written_on i st st'"
  shows "numbered st' \<Longrightarrow> written_on i st (record_change W M i c st')" and "written_on i st (keep_wording i e t x st')"
    and "(\<And>s. ss_id (f s) = ss_id s) \<Longrightarrow> written_on i st (update_run i f st')"
proof -
  show "written_on i st (keep_wording i e t x st')"
    using assms by (simp add: written_on_def held_changes_def)
  show "written_on i st (update_run i f st')" if "\<And>s. ss_id (f s) = ss_id s"
    using assms that by (simp add: written_on_def held_changes_def run_at_update_run)
  show "written_on i st (record_change W M i c st')" if n: "numbered st'"
  proof -
    have "held_changes (record_change W M i c st') i \<noteq> held_changes st i"
    proof
      assume "held_changes (record_change W M i c st') i = held_changes st i"
      moreover have "prefix (held_changes st i) (held_changes st' i)" using assms by (simp add: written_on_def)
      ultimately have "length (held_changes (record_change W M i c st') i) \<le> length (held_changes st' i)"
        by (simp add: prefix_length_le)
      then show False using held_record_change [OF n, of W M i c i] by simp
    qed
    moreover have "prefix (held_changes st j) (held_changes (record_change W M i c st') j)" for j
      using assms held_record_change [OF n, of W M i c j] by (auto simp: written_on_def intro: prefix_order.trans)
    ultimately show ?thesis using assms by (simp add: written_on_def)
  qed
qed

lemma written_update:
  assumes "numbered st" and "\<And>s. ss_id (f s) = ss_id s"
  shows "written_on i st (record_change W M i c (update_run i f st))"
  using assms by (intro written_record) (simp_all add: run_at_update_run)

lemma traced_recorded:
  assumes "numbered st" and "\<And>s. ss_id (f s) = ss_id s"
  shows "traced st (record_change W M i c (update_run i f st))"
  by (rule traced_written [of i], rule written_update) (fact assms)+

lemma traced_kept: "(\<And>st'. r = Inr st' \<Longrightarrow> traced st st') \<Longrightarrow> traced st (kept st r)"
  by (cases r) (simp_all add: kept_def traced_sessions)

lemma traced_kept_snd: "(\<And>x st'. r = Inr (x, st') \<Longrightarrow> traced st st') \<Longrightarrow> traced st (kept_snd st r)"
  by (cases r) (auto simp: kept_snd_def traced_sessions)

lemma traced_begin:
  assumes "numbered st" and "begin_run W M new st = Inr (r, st')"
  shows "traced st st'"
proof -
  consider "st' = st" | i c st1 where "st1 = st \<or> st1 = snd (mint st)"
      "st' = record_change W M i c (st1\<lparr>st_sessions := st_sessions st1 @ [fresh_run new i]\<rparr>)"
    using begin_run_Inr [OF assms(2)] by blast
  then show ?thesis
  proof cases
    case (2 i c st1)
    have other: "find (\<lambda>s. ss_id s = j) (xs @ [fresh_run new i]) = find (\<lambda>s. ss_id s = j) xs" if "j \<noteq> i" for j xs
      using that by (induction xs) (auto simp: fresh_run_def)
    have "written_on i st st'"
      unfolding 2(2) by (rule written_record [OF assms(1)]) (use 2(1) other in \<open>auto simp: mint_def run_at_def\<close>)
    then show ?thesis by (rule traced_written)
  qed (simp add: traced_sessions)
qed

lemma traced_append:
  assumes "numbered st"
  shows "traced st (snd (append W M ledger i e st))"
proof (cases "ok_then (validate_session_id i) (\<lambda>_. ok_then (validate_entry (ne_text e)) (\<lambda>_. writable st i))")
  case (Inr r)
  obtain m st1 where m: "mint st = (m, st1)" by (cases "mint st")
  have same: "st_changes st1 = st_changes st" "st_sessions st1 = st_sessions st" using m by (auto simp: mint_def)
  have "run_at st1 j = run_at st j" for j using same by (simp add: run_at_def)
  then have "written_on i st (record_change W M i c (update_run i (\<lambda>s. s\<lparr>ss_entries := ss_entries s @ [en]\<rparr>) st1))" for c en
    by (intro written_record [OF assms]) (simp_all add: run_at_update_run same)
  then have "traced st (keep_wording i x t y (record_change W M i c
      (update_run i (\<lambda>s. s\<lparr>ss_entries := ss_entries s @ [en]\<rparr>) st1)))" for x t y c en
    by (intro traced_written [of i] written_more(2))
  then show ?thesis
    unfolding append_def Inr sum.case m prod.case
    using traced_sessions [OF same] by (cases "spent ledger") (simp_all add: Let_def)
qed (simp add: append_def traced_sessions)

lemma traced_amend:
  assumes "numbered st"
  shows "amend_last W M i t st = Inr (x, st') \<Longrightarrow> traced st st'"
    and "amend_beat W M i e t moment st = Inr (x, st') \<Longrightarrow> traced st st'"
proof -
  have amended: "traced st (keep_wording i en u y (record_change W M i c (update_run i (\<lambda>s. s\<lparr>ss_entries := f s\<rparr>) st)))"
    for en u y c f by (rule traced_written [of i], rule written_more(2), rule written_update [OF assms]) simp
  show "traced st st'" if "amend_last W M i t st = Inr (x, st')"
    using that amended by (auto simp: amend_last_def ok_then_Inr Let_def split: option.split_asm)
  show "traced st st'" if last: "amend_beat W M i e t moment st = Inr (x, st')"
  proof -
    obtain s held where s: "writable st i = Inr s" "find (\<lambda>x. je_id x = e) (ss_entries s) = Some held"
      using last by (auto simp: amend_beat_def ok_then_Inr split: option.split_asm)
    have "is_auto held"
    proof (rule ccontr)
      assume "\<not> is_auto held"
      then show False using last s by (simp add: amend_beat_def ok_then_Inr)
    qed
    then show ?thesis using last s amended by (auto simp: amend_beat_def ok_then_Inr Let_def)
  qed
qed

lemma written_close:
  assumes "numbered st" and "close_run W M i to st = Inr st'"
  shows "written_on i st st'"
proof -
  let ?st = "record_change W M i (StateSet to) (update_run i (\<lambda>s. s\<lparr>ss_state := to, ss_wrap_window := None\<rparr>) st)"
  have closed: "written_on i st ?st" by (rule written_update [OF assms(1)]) simp
  moreover have "numbered ?st" using assms(1) by (simp add: numbered_record_change)
  ultimately have "written_on i st (record_change W M i (WindowSet None) ?st)" by (rule written_more(1))
  moreover have "st' = ?st \<or> st' = record_change W M i (WindowSet None) ?st"
    using assms(2) unfolding close_run_def ok_then_Inr Let_def by (auto split: if_split_asm)
  ultimately show ?thesis using closed by blast
qed

lemma traced_displaced:
  assumes "numbered st" and "close_displaced W M i who st = Inr st'"
  shows "traced st st'"
proof -
  obtain st1 where st1: "close_run W M i Abandoned st = Inr st1"
    and st': "st' = update_run i (\<lambda>s. s\<lparr>ss_key_trail := (ss_key_trail s)\<lparr>kt_displaced_by := Some who\<rparr>\<rparr>) st1"
    using assms(2) by (auto simp: close_displaced_def ok_then_Inr split: if_split_asm)
  have "written_on i st st'" unfolding st' by (rule written_more(3) [OF written_close [OF assms(1) st1]]) simp
  then show ?thesis by (rule traced_written)
qed

lemma traced_reopen:
  assumes "numbered st" and "reopen W M i st = Inr st'"
  shows "traced st st'"
proof -
  obtain s where s: "run_at st i = Some s"
    using assms(2) by (auto simp: reopen_def ok_then_Inr dest: known_runE split: if_split_asm)
  have known: "known_run st i = Inr s" using s by (simp add: known_run_def)
  show ?thesis
  proof (cases "ss_state s = Open_Run")
    case True
    then have "s\<lparr>ss_state := Open_Run\<rparr> = s" by (cases s) simp
    moreover have "st' = update_run i (\<lambda>s. s\<lparr>ss_state := Open_Run\<rparr>) st"
      using assms(2) True known by (auto simp: reopen_def ok_then_Inr Let_def split: if_split_asm)
    ultimately show ?thesis using s by (intro traced_same) (simp_all add: run_at_update_run)
  next
    case False
    then have "st' = record_change W M i (StateSet Open_Run) (update_run i (\<lambda>s. s\<lparr>ss_state := Open_Run\<rparr>) st)"
      using assms(2) known by (auto simp: reopen_def ok_then_Inr Let_def split: if_split_asm)
    then show ?thesis using assms(1) by (simp add: traced_recorded)
  qed
qed

lemma traced_served:
  assumes "add_served i chars day st = Inr st'"
  shows "traced st st'"
proof (rule traced_same)
  show "st_changes st' = st_changes st" using assms by (auto simp: add_served_def ok_then_Inr Let_def)
  have "st_sessions st' = st_sessions (update_run i (\<lambda>s. s\<lparr>ss_served_chars := u64_add (ss_served_chars s) chars\<rparr>) st)"
    using assms by (auto simp: add_served_def ok_then_Inr Let_def)
  then have "run_at st' j = run_at (update_run i (\<lambda>s. s\<lparr>ss_served_chars := u64_add (ss_served_chars s) chars\<rparr>) st) j" for j
    by (simp add: run_at_def)
  moreover have "uncounted (s\<lparr>ss_served_chars := n\<rparr>) = uncounted s" for s n by (simp add: uncounted_def)
  ultimately show "map_option uncounted (run_at st' j) = map_option uncounted (run_at st j)" for j
    by (cases "run_at st i") (simp_all add: run_at_update_run)
qed

lemma traced_step: "numbered st \<Longrightarrow> traced st (after_op W M st op)"
proof (cases op)
  case (BeginRun new)
  then show "numbered st \<Longrightarrow> ?thesis" by (simp, intro traced_kept_snd) (rule traced_begin)
next
  case (Append ledger i e)
  then show "numbered st \<Longrightarrow> ?thesis" by (simp add: traced_append)
next
  case (AmendLast i t)
  then show "numbered st \<Longrightarrow> ?thesis" by (simp, intro traced_kept_snd) (rule traced_amend)
next
  case (AmendBeat i e t moment)
  then show "numbered st \<Longrightarrow> ?thesis" by (simp, intro traced_kept_snd) (rule traced_amend)
next
  case (CloseRun i to)
  then show "numbered st \<Longrightarrow> ?thesis" by (simp, intro traced_kept) (rule traced_written [OF written_close])
next
  case (CloseDisplaced i who)
  then show "numbered st \<Longrightarrow> ?thesis" by (simp, intro traced_kept) (rule traced_displaced)
next
  case (AddServed i chars day)
  then show "numbered st \<Longrightarrow> ?thesis" by (simp, intro traced_kept) (rule traced_served)
next
  case (Reopen i)
  then show "numbered st \<Longrightarrow> ?thesis" by (simp, intro traced_kept) (rule traced_reopen)
next
  case (SetFocus ledger i focus)
  then show "numbered st \<Longrightarrow> ?thesis" by (simp, intro traced_kept)
    (auto simp: set_focus_def ok_then_Inr traced_recorded)
next
  case (SetTimezone i zone)
  then show "numbered st \<Longrightarrow> ?thesis" by (simp, intro traced_kept)
    (auto simp: set_timezone_def ok_then_Inr Let_def traced_recorded)
next
  case (SetStatedDay i day)
  then show "numbered st \<Longrightarrow> ?thesis" by (simp, intro traced_kept)
    (auto simp: set_stated_day_def ok_then_Inr traced_recorded)
next
  case (SetWrapWindow i w)
  then show "numbered st \<Longrightarrow> ?thesis" by (simp, intro traced_kept)
    (auto simp: set_wrap_window_def ok_then_Inr traced_recorded split: if_split_asm)
next
  case (ResetServed ledger i)
  then show "numbered st \<Longrightarrow> ?thesis" by (simp, intro traced_kept)
    (auto simp: reset_served_def ok_then_Inr traced_recorded)
next
  case (SetKeyHash i hash trail)
  then show "numbered st \<Longrightarrow> ?thesis" by (simp, intro traced_kept)
    (auto simp: set_key_hash_def ok_then_Inr traced_recorded)
next
  case (SetCharterTold i moment)
  then show "numbered st \<Longrightarrow> ?thesis" by (simp, intro traced_kept)
    (auto simp: set_charter_told_def ok_then_Inr traced_recorded)
next
  case (NoteMinted r)
  then show "numbered st \<Longrightarrow> ?thesis" by (simp add: note_minted_def traced_sessions)
next
  case (PruneMinted b)
  then show "numbered st \<Longrightarrow> ?thesis" by (simp add: prune_minted_def Let_def traced_sessions)
next
  case (NoteCharterChange ledger who c)
  then show "numbered st \<Longrightarrow> ?thesis" by (simp, intro traced_kept)
    (auto simp: note_charter_change_def ok_then_Inr intro!: traced_sessions)
qed

text \<open>
  C13: Every write leaves its trace: after any run of operations from the empty store, the history of a run is
  numbered one by one from one, with no ordinal lost or given twice; and the operation that comes next keeps it
  and only adds to it, and does add to it whenever it changes anything of the run (or makes it) beside the count
  of characters the run was served.
\<close>

theorem history_numbers_every_change:
  fixes W :: world and M :: moments and ops :: "session_op list"
  shows "let st = foldl (after_op W M) new_store ops; st' = after_op W M st op in
    map sc_ordinal (changes_of st i) = map Suc [0..<length (changes_of st i)] \<and>
    prefix (changes_of st i) (changes_of st' i) \<and>
    (map_option uncounted (run_at st' i) \<noteq> map_option uncounted (run_at st i) \<longrightarrow>
      length (changes_of st i) < length (changes_of st' i))"
proof -
  let ?st = "foldl (after_op W M) new_store ops"
  have n: "numbered ?st" by (rule numbered_reached)
  note n' = numbered_step [OF n, of W M op]
  have step: "prefix (held_changes ?st i) (held_changes (after_op W M ?st op) i)"
    "map_option uncounted (run_at (after_op W M ?st op) i) \<noteq> map_option uncounted (run_at ?st i) \<Longrightarrow>
      held_changes (after_op W M ?st op) i \<noteq> held_changes ?st i"
    using traced_step [OF n, of W M op] unfolding traced_def by blast+
  have "length (held_changes ?st i) < length (held_changes (after_op W M ?st op) i)"
    if "held_changes (after_op W M ?st op) i \<noteq> held_changes ?st i"
    using that step(1) by (intro prefix_length_less) (auto simp: strict_prefix_def)
  then show ?thesis
    unfolding Let_def numbered_changes_of [OF n] numbered_changes_of [OF n']
    using step n unfolding numbered_def by blast
qed

lemma resets_snoc_served:
  assumes "n \<le> usize_max"
  shows "map re_total (resets_from W day (cs @ [\<lparr>sc_ordinal = k, sc_changed = Some CServedReset,
           sc_value = Some (show_nat n), sc_written_at = Some moment\<rparr>])) = map re_total (resets_from W day cs) @ [n]"
proof (induction cs arbitrary: day)
  case Nil
  show ?case by (simp add: parse_unsigned_show_nat [OF assms])
next
  case (Cons c cs)
  then show ?case by (simp split: option.split)
qed

lemma reset_served_Inr:
  assumes "reset_served W M ledger i st = Inr st'" and "run_at st i = Some s"
  shows "st' = record_change W M i (ServedSet (ss_served_chars s)) (update_run i (\<lambda>s. s\<lparr>ss_served_chars := 0\<rparr>) st)"
  using assms by (auto simp: reset_served_def known_run_def ok_then_Inr)

lemma changes_of_reset:
  assumes "numbered st" and "reset_served W M ledger i st = Inr st'" and "run_at st i = Some s"
  shows "\<exists>k moment. changes_of st' i = changes_of st i @ [\<lparr>sc_ordinal = k, sc_changed = Some CServedReset,
           sc_value = Some (show_nat (ss_served_chars s)), sc_written_at = Some moment\<rparr>]"
proof -
  note st' = reset_served_Inr [OF assms(2,3)]
  have n: "numbered (update_run i (\<lambda>s. s\<lparr>ss_served_chars := 0\<rparr>) st)" using assms(1) by simp
  have "numbered st'" unfolding st' by (rule numbered_record_change [OF n])
  moreover have "held_changes (update_run i (\<lambda>s. s\<lparr>ss_served_chars := 0\<rparr>) st) i = held_changes st i"
    by (simp add: held_changes_def)
  ultimately show ?thesis
    using held_record_change [OF n, of W M i "ServedSet (ss_served_chars s)" i] assms(1)
    by (auto simp: numbered_changes_of st')
qed

text \<open>
  C10: A reset costs nothing: setting a run's served count back to zero leaves its lifetime total, read off its
  summary and its history, exactly what it was, and counts one compaction more; no write of the store before
  it can break that.
\<close>

theorem reset_keeps_the_lifetime:
  assumes "st = foldl (after_op W M) new_store ops" and "run_at st i = Some s" and "ss_served_chars s \<le> usize_max"
    and "reset_served W M ledger i st = Inr st'"
  shows "\<exists>s'. run_at st' i = Some s' \<and>
    served_lifetime (summary_of W s' (changes_of st' i)) = served_lifetime (summary_of W s (changes_of st i)) \<and>
    su_served_chars (summary_of W s' (changes_of st' i)) = 0 \<and>
    su_compactions (summary_of W s' (changes_of st' i)) = su_compactions (summary_of W s (changes_of st i)) + 1"
proof -
  obtain k moment where after: "changes_of st' i = changes_of st i @ [\<lparr>sc_ordinal = k, sc_changed = Some CServedReset,
      sc_value = Some (show_nat (ss_served_chars s)), sc_written_at = Some moment\<rparr>]"
    using changes_of_reset [OF _ assms(4,2)] assms(1) numbered_reached by blast
  have run: "run_at st' i = Some (s\<lparr>ss_served_chars := 0\<rparr>)"
    using assms(2) by (simp add: reset_served_Inr [OF assms(4,2)] run_at_update_run)
  have totals: "map re_total (resets_of W (changes_of st' i) day) =
      map re_total (resets_of W (changes_of st i) day) @ [ss_served_chars s]" for day
    unfolding after resets_of_def by (rule resets_snoc_served [OF assms(3)])
  then have count: "length (resets_of W (changes_of st' i) day) = length (resets_of W (changes_of st i) day) + 1" for day
    by (metis length_append_singleton length_map Suc_eq_plus1)
  show ?thesis
    using run by (simp add: served_lifetime_def summary_of_def counting_def lifetime_served_def set_back_total_def totals count
        u64_add_def mod_simps add.commute)
qed


section \<open>What a store holds\<close>

lemma has_crlf_split: "has_crlf s \<longleftrightarrow> (\<exists>a b. s = a @ CHR 0x0D # CHR 0x0A # b)"
proof (induction s rule: has_crlf.induct)
  case (1 a b s)
  show ?case
  proof
    assume "has_crlf (a # b # s)"
    then show "\<exists>x y. a # b # s = x @ CHR 0x0D # CHR 0x0A # y"
      using 1 by (auto intro: exI [of _ "[]"]) (metis append_Cons)
  next
    assume "\<exists>x y. a # b # s = x @ CHR 0x0D # CHR 0x0A # y"
    then show "has_crlf (a # b # s)" using 1 by (auto simp: Cons_eq_append_conv)
  qed
qed (auto simp: Cons_eq_append_conv)

lemma drop_crlf_clean: "\<not> has_crlf (drop_crlf s)"
  by (induction s rule: drop_crlf.induct) (subst drop_crlf.simps, simp)

lemma normalize_entry_clean [simp]: "\<not> has_crlf (normalize_entry t)" "trim (normalize_entry t) = normalize_entry t"
proof -
  obtain a where a: "a @ trim_start (drop_crlf t) = drop_crlf t" using trim_start_split by metis
  obtain b where b: "normalize_entry t @ b = trim_start (drop_crlf t)"
    unfolding normalize_entry_def trim_def using trim_end_split by metis
  show "\<not> has_crlf (normalize_entry t)"
  proof
    assume "has_crlf (normalize_entry t)"
    then obtain x y where "normalize_entry t = x @ CHR 0x0D # CHR 0x0A # y" using has_crlf_split by blast
    then have "drop_crlf t = (a @ x) @ CHR 0x0D # CHR 0x0A # (y @ b)" using a b by (metis append.assoc append_Cons)
    then show False using drop_crlf_clean has_crlf_split by blast
  qed
qed (simp add: normalize_entry_def)

definition sound_entry :: "journal_entry \<Rightarrow> bool" where
  "sound_entry e \<longleftrightarrow> trim (je_text e) = je_text e \<and> \<not> has_crlf (je_text e)"

definition sound_run :: "session_run \<Rightarrow> bool" where
  "sound_run s \<longleftrightarrow>
     trim (ss_focus s) = ss_focus s \<and> validate_focus (ss_focus s) = Inr () \<and> list_all sound_entry (ss_entries s) \<and>
     (ss_wrap_window s \<noteq> None \<longrightarrow> ss_state s = Wrapped) \<and>
     (case ss_sid s of None \<Rightarrow> False | Some sid \<Rightarrow> is_readable_sid sid)"

definition sound_store :: "session_store \<Rightarrow> bool" where
  "sound_store st \<longleftrightarrow>
     list_all sound_run (st_sessions st) \<and> distinct (map mr_name (st_minted st)) \<and>
     (\<forall>who c. charter_change_of st who = Some c \<longrightarrow> cc_by c \<noteq> who)"

lemma sound_cong:
  "st_sessions st' = st_sessions st \<Longrightarrow> st_minted st' = st_minted st \<Longrightarrow> st_charters st' = st_charters st \<Longrightarrow>
   sound_store st' = sound_store st"
  by (simp add: sound_store_def charter_change_of_def)

lemma sound_record_change [simp]: "sound_store (record_change W M i c st) = sound_store st"
  by (rule sound_cong) (simp_all add: record_change_def stamp_def Let_def split: option.split)

lemma sound_keep_wording [simp]: "sound_store (keep_wording i e t touched st) = sound_store st"
  by (rule sound_cong) (simp_all add: keep_wording_def stamp_def Let_def split: option.split)

lemma sound_mint [simp]: "sound_store (st\<lparr>st_next_id := n\<rparr>) = sound_store st"
  by (rule sound_cong) simp_all

lemma sound_days [simp]: "sound_store (st\<lparr>st_served_days := d\<rparr>) = sound_store st"
  by (rule sound_cong) simp_all

lemma list_all_update_first:
  "list_all q xs \<Longrightarrow> (\<And>x. find p xs = Some x \<Longrightarrow> q x \<Longrightarrow> q (f x)) \<Longrightarrow> list_all q (update_first p f xs)"
  by (induction xs) auto

lemma sound_update_run:
  assumes "sound_store st" and "\<And>s. run_at st i = Some s \<Longrightarrow> sound_run s \<Longrightarrow> sound_run (f s)"
  shows "sound_store (update_run i f st)"
  using assms by (auto simp: sound_store_def update_run_def run_at_def charter_change_of_def intro: list_all_update_first)

lemma sound_kept: "sound_store st \<Longrightarrow> (\<And>st'. r = Inr st' \<Longrightarrow> sound_store st') \<Longrightarrow> sound_store (kept st r)"
  by (cases r) (simp_all add: kept_def)

lemma sound_kept_snd: "sound_store st \<Longrightarrow> (\<And>x st'. r = Inr (x, st') \<Longrightarrow> sound_store st') \<Longrightarrow> sound_store (kept_snd st r)"
  by (cases r) (auto simp: kept_snd_def)

lemma validate_focus_trim [simp]: "validate_focus (trim focus) = validate_focus focus"
  by (simp add: validate_focus_def)

lemma begin_run_ok:
  assumes "begin_run W M new st = Inr (r, st')"
  shows "validate_focus (ns_focus new) = Inr ()" and "is_readable_sid (ns_sid new)"
  using assms by (auto simp: begin_run_def ok_then_Inr split: if_split_asm)

lemma sound_begin:
  assumes "sound_store st" and "begin_run W M new st = Inr (r, st')"
  shows "sound_store st'"
proof -
  have "sound_run (fresh_run new i)" for i
    using begin_run_ok [OF assms(2)] by (simp add: sound_run_def fresh_run_def)
  then have "sound_store (st1\<lparr>st_sessions := st_sessions st1 @ [fresh_run new i]\<rparr>)" if "sound_store st1" for st1 i
    using that by (simp add: sound_store_def charter_change_of_def)
  moreover have "sound_store (snd (mint st))" using assms(1) by (simp add: mint_def)
  ultimately show ?thesis using begin_run_Inr [OF assms(2)] assms(1) by auto
qed

lemma sound_entries:
  "sound_run s \<Longrightarrow> list_all sound_entry es \<Longrightarrow> sound_run (s\<lparr>ss_entries := es\<rparr>)"
  by (simp add: sound_run_def)

lemma sound_entries_of: "sound_run s \<Longrightarrow> list_all sound_entry (ss_entries s)"
  by (simp add: sound_run_def)

lemma sound_amended: "sound_entry (e\<lparr>je_text := normalize_entry t\<rparr>)" "sound_entry (e\<lparr>je_text := normalize_entry t, je_touched := x\<rparr>)"
  by (simp_all add: sound_entry_def)

lemma sound_append:
  assumes "sound_store st"
  shows "sound_store (snd (append W M ledger i e st))"
proof (cases "ok_then (validate_session_id i) (\<lambda>_. ok_then (validate_entry (ne_text e)) (\<lambda>_. writable st i))")
  case (Inr r)
  obtain m st' where m: "mint st = (m, st')" by (cases "mint st")
  have st': "sound_store st'" using m assms by (auto simp: mint_def)
  have "sound_store (update_run i (\<lambda>s. s\<lparr>ss_entries := ss_entries s @ [en]\<rparr>) st')" if "sound_entry en" for en
    by (rule sound_update_run [OF st'], rule sound_entries, assumption) (use that in \<open>simp add: sound_entries_of\<close>)
  then show ?thesis
    unfolding append_def Inr sum.case m prod.case using st' by (cases "spent ledger") (simp_all add: Let_def sound_entry_def)
qed (use assms in \<open>simp add: append_def\<close>)

lemma sound_amend_last:
  assumes "sound_store st" and "amend_last W M i t st = Inr (x, st')"
  shows "sound_store st'"
proof -
  obtain s e where s: "writable st i = Inr s" "find (\<lambda>e. \<not> is_auto e) (rev (ss_entries s)) = Some e"
    using assms(2) by (auto simp: amend_last_def ok_then_Inr split: option.split_asm)
  have "sound_store (update_run i (\<lambda>s. s\<lparr>ss_entries :=
      rev (update_first (\<lambda>e. \<not> is_auto e) (\<lambda>_. e\<lparr>je_text := normalize_entry t\<rparr>) (rev (ss_entries s)))\<rparr>) st)"
    by (rule sound_update_run [OF assms(1)], rule sound_entries, assumption)
      (simp add: list_all_update_first sound_amended sound_entries_of)
  then show ?thesis using assms s by (auto simp: amend_last_def ok_then_Inr Let_def)
qed

lemma sound_amend_beat:
  assumes "sound_store st" and "amend_beat W M i e t moment st = Inr (x, st')"
  shows "sound_store st'"
proof -
  obtain s held where s: "writable st i = Inr s" "find (\<lambda>x. je_id x = e) (ss_entries s) = Some held"
    using assms(2) by (auto simp: amend_beat_def ok_then_Inr split: option.split_asm)
  have auto: "is_auto held"
  proof (rule ccontr)
    assume "\<not> is_auto held"
    then show False using assms(2) s by (simp add: amend_beat_def ok_then_Inr)
  qed
  have "sound_store (update_run i (\<lambda>s. s\<lparr>ss_entries := update_first (\<lambda>x. je_id x = e)
      (\<lambda>_. held\<lparr>je_text := normalize_entry t, je_touched := Some moment\<rparr>) (ss_entries s)\<rparr>) st)"
    by (rule sound_update_run [OF assms(1)], rule sound_entries, assumption)
      (simp add: list_all_update_first sound_amended sound_entries_of)
  then show ?thesis using assms s auto by (auto simp: amend_beat_def ok_then_Inr Let_def)
qed

lemma sound_close:
  assumes "sound_store st" and "close_run W M i to st = Inr st'"
  shows "sound_store st'"
proof -
  have "sound_store (update_run i (\<lambda>s. s\<lparr>ss_state := to, ss_wrap_window := None\<rparr>) st)"
    by (rule sound_update_run [OF assms(1)]) (simp add: sound_run_def)
  then show ?thesis using assms(2) by (auto simp: close_run_def ok_then_Inr Let_def split: if_split_asm)
qed

lemma sound_close_displaced:
  assumes "sound_store st" and "close_displaced W M i who st = Inr st'"
  shows "sound_store st'"
proof -
  obtain st1 where st1: "close_run W M i Abandoned st = Inr st1"
    and st': "st' = update_run i (\<lambda>s. s\<lparr>ss_key_trail := (ss_key_trail s)\<lparr>kt_displaced_by := Some who\<rparr>\<rparr>) st1"
    using assms(2) by (auto simp: close_displaced_def ok_then_Inr split: if_split_asm)
  show ?thesis unfolding st'
    by (rule sound_update_run [OF sound_close [OF assms(1) st1]]) (simp add: sound_run_def)
qed

lemma sound_reopen:
  assumes "sound_store st" and "reopen W M i st = Inr st'"
  shows "sound_store st'"
proof -
  obtain s where s: "run_at st i = Some s" "ss_state s \<noteq> Wrapped"
    using assms(2) by (auto simp: reopen_def ok_then_Inr is_final_def dest: known_runE split: if_split_asm)
  have "sound_store (update_run i (\<lambda>s. s\<lparr>ss_state := Open_Run\<rparr>) st)"
    by (rule sound_update_run [OF assms(1)]) (use s in \<open>auto simp: sound_run_def\<close>)
  then show ?thesis using assms(2) by (auto simp: reopen_def ok_then_Inr Let_def split: if_split_asm)
qed

lemma sound_set_wrap_window:
  assumes "sound_store st" and "set_wrap_window W M i w st = Inr st'"
  shows "sound_store st'"
proof -
  obtain s where s: "run_at st i = Some s" "ss_state s = Wrapped"
    using assms(2) by (auto simp: set_wrap_window_def ok_then_Inr dest: known_runE split: if_split_asm)
  have "sound_store (update_run i (\<lambda>s. s\<lparr>ss_wrap_window := w\<rparr>) st)"
    by (rule sound_update_run [OF assms(1)]) (use s in \<open>auto simp: sound_run_def\<close>)
  then show ?thesis using assms(2) by (auto simp: set_wrap_window_def ok_then_Inr split: if_split_asm)
qed

lemma sound_set_focus:
  assumes "sound_store st" and "set_focus W M ledger i focus st = Inr st'"
  shows "sound_store st'"
proof -
  have "validate_focus focus = Inr ()" using assms(2) by (auto simp: set_focus_def ok_then_Inr)
  then have "sound_store (update_run i (\<lambda>s. s\<lparr>ss_focus := trim focus\<rparr>) st)"
    by (intro sound_update_run [OF assms(1)]) (simp add: sound_run_def)
  then show ?thesis using assms(2) by (auto simp: set_focus_def ok_then_Inr)
qed

lemma sound_charter:
  assumes "sound_store st" and "note_charter_change ledger who c st = Inr st'"
  shows "sound_store st'"
proof (cases "cc_by c \<noteq> who")
  case True
  have "cc_by c' \<noteq> w" if "bt_get (bt_insert who c (st_charters st)) w = Some c'" for w c'
    using that assms(1) True
    by (cases "w = who") (auto simp: sound_store_def charter_change_of_def bt_get_insert_other [OF not_sym])
  then have "\<forall>w c'. bt_get (bt_insert who c (st_charters st)) w = Some c' \<longrightarrow> cc_by c' \<noteq> w" by blast
  moreover have "st' = st\<lparr>st_charters := bt_insert who c (st_charters st)\<rparr>"
    using assms(2) True by (simp add: note_charter_change_def ok_then_Inr)
  ultimately show ?thesis using assms(1) by (simp add: sound_store_def charter_change_of_def)
next
  case False
  then show ?thesis using assms by (auto simp: note_charter_change_def ok_then_Inr)
qed

lemma sound_field:
  assumes "sound_store st" and "\<And>s. sound_run s \<Longrightarrow> sound_run (f s)"
  shows "sound_store (update_run i f st)"
  by (rule sound_update_run [OF assms(1)]) (rule assms(2))

lemma sound_step: "sound_store st \<Longrightarrow> sound_store (after_op W M st op)"
proof (cases op)
  case (NoteMinted r)
  then show "sound_store st \<Longrightarrow> ?thesis"
    by (auto simp: note_minted_def sound_store_def list_ex_iff charter_change_of_def)
next
  case (PruneMinted b)
  then show "sound_store st \<Longrightarrow> ?thesis"
    by (simp add: prune_minted_def Let_def sound_store_def distinct_map_filter charter_change_of_def)
next
  case (SetTimezone i zone)
  then show "sound_store st \<Longrightarrow> ?thesis" by (simp, intro sound_kept)
      (auto simp: set_timezone_def ok_then_Inr Let_def sound_run_def intro!: sound_field)
next
  case (SetStatedDay i day)
  then show "sound_store st \<Longrightarrow> ?thesis" by (simp, intro sound_kept)
      (auto simp: set_stated_day_def ok_then_Inr Let_def sound_run_def intro!: sound_field)
next
  case (AddServed i chars day)
  then show "sound_store st \<Longrightarrow> ?thesis" by (simp, intro sound_kept)
      (auto simp: add_served_def ok_then_Inr Let_def sound_run_def intro!: sound_field)
next
  case (ResetServed ledger i)
  then show "sound_store st \<Longrightarrow> ?thesis" by (simp, intro sound_kept)
      (auto simp: reset_served_def ok_then_Inr Let_def sound_run_def intro!: sound_field)
next
  case (SetKeyHash i hash trail)
  then show "sound_store st \<Longrightarrow> ?thesis" by (simp, intro sound_kept)
      (auto simp: set_key_hash_def ok_then_Inr Let_def sound_run_def intro!: sound_field)
next
  case (SetCharterTold i moment)
  then show "sound_store st \<Longrightarrow> ?thesis" by (simp, intro sound_kept)
      (auto simp: set_charter_told_def ok_then_Inr Let_def sound_run_def intro!: sound_field)
next
  case (Append ledger i e)
  then show "sound_store st \<Longrightarrow> ?thesis" by (simp add: sound_append)
next
  case (BeginRun new)
  then show "sound_store st \<Longrightarrow> ?thesis" by (simp, intro sound_kept_snd) (simp_all add: sound_begin)
next
  case (AmendLast i t)
  then show "sound_store st \<Longrightarrow> ?thesis" by (simp, intro sound_kept_snd) (simp_all add: sound_amend_last)
next
  case (AmendBeat i e t moment)
  then show "sound_store st \<Longrightarrow> ?thesis" by (simp, intro sound_kept_snd) (simp_all add: sound_amend_beat)
next
  case (SetFocus ledger i focus)
  then show "sound_store st \<Longrightarrow> ?thesis" by (simp, intro sound_kept) (simp_all add: sound_set_focus)
next
  case (SetWrapWindow i w)
  then show "sound_store st \<Longrightarrow> ?thesis" by (simp, intro sound_kept) (simp_all add: sound_set_wrap_window)
next
  case (CloseRun i to)
  then show "sound_store st \<Longrightarrow> ?thesis" by (simp, intro sound_kept) (simp_all add: sound_close)
next
  case (CloseDisplaced i who)
  then show "sound_store st \<Longrightarrow> ?thesis" by (simp, intro sound_kept) (simp_all add: sound_close_displaced)
next
  case (NoteCharterChange ledger who c)
  then show "sound_store st \<Longrightarrow> ?thesis" by (simp, intro sound_kept) (simp_all add: sound_charter)
next
  case (Reopen i)
  then show "sound_store st \<Longrightarrow> ?thesis" by (simp, intro sound_kept) (simp_all add: sound_reopen)
qed

text \<open>
  C16: Whatever is done to a store, what it holds is well formed: every run has a focus that passes its own
  check and is trimmed, a readable name, entries trimmed and free of carriage returns before line ends, and a
  wrap window only if it is wrapped; no name is minted twice; no bot is recorded as the last to change its own
  charter.
\<close>

theorem store_stays_well_formed:
  fixes W :: world and M :: moments and ops :: "session_op list"
  shows "sound_store (foldl (after_op W M) new_store ops)"
proof (induction ops rule: rev_induct)
  case Nil
  show ?case by (simp add: sound_store_def new_store_def charter_change_of_def bt_get_def)
qed (simp add: sound_step)

section \<open>A store at work\<close>

definition sample_opening :: new_session where
  "sample_opening =
     \<lparr>ns_bot = ''bot:ada'', ns_sid = ''a1b2'', ns_id = Some ''r1'', ns_key_hash = None, ns_focus = ''plan'',
      ns_started_at = 0, ns_timezone = None, ns_started_on = None\<rparr>"

definition sample_ops :: "session_op list" where
  "sample_ops = [BeginRun sample_opening, AddServed ''r1'' 500 0]"

abbreviation sample_store :: session_store where
  "sample_store \<equiv> foldl (after_op sample_world sample_moments) new_store sample_ops"

lemma sample_store_run: "\<exists>s. run_at sample_store ''r1'' = Some s \<and> ss_served_chars s = 500 \<and> ss_state s = Open_Run"
proof -
  have "map_option (\<lambda>s. (ss_served_chars s, ss_state s)) (run_at sample_store ''r1'') = Some (500, Open_Run)" by code_simp
  then show ?thesis by auto
qed

lemma runs_only_go_forward_witness:
  "\<exists>s s'. run_at sample_store ''r1'' = Some s \<and>
    run_at (after_op sample_world sample_moments sample_store (CloseRun ''r1'' Wrapped)) ''r1'' = Some s' \<and>
    ss_bot s' = ss_bot s \<and> ss_started_at s' = ss_started_at s"
proof -
  obtain s where "run_at sample_store ''r1'' = Some s" using sample_store_run by blast
  then show ?thesis using runs_only_go_forward [of sample_store "''r1''" s sample_world sample_moments] by blast
qed

lemma history_numbers_every_change_witness:
  "length (changes_of sample_store ''r1'') <
     length (changes_of (after_op sample_world sample_moments sample_store (CloseRun ''r1'' Wrapped)) ''r1'')"
proof -
  obtain s where s: "run_at sample_store ''r1'' = Some s" "ss_state s = Open_Run" using sample_store_run by blast
  have "map_option ss_state (run_at (after_op sample_world sample_moments sample_store (CloseRun ''r1'' Wrapped)) ''r1'') = Some Wrapped"
    by code_simp
  then obtain s' where "run_at (after_op sample_world sample_moments sample_store (CloseRun ''r1'' Wrapped)) ''r1'' = Some s'"
    "ss_state s' = Wrapped" by auto
  moreover have "ss_state (uncounted s') \<noteq> ss_state (uncounted s)" using calculation(2) s(2) by (simp add: uncounted_def)
  then have "uncounted s' \<noteq> uncounted s" by auto
  ultimately show ?thesis
    using history_numbers_every_change [of sample_world sample_moments sample_ops "CloseRun ''r1'' Wrapped" "''r1''"] s(1)
    by (simp only: Let_def option.map option.inject simp_thms)
qed

lemma reset_keeps_the_lifetime_witness:
  "\<exists>st' s s'. reset_served sample_world sample_moments None ''r1'' sample_store = Inr st' \<and>
    run_at sample_store ''r1'' = Some s \<and> run_at st' ''r1'' = Some s' \<and> ss_served_chars s = 500 \<and>
    su_served_chars (summary_of sample_world s' (changes_of st' ''r1'')) = 0 \<and>
    served_lifetime (summary_of sample_world s' (changes_of st' ''r1'')) =
      served_lifetime (summary_of sample_world s (changes_of sample_store ''r1''))"
proof -
  obtain s where s: "run_at sample_store ''r1'' = Some s" "ss_served_chars s = 500" using sample_store_run by blast
  have "validate_session_id ''r1'' = Inr ()" by code_simp
  then obtain st' where "reset_served sample_world sample_moments None ''r1'' sample_store = Inr st'"
    using s(1) by (simp add: reset_served_def known_run_def spent_def)
  then show ?thesis using reset_keeps_the_lifetime [OF refl s(1)] s by (fastforce simp: usize_max_def)
qed

end
