(* ===== verification/Spec2Isabelle.thy ===== *)
theory Spec2Isabelle
  imports Order_Keys Floats Vocabulary Query_Filter Expression Claims Document Document_Cuts
    Field_Fold Claim_Edits Licence Chart Rooms Walks Things Numbering Merging Bot_Requests Likeness Write_Guard List_Entries Readiness Must_Rules
    View_Inputs View_Filling Type_Match Recurrence Attention Write_Fit Leases Sessions Session_Store
begin

text \<open>
  Jojobot keeps what a household knows: things (people, places, bots, lists, promises, ...), the
  claims about them, the fields those claims set, the documents they are written in, and the guards
  that decide what a write may do.  The rules live in \<open>src/crates/jojobot-domain\<close> as functions over
  values; adapters store the values in Dolt and a search index, and a server speaks to clients.
  This library models the domain.

  \<^bold>\<open>How the parts meet.\<close>  A write about a thing names it by a handle (\<open>Things\<close>, \<open>Vocabulary\<close>); the
  write guard screens the name against the things that exist and answers with a token that a retry
  may send back (\<open>Write_Guard\<close> over \<open>Likeness\<close>).  The claim it makes has its shape checked (\<open>Claims\<close>),
  or is an edit of a standing claim (\<open>Claim_Edits\<close>).  A key some type guards needs a licence
  (\<open>Licence\<close>), which is read off the chart of managers the server climbs (\<open>Chart\<close>); the fields the
  write leaves must fit the thing's kind (\<open>Write_Fit\<close> over \<open>Type_Match\<close>, \<open>Attention\<close> and \<open>View_Inputs\<close>) and meet the
  rules its type states (\<open>Must_Rules\<close>); a numbered member keeps its number
  (\<open>Numbering\<close>); the record must find room (\<open>Rooms\<close>).  The field writes of the claims
  are folded to the fields the thing holds (\<open>Field_Fold\<close>), which queries read (\<open>Expression\<close> reads the
  text, \<open>Query_Filter\<close> answers it, \<open>Stable_Sort\<close> and \<open>Order_Keys\<close> order it), which say whether work is
  ready (\<open>Readiness\<close>) and which entries a list holds (\<open>List_Entries\<close>), and
  when a thing asks for attention (\<open>Attention\<close> over \<open>Recurrence\<close>).  A query may be saved as a view with inputs
  (\<open>View_Inputs\<close>, \<open>View_Filling\<close>).  A bot works in runs that a store keeps with the history of their changes
  (\<open>Session_Store\<close> over \<open>Sessions\<close>), and a run may hold a role on a lease (\<open>Leases\<close>).  Two things that turn out to be
  one are merged (\<open>Merging\<close>) and the old name is followed (\<open>Walks\<close>).  Requests about a bot are
  generations of its spec (\<open>Bot_Requests\<close>).

  \<^bold>\<open>The theories.\<close>  All paths are under \<open>src/crates/jojobot-domain/src/\<close> unless they say otherwise.

  \<^item> \<open>Prelude\<close>: the parts of Rust's standard library the code uses (\<open>trim\<close>, \<open>split\<close>,
    \<open>strip_prefix\<close>, integer parsing, UTF-8), \<open>BTreeMap\<close> as an association list in key order, and
    \<open>first_error\<close>, the chain of checks that \<open>?\<close> makes.  \<open>Floats\<close>: \<open>str::parse::<f64>\<close> as the exact
    rational or an infinity.  \<open>Stable_Sort\<close>: \<open>slice::sort_by\<close>, with the lemmas that it permutes, sorts
    and keeps ties in order.
  \<^item> \<open>Order_Keys\<close> (\<open>memory/order.rs\<close>): a key strictly between two others.
  \<^item> \<open>Vocabulary\<close> (\<open>memory/kinds.rs\<close>, \<open>memory/types.rs\<close>, \<open>memory.rs\<close>): kinds, handles, value types,
    fields, declared types.
  \<^item> \<open>Query_Filter\<close>, \<open>Expression\<close> (\<open>memory/filter.rs\<close>, \<open>memory/filter/expression.rs\<close>): the query tree,
    its evaluation, the index narrowing (a refinement: the routed conjunctions find every thing the query
    holds of, and exactly those when marked exact), and the reader of query texts.
  \<^item> \<open>Claims\<close>, \<open>Claim_Edits\<close> (\<open>memory.rs\<close>, \<open>memory/validation.rs\<close>, \<open>memory/typed_guard.rs\<close>,
    \<open>memory/receipt.rs\<close>, \<open>memory/text_edit.rs\<close>): the claim's record and invariant, and every gate of an edit.
  \<^item> \<open>Document\<close>, \<open>Document_Cuts\<close> (\<open>memory/document.rs\<close>): sections of a markdown text, with split/join and cut/join
    round trips.
  \<^item> \<open>Field_Fold\<close> (\<open>memory.rs\<close>): the fold of field writes, independent of row order.
  \<^item> \<open>Licence\<close>, \<open>Chart\<close> (\<open>memory.rs\<close>, \<open>memory/bot_request.rs\<close>, the server's \<open>memory/capture.rs\<close> and
    \<open>memory/fillers.rs\<close>): guarded keys and who may set them; the chart the licence is read from,
    with the invariant that no accepted write closes a loop while every chain is short enough to be read to its end, and a
    loop that an accepted write closes above that bound.
  \<^item> \<open>Rooms\<close>, \<open>Walks\<close>, \<open>Merging\<close>, \<open>Things\<close>, \<open>Numbering\<close>, \<open>Bot_Requests\<close> (\<open>memory/capacity.rs\<close>,
    \<open>memory/claim_walk.rs\<close>, \<open>memory/merge.rs\<close>, \<open>memory.rs\<close>, \<open>memory/numbered.rs\<close>,
    \<open>memory/bot_request.rs\<close>).
  \<^item> \<open>Likeness\<close>, \<open>Write_Guard\<close> (\<open>memory/guard.rs\<close>, \<open>memory/guard/existence.rs\<close>, \<open>memory/likeness.rs\<close>,
    \<open>memory/words.rs\<close>, \<open>override_token.rs\<close>).
  \<^item> \<open>List_Entries\<close>, \<open>Readiness\<close>, \<open>Must_Rules\<close> (\<open>memory/entries.rs\<close>, \<open>memory/done_gate.rs\<close>,
    \<open>memory/readiness.rs\<close>, \<open>memory/must.rs\<close>).
  \<^item> \<open>View_Inputs\<close>, \<open>View_Filling\<close> (\<open>memory/view_inputs.rs\<close>, \<open>memory/filter/expression.rs\<close>): the inputs a saved
    view declares, binding and filling them; a bound value has its type and cannot change the question.
  \<^item> \<open>Type_Match\<close> (\<open>memory/types.rs\<close>, \<open>memory/types/field_checks.rs\<close>): how a record answers a type, which types a
    store keeps, and the plan that writes a kind's keys.
  \<^item> \<open>Recurrence\<close>, \<open>Attention\<close> (\<open>recurrence.rs\<close>, \<open>attention.rs\<close>, \<open>attention/unread_mapping.rs\<close>): calendar rules,
    schedules, check-ins, snoozes, the carriers of a due day and the day a store keeps.  A check-in's keys are
    shown to read back as the schedule after it (a refinement of \<open>check_in\<close> by \<open>after_outcome\<close>).
  \<^item> \<open>Write_Fit\<close> (\<open>memory.rs\<close>, \<open>memory/done_gate.rs\<close>): the bag each key of a write goes to, the fields after a
    write, and the guard of a kind.  \<open>guarded\<close> is the step relation of accepted writes, and its invariant,
    \<open>fits_its_kind\<close>, is shown by rule induction; both carry what the handles of each write resolved to.
  \<^item> \<open>Leases\<close>, \<open>Sessions\<close> (\<open>session.rs\<close>, \<open>session/role_keys.rs\<close>, \<open>session/history.rs\<close>, \<open>session/run_named.rs\<close>,
    \<open>handle.rs\<close>, the role writes of \<open>memory.rs\<close>): who holds a role, and a bot's runs: names, states, windows,
    the board, tallies and the history of changes.
  \<^item> \<open>Session_Store\<close> (\<open>session/testing.rs\<close>): the store in memory that states the contract of the sessions port,
    with every operation on runs (the counts of calls apart).  \<open>after_op\<close> is the step over an operation; \<open>forward\<close> is what a step does to one
    run, \<open>traced\<close> is what it leaves in the histories, \<open>numbered\<close> and \<open>sound_store\<close> are invariants of all that can be reached
    from the empty store.
  \<^bold>\<open>Conventions.\<close>  A Rust \<open>str\<close> is the list of its UTF-8 bytes; a \<open>Result\<close> is a sum, \<open>Inl\<close> the error;
  the \<open>Option\<close> of a refusal is an option; the words of a refusal are not modelled, its constructor and
  the data it carries are.  A \<open>usize\<close> count of list elements is a \<open>nat\<close>, with \<open>usize_max\<close> ($2^{64}-1$)
  where the code saturates or parses; a generation and a count of characters served are \<open>u64\<close>s that wrap modulo \<open>2 ^ 64\<close>, as
  in a release build.

  \<^bold>\<open>Bounds and fuel.\<close>  The walk through merge events takes at most the code's own \<open>MAX_CHAIN\<close> steps
  and the climb of the chart the code's own bound; the reader of expressions recurses at most its
  own \<open>MOST_DEPTH\<close>; both are the source's, not the model's, and the theorems on them say what happens
  at the bound.  Loops over lists recurse structurally or on the length of what is left; no model runs
  out of a fuel the code does not have.

  \<^bold>\<open>Parameters.\<close>  What is not under \<open>src/\<close> is an argument: the calendar and clock (\<open>jiff\<close>, with its first
  and last day), the engine of calendar rules (\<open>rrule\<close>: whether a rule parses and the first day it occurs on), the Unicode tables
  of \<open>char::to_lowercase\<close> and \<open>is_alphanumeric\<close>, the hash behind an override token, the hash of a key, the reading and
  printing of moments with the last of them, what the request ledger answers a write, and the store port's reads.  The table of short forms of names is a text file of the repository, passed as a
  list.  Hypotheses about a parameter state its documented behaviour (an order that is total, a hash
  that tells two collisions apart) and each has a witness.

  \<^bold>\<open>Not modelled.\<close>  The wording of refusals; the async reads and failures of the store port; the SQL
  and the search engine of \<open>jojobot-adapters\<close>; the request handlers and renderings of \<open>jojobot-mcp\<close>
  other than the ones around guarded writes; process wiring, user interface and the test harness crates.
  The manifest's component list gives each part left out and why.
\<close>

end
